(* ===== verification/Prelude.thy ===== *)
theory Prelude
  imports Complex_Main "HOL-Library.Word" "HOL-Library.Monad_Syntax"
begin

text \<open>
  Shared vocabulary of the development.

  A C function that may run into undefined behaviour (a NULL dereference, a write past an
  array, a read past a string without terminator, a use of freed memory) is a HOL function
  into \<open>option\<close>: \<open>None\<close> is undefined behaviour, \<open>Some (r, s)\<close> is a normal return with
  result \<open>r\<close> in state \<open>s\<close>. The \<open>do\<close> notation of \<open>Monad_Syntax\<close> sequences such calls.
  \<open>wp m P\<close> says that \<open>m\<close> returns normally and its result satisfies \<open>P\<close> (total
  correctness); \<open>wlp m P\<close> says the same of every normal return.
\<close>

unbundle bit_operations_syntax

type_synonym u8 = "8 word"
type_synonym u16 = "16 word"
type_synonym u32 = "32 word"

named_theorems wp_rules \<open>evaluation of \<open>wp\<close> and \<open>wlp\<close> on the monad's combinators\<close>
named_theorems cstr_simps \<open>facts on C string operations\<close>
named_theorems topic_simps \<open>facts on the MQTT topics of the firmware\<close>

definition wp :: "'a option \<Rightarrow> ('a \<Rightarrow> bool) \<Rightarrow> bool" where
  "wp m P = (case m of None \<Rightarrow> False | Some x \<Rightarrow> P x)"

definition wlp :: "'a option \<Rightarrow> ('a \<Rightarrow> bool) \<Rightarrow> bool" where
  "wlp m P = (case m of None \<Rightarrow> True | Some x \<Rightarrow> P x)"

lemma wp_simps [simp, wp_rules]:
  "wp None P = False"
  "wp (Some x) P = P x"
  "wp (Option.bind m f) P = wp m (\<lambda>x. wp (f x) P)"
  by (auto simp: wp_def split: option.splits Option.bind_splits)

lemma wlp_simps [simp, wp_rules]:
  "wlp None P = True"
  "wlp (Some x) P = P x"
  "wlp (Option.bind m f) P = wlp m (\<lambda>x. wlp (f x) P)"
  by (auto simp: wlp_def split: option.splits Option.bind_splits)

lemma wp_if [wp_rules]: "wp (if b then m else n) P = (if b then wp m P else wp n P)"
  by simp

lemma wlp_if [wp_rules]: "wlp (if b then m else n) P = (if b then wlp m P else wlp n P)"
  by simp

lemma wp_mono: "wp m P \<Longrightarrow> (\<And>x. P x \<Longrightarrow> Q x) \<Longrightarrow> wp m Q"
  by (auto simp: wp_def split: option.splits)

lemma wlp_mono: "wlp m P \<Longrightarrow> (\<And>x. P x \<Longrightarrow> Q x) \<Longrightarrow> wlp m Q"
  by (auto simp: wlp_def split: option.splits)

lemma wp_conj: "wp m P \<Longrightarrow> wp m Q \<Longrightarrow> wp m (\<lambda>x. P x \<and> Q x)"
  by (auto simp: wp_def split: option.splits)

lemma wp_conj_iff: "wp m (\<lambda>x. P x \<and> Q x) \<longleftrightarrow> wp m P \<and> wp m Q"
  by (auto simp: wp_def split: option.splits)

lemma wlp_conj_iff: "wlp m (\<lambda>x. P x \<and> Q x) \<longleftrightarrow> wlp m P \<and> wlp m Q"
  by (auto simp: wlp_def split: option.splits)

lemma wp_Some_iff: "wp m P \<longleftrightarrow> (\<exists>x. m = Some x \<and> P x)"
  by (auto simp: wp_def split: option.splits)

lemma wlp_iff: "wlp m P \<longleftrightarrow> (\<forall>x. m = Some x \<longrightarrow> P x)"
  by (auto simp: wlp_def split: option.splits)

lemma wpI: "m = Some x \<Longrightarrow> P x \<Longrightarrow> wp m P"
  by simp

lemma wp_imp_wlp: "wp m P \<Longrightarrow> wlp m P"
  by (auto simp: wp_def wlp_def split: option.splits)

lemma wlp_SomeD: "wlp m P \<Longrightarrow> m = Some x \<Longrightarrow> P x"
  by (simp add: wlp_iff)

lemma bind_Some_conv: "Option.bind m f = Some y \<longleftrightarrow> (\<exists>x. m = Some x \<and> f x = Some y)"
  by (cases m) auto

subsection \<open>Loops over an index range\<close>

text \<open>
  A C loop \<open>for (i = lo; i < hi; i++) body\<close> whose body may be undefined: the body is
  run at each index of a list, in order, threading the state.
\<close>

fun for_each :: "'i list \<Rightarrow> ('i \<Rightarrow> 's \<Rightarrow> 's option) \<Rightarrow> 's \<Rightarrow> 's option" where
  "for_each [] body s = Some s"
| "for_each (i # is) body s = do { s \<leftarrow> body i s; for_each is body s }"

lemma for_each_append:
  "for_each (is @ js) body s = do { s \<leftarrow> for_each is body s; for_each js body s }"
  by (induction "is" arbitrary: s) (auto split: Option.bind_splits)

lemma for_each_inv:
  assumes "\<And>i s. i \<in> set is \<Longrightarrow> I s \<Longrightarrow> wp (body i s) I" and "I s"
  shows "wp (for_each is body s) I"
  using assms
proof (induction "is" arbitrary: s)
  case Nil
  then show ?case by simp
next
  case (Cons i "is")
  have "wp (body i s) I" using Cons.prems by simp
  then have "wp (body i s) (\<lambda>s. wp (for_each is body s) I)"
    by (rule wp_mono) (rule Cons.IH, auto intro: Cons.prems)
  then show ?case by simp
qed

lemma for_each_wlp_inv:
  assumes "\<And>i s. i \<in> set is \<Longrightarrow> I s \<Longrightarrow> wlp (body i s) I" and "I s"
  shows "wlp (for_each is body s) I"
  using assms
proof (induction "is" arbitrary: s)
  case Nil
  then show ?case by simp
next
  case (Cons i "is")
  have "wlp (body i s) I" using Cons.prems by simp
  then have "wlp (body i s) (\<lambda>s. wlp (for_each is body s) I)"
    by (rule wlp_mono) (rule Cons.IH, auto intro: Cons.prems)
  then show ?case by simp
qed

text \<open>Progress of a loop: an invariant indexed by the iterations done.\<close>

lemma for_each_prefix_inv:
  assumes step: "\<And>pre i suf s. is = pre @ i # suf \<Longrightarrow> I pre s \<Longrightarrow> wp (body i s) (I (pre @ [i]))"
    and init: "I [] s"
  shows "wp (for_each is body s) (I is)"
proof -
  have "is = pre @ suf \<Longrightarrow> I pre s \<Longrightarrow> wp (for_each suf body s) (I is)" for pre suf s
  proof (induction suf arbitrary: pre s)
    case Nil
    then show ?case by simp
  next
    case (Cons i suf)
    have "wp (body i s) (I (pre @ [i]))" using Cons.prems by (rule step)
    then have "wp (body i s) (\<lambda>s. wp (for_each suf body s) (I is))"
      by (rule wp_mono) (rule Cons.IH, use Cons.prems in auto)
    then show ?case by simp
  qed
  from this[of "[]" "is"] init show ?thesis by simp
qed

subsection \<open>Refinement by simulation\<close>

text \<open>
  The code's step on an event, a promised step on an abstract state, and a relation the code
  keeps as long as each event may happen when it does (\<open>can\<close>: what the hardware guarantees).
\<close>

fun sched ::
  "('e \<Rightarrow> 's \<Rightarrow> 's option) \<Rightarrow> ('e \<Rightarrow> 'a \<Rightarrow> 'a) \<Rightarrow> ('e \<Rightarrow> 'a \<Rightarrow> 's \<Rightarrow> bool) \<Rightarrow> 'e list \<Rightarrow> 'a \<Rightarrow> 's \<Rightarrow> bool"
where
  "sched step astep can [] a s = True"
| "sched step astep can (e # es) a s =
     (can e a s \<and>
      (case step e s of None \<Rightarrow> True | Some t \<Rightarrow> sched step astep can es (astep e a) t))"

locale simulation =
  fixes step :: "'e \<Rightarrow> 's \<Rightarrow> 's option"
    and astep :: "'e \<Rightarrow> 'a \<Rightarrow> 'a"
    and rel :: "'a \<Rightarrow> 's \<Rightarrow> bool"
    and can :: "'e \<Rightarrow> 'a \<Rightarrow> 's \<Rightarrow> bool"
  assumes sim: "rel a s \<Longrightarrow> can e a s \<Longrightarrow> wp (step e s) (rel (astep e a))"
begin

lemma run:
  "rel a s \<Longrightarrow> sched step astep can es a s \<Longrightarrow> wp (for_each es step s) (rel (fold astep es a))"
proof (induction es arbitrary: a s)
  case Nil
  then show ?case by simp
next
  case (Cons e es)
  then have "wp (step e s) (rel (astep e a))" by (intro sim) simp_all
  with Cons show ?case by (auto simp: wp_Some_iff)
qed

end

subsection \<open>Words\<close>

lemma unat_u32_less [simp]: "unat (w :: u32) < 4294967296"
  using unsigned_less [of w, where ?'a = nat] by simp

lemma unat_u16_less [simp]: "unat (w :: u16) < 65536"
  using unsigned_less [of w, where ?'a = nat] by simp

lemma unat_u8_less [simp]: "unat (w :: u8) < 256"
  using unsigned_less [of w, where ?'a = nat] by simp

lemma unat_sub_wrap:
  "unat (a - b :: 'a::len word) =
     (if unat b \<le> unat a then unat a - unat b else 2 ^ LENGTH('a) + unat a - unat b)"
  using unat_sub_if' [of a b] by (auto simp: add.commute)

end
