(* ===== verification/CStrings.thy ===== *)
theory CStrings
  imports Prelude
begin

text \<open>
  The C string functions the firmware uses, on byte buffers. A \<open>char\<close> array or the memory
  a \<open>char *\<close> points into is a \<open>char list\<close> (a \<open>char\<close> is a byte; the ARM \<open>char\<close> is
  unsigned). The list ends where the object ends, so a function that would read or write past
  it returns \<open>None\<close>. A string argument of which only the value matters is a \<open>string\<close>
  without NUL.
\<close>

type_synonym cbuf = "char list"

abbreviation NUL :: char where "NUL \<equiv> CHR 0x00"

abbreviation nul_free :: "string \<Rightarrow> bool" where "nul_free s \<equiv> NUL \<notin> set s"

text \<open>The bytes before the terminator; \<open>None\<close> when there is no terminator.\<close>

fun cstr :: "cbuf \<Rightarrow> string option" where
  "cstr [] = None"
| "cstr (c # cs) = (if c = NUL then Some [] else map_option (Cons c) (cstr cs))"

definition strlen :: "cbuf \<Rightarrow> nat option" where
  "strlen b = map_option length (cstr b)"

text \<open>\<open>strcpy(dst, s)\<close>: all bytes of \<open>s\<close> and a terminator go to \<open>dst\<close>, which must be
  large enough; what lies behind them stays.\<close>

definition strcpy :: "cbuf \<Rightarrow> string \<Rightarrow> cbuf option" where
  "strcpy dst s =
     (if length s < length dst then Some (s @ NUL # drop (Suc (length s)) dst) else None)"

text \<open>The at most \<open>n\<close> bytes \<open>strncpy\<close> and \<open>strncmp\<close> read: up to a terminator.\<close>

fun ctake :: "nat \<Rightarrow> cbuf \<Rightarrow> string option" where
  "ctake 0 b = Some []"
| "ctake (Suc n) [] = None"
| "ctake (Suc n) (c # cs) = (if c = NUL then Some [] else map_option (Cons c) (ctake n cs))"

text \<open>\<open>strncpy(dst, src, n)\<close> writes exactly \<open>n\<close> bytes: those of \<open>src\<close>, then NULs.
  No terminator is written when \<open>src\<close> has \<open>n\<close> bytes or more.\<close>

definition strncpy :: "cbuf \<Rightarrow> cbuf \<Rightarrow> nat \<Rightarrow> cbuf option" where
  "strncpy dst src n =
     (case ctake n src of
        None \<Rightarrow> None
      | Some bs \<Rightarrow>
          if n \<le> length dst then Some (bs @ replicate (n - length bs) NUL @ drop n dst)
          else None)"

text \<open>\<open>strchr(b, c)\<close>: outer \<open>None\<close> is an over-read, \<open>Some None\<close> the NULL result.\<close>

fun strchr :: "cbuf \<Rightarrow> char \<Rightarrow> cbuf option option" where
  "strchr [] c = None"
| "strchr (x # xs) c =
     (if x = c then Some (Some (x # xs)) else if x = NUL then Some None else strchr xs c)"

text \<open>\<open>strcmp(b, s) == 0\<close> against a constant.\<close>

fun streq :: "cbuf \<Rightarrow> string \<Rightarrow> bool option" where
  "streq [] s = None"
| "streq (x # xs) [] = Some (x = NUL)"
| "streq (x # xs) (c # cs) = (if x \<noteq> c then Some False else streq xs cs)"

subsection \<open>Numbers in decimal\<close>

definition digit_char :: "nat \<Rightarrow> char" where
  "digit_char n = char_of (48 + n)"

definition is_digit :: "char \<Rightarrow> bool" where
  "is_digit c = (48 \<le> (of_char c :: nat) \<and> (of_char c :: nat) \<le> 57)"

definition digit_val :: "char \<Rightarrow> nat" where
  "digit_val c = of_char c - 48"

text \<open>\<open>%u\<close>, \<open>%lu\<close> and, for non-negative arguments, \<open>%d\<close>.\<close>

fun dec :: "nat \<Rightarrow> string" where
  "dec n = (if n < 10 then [digit_char n] else dec (n div 10) @ [digit_char (n mod 10)])"

declare dec.simps [simp del]

text \<open>\<open>%d\<close>.\<close>

definition dec_int :: "int \<Rightarrow> string" where
  "dec_int i = (if i < 0 then CHR ''-'' # dec (nat (- i)) else dec (nat i))"

text \<open>
  \<open>atoi\<close>: white space, a sign, digits; the first other byte ends the number. Reading off
  the end of the object is \<open>None\<close>, and so is a value outside \<open>int\<close> (undefined in C).
\<close>

definition is_space :: "char \<Rightarrow> bool" where
  "is_space c = (c = CHR '' '' \<or> (9 \<le> (of_char c :: nat) \<and> (of_char c :: nat) \<le> 13))"

fun atoi_digits :: "nat \<Rightarrow> cbuf \<Rightarrow> nat option" where
  "atoi_digits acc [] = None"
| "atoi_digits acc (c # cs) =
     (if is_digit c then atoi_digits (10 * acc + digit_val c) cs else Some acc)"

fun atoi_raw :: "cbuf \<Rightarrow> int option" where
  "atoi_raw [] = None"
| "atoi_raw (c # cs) =
     (if is_space c then atoi_raw cs
      else if c = CHR ''-'' then map_option (\<lambda>n. - int n) (atoi_digits 0 cs)
      else if c = CHR ''+'' then map_option int (atoi_digits 0 cs)
      else map_option int (atoi_digits 0 (c # cs)))"

definition atoi :: "cbuf \<Rightarrow> int option" where
  "atoi b = (case atoi_raw b of
      None \<Rightarrow> None
    | Some i \<Rightarrow> if - 2147483648 \<le> i \<and> i \<le> 2147483647 then Some i else None)"

subsection \<open>Facts\<close>

lemma cstr_append_NUL [cstr_simps]: "nul_free s \<Longrightarrow> cstr (s @ NUL # r) = Some s"
  by (induction s) auto

lemma cstr_SomeD: "cstr b = Some s \<Longrightarrow> nul_free s \<and> length s < length b"
  by (induction b arbitrary: s) (auto split: if_splits)

lemma cstr_Some_iff: "cstr b = Some s \<longleftrightarrow> nul_free s \<and> (\<exists>r. b = s @ NUL # r)"
proof
  show "cstr b = Some s \<Longrightarrow> nul_free s \<and> (\<exists>r. b = s @ NUL # r)"
    by (induction b arbitrary: s) (auto split: if_splits)
qed (auto simp: cstr_append_NUL)

lemma cstr_None_iff: "cstr b = None \<longleftrightarrow> nul_free b"
  by (induction b) auto

lemma strcpy_Some_iff: "(\<exists>b. strcpy dst s = Some b) \<longleftrightarrow> length s < length dst"
  by (auto simp: strcpy_def)

lemma strcpy_None_iff: "strcpy dst s = None \<longleftrightarrow> length dst \<le> length s"
  by (auto simp: strcpy_def)

lemma strcpy_length [cstr_simps]: "strcpy dst s = Some b \<Longrightarrow> length b = length dst"
  by (auto simp: strcpy_def split: if_splits)

lemma strcpy_cstr [cstr_simps]: "strcpy dst s = Some b \<Longrightarrow> nul_free s \<Longrightarrow> cstr b = Some s"
  by (auto simp: strcpy_def cstr_append_NUL split: if_splits)

lemma ctake_SomeD: "ctake n b = Some s \<Longrightarrow> length s \<le> n \<and> nul_free s"
  by (induction n b arbitrary: s rule: ctake.induct) (auto split: if_splits)

lemma ctake_all: "nul_free s \<Longrightarrow> n \<le> length s \<Longrightarrow> ctake n (s @ r) = Some (take n s)"
proof (induction s arbitrary: n)
  case Nil
  then show ?case by simp
next
  case (Cons a s)
  then show ?case by (cases n) auto
qed

lemma ctake_cstr: "nul_free s \<Longrightarrow> length s < n \<Longrightarrow> ctake n (s @ NUL # r) = Some s"
proof (induction s arbitrary: n)
  case Nil
  then show ?case by (cases n) auto
next
  case (Cons a s)
  then show ?case by (cases n) auto
qed

lemma strncpy_length [cstr_simps]: "strncpy dst src n = Some b \<Longrightarrow> length b = length dst"
  by (auto simp: strncpy_def dest: ctake_SomeD split: option.splits if_splits)

lemma strchr_found [cstr_simps]:
  "c \<notin> set s \<Longrightarrow> nul_free s \<Longrightarrow> strchr (s @ c # r) c = Some (Some (c # r))"
  by (induction s) auto

lemma digit_char_val: "n < 10 \<Longrightarrow> is_digit (digit_char n) \<and> digit_val (digit_char n) = n"
  by (simp add: is_digit_def digit_char_def digit_val_def of_char_of)

lemma dec_digits: "\<forall>c \<in> set (dec n). is_digit c"
proof (induction n rule: dec.induct)
  case (1 n)
  show ?case
  proof (cases "n < 10")
    case True
    then show ?thesis by (subst dec.simps) (simp add: digit_char_val)
  next
    case False
    with 1 have "\<forall>c \<in> set (dec (n div 10)). is_digit c" by simp
    with False show ?thesis
      by (subst dec.simps) (auto simp: digit_char_val)
  qed
qed

lemma dec_nonempty [simp]: "dec n \<noteq> []"
  by (subst dec.simps) simp

lemma is_digit_not_special:
  "is_digit c \<Longrightarrow> c \<noteq> NUL \<and> c \<noteq> CHR ''/'' \<and> c \<noteq> CHR ''-'' \<and> c \<noteq> CHR ''+'' \<and> \<not> is_space c"
  by (auto simp: is_digit_def is_space_def)

lemma dec_nul_free [cstr_simps, simp]: "nul_free (dec n)" "CHR ''/'' \<notin> set (dec n)"
  using dec_digits [of n] is_digit_not_special by blast+

lemma atoi_digits_append:
  "(\<forall>c \<in> set s. is_digit c) \<Longrightarrow>
     atoi_digits acc (s @ r) = atoi_digits (foldl (\<lambda>a c. 10 * a + digit_val c) acc s) r"
  by (induction s arbitrary: acc) auto

lemma foldl_dec:
  "foldl (\<lambda>a c. 10 * a + digit_val c) 0 (dec n) = n"
proof (induction n rule: dec.induct)
  case (1 n)
  show ?case
  proof (cases "n < 10")
    case True
    then show ?thesis by (subst dec.simps) (simp add: digit_char_val)
  next
    case False
    with 1 have "foldl (\<lambda>a c. 10 * a + digit_val c) 0 (dec (n div 10)) = n div 10" by simp
    with False show ?thesis
      by (subst dec.simps) (simp add: digit_char_val)
  qed
qed

lemma atoi_raw_dec:
  assumes "\<not> is_digit c"
  shows "atoi_raw (dec n @ c # r) = Some (int n)"
proof -
  obtain d ds where d: "dec n = d # ds" by (cases "dec n") auto
  then have dd: "is_digit d" using dec_digits [of n] by auto
  have "atoi_digits 0 (dec n @ c # r) = Some n"
    using assms by (simp add: atoi_digits_append dec_digits foldl_dec)
  with d dd show ?thesis using is_digit_not_special [OF dd] by simp
qed

text \<open>Printing a number and reading it back: whatever non-digit follows it.\<close>

lemma atoi_dec [cstr_simps]:
  "\<not> is_digit c \<Longrightarrow> n \<le> 2147483647 \<Longrightarrow> atoi (dec n @ c # r) = Some (int n)"
  by (simp add: atoi_def atoi_raw_dec)

lemma length_dec_small: "n < 10 \<Longrightarrow> length (dec n) = 1"
  by (subst dec.simps) simp

lemma length_dec_le:
  assumes "n < 10 ^ k" "0 < k"
  shows "length (dec n) \<le> k"
  using assms
proof (induction k arbitrary: n)
  case 0
  then show ?case by simp
next
  case (Suc k)
  show ?case
  proof (cases "n < 10")
    case True
    then show ?thesis by (simp add: length_dec_small)
  next
    case False
    have k: "0 < k"
    proof (rule ccontr)
      assume "\<not> 0 < k"
      with Suc.prems False show False by simp
    qed
    have "n div 10 < 10 ^ k" using Suc.prems(1) by (simp add: less_mult_imp_div_less mult.commute)
    then have "length (dec (n div 10)) \<le> k" using k by (rule Suc.IH)
    with False show ?thesis by (subst dec.simps) simp
  qed
qed

end
