(* ===== verification/Machine.thy ===== *)
theory Machine
  imports CStrings
begin

text \<open>
  The machine the firmware runs on: the C types of \<open>src/components\<close>, the calls into the
  HF-LPT230 SDK and the MQTT client library, the heap, and the state record.

  The SDK and the libraries are not part of the model. Each call into them is a value of
  \<open>call\<close>; its result is a parameter, \<open>sys\<close>, a function of all the calls made before and
  of the call itself, so that any deterministic or recorded behaviour of the hardware and the
  network is an instance. The calls made so far, newest first, are kept in \<open>calls\<close>: what the
  firmware does to its environment is this log.
\<close>

subsection \<open>Enumerations\<close>

text \<open>
  The enumerations the code computes with (\<open>0x01 & status\<close>, \<open>!level\<close>, \<open>mode >= ...\<close>) are
  bytes, as the ARM EABI makes them; the others are datatypes.
\<close>

datatype gpio_number_e =
  GPIO25 | GPIO5 | GPIO22 | GPIO24 | GPIO8 | GPIO23 | GPADC0 | GPIO3 | GPIO7 | GPIO12 | GPIO4

text \<open>\<open>HFGPIO_F_USER_DEFINE\<close> is 29 in the SDK's \<open>hfgpio.h\<close>, and \<open>GPIO25\<close> starts there.\<close>

abbreviation (input) HFGPIO_F_USER_DEFINE :: nat where "HFGPIO_F_USER_DEFINE \<equiv> 29"

fun fid_of :: "gpio_number_e \<Rightarrow> nat" where
  "fid_of GPIO25 = HFGPIO_F_USER_DEFINE"
| "fid_of GPIO5 = HFGPIO_F_USER_DEFINE + 1"
| "fid_of GPIO22 = HFGPIO_F_USER_DEFINE + 2"
| "fid_of GPIO24 = HFGPIO_F_USER_DEFINE + 3"
| "fid_of GPIO8 = HFGPIO_F_USER_DEFINE + 4"
| "fid_of GPIO23 = HFGPIO_F_USER_DEFINE + 5"
| "fid_of GPADC0 = HFGPIO_F_USER_DEFINE + 6"
| "fid_of GPIO3 = HFGPIO_F_USER_DEFINE + 7"
| "fid_of GPIO7 = HFGPIO_F_USER_DEFINE + 8"
| "fid_of GPIO12 = HFGPIO_F_USER_DEFINE + 9"
| "fid_of GPIO4 = HFGPIO_F_USER_DEFINE + 10"

lemma fid_of_inject [simp]: "fid_of a = fid_of b \<longleftrightarrow> a = b"
  by (cases a; cases b) simp_all

type_synonym gpio_level_e = u8

abbreviation (input) GPIO_LOW :: gpio_level_e where "GPIO_LOW \<equiv> 0"
abbreviation (input) GPIO_HIGH :: gpio_level_e where "GPIO_HIGH \<equiv> 1"

type_synonym led_status_e = u8

abbreviation (input) LED_STATUS_OFF :: led_status_e where "LED_STATUS_OFF \<equiv> 0"
abbreviation (input) LED_STATUS_ON :: led_status_e where "LED_STATUS_ON \<equiv> 1"

type_synonym relay_status_e = u8

abbreviation (input) RELAY_STATUS_CLOSE :: relay_status_e where "RELAY_STATUS_CLOSE \<equiv> 0"
abbreviation (input) RELAY_STATUS_OPEN :: relay_status_e where "RELAY_STATUS_OPEN \<equiv> 1"

type_synonym pm_run_mode_e = u8

abbreviation (input) PM_RUN_MODE_1 :: pm_run_mode_e where "PM_RUN_MODE_1 \<equiv> 0"
abbreviation (input) PM_RUN_MODE_2 :: pm_run_mode_e where "PM_RUN_MODE_2 \<equiv> 1"
abbreviation (input) PM_RUN_MODE_3 :: pm_run_mode_e where "PM_RUN_MODE_3 \<equiv> 2"

datatype hass_component_type_e = SWITCH | SENSOR

datatype mqtt_cb_type_e =
  MQTT_CONNECT_SUCCESS | MQTT_DISCONNECT | MQTT_WIFI_CONNECT_SUCCESS
| MQTT_CONNECT_NET_SUCCESS | MQTT_EARTBEAT

datatype qos = QOS0 | QOS1 | QOS2

text \<open>Pins are ordered by function id, so that sets and maps of pins are executable.\<close>

instantiation gpio_number_e :: linorder
begin

definition less_eq_gpio_number_e :: "gpio_number_e \<Rightarrow> gpio_number_e \<Rightarrow> bool" where
  "less_eq_gpio_number_e a b = (fid_of a \<le> fid_of b)"

definition less_gpio_number_e :: "gpio_number_e \<Rightarrow> gpio_number_e \<Rightarrow> bool" where
  "less_gpio_number_e a b = (fid_of a < fid_of b)"

instance
  by standard (auto simp: less_eq_gpio_number_e_def less_gpio_number_e_def antisym)

end

subsection \<open>Structures\<close>

text \<open>A pointer is an address; 0 is NULL.\<close>

type_synonym ptr = nat

record led_device_t =
  led_gpio_num :: gpio_number_e
  led_trigger_level :: gpio_level_e
  led_status :: led_status_e

record relay_device_t =
  relay_gpio_num :: gpio_number_e
  relay_trigger_level :: gpio_level_e
  relay_status :: relay_status_e

record hass_component_t =
  hc_id :: u32
  hc_identifiers :: cbuf
  hc_name :: cbuf
  hc_type :: hass_component_type_e
  hc_icon :: cbuf
  hc_unit_of_measurement :: cbuf
  hc_value_template :: cbuf
  hc_device_class :: cbuf
  hc_state_topic :: cbuf
  hc_config_topic :: cbuf

record hass_device_t =
  hd_identifiers :: cbuf
  hd_manufacturer :: cbuf
  hd_name :: cbuf
  hd_model :: cbuf
  hd_version :: cbuf
  hd_ip :: cbuf

record hass_mqtt_discovery_t =
  dis_discovery_prefix :: cbuf
  dis_availability_topic :: cbuf
  dis_command_topic :: cbuf

record mqtt_config_t =
  mc_server_address :: cbuf
  mc_port :: u16
  mc_client_id :: cbuf
  mc_username :: cbuf
  mc_password :: cbuf

text \<open>The functions of the firmware it hands out as pointers.\<close>

datatype code_ptr =
  P_interrupt_handler | P_intr_handler | P_timer_handler | P_mqtt_client_thread
| P_mqtt_connect_status_cb_handler | P_mqtt_cmd_topic_Msg_cb | P_sys_event_callback
| P_uart_recv_callback

text \<open>The \<open>Client\<close> inside \<open>mqtt_device_t\<close> belongs to the MQTT library.\<close>

record mqtt_device_t =
  md_config :: ptr
  md_mqtt_cb_func :: code_ptr
  md_availability_topic :: cbuf
  md_mqtt_thread :: ptr

text \<open>
  \<open>hass_config_t\<close> is written to and read from flash byte by byte, so it is kept as its
  memory image; \<open>UserInit\<close> gives the fields.
\<close>

type_synonym hass_config_t = cbuf

datatype obj =
  LedObj led_device_t
| RelayObj relay_device_t
| ComponentObj hass_component_t
| DeviceObj hass_device_t
| DiscoveryObj hass_mqtt_discovery_t
| MqttObj mqtt_device_t
| MqttConfigObj mqtt_config_t
| HassConfigObj hass_config_t
| BufferObj cbuf

subsection \<open>Calls into the SDK and the MQTT library\<close>

datatype call =
  Malloc string
| Free ptr
| Fpin_is_high nat
| Configure_fpin nat nat
| Configure_fpin_interrupt nat nat code_ptr bool
| Fenable_interrupt nat
| Fmap_check int
| Timer_create nat bool nat code_ptr
| Timer_start int
| Get_time
| Msleep nat
| Smtlk_start
| Smtlk_is_start
| Get_mac_address
| Get_reset_reason
| Register_system_event code_ptr
| Start_uart code_ptr
| Start_assis nat
| Start_httpd
| Start_airlink string string
| Wifi_is_active
| Sta_is_connected
| Uflash_erase_page nat nat
| Uflash_write nat cbuf
| Uflash_read nat nat
| Userbin_write nat cbuf
| Userbin_read nat nat
| Thread_create code_ptr ptr ptr
| Thread_destroy ptr
| MQTT_Subscribe string qos code_ptr
| MQTT_Publish string string qos
| ConnectNetwork string u16
| MQTT_Connect string string string string string nat
| MQTT_Yield nat
| Mqttwrite cbuf nat
| Network_disconnect
| Print_power u32 rat rat
| Print_byte char
| Print_version

text \<open>
  The SDK's pin flags (\<open>hfgpio.h\<close>); \<open>hfgpio_fset_out_high\<close> and \<open>hfgpio_fset_out_low\<close> are
  macros around \<open>hfgpio_configure_fpin\<close>.
\<close>

abbreviation (input) HFPIO_DEFAULT :: nat where "HFPIO_DEFAULT \<equiv> 0"
abbreviation (input) HFPIO_IT_FALL_EDGE :: nat where "HFPIO_IT_FALL_EDGE \<equiv> 64"
abbreviation (input) HFPIO_IT_EDGE :: nat where "HFPIO_IT_EDGE \<equiv> 256"
abbreviation (input) HFM_IO_TYPE_INPUT :: nat where "HFM_IO_TYPE_INPUT \<equiv> 134217728"
abbreviation (input) HFM_IO_OUTPUT_0 :: nat where "HFM_IO_OUTPUT_0 \<equiv> 268435456"
abbreviation (input) HFM_IO_OUTPUT_1 :: nat where "HFM_IO_OUTPUT_1 \<equiv> 536870912"

abbreviation Fset_out_high :: "nat \<Rightarrow> call" where
  "Fset_out_high fid \<equiv> Configure_fpin fid HFM_IO_OUTPUT_1"

abbreviation Fset_out_low :: "nat \<Rightarrow> call" where
  "Fset_out_low fid \<equiv> Configure_fpin fid HFM_IO_OUTPUT_0"

text \<open>The result of a call: its return value and the bytes it stores through a pointer.\<close>

record ret =
  r_int :: int
  r_bytes :: cbuf

abbreviation (input) HF_SUCCESS :: int where "HF_SUCCESS \<equiv> 0"

subsection \<open>The state\<close>

record fw =
  \<comment> \<open>the environment\<close>
  sys :: "call list \<Rightarrow> call \<Rightarrow> ret"
  garbage :: "ptr \<Rightarrow> nat \<Rightarrow> char"
  calls :: "call list"
  heap :: "ptr \<Rightarrow> obj option"
  brk :: ptr
  \<comment> \<open>\<open>user_led.c\<close>\<close>
  g_led :: ptr
  \<comment> \<open>\<open>user_relay.c\<close>\<close>
  g_relays :: "ptr list"
  \<comment> \<open>\<open>user_key.c\<close>\<close>
  g_relay_all_status :: relay_status_e
  g_interrupt_time :: u32
  g_last_interrupt_time :: u32
  g_interrupt_duration :: u32
  \<comment> \<open>\<open>user_mqtt.c\<close>\<close>
  g_mqtt_discovery_handle :: ptr
  g_device_handle :: ptr
  g_component_handle :: "ptr list"
  g_mqtt_clien :: ptr
  g_relay_update_flg :: bool
  g_component_num :: u32
  \<comment> \<open>\<open>user_init.c\<close>\<close>
  g_mac :: cbuf
  g_ip :: cbuf
  g_hass_config :: ptr
  \<comment> \<open>\<open>power_meter.c\<close>\<close>
  g_cf_pin :: u8
  g_cf1_pin :: u8
  g_sel_pin :: u8
  g_power_multiplier :: rat
  g_load_off :: bool
  g_cf_pulse_length :: u32
  g_cf_pulse_last_time :: u32
  g_energy_period_counter :: u32

text \<open>The state at power-on: C's static objects are zero or hold their initialiser.\<close>

definition boot_state :: "(call list \<Rightarrow> call \<Rightarrow> ret) \<Rightarrow> (ptr \<Rightarrow> nat \<Rightarrow> char) \<Rightarrow> fw" where
  "boot_state sy ga =
     \<lparr> sys = sy, garbage = ga, calls = [], heap = (\<lambda>_. None), brk = 1,
       g_led = 0, g_relays = replicate 6 0,
       g_relay_all_status = RELAY_STATUS_CLOSE, g_interrupt_time = 0,
       g_last_interrupt_time = 0, g_interrupt_duration = 0,
       g_mqtt_discovery_handle = 0, g_device_handle = 0,
       g_component_handle = replicate 10 0, g_mqtt_clien = 0,
       g_relay_update_flg = False, g_component_num = 7,
       g_mac = replicate 21 NUL, g_ip = replicate 11 NUL, g_hass_config = 0,
       g_cf_pin = 0, g_cf1_pin = 0, g_sel_pin = 0, g_power_multiplier = 0,
       g_load_off = False, g_cf_pulse_length = 0, g_cf_pulse_last_time = 0,
       g_energy_period_counter = 0 \<rparr>"

subsection \<open>Calling the SDK, allocating, dereferencing\<close>

definition sdk :: "call \<Rightarrow> fw \<Rightarrow> ret \<times> fw" where
  "sdk c s = (sys s (calls s) c, s\<lparr>calls := c # calls s\<rparr>)"

definition sdk_int :: "call \<Rightarrow> fw \<Rightarrow> int \<times> fw" where
  "sdk_int c s = (r_int (sys s (calls s) c), s\<lparr>calls := c # calls s\<rparr>)"

definition hfsys_get_time :: "fw \<Rightarrow> u32 \<times> fw" where
  "hfsys_get_time s = (let (r, s) = sdk_int Get_time s in (word_of_int r, s))"

text \<open>What the next reading of the millisecond clock gives.\<close>

definition now :: "fw \<Rightarrow> u32" where
  "now s = word_of_int (r_int (sys s (calls s) Get_time))"

definition junk :: "fw \<Rightarrow> ptr \<Rightarrow> nat \<Rightarrow> nat \<Rightarrow> cbuf" where
  "junk s p off n = map (\<lambda>i. garbage s p (off + i)) [0..<n]"

text \<open>
  \<open>hfmem_malloc(sizeof(T))\<close>: NULL when the SDK says so, else a fresh block whose bytes are
  whatever the memory holds. The caller says how such bytes read as an object.
\<close>

definition hfmem_malloc :: "string \<Rightarrow> (ptr \<Rightarrow> obj) \<Rightarrow> fw \<Rightarrow> ptr \<times> fw" where
  "hfmem_malloc t fresh s =
     (let (r, s) = sdk_int (Malloc t) s in
      if r = 0 then (0, s)
      else (brk s, s\<lparr>heap := (heap s)(brk s \<mapsto> fresh (brk s)), brk := Suc (brk s)\<rparr>))"

definition hfmem_free :: "ptr \<Rightarrow> fw \<Rightarrow> fw" where
  "hfmem_free p s = (let (r, s) = sdk_int (Free p) s in s\<lparr>heap := (heap s)(p := None)\<rparr>)"

definition store :: "ptr \<Rightarrow> obj \<Rightarrow> fw \<Rightarrow> fw" where
  "store p x s = s\<lparr>heap := (heap s)(p \<mapsto> x)\<rparr>"

definition led_at :: "ptr \<Rightarrow> fw \<Rightarrow> led_device_t option" where
  "led_at p s = (case heap s p of Some (LedObj d) \<Rightarrow> Some d | _ \<Rightarrow> None)"

definition relay_at :: "ptr \<Rightarrow> fw \<Rightarrow> relay_device_t option" where
  "relay_at p s = (case heap s p of Some (RelayObj d) \<Rightarrow> Some d | _ \<Rightarrow> None)"

definition component_at :: "ptr \<Rightarrow> fw \<Rightarrow> hass_component_t option" where
  "component_at p s = (case heap s p of Some (ComponentObj d) \<Rightarrow> Some d | _ \<Rightarrow> None)"

definition device_at :: "ptr \<Rightarrow> fw \<Rightarrow> hass_device_t option" where
  "device_at p s = (case heap s p of Some (DeviceObj d) \<Rightarrow> Some d | _ \<Rightarrow> None)"

definition discovery_at :: "ptr \<Rightarrow> fw \<Rightarrow> hass_mqtt_discovery_t option" where
  "discovery_at p s = (case heap s p of Some (DiscoveryObj d) \<Rightarrow> Some d | _ \<Rightarrow> None)"

definition mqtt_at :: "ptr \<Rightarrow> fw \<Rightarrow> mqtt_device_t option" where
  "mqtt_at p s = (case heap s p of Some (MqttObj d) \<Rightarrow> Some d | _ \<Rightarrow> None)"

definition mqtt_config_at :: "ptr \<Rightarrow> fw \<Rightarrow> mqtt_config_t option" where
  "mqtt_config_at p s = (case heap s p of Some (MqttConfigObj d) \<Rightarrow> Some d | _ \<Rightarrow> None)"

definition hass_config_at :: "ptr \<Rightarrow> fw \<Rightarrow> hass_config_t option" where
  "hass_config_at p s = (case heap s p of Some (HassConfigObj d) \<Rightarrow> Some d | _ \<Rightarrow> None)"

text \<open>A well-formed heap: nothing at NULL, nothing at addresses not yet handed out.\<close>

definition heap_ok :: "fw \<Rightarrow> bool" where
  "heap_ok s \<longleftrightarrow> 0 < brk s \<and> heap s 0 = None \<and> (\<forall>p. brk s \<le> p \<longrightarrow> heap s p = None)"

lemmas at_defs = led_at_def relay_at_def component_at_def device_at_def discovery_at_def
  mqtt_at_def mqtt_config_at_def hass_config_at_def

lemma led_at_iff: "led_at p s = Some d \<longleftrightarrow> heap s p = Some (LedObj d)"
  by (auto simp: led_at_def split: option.splits obj.splits)

lemma relay_at_iff: "relay_at p s = Some d \<longleftrightarrow> heap s p = Some (RelayObj d)"
  by (auto simp: relay_at_def split: option.splits obj.splits)

lemma component_at_iff: "component_at p s = Some d \<longleftrightarrow> heap s p = Some (ComponentObj d)"
  by (auto simp: component_at_def split: option.splits obj.splits)

lemma device_at_iff: "device_at p s = Some d \<longleftrightarrow> heap s p = Some (DeviceObj d)"
  by (auto simp: device_at_def split: option.splits obj.splits)

lemma discovery_at_iff: "discovery_at p s = Some d \<longleftrightarrow> heap s p = Some (DiscoveryObj d)"
  by (auto simp: discovery_at_def split: option.splits obj.splits)

lemma mqtt_at_iff: "mqtt_at p s = Some d \<longleftrightarrow> heap s p = Some (MqttObj d)"
  by (auto simp: mqtt_at_def split: option.splits obj.splits)

lemma mqtt_config_at_iff: "mqtt_config_at p s = Some d \<longleftrightarrow> heap s p = Some (MqttConfigObj d)"
  by (auto simp: mqtt_config_at_def split: option.splits obj.splits)

lemma hass_config_at_iff: "hass_config_at p s = Some d \<longleftrightarrow> heap s p = Some (HassConfigObj d)"
  by (auto simp: hass_config_at_def split: option.splits obj.splits)

lemmas at_iffs = led_at_iff relay_at_iff component_at_iff device_at_iff discovery_at_iff
  mqtt_at_iff mqtt_config_at_iff hass_config_at_iff

text \<open>Dereferences depend on the heap at that address only.\<close>

lemma at_cong:
  assumes "heap s p = heap t p"
  shows "led_at p s = led_at p t" "relay_at p s = relay_at p t"
    "component_at p s = component_at p t" "device_at p s = device_at p t"
    "discovery_at p s = discovery_at p t" "mqtt_at p s = mqtt_at p t"
    "mqtt_config_at p s = mqtt_config_at p t" "hass_config_at p s = hass_config_at p t"
  using assms by (simp_all add: at_defs)

lemma at_NULL [simp]:
  assumes "heap_ok s"
  shows "led_at 0 s = None" "relay_at 0 s = None" "component_at 0 s = None"
    "device_at 0 s = None" "discovery_at 0 s = None" "mqtt_at 0 s = None"
    "mqtt_config_at 0 s = None" "hass_config_at 0 s = None"
  using assms by (simp_all add: at_defs heap_ok_def)

lemma heap_ok_boot [simp]: "heap_ok (boot_state sy ga)"
  by (simp add: heap_ok_def boot_state_def)

lemma heap_ok_calls [simp]: "heap_ok (s\<lparr>calls := c\<rparr>) = heap_ok s"
  by (simp add: heap_ok_def)

lemma heap_ok_store: "heap_ok s \<Longrightarrow> heap s p \<noteq> None \<Longrightarrow> heap_ok (store p x s)"
  by (auto simp: heap_ok_def store_def intro!: gr0I)

lemma heap_ok_Some_less: "heap_ok s \<Longrightarrow> heap s p = Some x \<Longrightarrow> 0 < p \<and> p < brk s"
  unfolding heap_ok_def by (metis not_gr_zero not_le option.distinct(1))

lemma malloc_cases:
  obtains (null) "hfmem_malloc t fresh s = (0, s\<lparr>calls := Malloc t # calls s\<rparr>)"
  | (ok) "hfmem_malloc t fresh s =
      (brk s, s\<lparr>calls := Malloc t # calls s, heap := (heap s)(brk s \<mapsto> fresh (brk s)),
                brk := Suc (brk s)\<rparr>)"
  by (cases "r_int (sys s (calls s) (Malloc t)) = 0") (auto simp: hfmem_malloc_def sdk_int_def)

text \<open>The SDK hands out memory: no allocation fails. Used as a hypothesis, with witnesses.\<close>

definition malloc_ok :: "fw \<Rightarrow> bool" where
  "malloc_ok s \<longleftrightarrow> (\<forall>cs t. r_int (sys s cs (Malloc t)) \<noteq> 0)"

lemma malloc_ok_eq:
  "malloc_ok s \<Longrightarrow> hfmem_malloc t fresh s =
      (brk s, s\<lparr>calls := Malloc t # calls s, heap := (heap s)(brk s \<mapsto> fresh (brk s)),
                brk := Suc (brk s)\<rparr>)"
  by (simp add: hfmem_malloc_def sdk_int_def malloc_ok_def)

lemma hfsys_get_time_eq: "hfsys_get_time s = (now s, s\<lparr>calls := Get_time # calls s\<rparr>)"
  by (simp add: hfsys_get_time_def now_def sdk_int_def)

lemma length_junk [simp]: "length (junk s p off n) = n"
  by (simp add: junk_def)

subsection \<open>A simulated SDK\<close>

text \<open>
  An environment in which every call succeeds, memory never runs out, the clock's successive
  readings are \<open>clk 0, clk 1, \<dots>\<close>, and reads store no bytes. It shows that the hypotheses used
  in the development can hold.
\<close>

fun sim_int :: "(nat \<Rightarrow> nat) \<Rightarrow> call list \<Rightarrow> call \<Rightarrow> int" where
  "sim_int clk cs (Malloc t) = 1"
| "sim_int clk cs Get_time = int (clk (count_list cs Get_time))"
| "sim_int clk cs (Timer_create d r n f) = 1"
| "sim_int clk cs Wifi_is_active = 1"
| "sim_int clk cs Sta_is_connected = 1"
| "sim_int clk cs c = HF_SUCCESS"

definition sim_sdk :: "(nat \<Rightarrow> nat) \<Rightarrow> call list \<Rightarrow> call \<Rightarrow> ret" where
  "sim_sdk clk cs c = \<lparr>r_int = sim_int clk cs c, r_bytes = []\<rparr>"

lemma malloc_ok_sim: "sys s = sim_sdk clk \<Longrightarrow> malloc_ok s"
  by (simp add: malloc_ok_def sim_sdk_def)

end
