(* ===== verification/Gpio.thy ===== *)
theory Gpio
  imports Machine
begin

text \<open>
  \<open>src/components/device/gpio.c\<close>: output and input of a pin through the SDK, and what the
  log of calls says about the level a pin was last driven to.
\<close>

definition gpio_output_high :: "gpio_number_e \<Rightarrow> fw \<Rightarrow> bool \<times> fw" where
  "gpio_output_high n s =
     (let (r, s) = sdk_int (Fset_out_high (fid_of n)) s in
      if r = HF_SUCCESS then (True, s) else (False, s))"

definition gpio_output_low :: "gpio_number_e \<Rightarrow> fw \<Rightarrow> bool \<times> fw" where
  "gpio_output_low n s =
     (let (r, s) = sdk_int (Fset_out_low (fid_of n)) s in
      if r = HF_SUCCESS then (True, s) else (False, s))"

definition gpio_output_set :: "gpio_number_e \<Rightarrow> gpio_level_e \<Rightarrow> fw \<Rightarrow> bool \<times> fw" where
  "gpio_output_set n level s =
     (if level = GPIO_LOW then gpio_output_low n s
      else if level = GPIO_HIGH then gpio_output_high n s
      else (False, s))"

definition gpioInputGet :: "gpio_number_e \<Rightarrow> fw \<Rightarrow> gpio_level_e \<times> fw" where
  "gpioInputGet n s =
     (let (r, s) = sdk_int (Fpin_is_high (fid_of n)) s in
      if r \<ge> 1 then (GPIO_HIGH, s) else (GPIO_LOW, s))"

subsection \<open>The level of a pin\<close>

text \<open>
  The level the SDK accepted last for a function id: the newest successful
  \<open>hfgpio_configure_fpin\<close> that makes the pin an output. \<open>None\<close>: not driven yet.
\<close>

fun pin_level :: "(call list \<Rightarrow> call \<Rightarrow> ret) \<Rightarrow> call list \<Rightarrow> nat \<Rightarrow> gpio_level_e option" where
  "pin_level sy [] f = None"
| "pin_level sy (c # cs) f =
     (if c = Configure_fpin f HFM_IO_OUTPUT_1 \<and> r_int (sy cs c) = HF_SUCCESS then Some GPIO_HIGH
      else if c = Configure_fpin f HFM_IO_OUTPUT_0 \<and> r_int (sy cs c) = HF_SUCCESS
      then Some GPIO_LOW
      else pin_level sy cs f)"

abbreviation level_of :: "gpio_number_e \<Rightarrow> fw \<Rightarrow> gpio_level_e option" where
  "level_of n s \<equiv> pin_level (sys s) (calls s) (fid_of n)"

text \<open>A call that is no output of pin \<open>f\<close> leaves its level.\<close>

lemma pin_level_other:
  "c \<noteq> Configure_fpin f HFM_IO_OUTPUT_1 \<Longrightarrow> c \<noteq> Configure_fpin f HFM_IO_OUTPUT_0 \<Longrightarrow>
     pin_level sy (c # cs) f = pin_level sy cs f"
  by simp

text \<open>What \<open>gpio_output_set\<close> does, on every branch, for a legal level.\<close>

lemma gpio_output_set_cases:
  assumes "level = GPIO_LOW \<or> level = GPIO_HIGH"
  obtains r cs where "gpio_output_set n level s = (r, s\<lparr>calls := cs\<rparr>)"
    and "pin_level (sys s) cs (fid_of n) = (if r then Some level else level_of n s)"
    and "\<And>m. m \<noteq> n \<Longrightarrow> pin_level (sys s) cs (fid_of m) = level_of m s"
proof -
  let ?c = "Configure_fpin (fid_of n) (if level = GPIO_LOW then HFM_IO_OUTPUT_0 else HFM_IO_OUTPUT_1)"
  let ?r = "r_int (sys s (calls s) ?c) = HF_SUCCESS"
  have "gpio_output_set n level s = (?r, s\<lparr>calls := ?c # calls s\<rparr>)"
    using assms
    by (auto simp: gpio_output_set_def gpio_output_low_def gpio_output_high_def sdk_int_def)
  moreover have "pin_level (sys s) (?c # calls s) (fid_of n) = (if ?r then Some level else level_of n s)"
    using assms by auto
  moreover have "\<And>m. m \<noteq> n \<Longrightarrow> pin_level (sys s) (?c # calls s) (fid_of m) = level_of m s"
    by simp
  ultimately show thesis by (rule that)
qed

lemma gpio_output_set_illegal:
  "level \<noteq> GPIO_LOW \<Longrightarrow> level \<noteq> GPIO_HIGH \<Longrightarrow> gpio_output_set n level s = (False, s)"
  by (simp add: gpio_output_set_def)

lemma gpio_output_set_frame:
  "\<exists>r cs. gpio_output_set n level s = (r, s\<lparr>calls := cs\<rparr>)"
proof (cases "level = GPIO_LOW \<or> level = GPIO_HIGH")
  case True
  then show ?thesis by (rule gpio_output_set_cases) blast
next
  case False
  then show ?thesis by (intro exI [of _ False] exI [of _ "calls s"]) (simp add: gpio_output_set_illegal)
qed

text \<open>
  \<open>(0x01 & status) ^ (!trigger_level)\<close>: the level that puts a device into \<open>status\<close> when
  \<open>trigger\<close> is the level that switches it on.
\<close>

definition drive_level :: "u8 \<Rightarrow> gpio_level_e \<Rightarrow> gpio_level_e" where
  "drive_level status trigger = (1 AND status) XOR (if trigger = 0 then 1 else 0)"

lemma drive_level_legal: "drive_level status trigger = GPIO_LOW \<or> drive_level status trigger = GPIO_HIGH"
proof -
  have "1 AND status = (if bit status 0 then 1 else (0 :: u8))"
    by (auto intro!: bit_eqI simp: bit_simps)
  then show ?thesis by (simp add: drive_level_def)
qed

lemma drive_level_simps [simp]:
  "drive_level 1 1 = 1" "drive_level 0 1 = 0" "drive_level 1 0 = 0" "drive_level 0 0 = 1"
  by (simp_all add: drive_level_def)

end
