(* ===== verification/Floats.thy ===== *)
theory Floats
  imports Prelude
begin

text \<open>
  The C types \<open>float\<close> and \<open>double\<close> are IEEE binary32 and binary64: a finite value is a
  rational, and each operation rounds its exact result to 24 or 53 significant bits, ties to
  even. Overflow to infinity is for the caller to treat.
\<close>

definition round_even :: "rat \<Rightarrow> int" where
  "round_even x =
     (let f = \<lfloor>x\<rfloor>; d = x - of_int f in
      if d < 1 / 2 then f else if d > 1 / 2 then f + 1 else if even f then f else f + 1)"

fun bitlen :: "nat \<Rightarrow> nat" where
  "bitlen n = (if n = 0 then 0 else Suc (bitlen (n div 2)))"

declare bitlen.simps [simp del]

abbreviation pow2 :: "int \<Rightarrow> rat" where "pow2 e \<equiv> 2 powi e"

text \<open>The binary exponent of a positive rational: \<open>2 ^ e \<le> q < 2 ^ (e + 1)\<close>.\<close>

definition rat_exp :: "rat \<Rightarrow> int" where
  "rat_exp q =
     (case quotient_of q of (a, b) \<Rightarrow>
        let k = int (bitlen (nat a)) - int (bitlen (nat b)) in
        if pow2 k \<le> q then k else k - 1)"

text \<open>Rounding to \<open>p\<close> significant bits, with \<open>2 ^ lo\<close> the smallest positive value.\<close>

definition fl :: "int \<Rightarrow> int \<Rightarrow> rat \<Rightarrow> rat" where
  "fl p lo q =
     (if q = 0 then 0
      else let u = max (rat_exp \<bar>q\<bar> - (p - 1)) lo
           in sgn q * (of_int (round_even (\<bar>q\<bar> / pow2 u)) * pow2 u))"

definition fl32 :: "rat \<Rightarrow> rat" where
  "fl32 q = fl 24 (- 149) q"

definition fl64 :: "rat \<Rightarrow> rat" where
  "fl64 q = fl 53 (- 1074) q"

lemma round_even_of_int [simp]: "round_even (of_int i) = i"
  by (simp add: round_even_def)

lemma round_even_le: "\<bar>of_int (round_even x) - x\<bar> \<le> 1 / 2"
proof -
  have "of_int \<lfloor>x\<rfloor> \<le> x" "x < of_int \<lfloor>x\<rfloor> + 1" by linarith+
  then show ?thesis unfolding round_even_def Let_def by (auto simp: abs_le_iff field_simps)
qed

lemma bitlen_bounds: "0 < n \<Longrightarrow> 2 ^ (bitlen n - 1) \<le> n \<and> n < 2 ^ bitlen n \<and> 0 < bitlen n"
proof (induction n rule: bitlen.induct)
  case (1 n)
  show ?case
  proof (cases "n = 1")
    case True
    then show ?thesis by (simp add: bitlen.simps)
  next
    case False
    with 1 have n: "n \<noteq> 0" "0 < n div 2" by simp_all
    define m where "m = n div 2"
    from 1(1) [OF n] have IH: "2 ^ (bitlen m - 1) \<le> m" "m < 2 ^ bitlen m" "0 < bitlen m"
      by (simp_all add: m_def)
    have b: "bitlen n = Suc (bitlen m)" using n by (subst bitlen.simps) (simp add: m_def)
    have "2 * m \<le> n" "n < 2 * m + 2" unfolding m_def by presburger+
    moreover have "(2::nat) ^ bitlen m = 2 * 2 ^ (bitlen m - 1)"
      using IH(3) by (cases "bitlen m") simp_all
    ultimately show ?thesis using IH b by simp
  qed
qed

lemma rat_exp_bounds:
  assumes "0 < q"
  shows "pow2 (rat_exp q) \<le> q \<and> q < pow2 (rat_exp q + 1)"
proof -
  obtain a b where ab: "quotient_of q = (a, b)" by (cases "quotient_of q")
  have b: "0 < b" using quotient_of_denom_pos [OF ab] .
  have q: "q = of_int a / of_int b" using quotient_of_div [OF ab] .
  have a: "0 < a" using assms b unfolding q by (simp add: zero_less_divide_iff)
  define la lb where "la = bitlen (nat a)" and "lb = bitlen (nat b)"
  have pos: "0 < nat a" "0 < nat b" using a b by simp_all
  have la: "2 ^ (la - 1) \<le> nat a" "nat a < 2 ^ la" "0 < la"
    and lb: "2 ^ (lb - 1) \<le> nat b" "nat b < 2 ^ lb" "0 < lb"
    using bitlen_bounds [OF pos(1)] bitlen_bounds [OF pos(2)] by (simp_all add: la_def lb_def)
  have ia: "of_nat (nat a) = (of_int a :: rat)" and ib: "of_nat (nat b) = (of_int b :: rat)"
    using a b by simp_all
  have ra: "(2::rat) ^ (la - 1) \<le> of_int a" "of_int a < (2::rat) ^ la"
    using la(1) la(2) ia
    by (metis of_nat_le_iff of_nat_numeral of_nat_power, metis of_nat_less_iff of_nat_numeral of_nat_power)
  have rb: "(2::rat) ^ (lb - 1) \<le> of_int b" "of_int b < (2::rat) ^ lb"
    using lb(1) lb(2) ib
    by (metis of_nat_le_iff of_nat_numeral of_nat_power, metis of_nat_less_iff of_nat_numeral of_nat_power)
  let ?k = "int la - int lb"
  have "q < 2 ^ la / 2 ^ (lb - 1)"
    unfolding q using ra rb a b by (intro frac_less) auto
  also have "\<dots> = pow2 (?k + 1)"
    using lb(3) by (simp add: power_int_add power_int_diff field_simps power_eq_if)
  finally have up: "q < pow2 (?k + 1)" .
  have "pow2 (?k - 1) = 2 ^ (la - 1) / 2 ^ lb"
    using la(3) by (simp add: power_int_add power_int_diff field_simps power_eq_if)
  also have "\<dots> \<le> q"
    unfolding q using ra rb a b by (intro frac_le) auto
  finally have low: "pow2 (?k - 1) \<le> q" .
  have "rat_exp q = (if pow2 ?k \<le> q then ?k else ?k - 1)"
    by (simp add: rat_exp_def ab la_def lb_def Let_def)
  with up low show ?thesis by auto
qed

text \<open>Rounding to single precision: relative error at most \<open>2 ^ (-24)\<close> for normal numbers.\<close>

lemma fl32_error:
  assumes "pow2 (- 126) \<le> q"
  shows "\<bar>fl32 q - q\<bar> \<le> q * pow2 (- 24)"
proof -
  have q: "0 < q" using assms by (rule less_le_trans [rotated]) (simp add: zero_less_power_int)
  define e where "e = rat_exp q"
  have e: "pow2 e \<le> q" "q < pow2 (e + 1)" using rat_exp_bounds [OF q] by (simp_all add: e_def)
  have "- 126 \<le> e"
  proof (rule ccontr)
    assume "\<not> - 126 \<le> e"
    then have "pow2 (e + 1) \<le> pow2 (- 126)" by (intro power_int_increasing) auto
    with e assms show False by simp
  qed
  define u where "u = e - 23"
  have u: "max (rat_exp \<bar>q\<bar> - 23) (- 149) = u" using \<open>- 126 \<le> e\<close> q by (simp add: u_def e_def)
  have pu: "0 < pow2 u" by (simp add: zero_less_power_int)
  let ?m = "round_even (q / pow2 u)"
  have "fl32 q = of_int ?m * pow2 u" using q u by (simp add: fl32_def fl_def Let_def)
  then have "fl32 q - q = (of_int ?m - q / pow2 u) * pow2 u" using pu by (simp add: field_simps)
  then have "\<bar>fl32 q - q\<bar> = \<bar>of_int ?m - q / pow2 u\<bar> * pow2 u" using pu by (simp add: abs_mult)
  also have "\<dots> \<le> 1 / 2 * pow2 u" using round_even_le pu by (intro mult_right_mono) auto
  also have "\<dots> = pow2 e * pow2 (- 24)" by (simp add: u_def power_int_diff power_int_minus)
  also have "\<dots> \<le> q * pow2 (- 24)" using e by (intro mult_right_mono) (auto simp: zero_le_power_int)
  finally show ?thesis .
qed

text \<open>A value with few enough bits is its own rounding.\<close>

lemma round_even_neg_half [simp]: "round_even 0 = 0"
  by (simp add: round_even_def)

lemma pow2_pos [simp]: "0 < pow2 e"
  by (simp add: zero_less_power_int)

lemma rat_exp_less:
  assumes "0 < q" "q < pow2 k"
  shows "rat_exp q < k"
proof (rule ccontr)
  assume "\<not> rat_exp q < k"
  then have "pow2 k \<le> pow2 (rat_exp q)" by (intro power_int_increasing) auto
  with rat_exp_bounds [OF assms(1)] assms(2) show False by simp
qed

lemma fl_int_exact:
  assumes "\<bar>i\<bar> < 2 ^ nat p" "0 \<le> p" "lo \<le> 0"
  shows "fl p lo (of_int i) = of_int i"
proof (cases "i = 0")
  case False
  define u where "u = max (rat_exp (of_int \<bar>i\<bar>) - (p - 1)) lo"
  have "of_int \<bar>i\<bar> < pow2 p"
    using assms by (metis of_int_less_iff of_int_numeral of_int_power power_int_of_nat int_nat_eq)
  then have "rat_exp (of_int \<bar>i\<bar>) < p" using False by (intro rat_exp_less) auto
  then have u: "u \<le> 0" using assms(3) by (simp add: u_def)
  define k where "k = nat (- u)"
  have "(of_int \<bar>i\<bar> :: rat) / pow2 u = of_int \<bar>i\<bar> * pow2 (int k)"
    using u by (simp add: k_def power_int_minus field_simps)
  also have "\<dots> = of_int (\<bar>i\<bar> * 2 ^ k)" by simp
  finally have "round_even (of_int \<bar>i\<bar> / pow2 u) = \<bar>i\<bar> * 2 ^ k" by (simp only: round_even_of_int)
  moreover have "(of_int (\<bar>i\<bar> * 2 ^ k) :: rat) * pow2 u = of_int \<bar>i\<bar>"
    using u by (simp add: k_def power_int_minus field_simps flip: power_int_of_nat)
  ultimately have "fl p lo (of_int i) = sgn (of_int i) * of_int \<bar>i\<bar>"
    using False by (simp add: fl_def u_def Let_def)
  then show ?thesis by (simp add: sgn_if abs_if)
qed (simp add: fl_def)

lemma fl64_int: "\<bar>i\<bar> < 9007199254740992 \<Longrightarrow> fl64 (of_int i) = of_int i"
  unfolding fl64_def by (rule fl_int_exact) auto

end
