(* ===== verification/PowerMeter.thy ===== *)
theory PowerMeter
  imports Gpio Floats
begin

text \<open>
  \<open>src/components/device/power_meter.c\<close>: the pulse counter of the BL0937 meter. The CF pin
  raises an interrupt per pulse; a timer declares the load off after ten seconds of silence and
  prints the power, a single-precision quotient. A multiplier set by command and a pulse length are below
  \<open>2 ^ 33\<close>, far from overflow.
\<close>

lemma abs_chain:
  fixes x y z c d :: rat
  shows "d \<le> c \<Longrightarrow> \<bar>x - z\<bar> \<le> c \<Longrightarrow> \<bar>y - x\<bar> \<le> d \<Longrightarrow> \<bar>y - z\<bar> \<le> c + c"
  by linarith

lemma rel_error_quotient:
  fixes m n L r e :: rat
  assumes "0 < m" "0 < n" "0 \<le> e" "e \<le> 1 / 4" "\<bar>L - n\<bar> \<le> n * e" "\<bar>r - m / L\<bar> \<le> m / L * e"
  shows "\<bar>r - m / n\<bar> \<le> m / n * (4 * e)"
proof -
  have L: "n * (1 - e) \<le> L" "L \<le> n * (1 + e)" using assms(5) by (simp_all add: abs_le_iff algebra_simps)
  have pe: "0 < 1 - e" using assms(4) by simp
  then have nL: "0 < n * (1 - e)" using assms(2) by simp
  then have L0: "0 < L" using L by linarith
  have "m / L - m / n = m / n * ((n - L) / L)" using assms(2) L0 by (simp add: field_simps)
  then have "\<bar>m / L - m / n\<bar> = m / n * (\<bar>n - L\<bar> / L)" using assms L0 by (simp add: abs_mult)
  also have "\<dots> \<le> m / n * ((n * e) / (n * (1 - e)))"
    using assms L nL by (intro mult_left_mono frac_le) (auto simp: abs_minus_commute)
  also have "\<dots> = m / n * (e / (1 - e))" using assms(2) by simp
  finally have 1: "\<bar>m / L - m / n\<bar> \<le> m / n * (e / (1 - e))" .
  have e2: "e / (1 - e) \<le> 2 * e"
  proof -
    have "e \<le> 2 * e * (1 - e)" using assms(3,4) by (simp add: algebra_simps mult_left_le)
    then show ?thesis using pe by (simp add: pos_divide_le_eq)
  qed
  have x: "0 < m / n" using assms by simp
  have 2: "\<bar>m / L - m / n\<bar> \<le> m / n * (2 * e)"
    using 1 mult_left_mono [OF e2, of "m / n"] x by linarith
  then have "m / L \<le> m / n * (1 + 2 * e)" by (simp add: abs_le_iff algebra_simps)
  also have "\<dots> \<le> m / n * 2" using assms(4) x by (intro mult_left_mono) auto
  finally have "m / L * e \<le> m / n * (2 * e)"
    using mult_right_mono [of "m / L" "m / n * 2" e] assms(3) by (simp add: algebra_simps)
  then have "\<bar>r - m / n\<bar> \<le> m / n * (2 * e) + m / n * (2 * e)"
    using 2 assms(6) by (rule abs_chain)
  then show ?thesis by (simp add: algebra_simps)
qed

subsection \<open>Pulses and ticks\<close>

abbreviation (input) POWER_PROBE_TIME :: u32 where "POWER_PROBE_TIME \<equiv> 10"

text \<open>The argument reaches the function as a \<open>float\<close>: an \<open>int\<close> argument is converted.\<close>

definition set_power_multiplier :: "rat \<Rightarrow> fw \<Rightarrow> fw" where
  "set_power_multiplier power_multiplier s = s\<lparr>g_power_multiplier := power_multiplier\<rparr>"

definition power_reading :: "fw \<Rightarrow> rat" where
  "power_reading s =
     (if g_cf_pulse_length s > 0
      then fl32 (g_power_multiplier s / fl32 (of_nat (unat (g_cf_pulse_length s)))) else 0)"

definition timer_handler :: "fw \<Rightarrow> fw" where
  "timer_handler s =
     (let (t, s) = hfsys_get_time s;
          s = (if t - g_cf_pulse_last_time s > POWER_PROBE_TIME * 1000
               then s\<lparr>g_cf_pulse_length := 0, g_load_off := True\<rparr> else s)
      in snd (sdk (Print_power (g_cf_pulse_length s) (g_power_multiplier s) (power_reading s)) s))"

definition cf_interrupt :: "fw \<Rightarrow> fw" where
  "cf_interrupt s =
     (let (t, s) = hfsys_get_time s in
      if g_load_off s then s\<lparr>g_cf_pulse_last_time := t, g_load_off := False\<rparr>
      else s\<lparr>g_cf_pulse_length := t - g_cf_pulse_last_time s, g_cf_pulse_last_time := t,
             g_energy_period_counter := g_energy_period_counter s + 1\<rparr>)"

definition intr_handler :: "u32 \<Rightarrow> u32 \<Rightarrow> fw \<Rightarrow> fw" where
  "intr_handler arg1 fid s = (if fid = ucast (g_cf_pin s) then cf_interrupt s else s)"

definition powermeter_init ::
  "gpio_number_e \<Rightarrow> gpio_number_e \<Rightarrow> gpio_number_e \<Rightarrow> pm_run_mode_e \<Rightarrow> fw \<Rightarrow> fw" where
  "powermeter_init cf_Num cf1_Num sel_Num run_mode s =
     (let s = s\<lparr>g_cf_pin := of_nat (fid_of cf_Num)\<rparr>;
          (_, s) = sdk (Configure_fpin (fid_of cf_Num) HFM_IO_TYPE_INPUT) s;
          (_, s) = sdk (Configure_fpin_interrupt (fid_of cf_Num) HFPIO_IT_FALL_EDGE P_intr_handler
                          False) s;
          s = (if run_mode \<ge> PM_RUN_MODE_2 then
                 let s = s\<lparr>g_cf1_pin := of_nat (fid_of cf1_Num)\<rparr>;
                     (_, s) = sdk (Configure_fpin (fid_of cf1_Num) HFM_IO_TYPE_INPUT) s;
                     (_, s) = sdk (Configure_fpin_interrupt (fid_of cf1_Num) HFPIO_IT_FALL_EDGE
                                     P_intr_handler False) s
                 in if run_mode = PM_RUN_MODE_3 then
                      let s = s\<lparr>g_sel_pin := of_nat (fid_of sel_Num)\<rparr>;
                          (_, s) = sdk (Configure_fpin (fid_of sel_Num) HFM_IO_OUTPUT_1) s
                      in s
                    else s
               else s);
          (timer, s) = sdk_int (Timer_create 1000 True 1 P_timer_handler) s;
          (_, s) = sdk (Timer_start timer) s;
          (_, s) = sdk (Fenable_interrupt (fid_of cf_Num)) s
      in if run_mode \<ge> PM_RUN_MODE_2
         then snd (sdk (Fenable_interrupt (fid_of cf1_Num)) s) else s)"

text \<open>A run of the meter: interrupts of the CF pin and timer ticks in any order.\<close>

datatype pm_event = Pulse | Tick

fun pm_step :: "pm_event \<Rightarrow> fw \<Rightarrow> fw" where
  "pm_step Pulse s = cf_interrupt s"
| "pm_step Tick s = timer_handler s"

definition pm_run :: "pm_event list \<Rightarrow> fw \<Rightarrow> fw" where
  "pm_run es s = fold pm_step es s"

lemmas pm_defs = timer_handler_def cf_interrupt_def hfsys_get_time_eq sdk_def Let_def

text \<open>The invariant: a load that is off has no pulse length.\<close>

definition pm_inv :: "fw \<Rightarrow> bool" where
  "pm_inv s \<longleftrightarrow> (g_load_off s \<longrightarrow> g_cf_pulse_length s = 0)"

lemma pm_step_inv: "pm_inv s \<Longrightarrow> pm_inv (pm_step e s)"
  by (cases e) (auto simp: pm_inv_def pm_defs)

lemma pm_run_inv: "pm_inv s \<Longrightarrow> pm_inv (pm_run es s)"
  unfolding pm_run_def by (induction es arbitrary: s) (auto simp: pm_step_inv)

lemma pm_step_sys [simp]: "sys (pm_step e s) = sys s"
  by (cases e) (auto simp: pm_defs)

lemma pm_run_sys [simp]: "sys (pm_run es s) = sys s"
  unfolding pm_run_def by (induction es arbitrary: s) auto

text \<open>The reading is the quotient up to single-precision rounding.\<close>

lemma power_reading_error:
  assumes "1 \<le> g_power_multiplier s" "0 < g_cf_pulse_length s"
  shows "\<bar>power_reading s - g_power_multiplier s / of_nat (unat (g_cf_pulse_length s))\<bar>
     \<le> g_power_multiplier s / of_nat (unat (g_cf_pulse_length s)) * pow2 (- 22)"
proof -
  define k where "k = unat (g_cf_pulse_length s)"
  let ?m = "g_power_multiplier s" and ?n = "of_nat k :: rat"
  have "0 < k" using assms(2) by (simp add: k_def unat_gt_0 word_neq_0_conv)
  then have n: "1 \<le> ?n" by simp
  have "k \<le> 4294967296" unfolding k_def by (rule less_imp_le) simp
  then have nu: "?n \<le> 4294967296" by (metis of_nat_le_iff of_nat_numeral)
  have small: "pow2 (- 126) \<le> 1 / 8589934592" by (simp add: power_int_minus field_simps)
  have L: "\<bar>fl32 ?n - ?n\<bar> \<le> ?n * pow2 (- 24)"
    using n small by (intro fl32_error) linarith
  also have "\<dots> \<le> ?n * 1" using n by (intro mult_left_mono) (auto simp: power_int_minus)
  finally have Lu: "fl32 ?n \<le> 8589934592" using nu by linarith
  have "\<bar>fl32 ?n - ?n\<bar> \<le> ?n * (1 / 2)"
    by (rule order_trans [OF L mult_left_mono]) (use n in \<open>auto simp: power_int_minus\<close>)
  then have L0: "0 < fl32 ?n" using n by linarith
  have "1 / 8589934592 \<le> ?m / fl32 ?n"
    using assms(1) Lu L0 by (intro frac_le) auto
  then have "\<bar>fl32 (?m / fl32 ?n) - ?m / fl32 ?n\<bar> \<le> ?m / fl32 ?n * pow2 (- 24)"
    using small by (intro fl32_error) linarith
  moreover have "power_reading s = fl32 (?m / fl32 ?n)"
    using assms(2) by (simp add: power_reading_def k_def)
  ultimately have "\<bar>power_reading s - ?m / ?n\<bar> \<le> ?m / ?n * (4 * pow2 (- 24))"
    using assms(1) n L by (intro rel_error_quotient [where L = "fl32 ?n"]) (auto simp: power_int_minus)
  moreover have "4 * pow2 (- 24) = pow2 (- 22)" by (simp add: power_int_minus)
  ultimately show ?thesis by (simp only: k_def)
qed

subsection \<open>What the meter promises\<close>

text \<open>
  The promise, in true time (milliseconds since boot, not wrapped): idle, one pulse seen, or
  running with the distance of the last two pulses. A tick more than ten seconds after the last
  pulse makes it idle.
\<close>

datatype meter = Idle | One nat | Running nat nat

fun meter_step :: "pm_event \<Rightarrow> nat \<Rightarrow> meter \<Rightarrow> meter" where
  "meter_step Pulse t Idle = One t"
| "meter_step Pulse t (One t0) = Running t (t - t0)"
| "meter_step Pulse t (Running t0 d) = Running t (t - t0)"
| "meter_step Tick t Idle = Idle"
| "meter_step Tick t (One t0) = (if t - t0 > 10000 then Idle else One t0)"
| "meter_step Tick t (Running t0 d) = (if t - t0 > 10000 then Idle else Running t0 d)"

fun last_pulse :: "meter \<Rightarrow> nat option" where
  "last_pulse Idle = None"
| "last_pulse (One t) = Some t"
| "last_pulse (Running t d) = Some t"

text \<open>The firmware's variables show a meter state: the clock is kept modulo \<open>2 ^ 32\<close>.\<close>

fun meter_rel :: "meter \<Rightarrow> fw \<Rightarrow> bool" where
  "meter_rel Idle s \<longleftrightarrow> g_load_off s \<and> g_cf_pulse_length s = 0"
| "meter_rel (One t) s \<longleftrightarrow>
     \<not> g_load_off s \<and> g_cf_pulse_length s = 0 \<and> g_cf_pulse_last_time s = of_nat t"
| "meter_rel (Running t d) s \<longleftrightarrow>
     \<not> g_load_off s \<and> g_cf_pulse_length s = of_nat d \<and> g_cf_pulse_last_time s = of_nat t"

lemma of_nat_diff_u32: "a \<le> b \<Longrightarrow> (of_nat b :: u32) - of_nat a = of_nat (b - a)"
  by (simp add: of_nat_diff)

lemma unat_of_nat_u32: "n < 4294967296 \<Longrightarrow> unat (of_nat n :: u32) = n"
  by (simp add: unat_of_nat take_bit_nat_eq_self_iff)

lemma u32_gt_iff: "n < 4294967296 \<Longrightarrow> (10000 :: u32) < of_nat n \<longleftrightarrow> 10000 < n"
  by (simp add: word_less_nat_alt unat_of_nat_u32)

text \<open>
  One step: the last pulse of a meter that is not idle is at most ten seconds and one gap old.
\<close>

definition fresh_since :: "meter \<Rightarrow> nat \<Rightarrow> bool" where
  "fresh_since m t \<longleftrightarrow> (case last_pulse m of None \<Rightarrow> True | Some t0 \<Rightarrow> t0 \<le> t \<and> t - t0 \<le> 10000)"

lemma meter_step_rel:
  assumes r: "meter_rel m s" and n: "now s = of_nat t" and f: "fresh_since m t0"
    and g: "t0 \<le> t" "t - t0 \<le> 4000000000"
  shows "meter_rel (meter_step e t m) (pm_step e s)"
proof -
  have d: "of_nat t - g_cf_pulse_last_time s = (of_nat (t - t1) :: u32)"
    and gt: "10000 < of_nat t - g_cf_pulse_last_time s \<longleftrightarrow> 10000 < t - t1"
    if "last_pulse m = Some t1" for t1
  proof -
    have "g_cf_pulse_last_time s = of_nat t1" using r that by (cases m) auto
    moreover have "t1 \<le> t" "t - t1 < 4294967296"
      using f g that by (auto simp: fresh_since_def)
    ultimately show "of_nat t - g_cf_pulse_last_time s = (of_nat (t - t1) :: u32)"
      "10000 < of_nat t - g_cf_pulse_last_time s \<longleftrightarrow> 10000 < t - t1"
      by (simp_all only: of_nat_diff_u32 u32_gt_iff)
  qed
  show ?thesis
  proof (cases m)
    case Idle
    with r n show ?thesis by (cases e) (auto simp: pm_defs)
  next
    case (One t1)
    with r n d [of t1] gt [of t1] show ?thesis by (cases e) (auto simp: pm_defs)
  next
    case (Running t1 k)
    with r n d [of t1] gt [of t1] show ?thesis by (cases e) (auto simp: pm_defs)
  qed
qed

lemma meter_step_fresh:
  "fresh_since m t0 \<Longrightarrow> t0 \<le> t \<Longrightarrow> fresh_since (meter_step e t m) t"
  by (cases m; cases e) (auto simp: fresh_since_def)

text \<open>
  A run: events with their times. The clock reads \<open>t\<close> (wrapped) at an event, and no two events
  are further apart than \<open>4 * 10 ^ 6\<close> seconds, some 46 days (the timer ticks every second).
\<close>

fun pm_timed_step :: "pm_event \<times> nat \<Rightarrow> fw \<Rightarrow> fw option" where
  "pm_timed_step (e, t) s = Some (pm_step e s)"

fun meter_timed_step :: "pm_event \<times> nat \<Rightarrow> meter \<times> nat \<Rightarrow> meter \<times> nat" where
  "meter_timed_step (e, t) (m, t0) = (meter_step e t m, t)"

fun meter_timed_rel :: "meter \<times> nat \<Rightarrow> fw \<Rightarrow> bool" where
  "meter_timed_rel (m, t0) s \<longleftrightarrow> meter_rel m s \<and> fresh_since m t0"

fun pm_can :: "pm_event \<times> nat \<Rightarrow> meter \<times> nat \<Rightarrow> fw \<Rightarrow> bool" where
  "pm_can (e, t) (m, t0) s \<longleftrightarrow> now s = of_nat t \<and> t0 \<le> t \<and> t - t0 \<le> 4000000000"

interpretation pm: simulation pm_timed_step meter_timed_step meter_timed_rel pm_can
proof unfold_locales
  fix a s e
  assume r: "meter_timed_rel a s" and c: "pm_can e a s"
  obtain m t0 ev t where [simp]: "a = (m, t0)" "e = (ev, t)" by (cases a; cases e)
  have "meter_rel (meter_step ev t m) (pm_step ev s)"
    using r c by (intro meter_step_rel) auto
  moreover have "fresh_since (meter_step ev t m) t"
    using r c by (intro meter_step_fresh) auto
  ultimately show "wp (pm_timed_step e s) (meter_timed_rel (meter_timed_step e a))" by simp
qed

subsection \<open>Properties\<close>

text \<open>C8: The power meter refines its promise: from any state that shows a meter, and so from power-on, where
  the load does not count as off and the meter behaves as if a pulse had come at time 0, over any interleaving
  of pulses and timer ticks no further apart than 4 * 10^9 milliseconds (the timer ticks every second), with the
  clock at the times of the events, also across the wrap-around of its 32 bits: it is idle, has seen one
  pulse, or holds the distance of the last two pulses, and a tick more than ten seconds after the last pulse
  makes it idle.\<close>

theorem meter_refines:
  assumes "meter_timed_rel a s" "sched pm_timed_step meter_timed_step pm_can es a s"
  shows "meter_timed_rel (One 0, 0) (boot_state sy ga) \<and>
    wp (for_each es pm_timed_step s) (meter_timed_rel (fold meter_timed_step es a))"
proof
  show "meter_timed_rel (One 0, 0) (boot_state sy ga)" by (simp add: boot_state_def fresh_since_def)
  show "wp (for_each es pm_timed_step s) (meter_timed_rel (fold meter_timed_step es a))"
    using assms by (rule pm.run)
qed

lemma meter_refines_witness:
  "let s = boot_state (sim_sdk (\<lambda>n. [3000000000, 4294967000, 4294968000] ! n)) (\<lambda>_ _. NUL)
   in wp (for_each [(Tick, 3000000000), (Pulse, 4294967000), (Pulse, 4294968000)] pm_timed_step s)
        (\<lambda>t. g_cf_pulse_length t = 1000 \<and> g_cf_pulse_last_time t = 704)"
proof -
  let ?s = "boot_state (sim_sdk (\<lambda>n. [3000000000, 4294967000, 4294968000] ! n)) (\<lambda>_ _. NUL)"
  let ?es = "[(Tick, 3000000000), (Pulse, 4294967000), (Pulse, 4294968000)]" and ?a = "(One 0, 0)"
  have r: "meter_timed_rel ?a ?s" by (simp add: boot_state_def fresh_since_def)
  have "sched pm_timed_step meter_timed_step pm_can ?es ?a ?s"
    by (simp add: boot_state_def pm_defs now_def sim_sdk_def)
  from meter_refines [OF r this, THEN conjunct2] show ?thesis
    unfolding Let_def by (rule wp_mono) simp
qed

text \<open>C9: The printed power is the quotient of the multiplier and the pulse distance, up to the
  rounding of two single-precision operations: a relative error of at most \<open>2 ^ - 22\<close>.\<close>

theorem power_reading_accurate:
  assumes "1 \<le> g_power_multiplier s" "0 < g_cf_pulse_length s"
  shows "\<bar>power_reading s - g_power_multiplier s / of_nat (unat (g_cf_pulse_length s))\<bar>
     \<le> g_power_multiplier s / of_nat (unat (g_cf_pulse_length s)) * 2 powi (- 22)"
  using assms by (rule power_reading_error)

lemma power_reading_accurate_witness:
  "let s = (boot_state (sim_sdk (\<lambda>_. 0)) (\<lambda>_ _. NUL))\<lparr>g_power_multiplier := 1000, g_cf_pulse_length := 3\<rparr>
   in \<bar>power_reading s - 1000 / 3\<bar> \<le> 1000 / 3 * 2 powi (- 22)"
  using power_reading_accurate [of "(boot_state (sim_sdk (\<lambda>_. 0)) (\<lambda>_ _. NUL))
      \<lparr>g_power_multiplier := 1000, g_cf_pulse_length := 3\<rparr>"]
  by simp

text \<open>After power-on the load does not count as off, so the first pulse (here the first event)
  is taken as the end of a period that began at boot: the pulse length is the whole time since
  boot, and with a multiplier set the next tick within ten seconds prints a positive power.\<close>

lemma first_pulse_after_boot:
  assumes "s = set_power_multiplier m (boot_state sy ga)" "0 < now s"
  shows "g_cf_pulse_length (pm_step Pulse s) = now s \<and>
    (let p = pm_step Pulse s in now p - now s \<le> 10000 \<longrightarrow>
       hd (calls (pm_step Tick p)) =
         Print_power (now s) m (fl32 (m / fl32 (of_nat (unat (now s))))))"
proof -
  have "word_of_int (r_int (sys s (Get_time # calls s) Get_time)) - now s \<le> 10000 \<longleftrightarrow>
      \<not> 10000 < word_of_int (r_int (sys s (Get_time # calls s) Get_time)) - now s" by auto
  moreover have "g_cf_pulse_last_time s = 0" "\<not> g_load_off s" "g_power_multiplier s = m"
    by (simp_all add: assms(1) set_power_multiplier_def boot_state_def)
  ultimately show ?thesis
    using assms(2) by (auto simp: pm_defs power_reading_def now_def)
qed

lemma first_pulse_after_boot_witness:
  "let s = set_power_multiplier 100 (boot_state (sim_sdk (\<lambda>_. 7000)) (\<lambda>_ _. NUL))
   in g_cf_pulse_length (pm_step Pulse s) = 7000"
  using first_pulse_after_boot [of _ 100 "sim_sdk (\<lambda>_. 7000)" "\<lambda>_ _. NUL", OF refl]
  by (simp add: boot_state_def now_def sim_sdk_def set_power_multiplier_def)

end
