(* ===== verification/Actuator.thy ===== *)
theory Actuator
  imports Gpio
begin

text \<open>
  The contract \<open>led.c\<close> and \<open>relay.c\<close> share: a device is created on a pin with a trigger
  level, carries a status, and writing the status drives the pin. The locale's lemmas are used
  by \<open>user_led.c\<close>, \<open>user_relay.c\<close> and everything above them.
\<close>

text \<open>
  A device is in step when its status is legal and its pin was last driven to match it; a
  device nobody switched yet is off and its pin not driven.
\<close>

definition in_step ::
  "(ptr \<Rightarrow> fw \<Rightarrow> u8 option) \<Rightarrow> (ptr \<Rightarrow> fw \<Rightarrow> (gpio_number_e \<times> gpio_level_e) option) \<Rightarrow> ptr \<Rightarrow> fw \<Rightarrow> bool"
where
  "in_step get_st pin_of p s \<longleftrightarrow>
     (case (pin_of p s, get_st p s) of
        (Some (n, l), Some x) \<Rightarrow>
          (x = 0 \<or> x = 1) \<and>
          (level_of n s = Some (drive_level x l) \<or> level_of n s = None \<and> x = 0)
      | _ \<Rightarrow> False)"

lemma in_step_cong:
  assumes "pin_of p t = pin_of p s" "get_st p t = get_st p s"
    and "\<And>n l. pin_of p s = Some (n, l) \<Longrightarrow> level_of n t = level_of n s"
  shows "in_step get_st pin_of p t = in_step get_st pin_of p s"
  using assms by (simp add: in_step_def split: option.splits prod.splits)

lemma in_step_live: "in_step get_st pin_of p s \<Longrightarrow> get_st p s = Some 0 \<or> get_st p s = Some 1"
  by (auto simp: in_step_def split: option.splits prod.splits)

text \<open>No two devices of a list share a pin.\<close>

definition separate ::
  "(ptr \<Rightarrow> fw \<Rightarrow> (gpio_number_e \<times> gpio_level_e) option) \<Rightarrow> ptr list \<Rightarrow> fw \<Rightarrow> bool" where
  "separate pin_of ps s \<longleftrightarrow>
     (\<forall>p\<in>set ps. \<forall>q\<in>set ps. p \<noteq> q \<longrightarrow> map_option fst (pin_of p s) \<noteq> map_option fst (pin_of q s))"

text \<open>A loop that switches every device of a list to the same status and ignores failures.\<close>

definition set_each ::
  "(ptr \<Rightarrow> u8 \<Rightarrow> fw \<Rightarrow> (bool \<times> fw) option) \<Rightarrow> ptr list \<Rightarrow> u8 \<Rightarrow> fw \<Rightarrow> fw option" where
  "set_each set_st ps x = for_each ps (\<lambda>p s. do { (r, s) \<leftarrow> set_st p x s; Some s })"

text \<open>Pin and trigger level of a device are fixed at creation.\<close>

locale switchable =
  fixes set_st :: "ptr \<Rightarrow> u8 \<Rightarrow> fw \<Rightarrow> (bool \<times> fw) option"
    and get_st :: "ptr \<Rightarrow> fw \<Rightarrow> u8 option"
    and pin_of :: "ptr \<Rightarrow> fw \<Rightarrow> (gpio_number_e \<times> gpio_level_e) option"
    and rest :: "fw \<Rightarrow> 'r"
  assumes live_iff: "get_st p s \<noteq> None \<longleftrightarrow> pin_of p s \<noteq> None"
    and set_dead: "get_st p s = None \<Longrightarrow> set_st p x s = None"
    and set_live: "get_st p s \<noteq> None \<Longrightarrow> \<exists>r t. set_st p x s = Some (r, t)"
    and get_set: "set_st p x s = Some (True, t) \<Longrightarrow> get_st p t = Some x"
    and get_set_fail: "set_st p x s = Some (False, t) \<Longrightarrow> get_st p t = get_st p s"
    and get_other: "set_st p x s = Some (r, t) \<Longrightarrow> q \<noteq> p \<Longrightarrow> get_st q t = get_st q s"
    and pin_set: "set_st p x s = Some (r, t) \<Longrightarrow> pin_of q t = pin_of q s"
    and drive: "set_st p x s = Some (r, t) \<Longrightarrow> pin_of p s = Some (n, l) \<Longrightarrow> x = 0 \<or> x = 1 \<Longrightarrow>
      level_of n t = (if r then Some (drive_level x l) else level_of n s)"
    and drive_other: "set_st p x s = Some (r, t) \<Longrightarrow> pin_of p s = Some (n, l) \<Longrightarrow> m \<noteq> n \<Longrightarrow>
      level_of m t = level_of m s"
    and sys_set: "set_st p x s = Some (r, t) \<Longrightarrow> sys t = sys s"
    and rest_set: "set_st p x s = Some (r, t) \<Longrightarrow> rest t = rest s"
begin

lemma set_wp:
  assumes "get_st p s \<noteq> None"
  shows "wp (set_st p x s)
    (\<lambda>(r, t). get_st p t = (if r then Some x else get_st p s) \<and> sys t = sys s \<and> rest t = rest s \<and>
       (\<forall>q. pin_of q t = pin_of q s) \<and> (\<forall>q. q \<noteq> p \<longrightarrow> get_st q t = get_st q s))"
proof -
  obtain r t where "set_st p x s = Some (r, t)" using set_live [OF assms] by blast
  then show ?thesis
    by (cases r) (auto simp: get_set get_set_fail get_other pin_set sys_set rest_set)
qed

lemma in_step_set_same:
  assumes "in_step get_st pin_of p s" "x = 0 \<or> x = 1" "set_st p x s = Some (r, t)"
  shows "in_step get_st pin_of p t"
proof -
  obtain n l y where c: "pin_of p s = Some (n, l)" "get_st p s = Some y" "y = 0 \<or> y = 1"
    "level_of n s = Some (drive_level y l) \<or> level_of n s = None \<and> y = 0"
    using assms(1) by (auto simp: in_step_def split: option.splits)
  have "pin_of p t = Some (n, l)" using pin_set [OF assms(3)] c(1) by simp
  moreover have "level_of n t = (if r then Some (drive_level x l) else level_of n s)"
    by (rule drive [OF assms(3) c(1) assms(2)])
  moreover have "get_st p t = (if r then Some x else Some y)"
    using get_set get_set_fail assms(3) c(2) by (cases r) auto
  ultimately show ?thesis using c assms(2) by (cases r) (auto simp: in_step_def)
qed

lemma in_step_set_other:
  assumes "in_step get_st pin_of q s" "q \<noteq> p" "set_st p x s = Some (r, t)"
    and "map_option fst (pin_of p s) \<noteq> map_option fst (pin_of q s)"
  shows "in_step get_st pin_of q t"
proof -
  obtain m k y where c: "pin_of q s = Some (m, k)" "get_st q s = Some y" "y = 0 \<or> y = 1"
    "level_of m s = Some (drive_level y k) \<or> level_of m s = None \<and> y = 0"
    using assms(1) by (auto simp: in_step_def split: option.splits prod.splits)
  have "get_st p s \<noteq> None" using set_dead [of p s x] assms(3) by auto
  then obtain n l where n: "pin_of p s = Some (n, l)" using live_iff [of p s] by auto
  with assms(4) c(1) have "m \<noteq> n" by auto
  then have "level_of m t = level_of m s" by (rule drive_other [OF assms(3) n])
  moreover have "pin_of q t = Some (m, k)" using pin_set [OF assms(3)] c(1) by simp
  moreover have "get_st q t = Some y" using get_other [OF assms(3,2)] c(2) by simp
  ultimately show ?thesis using c by (auto simp: in_step_def split: option.splits prod.splits)
qed

text \<open>A bank of devices stays in step by switching any of them.\<close>

lemma in_step_set:
  assumes "\<forall>q\<in>set ps. in_step get_st pin_of q s" "separate pin_of ps s" "p \<in> set ps" "x = 0 \<or> x = 1"
    and "set_st p x s = Some (r, t)"
  shows "(\<forall>q\<in>set ps. in_step get_st pin_of q t) \<and> separate pin_of ps t"
proof
  show "\<forall>q\<in>set ps. in_step get_st pin_of q t"
  proof
    fix q assume q: "q \<in> set ps"
    show "in_step get_st pin_of q t"
    proof (cases "q = p")
      case True
      then show ?thesis using in_step_set_same assms q by blast
    next
      case False
      then show ?thesis
        using in_step_set_other [of q s p x r t] assms q unfolding separate_def by metis
    qed
  qed
  show "separate pin_of ps t" using assms(2) by (simp add: separate_def pin_set [OF assms(5)])
qed

text \<open>Switching a list of live devices to the same status.\<close>

lemma set_each_wp:
  assumes "\<forall>p\<in>set ps. get_st p s \<noteq> None"
  shows "wp (set_each set_st ps x s)
    (\<lambda>t. sys t = sys s \<and> rest t = rest s \<and> (\<forall>q. pin_of q t = pin_of q s) \<and>
       (\<forall>q. q \<notin> set ps \<longrightarrow> get_st q t = get_st q s) \<and>
       (\<forall>q\<in>set ps. get_st q t = Some x \<or> get_st q t = get_st q s))"
  unfolding set_each_def
proof (rule for_each_prefix_inv [where I = "\<lambda>pre t. sys t = sys s \<and> rest t = rest s \<and>
       (\<forall>q. pin_of q t = pin_of q s) \<and> (\<forall>q. q \<notin> set pre \<longrightarrow> get_st q t = get_st q s) \<and>
       (\<forall>q\<in>set pre. get_st q t = Some x \<or> get_st q t = get_st q s)"])
  fix pre p suf t
  assume ps: "ps = pre @ p # suf" and I: "sys t = sys s \<and> rest t = rest s \<and>
       (\<forall>q. pin_of q t = pin_of q s) \<and> (\<forall>q. q \<notin> set pre \<longrightarrow> get_st q t = get_st q s) \<and>
       (\<forall>q\<in>set pre. get_st q t = Some x \<or> get_st q t = get_st q s)"
  have "get_st p s \<noteq> None" using ps assms by simp
  then have "get_st p t \<noteq> None" using I live_iff by metis
  from set_wp [OF this, of x] show "wp (do {(r, s) \<leftarrow> set_st p x t; Some s})
      (\<lambda>t. sys t = sys s \<and> rest t = rest s \<and> (\<forall>q. pin_of q t = pin_of q s) \<and>
        (\<forall>q. q \<notin> set (pre @ [p]) \<longrightarrow> get_st q t = get_st q s) \<and>
        (\<forall>q\<in>set (pre @ [p]). get_st q t = Some x \<or> get_st q t = get_st q s))"
    unfolding wp_simps by (rule wp_mono) (use I in \<open>auto split: if_splits\<close>, metis+)
qed simp

lemma set_each_in_step:
  assumes "\<forall>q\<in>set ps. in_step get_st pin_of q s" "separate pin_of ps s" "set qs \<subseteq> set ps" "x = 0 \<or> x = 1"
  shows "wp (set_each set_st qs x s) (\<lambda>t. (\<forall>q\<in>set ps. in_step get_st pin_of q t) \<and> separate pin_of ps t)"
  unfolding set_each_def
proof (rule for_each_inv)
  fix p t
  assume p: "p \<in> set qs" and I: "(\<forall>q\<in>set ps. in_step get_st pin_of q t) \<and> separate pin_of ps t"
  have "get_st p t \<noteq> None" using p I assms(3) by (auto simp: in_step_def split: option.splits prod.splits)
  then obtain r u where u: "set_st p x t = Some (r, u)" using set_live by blast
  with in_step_set [of ps t p x r u] I p assms show
    "wp (do {(r, s) \<leftarrow> set_st p x t; Some s}) (\<lambda>t. (\<forall>q\<in>set ps. in_step get_st pin_of q t) \<and> separate pin_of ps t)"
    by auto
qed (use assms in simp)

end

end
