(* ===== verification/Relay.thy ===== *)
theory Relay
  imports Actuator
begin

text \<open>\<open>src/components/device/relay.c\<close>: a relay on a pin.\<close>

definition relay_create :: "gpio_number_e \<Rightarrow> gpio_level_e \<Rightarrow> fw \<Rightarrow> ptr \<times> fw" where
  "relay_create gpioNum triggerLevel s =
     hfmem_malloc ''relay_device_t''
       (\<lambda>_. RelayObj \<lparr>relay_gpio_num = gpioNum, relay_trigger_level = triggerLevel,
                      relay_status = RELAY_STATUS_CLOSE\<rparr>) s"

definition relay_delete :: "ptr \<Rightarrow> fw \<Rightarrow> fw" where
  "relay_delete handle s = hfmem_free handle s"

definition relay_states_set :: "ptr \<Rightarrow> relay_status_e \<Rightarrow> fw \<Rightarrow> (bool \<times> fw) option" where
  "relay_states_set handle status s =
     do {
       relay \<leftarrow> relay_at handle s;
       let (ok, s) = gpio_output_set (relay_gpio_num relay)
                       (drive_level status (relay_trigger_level relay)) s;
       if ok then Some (True, store handle (RelayObj (relay\<lparr>relay_status := status\<rparr>)) s)
       else Some (False, s)
     }"

definition relay_states_get :: "ptr \<Rightarrow> fw \<Rightarrow> relay_status_e option" where
  "relay_states_get handle s = map_option relay_status (relay_at handle s)"

subsection \<open>The relay is switchable\<close>

definition relay_pin_of :: "ptr \<Rightarrow> fw \<Rightarrow> (gpio_number_e \<times> gpio_level_e) option" where
  "relay_pin_of p s = map_option (\<lambda>d. (relay_gpio_num d, relay_trigger_level d)) (relay_at p s)"

definition relay_rest :: "fw \<Rightarrow> fw \<times> (ptr \<Rightarrow> obj option)" where
  "relay_rest s = (s\<lparr>calls := [], heap := (\<lambda>_. None)\<rparr>,
                   \<lambda>p. case heap s p of Some (RelayObj d) \<Rightarrow> None | x \<Rightarrow> x)"

lemma relay_states_set_cases:
  assumes "relay_at p s = Some d"
  obtains r cs where "relay_states_set p x s =
      Some (r, (if r then s\<lparr>calls := cs, heap := (heap s)(p \<mapsto> RelayObj (d\<lparr>relay_status := x\<rparr>))\<rparr>
                else s\<lparr>calls := cs\<rparr>))"
    and "pin_level (sys s) cs (fid_of (relay_gpio_num d)) =
      (if r then Some (drive_level x (relay_trigger_level d)) else level_of (relay_gpio_num d) s)"
    and "\<And>m. m \<noteq> relay_gpio_num d \<Longrightarrow> pin_level (sys s) cs (fid_of m) = level_of m s"
proof -
  obtain r cs where g: "gpio_output_set (relay_gpio_num d) (drive_level x (relay_trigger_level d)) s =
      (r, s\<lparr>calls := cs\<rparr>)"
    "pin_level (sys s) cs (fid_of (relay_gpio_num d)) =
      (if r then Some (drive_level x (relay_trigger_level d)) else level_of (relay_gpio_num d) s)"
    "\<And>m. m \<noteq> relay_gpio_num d \<Longrightarrow> pin_level (sys s) cs (fid_of m) = level_of m s"
    by (rule gpio_output_set_cases [OF drive_level_legal]) blast
  show thesis
  proof (rule that [of r cs])
    show "relay_states_set p x s =
      Some (r, (if r then s\<lparr>calls := cs, heap := (heap s)(p \<mapsto> RelayObj (d\<lparr>relay_status := x\<rparr>))\<rparr>
                else s\<lparr>calls := cs\<rparr>))"
      using g(1) assms by (auto simp: relay_states_set_def store_def)
  qed (use g in simp_all)
qed

lemma relay_states_set_live: "relay_at p s = Some d \<Longrightarrow> \<exists>r t. relay_states_set p x s = Some (r, t)"
  by (rule relay_states_set_cases) blast+

lemma relay_states_set_get:
  assumes t: "relay_states_set p x s = Some (r, t)"
  shows "relay_states_get p t = (if r then Some x else relay_states_get p s)"
proof -
  obtain d where d: "relay_at p s = Some d"
    using t by (auto simp: relay_states_set_def split: Option.bind_splits)
  show ?thesis
    by (rule relay_states_set_cases [OF d, of x]) (use t d in \<open>auto simp: relay_states_get_def relay_at_def\<close>)
qed

lemma relay_rest_upd:
  "relay_at p s = Some d \<Longrightarrow>
     relay_rest (s\<lparr>calls := cs, heap := (heap s)(p \<mapsto> RelayObj d')\<rparr>) = relay_rest s"
  "relay_rest (s\<lparr>calls := cs\<rparr>) = relay_rest s"
  by (auto simp: relay_rest_def relay_at_iff fun_eq_iff)

interpretation relay_dev: switchable relay_states_set relay_states_get relay_pin_of relay_rest
proof unfold_locales
  fix p x s
  show "relay_states_get p s \<noteq> None \<longleftrightarrow> relay_pin_of p s \<noteq> None"
    by (simp add: relay_states_get_def relay_pin_of_def)
  show "relay_states_get p s = None \<Longrightarrow> relay_states_set p x s = None"
    by (simp add: relay_states_get_def relay_states_set_def)
  show "relay_states_get p s \<noteq> None \<Longrightarrow> \<exists>r t. relay_states_set p x s = Some (r, t)"
    by (auto simp: relay_states_get_def relay_states_set_live)
next
  fix p x s t q r
  assume t: "relay_states_set p x s = Some (r, t)"
  then obtain d where d: "relay_at p s = Some d"
    by (auto simp: relay_states_set_def split: Option.bind_splits)
  obtain r' cs where c: "relay_states_set p x s =
      Some (r', (if r' then s\<lparr>calls := cs, heap := (heap s)(p \<mapsto> RelayObj (d\<lparr>relay_status := x\<rparr>))\<rparr>
                else s\<lparr>calls := cs\<rparr>))"
    "pin_level (sys s) cs (fid_of (relay_gpio_num d)) =
      (if r' then Some (drive_level x (relay_trigger_level d)) else level_of (relay_gpio_num d) s)"
    "\<And>m. m \<noteq> relay_gpio_num d \<Longrightarrow> pin_level (sys s) cs (fid_of m) = level_of m s"
    by (rule relay_states_set_cases [OF d]) blast
  note ts = t c(1)
  show "q \<noteq> p \<Longrightarrow> relay_states_get q t = relay_states_get q s"
    using ts by (auto simp: relay_states_get_def relay_at_def split: if_splits)
  show "relay_pin_of q t = relay_pin_of q s"
    using ts d by (auto simp: relay_pin_of_def relay_at_def split: if_splits)
  show "sys t = sys s" using ts by (auto split: if_splits)
  show "relay_rest t = relay_rest s"
    using ts d by (auto simp: relay_rest_upd split: if_splits)
  show "x = 0 \<or> x = 1 \<Longrightarrow> level_of n t = (if r then Some (drive_level x l) else level_of n s)"
    if "relay_pin_of p s = Some (n, l)" for n l
    using ts d c(2) that by (auto simp: relay_pin_of_def split: if_splits)
  show "level_of m t = level_of m s" if "relay_pin_of p s = Some (n, l)" "m \<noteq> n" for m n l
    using ts d c(3) that by (auto simp: relay_pin_of_def split: if_splits)
next
  fix p x s t
  show "relay_states_set p x s = Some (True, t) \<Longrightarrow> relay_states_get p t = Some x"
    by (simp add: relay_states_set_get)
  show "relay_states_set p x s = Some (False, t) \<Longrightarrow> relay_states_get p t = relay_states_get p s"
    by (simp add: relay_states_set_get)
qed

lemma relay_create_ok:
  assumes "heap_ok s" "relay_create n l s = (p, t)" "p \<noteq> 0"
  shows "relay_states_get p t = Some RELAY_STATUS_CLOSE" "relay_pin_of p t = Some (n, l)"
    "heap_ok t" "\<And>q. q \<noteq> p \<Longrightarrow> heap t q = heap s q" "heap s p = None"
  using assms
  by (auto simp: relay_create_def hfmem_malloc_def sdk_int_def Let_def relay_states_get_def
      relay_pin_of_def relay_at_def heap_ok_def split: if_splits)

end
