(* ===== verification/UserLed.thy ===== *)
theory UserLed
  imports Led
begin

text \<open>\<open>src/components/user/user_led.c\<close>: the board's one LED, on GPIO5, lit by a high level.\<close>

definition user_led_init :: "fw \<Rightarrow> fw" where
  "user_led_init s = (let (p, s) = led_create GPIO5 GPIO_HIGH s in s\<lparr>g_led := p\<rparr>)"

definition user_led_blink :: "fw \<Rightarrow> fw option" where
  "user_led_blink s = led_blink_set (g_led s) s"

definition user_led_off :: "fw \<Rightarrow> fw option" where
  "user_led_off s = do { (_, s) \<leftarrow> led_status_set (g_led s) LED_STATUS_OFF s; Some s }"

definition user_led_on :: "fw \<Rightarrow> fw option" where
  "user_led_on s = do { (_, s) \<leftarrow> led_status_set (g_led s) LED_STATUS_ON s; Some s }"

definition user_led_states_get :: "fw \<Rightarrow> led_status_e option" where
  "user_led_states_get s = led_states_get (g_led s) s"

lemmas user_led_defs = user_led_blink_def user_led_off_def user_led_on_def user_led_states_get_def

text \<open>The LED is there, on its pin.\<close>

definition led_ok :: "fw \<Rightarrow> bool" where
  "led_ok s \<longleftrightarrow> led_pin_of (g_led s) s = Some (GPIO5, GPIO_HIGH)"

text \<open>Every pin command succeeds. A hypothesis, with witnesses.\<close>

definition gpio_ok :: "fw \<Rightarrow> bool" where
  "gpio_ok s \<longleftrightarrow> (\<forall>cs f fl. r_int (sys s cs (Configure_fpin f fl)) = HF_SUCCESS)"

lemma gpio_output_set_ok:
  "gpio_ok s \<Longrightarrow> level = GPIO_LOW \<or> level = GPIO_HIGH \<Longrightarrow> fst (gpio_output_set n level s)"
  by (auto simp: gpio_ok_def gpio_output_set_def gpio_output_low_def gpio_output_high_def sdk_int_def)

lemma led_status_set_ok:
  assumes "gpio_ok s" "led_status_set p x s = Some (r, t)"
  shows r
proof -
  obtain d where d: "led_at p s = Some d"
    using assms(2) by (auto simp: led_status_set_def split: Option.bind_splits)
  have "fst (gpio_output_set (led_gpio_num d) (drive_level x (led_trigger_level d)) s)"
    by (rule gpio_output_set_ok [OF assms(1) drive_level_legal])
  with assms(2) d show ?thesis
    by (auto simp: led_status_set_def split: if_splits prod.splits)
qed

text \<open>What LED commands leave alone.\<close>

lemma led_restD:
  assumes "led_rest t = led_rest s"
  shows "t\<lparr>calls := [], heap := Map.empty\<rparr> = s\<lparr>calls := [], heap := Map.empty\<rparr>"
    and "(\<forall>d. heap s p \<noteq> Some (LedObj d)) \<Longrightarrow> (\<forall>d. heap t p \<noteq> Some (LedObj d)) \<Longrightarrow> heap t p = heap s p"
    and "relay_at p t = relay_at p s"
    and "g_led t = g_led s" "g_relays t = g_relays s" "sys t = sys s" "brk t = brk s"
proof -
  have h: "(case heap t p of Some (LedObj d) \<Rightarrow> None | x \<Rightarrow> x) =
      (case heap s p of Some (LedObj d) \<Rightarrow> None | x \<Rightarrow> x)" for p
    using assms by (auto simp: led_rest_def fun_eq_iff)
  show s: "t\<lparr>calls := [], heap := Map.empty\<rparr> = s\<lparr>calls := [], heap := Map.empty\<rparr>"
    using assms by (simp add: led_rest_def)
  show "(\<forall>d. heap s p \<noteq> Some (LedObj d)) \<Longrightarrow> (\<forall>d. heap t p \<noteq> Some (LedObj d)) \<Longrightarrow> heap t p = heap s p"
    using h [of p] by (auto split: option.splits obj.splits)
  show "relay_at p t = relay_at p s"
    using h [of p] by (auto simp: relay_at_def split: option.splits obj.splits)
  show "g_led t = g_led s" "g_relays t = g_relays s" "sys t = sys s" "brk t = brk s"
    using arg_cong [OF s, of g_led] arg_cong [OF s, of g_relays] arg_cong [OF s, of sys]
      arg_cong [OF s, of brk] by simp_all
qed

text \<open>Switching the LED: its status and pin follow the command, everything else stays.\<close>

lemma user_led_set_wp:
  assumes "led_ok s" "x = 0 \<or> x = 1"
  shows "wp (led_status_set (g_led s) x s) (\<lambda>(r, t).
    user_led_states_get t = (if r then Some x else user_led_states_get s) \<and>
    led_ok t \<and> led_rest t = led_rest s \<and> (gpio_ok s \<longrightarrow> r))"
proof -
  have "led_states_get (g_led s) s \<noteq> None"
    using assms(1) led_dev.live_iff [of "g_led s" s] by (simp add: led_ok_def)
  then obtain r t where t: "led_status_set (g_led s) x s = Some (r, t)"
    using led_dev.set_live by blast
  with \<open>led_states_get (g_led s) s \<noteq> None\<close> led_dev.set_wp [of "g_led s" s x]
  have "led_states_get (g_led s) t = (if r then Some x else led_states_get (g_led s) s)"
    "led_rest t = led_rest s" "\<forall>q. led_pin_of q t = led_pin_of q s" by auto
  with t assms(1) led_status_set_ok [OF _ t] led_restD(4) [of t s] show ?thesis
    by (simp add: user_led_states_get_def led_ok_def)
qed

end
