(* ===== verification/UserRelay.thy ===== *)
theory UserRelay
  imports Relay UserLed
begin

text \<open>
  \<open>src/components/user/user_relay.c\<close>: the six relays of the power strip, and the LED that
  shows whether one of them is on. \<open>mqtt_relay_update_flag\<close> is the one function of
  \<open>user_mqtt.c\<close> this file calls.
\<close>

definition relays_gpio :: "gpio_number_e list" where
  "relays_gpio = [GPIO22, GPIO24, GPIO8, GPIO23, GPADC0, GPIO3]"

definition mqtt_relay_update_flag :: "bool \<Rightarrow> fw \<Rightarrow> fw" where
  "mqtt_relay_update_flag update_flg s = s\<lparr>g_relay_update_flg := update_flg\<rparr>"

text \<open>\<open>_relays[id]\<close>: undefined outside the array.\<close>

definition relays_nth :: "nat \<Rightarrow> fw \<Rightarrow> ptr option" where
  "relays_nth i s = (if i < length (g_relays s) then Some (g_relays s ! i) else None)"

definition user_relay_states_set :: "u32 \<Rightarrow> relay_status_e \<Rightarrow> fw \<Rightarrow> (relay_status_e \<times> fw) option" where
  "user_relay_states_set rid status s =
     do {
       p \<leftarrow> relays_nth (unat rid) s;
       (ok, s) \<leftarrow> relay_states_set p status s;
       Some (if ok then 1 else 0, s)
     }"

definition user_relay_states_get :: "u32 \<Rightarrow> fw \<Rightarrow> relay_status_e option" where
  "user_relay_states_get rid s = do { p \<leftarrow> relays_nth (unat rid) s; relay_states_get p s }"

text \<open>The loop of \<open>user_relay_led_state\<close>; \<open>True\<close> when it returned from inside.\<close>

fun relay_led_loop :: "nat list \<Rightarrow> fw \<Rightarrow> (bool \<times> fw) option" where
  "relay_led_loop [] s = Some (False, s)"
| "relay_led_loop (i # is) s =
     do {
       p \<leftarrow> relays_nth i s;
       st \<leftarrow> relay_states_get p s;
       if st = RELAY_STATUS_OPEN then
         do {
           l \<leftarrow> user_led_states_get s;
           s \<leftarrow> (if l = LED_STATUS_OFF then user_led_on s else Some s);
           Some (True, s)
         }
       else relay_led_loop is s
     }"

definition user_relay_led_state :: "fw \<Rightarrow> fw option" where
  "user_relay_led_state s =
     do {
       (returned, s) \<leftarrow> relay_led_loop [0..<6] s;
       if returned then Some s else user_led_off s
     }"

definition user_relay_aLL_set :: "relay_status_e \<Rightarrow> fw \<Rightarrow> fw option" where
  "user_relay_aLL_set status s =
     do {
       s \<leftarrow> for_each [0..<6]
             (\<lambda>i s. do { p \<leftarrow> relays_nth i s; (_, s) \<leftarrow> relay_states_set p status s; Some s }) s;
       Some (mqtt_relay_update_flag True s)
     }"

fun relay_init_loop :: "nat list \<Rightarrow> fw \<Rightarrow> fw" where
  "relay_init_loop [] s = s"
| "relay_init_loop (i # is) s =
     (let (p, s) = relay_create (relays_gpio ! i) GPIO_LOW s
      in relay_init_loop is (s\<lparr>g_relays := (g_relays s)[i := p]\<rparr>))"

definition user_relay_init :: "fw \<Rightarrow> fw" where
  "user_relay_init s = relay_init_loop [0..<6] s"

subsection \<open>The bank of relays\<close>

text \<open>Six distinct relays, each on its own pin and switched by a low level.\<close>

definition relays_ok :: "fw \<Rightarrow> bool" where
  "relays_ok s \<longleftrightarrow>
     length (g_relays s) = 6 \<and> distinct (g_relays s) \<and>
     (\<forall>i<6. relay_pin_of (g_relays s ! i) s = Some (relays_gpio ! i, GPIO_LOW))"

text \<open>The statuses of the relays, in order.\<close>

definition relay_bank :: "fw \<Rightarrow> relay_status_e option list" where
  "relay_bank s = map (\<lambda>p. relay_states_get p s) (g_relays s)"

definition board_ok :: "fw \<Rightarrow> bool" where
  "board_ok s \<longleftrightarrow> led_ok s \<and> relays_ok s"

lemma relays_gpio_distinct: "distinct relays_gpio" "length relays_gpio = 6"
  by (simp_all add: relays_gpio_def)

lemma relays_ok_separate: "relays_ok s \<Longrightarrow> separate relay_pin_of (g_relays s) s"
  unfolding separate_def relays_ok_def using relays_gpio_distinct
  by (auto simp: in_set_conv_nth nth_eq_iff_index_eq)

lemma relays_ok_live: "relays_ok s \<Longrightarrow> p \<in> set (g_relays s) \<Longrightarrow> relay_states_get p s \<noteq> None"
  by (subst relay_dev.live_iff) (auto simp: relays_ok_def in_set_conv_nth)

text \<open>What relay commands leave alone.\<close>

lemma relay_restD:
  assumes "relay_rest t = relay_rest s"
  shows "t\<lparr>calls := [], heap := Map.empty\<rparr> = s\<lparr>calls := [], heap := Map.empty\<rparr>"
    and "led_at p t = led_at p s"
    and "g_led t = g_led s" "g_relays t = g_relays s" "sys t = sys s" "brk t = brk s"
proof -
  have h: "(case heap t p of Some (RelayObj d) \<Rightarrow> None | x \<Rightarrow> x) =
      (case heap s p of Some (RelayObj d) \<Rightarrow> None | x \<Rightarrow> x)" for p
    using assms by (auto simp: relay_rest_def fun_eq_iff)
  show s: "t\<lparr>calls := [], heap := Map.empty\<rparr> = s\<lparr>calls := [], heap := Map.empty\<rparr>"
    using assms by (simp add: relay_rest_def)
  show "led_at p t = led_at p s"
    using h [of p] by (auto simp: led_at_def split: option.splits obj.splits)
  show "g_led t = g_led s" "g_relays t = g_relays s" "sys t = sys s" "brk t = brk s"
    using arg_cong [OF s, of g_led] arg_cong [OF s, of g_relays] arg_cong [OF s, of sys]
      arg_cong [OF s, of brk] by simp_all
qed

subsection \<open>The board: statuses match pins\<close>

text \<open>
  The invariant of the board: the LED and the six relays exist on their pins, and each pin was
  last driven to what the status in memory says.
\<close>

definition board_inv :: "fw \<Rightarrow> bool" where
  "board_inv s \<longleftrightarrow>
     board_ok s \<and> in_step led_states_get led_pin_of (g_led s) s \<and>
     (\<forall>p\<in>set (g_relays s). in_step relay_states_get relay_pin_of p s)"

lemma led_dev_facts:
  assumes "led_rest t = led_rest s"
  shows "relay_states_get p t = relay_states_get p s" "relay_pin_of p t = relay_pin_of p s"
    "relays_ok t = relays_ok s" "relay_bank t = relay_bank s" "relays_nth i t = relays_nth i s"
  using led_restD [OF assms]
  by (simp_all add: relay_states_get_def relay_pin_of_def relays_ok_def relay_bank_def relays_nth_def)

lemma relay_dev_facts:
  assumes "relay_rest t = relay_rest s"
  shows "led_states_get p t = led_states_get p s" "led_pin_of p t = led_pin_of p s"
    "led_ok t = led_ok s" "user_led_states_get t = user_led_states_get s"
    "relays_nth i t = relays_nth i s"
  using relay_restD [OF assms]
  by (simp_all add: led_states_get_def led_pin_of_def led_ok_def user_led_states_get_def relays_nth_def)

lemma relay_pin_not_led:
  assumes "relays_ok s" "p \<in> set (g_relays s)" "relay_pin_of p s = Some (n, l)"
  shows "n \<noteq> GPIO5"
proof -
  obtain i where "i < 6" "p = g_relays s ! i"
    using assms(1,2) by (auto simp: relays_ok_def in_set_conv_nth)
  then have "n = relays_gpio ! i" using assms(1,3) by (simp add: relays_ok_def)
  then have "n \<in> set relays_gpio" using \<open>i < 6\<close> relays_gpio_distinct(2) by simp
  then show ?thesis by (auto simp: relays_gpio_def)
qed

lemma board_inv_led_set:
  assumes "board_inv s" "x = 0 \<or> x = 1"
  shows "wp (led_status_set (g_led s) x s) (\<lambda>(r, t).
    board_inv t \<and> led_rest t = led_rest s \<and> (gpio_ok s \<longrightarrow> r) \<and>
    user_led_states_get t = (if r then Some x else user_led_states_get s))"
proof -
  have ok: "led_ok s" "relays_ok s" and l: "in_step led_states_get led_pin_of (g_led s) s"
    using assms(1) by (auto simp: board_inv_def board_ok_def)
  obtain r t where t: "led_status_set (g_led s) x s = Some (r, t)"
    and f: "user_led_states_get t = (if r then Some x else user_led_states_get s)"
      "led_ok t" "led_rest t = led_rest s" "gpio_ok s \<longrightarrow> r"
    using user_led_set_wp [OF ok(1) assms(2)] by (auto simp: wp_Some_iff)
  note lf = led_restD [OF f(3)] led_dev_facts [OF f(3)]
  have "in_step led_states_get led_pin_of (g_led s) t"
    by (rule led_dev.in_step_set_same [OF l assms(2) t])
  moreover have "in_step relay_states_get relay_pin_of p t" if "p \<in> set (g_relays s)" for p
  proof -
    have "in_step relay_states_get relay_pin_of p s" using assms(1) that by (simp add: board_inv_def)
    moreover have "level_of n t = level_of n s" if "relay_pin_of p s = Some (n, l)" for n l
      using relay_pin_not_led [OF ok(2) \<open>p \<in> set (g_relays s)\<close> that] ok(1)
      by (intro led_dev.drive_other [OF t]) (auto simp: led_ok_def)
    ultimately show ?thesis using in_step_cong [of relay_pin_of p t s relay_states_get] lf by simp
  qed
  ultimately show ?thesis using t f ok lf by (simp add: board_inv_def board_ok_def)
qed

lemma board_inv_relay_set:
  assumes "board_inv s" "x = 0 \<or> x = 1" "i < 6"
  shows "wp (relay_states_set (g_relays s ! i) x s) (\<lambda>(r, t).
    board_inv t \<and> relay_rest t = relay_rest s \<and> (gpio_ok s \<longrightarrow> r) \<and>
    relay_bank t = (if r then (relay_bank s)[i := Some x] else relay_bank s))"
proof -
  let ?p = "g_relays s ! i"
  have ok: "led_ok s" "relays_ok s" and l: "in_step led_states_get led_pin_of (g_led s) s"
    and rs: "\<forall>p\<in>set (g_relays s). in_step relay_states_get relay_pin_of p s"
    using assms(1) by (auto simp: board_inv_def board_ok_def)
  have len: "length (g_relays s) = 6" "distinct (g_relays s)" using ok(2) by (simp_all add: relays_ok_def)
  have p: "?p \<in> set (g_relays s)" using len assms(3) by simp
  obtain r t where t: "relay_states_set ?p x s = Some (r, t)"
    using relay_dev.set_live [OF relays_ok_live [OF ok(2) p]] by blast
  have f: "relay_rest t = relay_rest s" "\<And>q. relay_pin_of q t = relay_pin_of q s"
    by (rule relay_dev.rest_set [OF t]) (rule relay_dev.pin_set [OF t])
  note rf = relay_restD [OF f(1)] relay_dev_facts [OF f(1)]
  have g: "relay_states_get q t = (if q = ?p \<and> r then Some x else relay_states_get q s)" for q
    using relay_states_set_get [OF t] relay_dev.get_other [OF t] by (cases "q = ?p") auto
  have b: "relay_bank t = (if r then (relay_bank s)[i := Some x] else relay_bank s)"
    using len assms(3)
    by (auto simp: relay_bank_def rf g nth_eq_iff_index_eq intro!: nth_equalityI simp: nth_list_update)
  have gp: "gpio_ok s \<longrightarrow> r"
  proof
    assume "gpio_ok s"
    obtain d where d: "relay_at ?p s = Some d"
      using t by (auto simp: relay_states_set_def split: Option.bind_splits)
    have "fst (gpio_output_set (relay_gpio_num d) (drive_level x (relay_trigger_level d)) s)"
      by (rule gpio_output_set_ok [OF \<open>gpio_ok s\<close> drive_level_legal])
    with t d show r by (auto simp: relay_states_set_def split: if_splits prod.splits)
  qed
  have "relay_pin_of ?p s = Some (relays_gpio ! i, GPIO_LOW)"
    using ok(2) assms(3) by (simp add: relays_ok_def)
  moreover have "relays_gpio ! i \<noteq> GPIO5"
    by (rule relay_pin_not_led [OF ok(2) p calculation])
  ultimately have "level_of GPIO5 t = level_of GPIO5 s"
    by (intro relay_dev.drive_other [OF t]) auto
  then have "in_step led_states_get led_pin_of (g_led s) t"
    using l ok(1) in_step_cong [of led_pin_of "g_led s" t s led_states_get] rf by (auto simp: led_ok_def)
  moreover have "\<forall>q\<in>set (g_relays s). in_step relay_states_get relay_pin_of q t"
    using relay_dev.in_step_set [OF rs relays_ok_separate [OF ok(2)] p assms(2) t] by simp
  moreover have "relays_ok t" using ok(2) by (simp add: relays_ok_def rf f(2))
  ultimately show ?thesis using t f(1) gp b ok rf by (simp add: board_inv_def board_ok_def)
qed

lemma board_invD:
  assumes "board_inv s"
  shows "board_ok s" "led_ok s" "relays_ok s" "length (g_relays s) = 6" "length (relay_bank s) = 6"
    "user_led_states_get s = Some 0 \<or> user_led_states_get s = Some 1"
    "i < 6 \<Longrightarrow> relays_nth i s = Some (g_relays s ! i)"
    "i < 6 \<Longrightarrow> relay_bank s ! i = Some 0 \<or> relay_bank s ! i = Some 1"
    "i < 6 \<Longrightarrow> relay_states_get (g_relays s ! i) s = relay_bank s ! i"
proof -
  show o: "board_ok s" "led_ok s" "relays_ok s" "length (g_relays s) = 6"
    using assms by (simp_all add: board_inv_def board_ok_def relays_ok_def)
  then show l: "length (relay_bank s) = 6" by (simp add: relay_bank_def)
  show "user_led_states_get s = Some 0 \<or> user_led_states_get s = Some 1"
    using assms in_step_live by (auto simp: board_inv_def user_led_states_get_def)
  show "i < 6 \<Longrightarrow> relays_nth i s = Some (g_relays s ! i)" using o by (simp add: relays_nth_def)
  show g: "i < 6 \<Longrightarrow> relay_states_get (g_relays s ! i) s = relay_bank s ! i"
    using o by (simp add: relay_bank_def)
  show "i < 6 \<Longrightarrow> relay_bank s ! i = Some 0 \<or> relay_bank s ! i = Some 1"
    using assms g o in_step_live [of relay_states_get relay_pin_of "g_relays s ! i" s]
    by (auto simp: board_inv_def)
qed

text \<open>One relay switched from outside.\<close>

lemma user_relay_states_set_wp:
  assumes "board_inv s" "x = 0 \<or> x = 1" "unat rid < 6"
  shows "wp (user_relay_states_set rid x s) (\<lambda>(r, t).
    board_inv t \<and> relay_rest t = relay_rest s \<and> (gpio_ok s \<longrightarrow> r = 1) \<and>
    relay_bank t = (if r = 1 then (relay_bank s)[unat rid := Some x] else relay_bank s))"
proof -
  obtain ok t where "relay_states_set (g_relays s ! unat rid) x s = Some (ok, t)"
    "board_inv t" "relay_rest t = relay_rest s" "gpio_ok s \<longrightarrow> ok"
    "relay_bank t = (if ok then (relay_bank s)[unat rid := Some x] else relay_bank s)"
    using board_inv_relay_set [OF assms] by (auto simp: wp_Some_iff)
  then show ?thesis
    using board_invD(7) [OF assms(1,3)] by (cases ok) (simp_all add: user_relay_states_set_def)
qed

lemma user_relay_states_set_out: "6 \<le> unat rid \<Longrightarrow> length (g_relays s) = 6 \<Longrightarrow>
    user_relay_states_set rid x s = None"
  by (simp add: user_relay_states_set_def relays_nth_def)

lemma user_relay_states_get_eq:
  assumes "board_inv s" "unat rid < 6"
  shows "user_relay_states_get rid s = relay_bank s ! unat rid"
  using board_invD [OF assms(1)] assms(2) by (simp add: user_relay_states_get_def)

text \<open>The LED after \<open>user_relay_led_state\<close>: lit exactly when a relay is on.\<close>

definition any_open :: "fw \<Rightarrow> bool" where
  "any_open s \<longleftrightarrow> Some RELAY_STATUS_OPEN \<in> set (relay_bank s)"

lemma relay_led_loop_wp:
  assumes "board_inv s" "\<forall>i\<in>set is. i < 6"
  shows "wp (relay_led_loop is s) (\<lambda>(b, t).
    board_inv t \<and> led_rest t = led_rest s \<and>
    b = (\<exists>i\<in>set is. relay_bank s ! i = Some 1) \<and>
    (gpio_ok s \<and> b \<longrightarrow> user_led_states_get t = Some LED_STATUS_ON) \<and> (\<not> b \<longrightarrow> t = s))"
  using assms(2)
proof (induction "is")
  case Nil
  then show ?case using assms(1) by simp
next
  case (Cons i "is")
  then have i: "i < 6" by simp
  note inv = board_invD [OF assms(1)]
  show ?case
  proof (cases "relay_bank s ! i = Some 1")
    case False
    have "wp (relay_led_loop is s) (\<lambda>(b, t).
      board_inv t \<and> led_rest t = led_rest s \<and>
      b = (\<exists>i\<in>set is. relay_bank s ! i = Some 1) \<and>
      (gpio_ok s \<and> b \<longrightarrow> user_led_states_get t = Some LED_STATUS_ON) \<and> (\<not> b \<longrightarrow> t = s))"
      using Cons by simp
    with False show ?thesis using inv(7-9) [OF i] by auto
  next
    case True
    have "wp (user_led_on s) (\<lambda>t. board_inv t \<and> led_rest t = led_rest s \<and>
        (gpio_ok s \<longrightarrow> user_led_states_get t = Some LED_STATUS_ON))"
      using board_inv_led_set [OF assms(1), of 1] by (auto simp: user_led_on_def wp_Some_iff)
    with True show ?thesis using inv(6) inv(7-9) [OF i] assms(1) by (auto simp: wp_Some_iff)
  qed
qed

lemma any_open_iff: "board_inv s \<Longrightarrow> any_open s \<longleftrightarrow> (\<exists>i\<in>set [0..<6]. relay_bank s ! i = Some 1)"
  using board_invD(5) [of s] by (auto simp: any_open_def in_set_conv_nth)

lemma user_relay_led_state_wp:
  assumes "board_inv s"
  shows "wp (user_relay_led_state s) (\<lambda>t.
    board_inv t \<and> led_rest t = led_rest s \<and>
    (gpio_ok s \<longrightarrow>
       user_led_states_get t = Some (if any_open s then LED_STATUS_ON else LED_STATUS_OFF)))"
proof -
  have "wp (user_led_off s) (\<lambda>t. board_inv t \<and> led_rest t = led_rest s \<and>
      (gpio_ok s \<longrightarrow> user_led_states_get t = Some LED_STATUS_OFF))"
    using board_inv_led_set [OF assms, of 0] by (auto simp: user_led_off_def wp_Some_iff)
  moreover have "wp (relay_led_loop [0..<6] s) (\<lambda>(b, t).
      board_inv t \<and> led_rest t = led_rest s \<and> b = any_open s \<and>
      (gpio_ok s \<and> b \<longrightarrow> user_led_states_get t = Some LED_STATUS_ON) \<and> (\<not> b \<longrightarrow> t = s))"
    using relay_led_loop_wp [OF assms, of "[0..<6]"] unfolding any_open_iff [OF assms] by simp
  ultimately show ?thesis by (auto simp: user_relay_led_state_def wp_Some_iff)
qed

text \<open>The board depends on its objects, its two global variables and the pins' levels only.\<close>

lemma board_cong:
  assumes at: "\<And>p. led_at p t = led_at p s" "\<And>p. relay_at p t = relay_at p s"
    and g: "g_led t = g_led s" "g_relays t = g_relays s"
    and lv: "\<And>n. level_of n t = level_of n s"
  shows "board_inv t = board_inv s" "relay_bank t = relay_bank s" "any_open t = any_open s"
    "user_led_states_get t = user_led_states_get s" "board_ok t = board_ok s"
proof -
  have d: "led_pin_of p t = led_pin_of p s" "led_states_get p t = led_states_get p s"
    "relay_pin_of p t = relay_pin_of p s" "relay_states_get p t = relay_states_get p s" for p
    by (simp_all add: led_pin_of_def led_states_get_def relay_pin_of_def relay_states_get_def at)
  have i: "in_step led_states_get led_pin_of p t = in_step led_states_get led_pin_of p s"
    "in_step relay_states_get relay_pin_of p t = in_step relay_states_get relay_pin_of p s" for p
    by (intro in_step_cong d lv)+
  show o: "board_ok t = board_ok s"
    by (simp add: board_ok_def led_ok_def relays_ok_def d g)
  show "board_inv t = board_inv s" by (simp add: board_inv_def o i g)
  show b: "relay_bank t = relay_bank s" by (simp add: relay_bank_def d g)
  show "any_open t = any_open s" by (simp add: any_open_def b)
  show "user_led_states_get t = user_led_states_get s" by (simp add: user_led_states_get_def d g)
qed

lemma board_flag [simp]:
  "board_inv (s\<lparr>g_relay_update_flg := b\<rparr>) = board_inv s"
  "relay_bank (s\<lparr>g_relay_update_flg := b\<rparr>) = relay_bank s"
  "any_open (s\<lparr>g_relay_update_flg := b\<rparr>) = any_open s"
  "user_led_states_get (s\<lparr>g_relay_update_flg := b\<rparr>) = user_led_states_get s"
  by (rule board_cong; simp add: at_defs)+

text \<open>Calls that do not configure a pin, and the variables of the other files, leave it too.\<close>

lemma board_call [simp]:
  assumes "\<And>f fl. c \<noteq> Configure_fpin f fl"
  shows "board_inv (s\<lparr>calls := c # calls s\<rparr>) = board_inv s"
    "relay_bank (s\<lparr>calls := c # calls s\<rparr>) = relay_bank s"
    "any_open (s\<lparr>calls := c # calls s\<rparr>) = any_open s"
    "user_led_states_get (s\<lparr>calls := c # calls s\<rparr>) = user_led_states_get s"
  by (rule board_cong; use assms in \<open>simp add: at_defs\<close>)+

lemma board_key [simp]:
  "board_inv (s\<lparr>g_interrupt_time := a\<rparr>) = board_inv s"
  "board_inv (s\<lparr>g_last_interrupt_time := a\<rparr>) = board_inv s"
  "board_inv (s\<lparr>g_interrupt_duration := a\<rparr>) = board_inv s"
  "board_inv (s\<lparr>g_relay_all_status := x\<rparr>) = board_inv s"
  "relay_bank (s\<lparr>g_interrupt_time := a\<rparr>) = relay_bank s"
  "relay_bank (s\<lparr>g_last_interrupt_time := a\<rparr>) = relay_bank s"
  "relay_bank (s\<lparr>g_interrupt_duration := a\<rparr>) = relay_bank s"
  "relay_bank (s\<lparr>g_relay_all_status := x\<rparr>) = relay_bank s"
  "user_led_states_get (s\<lparr>g_interrupt_time := a\<rparr>) = user_led_states_get s"
  "user_led_states_get (s\<lparr>g_last_interrupt_time := a\<rparr>) = user_led_states_get s"
  "user_led_states_get (s\<lparr>g_interrupt_duration := a\<rparr>) = user_led_states_get s"
  "user_led_states_get (s\<lparr>g_relay_all_status := x\<rparr>) = user_led_states_get s"
  by (rule board_cong; simp add: at_defs)+

lemma relay_rest_flag:
  "relay_rest t = relay_rest s \<Longrightarrow>
     relay_rest (t\<lparr>g_relay_update_flg := b\<rparr>) = relay_rest (s\<lparr>g_relay_update_flg := b\<rparr>)"
  by (cases s; cases t) (simp add: relay_rest_def)

lemma gpio_ok_sys: "sys t = sys s \<Longrightarrow> gpio_ok t = gpio_ok s"
  by (simp add: gpio_ok_def)

text \<open>All relays at once: every one that answers takes the status, and the flag is raised.\<close>

definition bank_set :: "relay_status_e \<Rightarrow> nat set \<Rightarrow> fw \<Rightarrow> fw \<Rightarrow> bool" where
  "bank_set x done_ix s t \<longleftrightarrow>
     (\<forall>i<6. relay_bank t ! i = relay_bank s ! i \<or> i \<in> done_ix \<and> relay_bank t ! i = Some x) \<and>
     (gpio_ok s \<longrightarrow> (\<forall>i<6. i \<in> done_ix \<longrightarrow> relay_bank t ! i = Some x))"

lemma bank_set_step:
  assumes "bank_set x D s t" "length (relay_bank t) = 6" "i < 6" "gpio_ok s \<longrightarrow> r"
    and "relay_bank u = (if r then (relay_bank t)[i := Some x] else relay_bank t)"
  shows "bank_set x (insert i D) s u"
proof -
  have "relay_bank u ! j = (if j = i \<and> r then Some x else relay_bank t ! j)" if "j < 6" for j
    using assms(2,3,5) that by (simp add: nth_list_update)
  then show ?thesis using assms(1,4) unfolding bank_set_def by auto
qed

lemma relays_set_loop:
  assumes "board_inv s" "x = 0 \<or> x = 1"
  shows "wp (for_each [0..<6]
      (\<lambda>i s. do { p \<leftarrow> relays_nth i s; (_, s) \<leftarrow> relay_states_set p x s; Some s }) s)
    (\<lambda>t. board_inv t \<and> relay_rest t = relay_rest s \<and> bank_set x (set [0..<6]) s t)"
proof (rule for_each_prefix_inv [where I = "\<lambda>pre t. board_inv t \<and> relay_rest t = relay_rest s \<and>
    bank_set x (set pre) s t"])
  fix pre i suf t
  assume e: "[0..<6] = pre @ i # suf"
    and I: "board_inv t \<and> relay_rest t = relay_rest s \<and> bank_set x (set pre) s t"
  have "i \<in> set [0..<6]" by (simp only: e) simp
  then have i: "i < 6" by simp
  obtain r u where u: "relay_states_set (g_relays t ! i) x t = Some (r, u)" "board_inv u"
    "relay_rest u = relay_rest t" "gpio_ok t \<longrightarrow> r"
    "relay_bank u = (if r then (relay_bank t)[i := Some x] else relay_bank t)"
    using board_inv_relay_set [of t x i] assms(2) i I by (auto simp: wp_Some_iff)
  have "gpio_ok s \<longrightarrow> r" using u(4) I gpio_ok_sys [of t s] relay_restD(5) [of t s] by simp
  then have "bank_set x (insert i (set pre)) s u"
    using bank_set_step [of x "set pre" s t i r u] I i u(5) board_invD(5) [of t] by simp
  then show "wp (do { p \<leftarrow> relays_nth i t; (_, s) \<leftarrow> relay_states_set p x t; Some s })
      (\<lambda>t. board_inv t \<and> relay_rest t = relay_rest s \<and> bank_set x (set (pre @ [i])) s t)"
    using u board_invD(7) [of t i] i I by simp
next
  show "board_inv s \<and> relay_rest s = relay_rest s \<and> bank_set x (set []) s s"
    using assms(1) by (simp add: bank_set_def)
qed

lemma user_relay_aLL_set_wp:
  assumes "board_inv s" "x = 0 \<or> x = 1"
  shows "wp (user_relay_aLL_set x s) (\<lambda>t.
    board_inv t \<and> relay_rest t = relay_rest (s\<lparr>g_relay_update_flg := True\<rparr>) \<and>
    g_relay_update_flg t \<and> bank_set x {0..<6} s t)"
proof -
  have "bank_set x D s (t\<lparr>g_relay_update_flg := b\<rparr>) = bank_set x D s t" for t b D
    by (simp add: bank_set_def)
  then show ?thesis
    using relays_set_loop [OF assms]
    by (auto simp: user_relay_aLL_set_def mqtt_relay_update_flag_def wp_Some_iff intro: relay_rest_flag)
qed

lemma bank_set_all:
  assumes "gpio_ok s" "bank_set x {0..<6} s t" "length (relay_bank t) = 6"
  shows "relay_bank t = replicate 6 (Some x)"
  using assms by (auto simp: bank_set_def intro!: nth_equalityI)

text \<open>Creating the board: from a heap where nothing failed and no pin was driven yet.\<close>

lemma pin_level_malloc [simp]: "pin_level sy (Malloc t # cs) f = pin_level sy cs f"
  by simp

lemma user_led_init_wp:
  assumes "heap_ok s" "malloc_ok s"
  shows "g_led (user_led_init s) = brk s" "brk (user_led_init s) = Suc (brk s)"
    "heap (user_led_init s) = (heap s)(brk s \<mapsto> LedObj \<lparr>led_gpio_num = GPIO5,
        led_trigger_level = GPIO_HIGH, led_status = LED_STATUS_OFF\<rparr>)"
    "sys (user_led_init s) = sys s" "level_of n (user_led_init s) = level_of n s"
    "g_relays (user_led_init s) = g_relays s" "heap_ok (user_led_init s)"
    "malloc_ok (user_led_init s)"
  using assms
  by (simp_all add: user_led_init_def led_create_def malloc_ok_eq heap_ok_def)
     (simp add: malloc_ok_def)

lemma relay_create_wp:
  assumes "heap_ok s" "malloc_ok s"
  shows "relay_create n l s = (brk s, s\<lparr>calls := Malloc ''relay_device_t'' # calls s,
      heap := (heap s)(brk s \<mapsto> RelayObj \<lparr>relay_gpio_num = n, relay_trigger_level = l,
        relay_status = RELAY_STATUS_CLOSE\<rparr>), brk := Suc (brk s)\<rparr>)"
  using assms by (simp add: relay_create_def malloc_ok_eq)

text \<open>The loop of \<open>user_relay_init\<close> from index \<open>k\<close>: relay \<open>i\<close> gets the block \<open>b + i\<close>.\<close>

definition relays_made :: "nat \<Rightarrow> ptr \<Rightarrow> fw \<Rightarrow> bool" where
  "relays_made k b s \<longleftrightarrow>
     length (g_relays s) = 6 \<and> brk s = b + k \<and>
     (\<forall>i<k. g_relays s ! i = b + i \<and> heap s (b + i) = Some (RelayObj \<lparr>relay_gpio_num = relays_gpio ! i,
        relay_trigger_level = GPIO_LOW, relay_status = RELAY_STATUS_CLOSE\<rparr>))"

lemma relay_init_loop_made:
  assumes "heap_ok s" "malloc_ok s" "relays_made k b s" "k \<le> 6"
  shows "let t = relay_init_loop [k..<6] s in heap_ok t \<and> malloc_ok t \<and> relays_made 6 b t \<and>
    sys t = sys s \<and> (\<forall>n. level_of n t = level_of n s) \<and> g_led t = g_led s \<and>
    (\<forall>p<brk s. heap t p = heap s p)"
  using assms
proof (induction "6 - k" arbitrary: k s)
  case 0
  then have "k = 6" by simp
  with 0 show ?case by simp
next
  case (Suc m)
  then have k: "k < 6" by simp
  define u where "u = s\<lparr>calls := Malloc ''relay_device_t'' # calls s,
      heap := (heap s)(brk s \<mapsto> RelayObj \<lparr>relay_gpio_num = relays_gpio ! k, relay_trigger_level = 0,
        relay_status = 0\<rparr>), brk := Suc (brk s), g_relays := (g_relays s)[k := brk s]\<rparr>"
  have step: "relay_init_loop [k..<6] s = relay_init_loop [Suc k..<6] u"
    using k Suc.prems by (simp add: upt_conv_Cons relay_create_wp u_def)
  have hu: "heap_ok u" "malloc_ok u"
    using Suc.prems by (auto simp: u_def heap_ok_def malloc_ok_def)
  have "relays_made (Suc k) b u"
    using Suc.prems(3) k by (auto simp: relays_made_def u_def less_Suc_eq nth_list_update)
  from Suc.hyps(1) [OF _ hu this] Suc.hyps(2) k
  have "let t = relay_init_loop [Suc k..<6] u in heap_ok t \<and> malloc_ok t \<and> relays_made 6 b t \<and>
    sys t = sys u \<and> (\<forall>n. level_of n t = level_of n u) \<and> g_led t = g_led u \<and>
    (\<forall>p<brk u. heap t p = heap u p)" by simp
  then show ?case unfolding step by (auto simp: Let_def u_def)
qed

lemma board_init:
  assumes "heap_ok s" "malloc_ok s" "\<And>n. level_of n s = None" "length (g_relays s) = 6"
  shows "board_inv (user_relay_init (user_led_init s))"
    and "relay_bank (user_relay_init (user_led_init s)) = replicate 6 (Some RELAY_STATUS_CLOSE)"
    and "user_led_states_get (user_relay_init (user_led_init s)) = Some LED_STATUS_OFF"
proof -
  let ?u = "user_led_init s" and ?t = "user_relay_init (user_led_init s)"
  note u = user_led_init_wp [OF assms(1,2)]
  have "relays_made 0 (brk ?u) ?u" using assms(4) u by (simp add: relays_made_def)
  from relay_init_loop_made [OF u(7,8) this]
  have t: "heap_ok ?t" "relays_made 6 (brk ?u) ?t" "\<forall>n. level_of n ?t = level_of n ?u"
    "g_led ?t = g_led ?u" "\<forall>p<brk ?u. heap ?t p = heap ?u p"
    unfolding user_relay_init_def Let_def by blast+
  have lv: "level_of n ?t = None" for n using t(3) u(5) assms(3) by simp
  have led: "led_at (g_led ?t) ?t = Some \<lparr>led_gpio_num = GPIO5, led_trigger_level = 1, led_status = 0\<rparr>"
    using t u by (simp add: led_at_iff)
  have rel: "length (g_relays ?t) = 6"
    "i < 6 \<Longrightarrow> relay_at (g_relays ?t ! i) ?t =
      Some \<lparr>relay_gpio_num = relays_gpio ! i, relay_trigger_level = 0, relay_status = 0\<rparr>" for i
    using t(2) by (auto simp: relays_made_def relay_at_iff)
  have "distinct (g_relays ?t)"
    using t(2) by (auto simp: relays_made_def distinct_conv_nth)
  then have ok: "board_ok ?t"
    using rel led by (simp add: board_ok_def led_ok_def relays_ok_def led_pin_of_def relay_pin_of_def)
  show "relay_bank ?t = replicate 6 (Some RELAY_STATUS_CLOSE)"
    using rel by (auto simp: relay_bank_def relay_states_get_def intro!: nth_equalityI)
  show "user_led_states_get ?t = Some LED_STATUS_OFF"
    using led by (simp add: user_led_states_get_def led_states_get_def)
  have "in_step relay_states_get relay_pin_of p ?t" if p: "p \<in> set (g_relays ?t)" for p
  proof -
    obtain i where "i < 6" "p = g_relays ?t ! i" using p rel(1) by (auto simp: in_set_conv_nth)
    then show ?thesis using rel(2) [of i] lv
      by (simp add: in_step_def relay_pin_of_def relay_states_get_def)
  qed
  then show "board_inv ?t"
    using ok led lv [of GPIO5] by (simp add: board_inv_def in_step_def led_pin_of_def led_states_get_def)
qed

text \<open>The board on a simulated SDK.\<close>

definition sim_board :: "(nat \<Rightarrow> nat) \<Rightarrow> fw" where
  "sim_board clk = user_relay_init (user_led_init (boot_state (sim_sdk clk) (\<lambda>_ _. NUL)))"

lemma relay_init_loop_vars:
  "sys (relay_init_loop is s) = sys s \<and> g_relay_all_status (relay_init_loop is s) = g_relay_all_status s \<and>
   g_relay_update_flg (relay_init_loop is s) = g_relay_update_flg s \<and>
   g_last_interrupt_time (relay_init_loop is s) = g_last_interrupt_time s \<and>
   count_list (calls (relay_init_loop is s)) Get_time = count_list (calls s) Get_time"
proof (induction "is" arbitrary: s)
  case (Cons i "is")
  obtain p t where t: "relay_create (relays_gpio ! i) GPIO_LOW s = (p, t)" "sys t = sys s"
    "g_relay_all_status t = g_relay_all_status s" "g_relay_update_flg t = g_relay_update_flg s"
    "g_last_interrupt_time t = g_last_interrupt_time s"
    "count_list (calls t) Get_time = count_list (calls s) Get_time"
    by (cases "relay_create (relays_gpio ! i) GPIO_LOW s")
      (auto simp: relay_create_def hfmem_malloc_def sdk_int_def split: if_splits)
  then show ?case by (simp add: Cons)
qed simp

lemma sim_board_sys: "sys (sim_board clk) = sim_sdk clk" "g_relay_all_status (sim_board clk) = 0"
  "g_relay_update_flg (sim_board clk) = False" "g_last_interrupt_time (sim_board clk) = 0"
  "count_list (calls (sim_board clk)) Get_time = 0"
proof -
  let ?s = "boot_state (sim_sdk clk) (\<lambda>_ _. NUL)"
  have "malloc_ok ?s" by (rule malloc_ok_sim [of _ clk]) (simp add: boot_state_def)
  then have u: "user_led_init ?s = ?s\<lparr>calls := [Malloc ''led_device_t''],
      heap := [1 \<mapsto> LedObj \<lparr>led_gpio_num = GPIO5, led_trigger_level = 1, led_status = 0\<rparr>],
      brk := 2, g_led := 1\<rparr>"
    by (simp add: user_led_init_def led_create_def malloc_ok_eq) (simp add: boot_state_def)
  show "sys (sim_board clk) = sim_sdk clk" "g_relay_all_status (sim_board clk) = 0"
    "g_relay_update_flg (sim_board clk) = False" "g_last_interrupt_time (sim_board clk) = 0"
    "count_list (calls (sim_board clk)) Get_time = 0"
    unfolding sim_board_def user_relay_init_def
    by (simp_all only: relay_init_loop_vars u) (simp_all add: boot_state_def)
qed

lemma sim_board:
  "board_inv (sim_board clk)" "relay_bank (sim_board clk) = replicate 6 (Some RELAY_STATUS_CLOSE)"
  "user_led_states_get (sim_board clk) = Some LED_STATUS_OFF" "gpio_ok (sim_board clk)"
proof -
  let ?s = "boot_state (sim_sdk clk) (\<lambda>_ _. NUL)"
  have m: "malloc_ok ?s" by (rule malloc_ok_sim [of _ clk]) (simp add: boot_state_def)
  have l: "level_of n ?s = None" for n by (simp add: boot_state_def)
  have r: "length (g_relays ?s) = 6" by (simp add: boot_state_def)
  show "board_inv (sim_board clk)" "relay_bank (sim_board clk) = replicate 6 (Some RELAY_STATUS_CLOSE)"
    "user_led_states_get (sim_board clk) = Some LED_STATUS_OFF"
    using board_init [OF heap_ok_boot m l r] by (simp_all add: sim_board_def)
  show "gpio_ok (sim_board clk)" by (simp add: gpio_ok_def sim_board_sys sim_sdk_def)
qed

subsection \<open>Properties\<close>

text \<open>C2: Switching relay \<open>i\<close> on a board in step, when pins answer: the call succeeds, exactly that
  relay's status changes, its pin is driven low for on and high for off, the LED keeps its
  status, and every status still matches its pin.\<close>

theorem relay_switch:
  assumes "board_inv s" "gpio_ok s" "x = RELAY_STATUS_CLOSE \<or> x = RELAY_STATUS_OPEN" "unat rid < 6"
  shows "wp (user_relay_states_set rid x s) (\<lambda>(r, t).
    r = 1 \<and> board_inv t \<and> relay_bank t = (relay_bank s)[unat rid := Some x] \<and>
    level_of (relays_gpio ! unat rid) t = Some (if x = RELAY_STATUS_OPEN then GPIO_LOW else GPIO_HIGH) \<and>
    user_led_states_get t = user_led_states_get s)"
proof -
  obtain t where t: "user_relay_states_set rid x s = Some (1, t)" "board_inv t"
    "relay_rest t = relay_rest s" "relay_bank t = (relay_bank s)[unat rid := Some x]"
    using user_relay_states_set_wp [OF assms(1,3,4)] assms(2) by (auto simp: wp_Some_iff)
  then have "relay_states_set (g_relays s ! unat rid) x s = Some (True, t)"
    using board_invD(7) [OF assms(1,4)]
    by (auto simp: user_relay_states_set_def split: Option.bind_splits if_splits)
  moreover have "relay_pin_of (g_relays s ! unat rid) s = Some (relays_gpio ! unat rid, GPIO_LOW)"
    using board_invD(3) [OF assms(1)] assms(4) by (simp add: relays_ok_def)
  ultimately have "level_of (relays_gpio ! unat rid) t = Some (drive_level x 0)"
    using relay_dev.drive assms(3) by fastforce
  then show ?thesis using t assms(3) relay_dev_facts(4) [OF t(3)] by auto
qed

lemma relay_switch_witness:
  "wp (user_relay_states_set 4 1 (sim_board (\<lambda>_. 0))) (\<lambda>(r, t).
     relay_bank t = [Some 0, Some 0, Some 0, Some 0, Some 1, Some 0] \<and> level_of GPADC0 t = Some GPIO_LOW)"
proof -
  let ?s = "sim_board (\<lambda>_. 0)"
  have "relay_bank ?s = [Some 0, Some 0, Some 0, Some 0, Some 0, Some 0]"
    by (simp add: sim_board eval_nat_numeral)
  with relay_switch [OF sim_board(1) sim_board(4), of 1 4 "\<lambda>_. 0"] show ?thesis
    by (auto simp: relays_gpio_def wp_Some_iff)
qed

text \<open>C3: \<open>user_relay_aLL_set\<close> with any pin failures: the board stays in step, every relay either
  has the new status or keeps the old one, no relay fails when the pins answer, and the flag
  that makes the MQTT heartbeat publish all states is raised.\<close>

theorem relay_set_all:
  assumes "board_inv s" "x = RELAY_STATUS_CLOSE \<or> x = RELAY_STATUS_OPEN"
  shows "wp (user_relay_aLL_set x s) (\<lambda>t. board_inv t \<and> g_relay_update_flg t \<and>
    list_all2 (\<lambda>old new. new = old \<or> new = Some x) (relay_bank s) (relay_bank t) \<and>
    (gpio_ok s \<longrightarrow> relay_bank t = replicate 6 (Some x)))"
  using user_relay_aLL_set_wp [OF assms]
proof (rule wp_mono)
  fix t
  assume t: "board_inv t \<and> relay_rest t = relay_rest (s\<lparr>g_relay_update_flg := True\<rparr>) \<and>
    g_relay_update_flg t \<and> bank_set x {0..<6} s t"
  then have "length (relay_bank t) = 6" "length (relay_bank s) = 6"
    using board_invD(5) assms(1) by auto
  with t show "board_inv t \<and> g_relay_update_flg t \<and>
    list_all2 (\<lambda>old new. new = old \<or> new = Some x) (relay_bank s) (relay_bank t) \<and>
    (gpio_ok s \<longrightarrow> relay_bank t = replicate 6 (Some x))"
    using bank_set_all [of s x t] by (auto simp: bank_set_def list_all2_conv_all_nth)
qed

lemma relay_set_all_witness:
  "wp (user_relay_aLL_set 1 (sim_board (\<lambda>_. 0))) (\<lambda>t. relay_bank t = replicate 6 (Some RELAY_STATUS_OPEN))"
  using relay_set_all [OF sim_board(1), of 1 "\<lambda>_. 0"] by (auto simp: sim_board(4) wp_Some_iff)

text \<open>C4: The LED tells the truth: on a board in step, when all pins answer, it is lit after
  \<open>user_relay_led_state\<close> exactly when at least one relay is on, no relay has changed, and the
  board is still in step.\<close>

theorem led_shows_relays:
  assumes "board_inv s" "gpio_ok s"
  shows "wp (user_relay_led_state s) (\<lambda>t. board_inv t \<and> relay_bank t = relay_bank s \<and>
    user_led_states_get t =
      Some (if Some RELAY_STATUS_OPEN \<in> set (relay_bank s) then LED_STATUS_ON else LED_STATUS_OFF))"
  using user_relay_led_state_wp [OF assms(1)]
proof (rule wp_mono)
  fix t
  assume t: "board_inv t \<and> led_rest t = led_rest s \<and> (gpio_ok s \<longrightarrow>
    user_led_states_get t = Some (if any_open s then LED_STATUS_ON else LED_STATUS_OFF))"
  then have "relay_bank t = relay_bank s" using led_dev_facts(4) by blast
  with t assms(2) show "board_inv t \<and> relay_bank t = relay_bank s \<and> user_led_states_get t =
      Some (if Some RELAY_STATUS_OPEN \<in> set (relay_bank s) then LED_STATUS_ON else LED_STATUS_OFF)"
    by (simp add: any_open_def)
qed

lemma led_shows_relays_witness:
  "wp (user_relay_led_state (sim_board (\<lambda>_. 0))) (\<lambda>t. user_led_states_get t = Some LED_STATUS_OFF)"
  using led_shows_relays [OF sim_board(1) sim_board(4), of "\<lambda>_. 0"]
  by (auto simp: sim_board(2) wp_Some_iff)

text \<open>C5: \<open>user_led_init\<close> and \<open>user_relay_init\<close> on memory that does not run out, with no pin driven
  before, make a board in step: six distinct relays and the LED on their own pins, all off.\<close>

theorem board_made:
  assumes "heap_ok s" "malloc_ok s" "\<forall>n. level_of n s = None" "length (g_relays s) = 6"
  shows "let t = user_relay_init (user_led_init s) in
    board_inv t \<and> relay_bank t = replicate 6 (Some RELAY_STATUS_CLOSE) \<and>
    user_led_states_get t = Some LED_STATUS_OFF"
  using board_init [OF assms(1,2) _ assms(4)] assms(3) by (simp add: Let_def)

lemma board_made_witness:
  "board_inv (user_relay_init (user_led_init (boot_state (sim_sdk (\<lambda>_. 0)) (\<lambda>_ _. NUL))))"
proof -
  let ?s = "boot_state (sim_sdk (\<lambda>_. 0)) (\<lambda>_ _. NUL)"
  have "malloc_ok ?s" by (rule malloc_ok_sim [of _ "\<lambda>_. 0"]) (simp add: boot_state_def)
  from board_made [OF heap_ok_boot this] show ?thesis by (simp add: boot_state_def Let_def)
qed

end
