(* ===== verification/UserKey.thy ===== *)
theory UserKey
  imports UserRelay
begin

text \<open>
  \<open>src/components/user/user_key.c\<close>: the button on GPIO25. The SDK calls
  \<open>interrupt_handler\<close> on both edges, with \<open>state\<close> 2 when the button goes down; a release
  acts by the time the button was held.
\<close>

definition interrupt_handler :: "u32 \<Rightarrow> u32 \<Rightarrow> fw \<Rightarrow> fw option" where
  "interrupt_handler state fid s =
     (let (t, s) = hfsys_get_time s; s = s\<lparr>g_interrupt_time := t\<rparr> in
      if state = 2 then Some (s\<lparr>g_last_interrupt_time := g_interrupt_time s\<rparr>)
      else
        let (t, s) = hfsys_get_time s;
            s = s\<lparr>g_interrupt_duration := t - g_last_interrupt_time s\<rparr> in
        if g_interrupt_duration s < 30 then Some s
        else do {
          s \<leftarrow> (if g_interrupt_duration s < 1000
                then if g_relay_all_status s = 0
                  then do {
                    s \<leftarrow> user_relay_aLL_set RELAY_STATUS_OPEN s;
                    user_led_on (s\<lparr>g_relay_all_status := RELAY_STATUS_OPEN\<rparr>)
                  }
                  else do {
                    s \<leftarrow> user_relay_aLL_set RELAY_STATUS_CLOSE s;
                    user_led_off (s\<lparr>g_relay_all_status := RELAY_STATUS_CLOSE\<rparr>)
                  }
                else Some s);
          Some (if g_interrupt_duration s > 3000 then snd (sdk Smtlk_start s) else s)
        })"

definition user_key_init :: "fw \<Rightarrow> fw" where
  "user_key_init s =
     (let (r, s) = sdk_int (Configure_fpin_interrupt (fid_of GPIO25) HFPIO_IT_EDGE
                       P_interrupt_handler True) s in s)"

subsection \<open>What a press does\<close>

text \<open>The state after the two clock readings of a release, and the time the button was held.\<close>

definition released :: "fw \<Rightarrow> fw" where
  "released s =
     (let (t, s) = hfsys_get_time s; s = s\<lparr>g_interrupt_time := t\<rparr>; (t, s) = hfsys_get_time s
      in s\<lparr>g_interrupt_duration := t - g_last_interrupt_time s\<rparr>)"

definition held :: "fw \<Rightarrow> u32" where
  "held s = g_interrupt_duration (released s)"

datatype press = Bounce | Short | Ignored | Long

definition press_of :: "u32 \<Rightarrow> press" where
  "press_of d = (if d < 30 then Bounce else if d < 1000 then Short else if d > 3000 then Long
                 else Ignored)"

lemma released_simps [simp]:
  "board_inv (released s) = board_inv s" "relay_bank (released s) = relay_bank s"
  "user_led_states_get (released s) = user_led_states_get s"
  "g_relay_all_status (released s) = g_relay_all_status s" "sys (released s) = sys s"
  "calls (released s) = Get_time # Get_time # calls s"
  "g_relay_update_flg (released s) = g_relay_update_flg s"
  by ((rule board_cong)?; simp add: released_def hfsys_get_time_eq Let_def at_defs)+

definition toggle_all :: "relay_status_e \<Rightarrow> fw \<Rightarrow> fw option" where
  "toggle_all x s =
     do {
       s \<leftarrow> user_relay_aLL_set x s;
       (if x = 1 then user_led_on else user_led_off) (s\<lparr>g_relay_all_status := x\<rparr>)
     }"

text \<open>The handler by the kind of the press.\<close>

lemma release_cases:
  assumes "st \<noteq> 2"
  shows "interrupt_handler st fid s = (case press_of (held s) of
      Bounce \<Rightarrow> Some (released s)
    | Short \<Rightarrow> do {
        t \<leftarrow> toggle_all (if g_relay_all_status s = 0 then 1 else 0) (released s);
        Some (if g_interrupt_duration t > 3000 then snd (sdk Smtlk_start t) else t) }
    | Ignored \<Rightarrow> Some (released s)
    | Long \<Rightarrow> Some (snd (sdk Smtlk_start (released s))))"
proof -
  have g: "g_relay_all_status (released s) = g_relay_all_status s" by simp
  have "3000 < held s \<Longrightarrow> \<not> held s < 1000" "3000 < held s \<Longrightarrow> \<not> held s < 30"
    by (auto simp: word_less_nat_alt)
  then show ?thesis
    using assms g
    by (auto simp: interrupt_handler_def released_def held_def press_of_def toggle_all_def Let_def
        split: prod.splits)
qed

lemma press_eq: "interrupt_handler 2 fid s =
    Some (s\<lparr>calls := Get_time # calls s, g_interrupt_time := now s, g_last_interrupt_time := now s\<rparr>)"
  by (simp add: interrupt_handler_def hfsys_get_time_eq)

lemma relay_rest_duration:
  assumes "relay_rest t = relay_rest s"
  shows "g_interrupt_duration t = g_interrupt_duration s" "g_relay_all_status t = g_relay_all_status s"
  using arg_cong [OF relay_restD(1) [OF assms], of g_interrupt_duration]
    arg_cong [OF relay_restD(1) [OF assms], of g_relay_all_status] by simp_all

lemma led_rest_vars:
  assumes "led_rest t = led_rest s"
  shows "g_interrupt_duration t = g_interrupt_duration s" "g_relay_all_status t = g_relay_all_status s"
    "g_relay_update_flg t = g_relay_update_flg s"
  using arg_cong [OF led_restD(1) [OF assms], of g_interrupt_duration]
    arg_cong [OF led_restD(1) [OF assms], of g_relay_all_status]
    arg_cong [OF led_restD(1) [OF assms], of g_relay_update_flg] by simp_all

lemma toggle_all_wp:
  assumes "board_inv s" "x = 0 \<or> x = 1"
  shows "wp (toggle_all x s) (\<lambda>t. board_inv t \<and> g_relay_all_status t = x \<and> g_relay_update_flg t \<and>
    g_interrupt_duration t = g_interrupt_duration s \<and> bank_set x {0..<6} s t \<and>
    (gpio_ok s \<longrightarrow> user_led_states_get t = Some x))"
proof -
  obtain u where u: "user_relay_aLL_set x s = Some u" "board_inv u"
    "relay_rest u = relay_rest (s\<lparr>g_relay_update_flg := True\<rparr>)" "g_relay_update_flg u" "bank_set x {0..<6} s u"
    using user_relay_aLL_set_wp [OF assms] by (auto simp: wp_Some_iff)
  let ?v = "u\<lparr>g_relay_all_status := x\<rparr>"
  have "board_inv ?v" using u(2) by simp
  then obtain r w where w: "led_status_set (g_led ?v) x ?v = Some (r, w)" "board_inv w"
    "led_rest w = led_rest ?v" "gpio_ok ?v \<longrightarrow> r"
    "user_led_states_get w = (if r then Some x else user_led_states_get ?v)"
    using board_inv_led_set [of ?v x] assms(2) by (auto simp: wp_Some_iff)
  have "gpio_ok ?v = gpio_ok s" using relay_restD(5) [OF u(3)] by (simp add: gpio_ok_def)
  moreover have "(if x = 1 then user_led_on else user_led_off) ?v = Some w"
    using w(1) assms(2) by (auto simp: user_led_on_def user_led_off_def)
  moreover have "relay_bank w = relay_bank u" using led_dev_facts(4) [OF w(3)] by simp
  ultimately show ?thesis
    using u w led_rest_vars [OF w(3)] relay_rest_duration(1) [OF u(3)]
    by (simp add: toggle_all_def bank_set_def)
qed

subsection \<open>What the button promises\<close>

text \<open>
  In true time: when the button went down, whether the strip counts as on, and what the relays
  and the LED show.
\<close>

record button =
  pressed_at :: nat
  all_on :: bool
  b_bank :: "relay_status_e list"
  b_led :: led_status_e

datatype key_event = Down nat | Up nat

fun button_step :: "key_event \<Rightarrow> button \<Rightarrow> button" where
  "button_step (Down t) b = b\<lparr>pressed_at := t\<rparr>"
| "button_step (Up t) b =
     (if 30 \<le> t - pressed_at b \<and> t - pressed_at b < 1000
      then b\<lparr>all_on := \<not> all_on b, b_bank := replicate 6 (if all_on b then 0 else 1),
             b_led := (if all_on b then 0 else 1)\<rparr>
      else b)"

fun key_step :: "key_event \<Rightarrow> fw \<Rightarrow> fw option" where
  "key_step (Down t) s = interrupt_handler 2 (of_nat (fid_of GPIO25)) s"
| "key_step (Up t) s = interrupt_handler 1 (of_nat (fid_of GPIO25)) s"

definition button_rel :: "button \<Rightarrow> fw \<Rightarrow> bool" where
  "button_rel b s \<longleftrightarrow>
     board_inv s \<and> gpio_ok s \<and> relay_bank s = map Some (b_bank b) \<and>
     user_led_states_get s = Some (b_led b) \<and>
     g_relay_all_status s = (if all_on b then 1 else 0) \<and>
     g_last_interrupt_time s = of_nat (pressed_at b)"

text \<open>The clock shows the event's time, and a press lasts less than the clock's period.\<close>

fun key_can :: "key_event \<Rightarrow> button \<Rightarrow> fw \<Rightarrow> bool" where
  "key_can (Down t) b s = (now s = of_nat t)"
| "key_can (Up t) b s =
     (now (snd (hfsys_get_time s)) = of_nat t \<and> pressed_at b \<le> t \<and> t - pressed_at b < 4294967296)"

lemma held_eq: "held s = now (snd (hfsys_get_time s)) - g_last_interrupt_time s"
  by (simp add: held_def released_def hfsys_get_time_eq Let_def now_def)

lemma press_of_nat:
  assumes "d < 4294967296"
  shows "press_of (of_nat d) =
    (if d < 30 then Bounce else if d < 1000 then Short else if 3000 < d then Long else Ignored)"
  using assms by (simp add: press_of_def word_less_nat_alt unat_of_nat take_bit_nat_eq_self_iff)

lemma released_last [simp]: "g_last_interrupt_time (released s) = g_last_interrupt_time s"
  "gpio_ok (released s) = gpio_ok s" "g_interrupt_duration (released s) = held s"
  by (simp_all add: released_def held_def hfsys_get_time_eq Let_def gpio_ok_def)

lemma toggle_all_last:
  assumes "toggle_all x s = Some t" "board_inv s" "x = 0 \<or> x = 1"
  shows "g_last_interrupt_time t = g_last_interrupt_time s" "sys t = sys s"
proof -
  obtain u where u: "user_relay_aLL_set x s = Some u" "board_inv u"
    "relay_rest u = relay_rest (s\<lparr>g_relay_update_flg := True\<rparr>)"
    using user_relay_aLL_set_wp [OF assms(2,3)] by (auto simp: wp_Some_iff)
  let ?v = "u\<lparr>g_relay_all_status := x\<rparr>"
  have "wp (led_status_set (g_led ?v) x ?v) (\<lambda>(r, w). led_rest w = led_rest ?v)"
    using board_inv_led_set [of ?v x] u(2) assms(3) by (auto simp: wp_Some_iff)
  then have l: "led_rest t = led_rest ?v"
    using assms(1,3) u(1) by (auto simp: toggle_all_def user_led_on_def user_led_off_def wp_Some_iff)
  show "g_last_interrupt_time t = g_last_interrupt_time s" "sys t = sys s"
    using arg_cong [OF led_restD(1) [OF l], of g_last_interrupt_time] led_restD(6) [OF l]
      arg_cong [OF relay_restD(1) [OF u(3)], of g_last_interrupt_time] relay_restD(5) [OF u(3)]
    by simp_all
qed

text \<open>A short press, when all pins answer.\<close>

lemma short_press_wp:
  assumes "board_inv s" "gpio_ok s" "st \<noteq> 2" "press_of (held s) = Short"
  shows "wp (interrupt_handler st fid s) (\<lambda>t. board_inv t \<and> sys t = sys s \<and>
    g_last_interrupt_time t = g_last_interrupt_time s \<and> g_relay_update_flg t \<and>
    (let x = (if g_relay_all_status s = 0 then 1 else 0) in
       relay_bank t = replicate 6 (Some x) \<and> user_led_states_get t = Some x \<and>
       g_relay_all_status t = x))"
proof -
  let ?x = "if g_relay_all_status s = 0 then 1 else (0 :: u8)"
  have x: "?x = 0 \<or> ?x = 1" by simp
  have b: "board_inv (released s)" using assms(1) by simp
  obtain t where t: "toggle_all ?x (released s) = Some t" "board_inv t" "g_relay_all_status t = ?x"
    "g_relay_update_flg t" "g_interrupt_duration t = held s" "bank_set ?x {0..<6} (released s) t"
    "user_led_states_get t = Some ?x"
    using toggle_all_wp [OF b x] assms(2) by (auto simp: wp_Some_iff)
  have "\<not> 3000 < held s" using assms(4) by (auto simp: press_of_def word_less_nat_alt split: if_splits)
  then have "interrupt_handler st fid s = Some t"
    using t by (simp add: release_cases [OF assms(3)] assms(4))
  moreover have "relay_bank t = replicate 6 (Some ?x)"
    using bank_set_all [OF _ t(6) board_invD(5) [OF t(2)]] assms(2) by simp
  ultimately show ?thesis
    using t toggle_all_last [OF t(1) b x] by (simp add: Let_def)
qed

interpretation key: simulation key_step button_step button_rel key_can
proof unfold_locales
  fix b s e
  assume r: "button_rel b s" and c: "key_can e b s"
  show "wp (key_step e s) (button_rel (button_step e b))"
  proof (cases e)
    case (Down t)
    let ?t = "s\<lparr>calls := Get_time # calls s, g_interrupt_time := now s, g_last_interrupt_time := now s\<rparr>"
    have "board_inv ?t = board_inv s" "relay_bank ?t = relay_bank s"
      "user_led_states_get ?t = user_led_states_get s"
      by (rule board_cong; simp add: at_defs)+
    with r c Down show ?thesis by (simp add: press_eq button_rel_def gpio_ok_def)
  next
    case (Up t)
    have b: "board_inv s" "gpio_ok s" using r by (simp_all add: button_rel_def)
    have h: "held s = of_nat (t - pressed_at b)"
      using r c Up by (simp add: held_eq button_rel_def of_nat_diff)
    have p: "press_of (held s) = (let d = t - pressed_at b in
        if d < 30 then Bounce else if d < 1000 then Short else if 3000 < d then Long else Ignored)"
      unfolding h Let_def by (rule press_of_nat) (use c Up in simp)
    have sm: "board_inv (u\<lparr>calls := Smtlk_start # calls u\<rparr>) = board_inv u"
      "relay_bank (u\<lparr>calls := Smtlk_start # calls u\<rparr>) = relay_bank u"
      "user_led_states_get (u\<lparr>calls := Smtlk_start # calls u\<rparr>) = user_led_states_get u" for u
      by simp_all
    show ?thesis
    proof (cases "press_of (held s) = Short")
      case True
      then have "30 \<le> t - pressed_at b \<and> t - pressed_at b < 1000"
        using p by (auto simp: Let_def split: if_splits)
      with short_press_wp [OF b, of 1 "of_nat (fid_of GPIO25)"] True r Up show ?thesis
        by (auto simp: button_rel_def Let_def gpio_ok_def wp_Some_iff)
    next
      case False
      then have "\<not> (30 \<le> t - pressed_at b \<and> t - pressed_at b < 1000)"
        using p by (auto simp: Let_def split: if_splits)
      then have "button_step (Up t) b = b" by auto
      moreover have "wp (interrupt_handler 1 (of_nat (fid_of GPIO25)) s) (button_rel b)"
        using False r sm [of "released s"]
        by (cases "press_of (held s)") (simp_all add: release_cases button_rel_def sdk_def gpio_ok_def)
      ultimately show ?thesis using Up by simp
    qed
  qed
qed

subsection \<open>Properties\<close>

text \<open>C1: The button refines its promise. From a board in step whose pins answer every call, and whose
  relays, LED, flag and time of the last press are those of the abstract button: over any sequence
  of presses, with the clock at its times and no press as long as the clock's period, the handler
  never fails, and all these stay those of the abstract button, which toggles everything exactly
  on releases after 30 to 999 ms; the board stays in step.\<close>

theorem button_refines:
  assumes "button_rel b s" "sched key_step button_step key_can es b s"
  shows "wp (for_each es key_step s) (button_rel (fold button_step es b))"
  using assms by (rule key.run)

lemma button_refines_witness:
  "wp (for_each [Down 100, Up 600] key_step (sim_board (\<lambda>n. if n = 0 then 100 else 600)))
     (\<lambda>t. relay_bank t = replicate 6 (Some RELAY_STATUS_OPEN))"
proof -
  let ?c = "\<lambda>n :: nat. if n = 0 then 100 else 600" and ?es = "[Down 100, Up 600]"
    and ?b = "\<lparr>pressed_at = 0, all_on = False, b_bank = replicate 6 0, b_led = 0\<rparr>"
  have r: "button_rel ?b (sim_board ?c)"
    using sim_board [of ?c] sim_board_sys [of ?c] by (simp add: button_rel_def)
  have "sched key_step button_step key_can ?es ?b (sim_board ?c)"
    using sim_board_sys [of ?c]
    by (simp add: press_eq now_def hfsys_get_time_eq sim_sdk_def split: option.splits)
  from button_refines [OF r this] show ?thesis
    by (rule wp_mono) (simp add: button_rel_def)
qed

text \<open>C6: A short release (held 30 to 999 ms) on a board in step, when all pins answer, puts all
  six relays and the LED to the opposite of the on/off flag, keeps pins and statuses in step,
  and asks for the states to be published.\<close>

theorem short_press:
  assumes "board_inv s" "gpio_ok s" "st \<noteq> 2" "press_of (held s) = Short"
  shows "wp (interrupt_handler st fid s) (\<lambda>t. board_inv t \<and> g_relay_update_flg t \<and>
    (let x = (if g_relay_all_status s = 0 then RELAY_STATUS_OPEN else RELAY_STATUS_CLOSE) in
       relay_bank t = replicate 6 (Some x) \<and> user_led_states_get t = Some x \<and>
       g_relay_all_status t = x))"
  using short_press_wp [OF assms] by (rule wp_mono) (simp add: Let_def)

lemma short_press_witness:
  "wp (interrupt_handler 1 29 (sim_board (\<lambda>_. 500)))
     (\<lambda>t. relay_bank t = replicate 6 (Some RELAY_STATUS_OPEN))"
proof -
  let ?s = "sim_board (\<lambda>_. 500)"
  have "press_of (held ?s) = Short"
    by (simp add: held_eq now_def hfsys_get_time_eq sim_board_sys sim_sdk_def press_of_def)
  from short_press [OF sim_board(1) sim_board(4) _ this, of 1 29] sim_board_sys(2) show ?thesis
    by (auto elim: wp_mono)
qed

text \<open>C7: Every other release leaves relays, LED and flags as they are: shorter than 30 ms is
  bounce, between one and three seconds nothing happens, and only longer than three seconds
  starts SmartLink, with no other call than the two clock readings.\<close>

theorem other_release:
  assumes "st \<noteq> 2" "press_of (held s) \<noteq> Short"
  shows "\<exists>t. interrupt_handler st fid s = Some t \<and>
    calls t = (if 3000 < held s then [Smtlk_start] else []) @ Get_time # Get_time # calls s \<and>
    heap t = heap s \<and> g_relay_all_status t = g_relay_all_status s \<and>
    g_relay_update_flg t = g_relay_update_flg s"
proof -
  have "heap (released s) = heap s" by (simp add: released_def hfsys_get_time_eq Let_def)
  moreover have "press_of (held s) = Long \<longleftrightarrow> 3000 < held s"
    by (auto simp: press_of_def word_less_nat_alt)
  ultimately show ?thesis
    using assms by (cases "press_of (held s)") (simp_all add: release_cases sdk_def)
qed

lemma other_release_witness:
  "\<exists>t. interrupt_handler 1 29 (sim_board (\<lambda>_. 4000)) = Some t \<and> hd (calls t) = Smtlk_start"
proof -
  let ?s = "sim_board (\<lambda>_. 4000)"
  have h: "held ?s = 4000"
    by (simp add: held_eq now_def hfsys_get_time_eq sim_board_sys sim_sdk_def)
  have "press_of (held ?s) \<noteq> Short" by (simp add: h press_of_def)
  from other_release [OF _ this, of 1 29] show ?thesis by (auto simp: h)
qed

end
