(* ===== verification/HassComponent.thy ===== *)
theory HassComponent
  imports Machine
begin

text \<open>
  \<open>src/components/device/hass_component.c\<close> and \<open>hass_device.c\<close>: the Home Assistant component
  (one switch or sensor) and device descriptions, as blocks of fixed-size character arrays. The
  getters return pointers into the block; here, the bytes there.
\<close>

datatype component_value_e =
  HASS_COMPONENT_IDENTIFIERS | HASS_COMPONENT_NAME | HASS_COMPONENT_ICON
| HASS_COMPONENT_UNIT_OF_MEASUREMENT | HASS_COMPONENT_VALUE_TEMPLATE | HASS_COMPONENT_DEVICE_CLASS
| HASS_COMPONENT_STATE_TOPIC | HASS_COMPONENT_CONFIG_TOPIC

text \<open>A block just allocated, with the bytes the memory holds.\<close>

definition component_junk :: "fw \<Rightarrow> ptr \<Rightarrow> hass_component_t" where
  "component_junk s p =
     \<lparr> hc_id = of_nat (of_char (garbage s p 0)), hc_identifiers = junk s p 4 20, hc_name = junk s p 24 20,
       hc_type = (if garbage s p 44 = NUL then SWITCH else SENSOR), hc_icon = junk s p 45 30,
       hc_unit_of_measurement = junk s p 75 4, hc_value_template = junk s p 79 100,
       hc_device_class = junk s p 179 50, hc_state_topic = junk s p 229 100,
       hc_config_topic = junk s p 329 100 \<rparr>"

definition hass_component_create ::
  "u32 \<Rightarrow> string \<Rightarrow> string \<Rightarrow> hass_component_type_e \<Rightarrow> string \<Rightarrow> string option \<Rightarrow> string option \<Rightarrow>
   string option \<Rightarrow> fw \<Rightarrow> (ptr \<times> fw) option" where
  "hass_component_create cid identifiers name type icon unit_of_measurement value_template device_class s =
     (let (p, s) = hfmem_malloc ''hass_component_t'' (\<lambda>p. ComponentObj (component_junk s p)) s in
      do {
        c \<leftarrow> component_at p s;
        let c = c\<lparr>hc_id := cid\<rparr>;
        b \<leftarrow> strcpy (hc_identifiers c) identifiers;
        let c = c\<lparr>hc_identifiers := b\<rparr>;
        b \<leftarrow> strcpy (hc_name c) name;
        let c = c\<lparr>hc_name := b, hc_type := type\<rparr>;
        b \<leftarrow> strcpy (hc_icon c) icon;
        let c = c\<lparr>hc_icon := b\<rparr>;
        c \<leftarrow> (case unit_of_measurement of None \<Rightarrow> Some c
             | Some u \<Rightarrow> do { b \<leftarrow> strcpy (hc_unit_of_measurement c) u;
                            Some (c\<lparr>hc_unit_of_measurement := b\<rparr>) });
        c \<leftarrow> (case value_template of None \<Rightarrow> Some c
             | Some v \<Rightarrow> do { b \<leftarrow> strcpy (hc_value_template c) v; Some (c\<lparr>hc_value_template := b\<rparr>) });
        c \<leftarrow> (case device_class of None \<Rightarrow> Some c
             | Some d \<Rightarrow> do { b \<leftarrow> strcpy (hc_device_class c) d; Some (c\<lparr>hc_device_class := b\<rparr>) });
        Some (p, store p (ComponentObj c) s)
      })"

text \<open>The handle variable is passed by address: its new value is returned.\<close>

definition hass_component_delete :: "ptr \<Rightarrow> fw \<Rightarrow> ptr \<times> fw" where
  "hass_component_delete handle s = (if handle \<noteq> 0 then (0, hfmem_free handle s) else (handle, s))"

fun component_value :: "component_value_e \<Rightarrow> hass_component_t \<Rightarrow> cbuf" where
  "component_value HASS_COMPONENT_IDENTIFIERS c = hc_identifiers c"
| "component_value HASS_COMPONENT_NAME c = hc_name c"
| "component_value HASS_COMPONENT_ICON c = hc_icon c"
| "component_value HASS_COMPONENT_UNIT_OF_MEASUREMENT c = hc_unit_of_measurement c"
| "component_value HASS_COMPONENT_VALUE_TEMPLATE c = hc_value_template c"
| "component_value HASS_COMPONENT_DEVICE_CLASS c = hc_device_class c"
| "component_value HASS_COMPONENT_STATE_TOPIC c = hc_state_topic c"
| "component_value HASS_COMPONENT_CONFIG_TOPIC c = hc_config_topic c"

definition get_component_value :: "ptr \<Rightarrow> component_value_e \<Rightarrow> fw \<Rightarrow> cbuf option" where
  "get_component_value handle type s = map_option (component_value type) (component_at handle s)"

definition hass_component_id_get :: "ptr \<Rightarrow> fw \<Rightarrow> u32 option" where
  "hass_component_id_get handle s = map_option hc_id (component_at handle s)"

definition hass_component_type_get :: "ptr \<Rightarrow> fw \<Rightarrow> hass_component_type_e option" where
  "hass_component_type_get handle s = map_option hc_type (component_at handle s)"

definition hass_component_identifiers_get :: "ptr \<Rightarrow> fw \<Rightarrow> cbuf option" where
  "hass_component_identifiers_get handle s = get_component_value handle HASS_COMPONENT_IDENTIFIERS s"

definition hass_component_name_get :: "ptr \<Rightarrow> fw \<Rightarrow> cbuf option" where
  "hass_component_name_get handle s = get_component_value handle HASS_COMPONENT_NAME s"

definition hass_component_icon_get :: "ptr \<Rightarrow> fw \<Rightarrow> cbuf option" where
  "hass_component_icon_get handle s = get_component_value handle HASS_COMPONENT_ICON s"

definition hass_component_unit_of_measurement_get :: "ptr \<Rightarrow> fw \<Rightarrow> cbuf option" where
  "hass_component_unit_of_measurement_get handle s =
     get_component_value handle HASS_COMPONENT_UNIT_OF_MEASUREMENT s"

definition hass_component_value_template_get :: "ptr \<Rightarrow> fw \<Rightarrow> cbuf option" where
  "hass_component_value_template_get handle s =
     get_component_value handle HASS_COMPONENT_VALUE_TEMPLATE s"

definition hass_component_device_class_get :: "ptr \<Rightarrow> fw \<Rightarrow> cbuf option" where
  "hass_component_device_class_get handle s =
     get_component_value handle HASS_COMPONENT_DEVICE_CLASS s"

definition hass_component_state_topic_get :: "ptr \<Rightarrow> fw \<Rightarrow> cbuf option" where
  "hass_component_state_topic_get handle s = get_component_value handle HASS_COMPONENT_STATE_TOPIC s"

definition hass_component_config_topic_get :: "ptr \<Rightarrow> fw \<Rightarrow> cbuf option" where
  "hass_component_config_topic_get handle s = get_component_value handle HASS_COMPONENT_CONFIG_TOPIC s"

lemmas component_get_defs =
  hass_component_id_get_def hass_component_type_get_def get_component_value_def
  hass_component_identifiers_get_def hass_component_name_get_def hass_component_icon_get_def
  hass_component_unit_of_measurement_get_def hass_component_value_template_get_def
  hass_component_device_class_get_def hass_component_state_topic_get_def
  hass_component_config_topic_get_def

subsection \<open>The device\<close>

datatype device_value_e =
  HASS_DEVICE_IDENTIFIERS | HASS_DEVICE_MANUFACTURER | HASS_DEVICE_NAME | HASS_DEVICE_MODEL
| HASS_DEVICE_VERSION | HASS_DEVICE_IP

definition device_junk :: "fw \<Rightarrow> ptr \<Rightarrow> hass_device_t" where
  "device_junk s p =
     \<lparr> hd_identifiers = junk s p 0 20, hd_manufacturer = junk s p 20 20, hd_name = junk s p 40 20,
       hd_model = junk s p 60 10, hd_version = junk s p 70 15, hd_ip = junk s p 85 16 \<rparr>"

definition hass_device_create ::
  "string \<Rightarrow> string \<Rightarrow> string \<Rightarrow> string \<Rightarrow> string \<Rightarrow> string \<Rightarrow> fw \<Rightarrow> (ptr \<times> fw) option" where
  "hass_device_create identifiers manufacturer name model version ip s =
     (let (p, s) = hfmem_malloc ''hass_device_t'' (\<lambda>p. DeviceObj (device_junk s p)) s in
      do {
        d \<leftarrow> device_at p s;
        b1 \<leftarrow> strcpy (hd_identifiers d) identifiers;
        b2 \<leftarrow> strcpy (hd_manufacturer d) manufacturer;
        b3 \<leftarrow> strcpy (hd_name d) name;
        b4 \<leftarrow> strcpy (hd_model d) model;
        b5 \<leftarrow> strcpy (hd_version d) version;
        b6 \<leftarrow> strcpy (hd_ip d) ip;
        Some (p, store p (DeviceObj \<lparr>hd_identifiers = b1, hd_manufacturer = b2, hd_name = b3,
          hd_model = b4, hd_version = b5, hd_ip = b6\<rparr>) s)
      })"

definition hass_device_delete :: "ptr \<Rightarrow> fw \<Rightarrow> ptr \<times> fw" where
  "hass_device_delete handle s = (if handle \<noteq> 0 then (0, hfmem_free handle s) else (handle, s))"

fun device_value :: "device_value_e \<Rightarrow> hass_device_t \<Rightarrow> cbuf" where
  "device_value HASS_DEVICE_IDENTIFIERS d = hd_identifiers d"
| "device_value HASS_DEVICE_MANUFACTURER d = hd_manufacturer d"
| "device_value HASS_DEVICE_NAME d = hd_name d"
| "device_value HASS_DEVICE_MODEL d = hd_model d"
| "device_value HASS_DEVICE_VERSION d = hd_version d"
| "device_value HASS_DEVICE_IP d = hd_ip d"

definition hass_device_value_get :: "ptr \<Rightarrow> device_value_e \<Rightarrow> fw \<Rightarrow> cbuf option" where
  "hass_device_value_get handle type s = map_option (device_value type) (device_at handle s)"

definition hass_device_identifiers_get :: "ptr \<Rightarrow> fw \<Rightarrow> cbuf option" where
  "hass_device_identifiers_get handle s = hass_device_value_get handle HASS_DEVICE_IDENTIFIERS s"

definition hass_device_manufacturer_get :: "ptr \<Rightarrow> fw \<Rightarrow> cbuf option" where
  "hass_device_manufacturer_get handle s = hass_device_value_get handle HASS_DEVICE_MANUFACTURER s"

definition hass_device_name_get :: "ptr \<Rightarrow> fw \<Rightarrow> cbuf option" where
  "hass_device_name_get handle s = hass_device_value_get handle HASS_DEVICE_NAME s"

definition hass_device_model_get :: "ptr \<Rightarrow> fw \<Rightarrow> cbuf option" where
  "hass_device_model_get handle s = hass_device_value_get handle HASS_DEVICE_MODEL s"

definition hass_device_version_get :: "ptr \<Rightarrow> fw \<Rightarrow> cbuf option" where
  "hass_device_version_get handle s = hass_device_value_get handle HASS_DEVICE_VERSION s"

definition hass_device_ip :: "ptr \<Rightarrow> fw \<Rightarrow> cbuf option" where
  "hass_device_ip handle s = hass_device_value_get handle HASS_DEVICE_IP s"

lemmas device_get_defs =
  hass_device_value_get_def hass_device_identifiers_get_def hass_device_manufacturer_get_def
  hass_device_name_get_def hass_device_model_get_def hass_device_version_get_def hass_device_ip_def

subsection \<open>When creation is safe\<close>

definition opt_fits :: "nat \<Rightarrow> string option \<Rightarrow> bool" where
  "opt_fits n st = (case st of None \<Rightarrow> True | Some s \<Rightarrow> length s < n)"

definition component_fits ::
  "string \<Rightarrow> string \<Rightarrow> string \<Rightarrow> string option \<Rightarrow> string option \<Rightarrow> string option \<Rightarrow> bool" where
  "component_fits identifiers name icon u v d \<longleftrightarrow>
     length identifiers < 20 \<and> length name < 20 \<and> length icon < 30 \<and> opt_fits 4 u \<and>
     opt_fits 100 v \<and> opt_fits 50 d"

definition device_fits ::
  "string \<Rightarrow> string \<Rightarrow> string \<Rightarrow> string \<Rightarrow> string \<Rightarrow> string \<Rightarrow> bool" where
  "device_fits identifiers manufacturer name model version ip \<longleftrightarrow>
     length identifiers < 20 \<and> length manufacturer < 20 \<and> length name < 20 \<and> length model < 10 \<and>
     length version < 15 \<and> length ip < 16"

text \<open>What a component holds once created.\<close>

definition component_holds ::
  "u32 \<Rightarrow> string \<Rightarrow> string \<Rightarrow> hass_component_type_e \<Rightarrow> string \<Rightarrow> string option \<Rightarrow> string option \<Rightarrow>
   string option \<Rightarrow> hass_component_t \<Rightarrow> bool" where
  "component_holds cid identifiers name type icon u v d c \<longleftrightarrow>
     hc_id c = cid \<and> hc_type c = type \<and> cstr (hc_identifiers c) = Some identifiers \<and>
     cstr (hc_name c) = Some name \<and> cstr (hc_icon c) = Some icon \<and>
     (case u of None \<Rightarrow> True | Some x \<Rightarrow> cstr (hc_unit_of_measurement c) = Some x) \<and>
     (case v of None \<Rightarrow> True | Some x \<Rightarrow> cstr (hc_value_template c) = Some x) \<and>
     (case d of None \<Rightarrow> True | Some x \<Rightarrow> cstr (hc_device_class c) = Some x) \<and>
     length (hc_state_topic c) = 100 \<and> length (hc_config_topic c) = 100"

definition opt_nul_free :: "string option \<Rightarrow> bool" where
  "opt_nul_free st = (case st of None \<Rightarrow> True | Some s \<Rightarrow> nul_free s)"

lemma length_component_junk [simp]:
  "length (hc_identifiers (component_junk s p)) = 20" "length (hc_name (component_junk s p)) = 20"
  "length (hc_icon (component_junk s p)) = 30" "length (hc_unit_of_measurement (component_junk s p)) = 4"
  "length (hc_value_template (component_junk s p)) = 100"
  "length (hc_device_class (component_junk s p)) = 50"
  "length (hc_state_topic (component_junk s p)) = 100"
  "length (hc_config_topic (component_junk s p)) = 100"
  by (simp_all add: component_junk_def)

lemma hass_component_create_ok:
  assumes m: "malloc_ok s" and f: "component_fits identifiers name icon u v d"
    and n: "nul_free identifiers" "nul_free name" "nul_free icon" "opt_nul_free u" "opt_nul_free v"
      "opt_nul_free d"
  obtains c where "hass_component_create cid identifiers name type icon u v d s =
      Some (brk s, s\<lparr>calls := Malloc ''hass_component_t'' # calls s,
        heap := (heap s)(brk s \<mapsto> ComponentObj c), brk := Suc (brk s)\<rparr>)"
    and "component_holds cid identifiers name type icon u v d c"
proof -
  have l: "length identifiers < 20" "length name < 20" "length icon < 30" "opt_fits 4 u" "opt_fits 100 v"
    "opt_fits 50 d" using f by (simp_all add: component_fits_def)
  have c: "strcpy b x = Some (x @ NUL # drop (Suc (length x)) b)" if "length x < length b" for b x
    using that by (simp add: strcpy_def)
  have at: "component_at (brk s) (s\<lparr>calls := Malloc ''hass_component_t'' # calls s,
      heap := (heap s)(brk s \<mapsto> ComponentObj x), brk := Suc (brk s)\<rparr>) = Some x" for x
    by (simp add: component_at_def)
  define w where "w b x = (case x of None \<Rightarrow> b | Some y \<Rightarrow> y @ NUL # drop (Suc (length y)) b)"
    for b :: cbuf and x
  have wc: "cstr (w b (Some x)) = Some x" if "nul_free x" for b x
    using that by (simp add: w_def cstr_append_NUL)
  have w: "strcpy b x = Some (w b (Some x))" if "length x < length b" for b x
    using that by (simp add: strcpy_def w_def)
  have ou: "(case u of None \<Rightarrow> Some x | Some y \<Rightarrow> do { b \<leftarrow> strcpy (hc_unit_of_measurement x) y;
      Some (x\<lparr>hc_unit_of_measurement := b\<rparr>) }) = Some (x\<lparr>hc_unit_of_measurement := w (hc_unit_of_measurement x) u\<rparr>)"
    if "length (hc_unit_of_measurement x) = 4" for x
    using l(4) that by (cases u) (simp_all add: w_def opt_fits_def c)
  have ov: "(case v of None \<Rightarrow> Some x | Some y \<Rightarrow> do { b \<leftarrow> strcpy (hc_value_template x) y;
      Some (x\<lparr>hc_value_template := b\<rparr>) }) = Some (x\<lparr>hc_value_template := w (hc_value_template x) v\<rparr>)"
    if "length (hc_value_template x) = 100" for x
    using l(5) that by (cases v) (simp_all add: w_def opt_fits_def c)
  have od: "(case d of None \<Rightarrow> Some x | Some y \<Rightarrow> do { b \<leftarrow> strcpy (hc_device_class x) y;
      Some (x\<lparr>hc_device_class := b\<rparr>) }) = Some (x\<lparr>hc_device_class := w (hc_device_class x) d\<rparr>)"
    if "length (hc_device_class x) = 50" for x
    using l(6) that by (cases d) (simp_all add: w_def opt_fits_def c)
  define j where "j = component_junk s (brk s)"
  have jl: "length (hc_identifiers j) = 20" "length (hc_name j) = 20" "length (hc_icon j) = 30"
    "length (hc_unit_of_measurement j) = 4" "length (hc_value_template j) = 100"
    "length (hc_device_class j) = 50" "length (hc_state_topic j) = 100" "length (hc_config_topic j) = 100"
    by (simp_all add: j_def)
  show thesis
  proof (rule that)
    show "hass_component_create cid identifiers name type icon u v d s =
      Some (brk s, s\<lparr>calls := Malloc ''hass_component_t'' # calls s, heap := (heap s)(brk s \<mapsto> ComponentObj
        (j\<lparr>hc_id := cid, hc_identifiers := w (hc_identifiers j) (Some identifiers),
          hc_name := w (hc_name j) (Some name), hc_type := type, hc_icon := w (hc_icon j) (Some icon),
          hc_unit_of_measurement := w (hc_unit_of_measurement j) u,
          hc_value_template := w (hc_value_template j) v, hc_device_class := w (hc_device_class j) d\<rparr>)),
        brk := Suc (brk s)\<rparr>)"
      unfolding hass_component_create_def malloc_ok_eq [OF m] Let_def prod.case at bind.bind_lunit j_def [symmetric]
      using l jl by (simp add: w ou ov od store_def)
    show "component_holds cid identifiers name type icon u v d
        (j\<lparr>hc_id := cid, hc_identifiers := w (hc_identifiers j) (Some identifiers),
          hc_name := w (hc_name j) (Some name), hc_type := type, hc_icon := w (hc_icon j) (Some icon),
          hc_unit_of_measurement := w (hc_unit_of_measurement j) u,
          hc_value_template := w (hc_value_template j) v, hc_device_class := w (hc_device_class j) d\<rparr>)"
      using n jl(7,8) by (simp add: component_holds_def wc opt_nul_free_def split: option.splits)
  qed
qed

definition device_holds ::
  "string \<Rightarrow> string \<Rightarrow> string \<Rightarrow> string \<Rightarrow> string \<Rightarrow> string \<Rightarrow> hass_device_t \<Rightarrow> bool" where
  "device_holds identifiers manufacturer name model version ip d \<longleftrightarrow>
     cstr (hd_identifiers d) = Some identifiers \<and> cstr (hd_manufacturer d) = Some manufacturer \<and>
     cstr (hd_name d) = Some name \<and> cstr (hd_model d) = Some model \<and>
     cstr (hd_version d) = Some version \<and> cstr (hd_ip d) = Some ip"

lemma hass_device_create_ok:
  assumes m: "malloc_ok s" and f: "device_fits a b c d e i"
    and n: "nul_free a" "nul_free b" "nul_free c" "nul_free d" "nul_free e" "nul_free i"
  obtains v where "hass_device_create a b c d e i s =
      Some (brk s, s\<lparr>calls := Malloc ''hass_device_t'' # calls s,
        heap := (heap s)(brk s \<mapsto> DeviceObj v), brk := Suc (brk s)\<rparr>)"
    and "device_holds a b c d e i v"
proof -
  have l: "length a < 20" "length b < 20" "length c < 20" "length d < 10" "length e < 15" "length i < 16"
    using f by (simp_all add: device_fits_def)
  have cp: "strcpy x y = Some (y @ NUL # drop (Suc (length y)) x)" if "length y < length x" for x y
    using that by (simp add: strcpy_def)
  have at: "device_at (brk s) (s\<lparr>calls := Malloc ''hass_device_t'' # calls s,
      heap := (heap s)(brk s \<mapsto> DeviceObj x), brk := Suc (brk s)\<rparr>) = Some x" for x
    by (simp add: device_at_def)
  show thesis
  proof (rule that)
    let ?w = "\<lambda>y x. y @ NUL # drop (Suc (length y)) x"
    show "hass_device_create a b c d e i s =
      Some (brk s, s\<lparr>calls := Malloc ''hass_device_t'' # calls s, heap := (heap s)(brk s \<mapsto> DeviceObj
        \<lparr>hd_identifiers = ?w a (junk s (brk s) 0 20), hd_manufacturer = ?w b (junk s (brk s) 20 20),
          hd_name = ?w c (junk s (brk s) 40 20), hd_model = ?w d (junk s (brk s) 60 10),
          hd_version = ?w e (junk s (brk s) 70 15), hd_ip = ?w i (junk s (brk s) 85 16)\<rparr>),
        brk := Suc (brk s)\<rparr>)"
      using l by (simp add: hass_device_create_def malloc_ok_eq [OF m] at device_junk_def cp store_def)
  qed (use n in \<open>simp add: device_holds_def cstr_append_NUL\<close>)
qed

end
