(* ===== verification/CJson.thy ===== *)
theory CJson
  imports CStrings Floats
begin

text \<open>
  \<open>src/thirdpartylib/JingDong/json/cJSON.c\<close>: the JSON trees of the discovery messages, how they
  are built, edited and printed. An item owns its children, so a tree of items is a datatype;
  the sibling links are the order of the list. Memory is taken to suffice (\<open>hfmem_malloc\<close> not
  NULL); what is modelled is how many bytes each buffer has and what is written to it: writing
  more is \<open>None\<close>. \<open>cJSON_Delete\<close> only frees and has no counterpart.
\<close>

subsection \<open>Items\<close>

datatype cjson = CJson
  (cj_type: u32)
  (cj_valuestring: "string option")
  (cj_valueint: int)
  (cj_valuedouble: rat)
  (cj_string: "string option")
  (cj_child: "cjson list")

abbreviation (input) cJSON_False :: u32 where "cJSON_False \<equiv> 0"
abbreviation (input) cJSON_True :: u32 where "cJSON_True \<equiv> 1"
abbreviation (input) cJSON_NULL :: u32 where "cJSON_NULL \<equiv> 2"
abbreviation (input) cJSON_Number :: u32 where "cJSON_Number \<equiv> 3"
abbreviation (input) cJSON_String :: u32 where "cJSON_String \<equiv> 4"
abbreviation (input) cJSON_Array :: u32 where "cJSON_Array \<equiv> 5"
abbreviation (input) cJSON_Object :: u32 where "cJSON_Object \<equiv> 6"
abbreviation (input) cJSON_IsReference :: u32 where "cJSON_IsReference \<equiv> 256"

definition tolower :: "char \<Rightarrow> int" where
  "tolower c = (let n = of_char c :: int in if 65 \<le> n \<and> n \<le> 90 then n + 32 else n)"

text \<open>The loop of \<open>cJSON_strcasecmp\<close>, at two strings with their terminators.\<close>

fun strcasecmp_loop :: "string \<Rightarrow> string \<Rightarrow> int" where
  "strcasecmp_loop [] [] = 0"
| "strcasecmp_loop [] (b # bs) = - tolower b"
| "strcasecmp_loop (a # as) [] = tolower a"
| "strcasecmp_loop (a # as) (b # bs) =
     (if tolower a = tolower b then strcasecmp_loop as bs else tolower a - tolower b)"

definition cJSON_strcasecmp :: "string option \<Rightarrow> string option \<Rightarrow> int" where
  "cJSON_strcasecmp s1 s2 =
     (case s1 of None \<Rightarrow> (if s2 = None then 0 else 1)
      | Some a \<Rightarrow> (case s2 of None \<Rightarrow> 1 | Some b \<Rightarrow> strcasecmp_loop a b))"

definition cJSON_New_Item :: cjson where
  "cJSON_New_Item = CJson 0 None 0 0 None []"

text \<open>\<open>(int)d\<close>: truncation; undefined when the result is no \<open>int\<close>.\<close>

definition int_of_double :: "rat \<Rightarrow> int option" where
  "int_of_double d =
     (let i = (if d < 0 then - \<lfloor>- d\<rfloor> else \<lfloor>d\<rfloor>) in
      if - 2147483648 \<le> i \<and> i \<le> 2147483647 then Some i else None)"

definition cJSON_CreateNull :: cjson where "cJSON_CreateNull = CJson cJSON_NULL None 0 0 None []"
definition cJSON_CreateTrue :: cjson where "cJSON_CreateTrue = CJson cJSON_True None 0 0 None []"
definition cJSON_CreateFalse :: cjson where "cJSON_CreateFalse = CJson cJSON_False None 0 0 None []"

definition cJSON_CreateBool :: "bool \<Rightarrow> cjson" where
  "cJSON_CreateBool b = CJson (if b then cJSON_True else cJSON_False) None 0 0 None []"

definition cJSON_CreateNumber :: "rat \<Rightarrow> cjson option" where
  "cJSON_CreateNumber num =
     map_option (\<lambda>i. CJson cJSON_Number None i num None []) (int_of_double num)"

definition cJSON_CreateString :: "string \<Rightarrow> cjson" where
  "cJSON_CreateString s = CJson cJSON_String (Some s) 0 0 None []"

definition cJSON_CreateArray :: cjson where "cJSON_CreateArray = CJson cJSON_Array None 0 0 None []"
definition cJSON_CreateObject :: cjson where "cJSON_CreateObject = CJson cJSON_Object None 0 0 None []"

fun numbers_loop :: "rat list \<Rightarrow> cjson list option" where
  "numbers_loop [] = Some []"
| "numbers_loop (n # ns) =
     do { c \<leftarrow> cJSON_CreateNumber n; cs \<leftarrow> numbers_loop ns; Some (c # cs) }"

definition with_child :: "cjson list \<Rightarrow> cjson \<Rightarrow> cjson" where
  "with_child cs item = (case item of CJson t vs vi vd st _ \<Rightarrow> CJson t vs vi vd st cs)"

definition with_string :: "string option \<Rightarrow> cjson \<Rightarrow> cjson" where
  "with_string st item = (case item of CJson t vs vi vd _ cs \<Rightarrow> CJson t vs vi vd st cs)"

definition cJSON_CreateIntArray :: "int list \<Rightarrow> cjson option" where
  "cJSON_CreateIntArray ns =
     map_option (\<lambda>cs. with_child cs cJSON_CreateArray) (numbers_loop (map of_int ns))"

text \<open>A \<open>float\<close> argument converts to \<open>double\<close> without change.\<close>

definition cJSON_CreateFloatArray :: "rat list \<Rightarrow> cjson option" where
  "cJSON_CreateFloatArray ns = map_option (\<lambda>cs. with_child cs cJSON_CreateArray) (numbers_loop ns)"

definition cJSON_CreateDoubleArray :: "rat list \<Rightarrow> cjson option" where
  "cJSON_CreateDoubleArray ns = map_option (\<lambda>cs. with_child cs cJSON_CreateArray) (numbers_loop ns)"

definition cJSON_CreateStringArray :: "string list \<Rightarrow> cjson" where
  "cJSON_CreateStringArray ss = with_child (map cJSON_CreateString ss) cJSON_CreateArray"

subsection \<open>Editing\<close>

definition cJSON_GetArraySize :: "cjson \<Rightarrow> nat" where
  "cJSON_GetArraySize array = length (cj_child array)"

fun item_loop :: "cjson list \<Rightarrow> int \<Rightarrow> cjson option" where
  "item_loop [] i = None"
| "item_loop (c # cs) i = (if i > 0 then item_loop cs (i - 1) else Some c)"

definition cJSON_GetArrayItem :: "cjson \<Rightarrow> int \<Rightarrow> cjson option" where
  "cJSON_GetArrayItem array item = item_loop (cj_child array) item"

fun find_loop :: "cjson list \<Rightarrow> string option \<Rightarrow> cjson option" where
  "find_loop [] s = None"
| "find_loop (c # cs) s = (if cJSON_strcasecmp (cj_string c) s \<noteq> 0 then find_loop cs s else Some c)"

definition cJSON_GetObjectItem :: "cjson \<Rightarrow> string \<Rightarrow> cjson option" where
  "cJSON_GetObjectItem object s = find_loop (cj_child object) (Some s)"

definition cJSON_AddItemToArray :: "cjson \<Rightarrow> cjson option \<Rightarrow> cjson" where
  "cJSON_AddItemToArray array item =
     (case item of None \<Rightarrow> array | Some i \<Rightarrow> with_child (cj_child array @ [i]) array)"

definition cJSON_AddItemToObject :: "cjson \<Rightarrow> string \<Rightarrow> cjson option \<Rightarrow> cjson" where
  "cJSON_AddItemToObject object s item =
     (case item of None \<Rightarrow> object
      | Some i \<Rightarrow> cJSON_AddItemToArray object (Some (with_string (Some s) i)))"

text \<open>A reference shares the children of its item; nothing edits shared children here.\<close>

definition create_reference :: "cjson \<Rightarrow> cjson" where
  "create_reference item =
     (case item of CJson t vs vi vd st cs \<Rightarrow> CJson (t OR cJSON_IsReference) vs vi vd None cs)"

definition cJSON_AddItemReferenceToArray :: "cjson \<Rightarrow> cjson \<Rightarrow> cjson" where
  "cJSON_AddItemReferenceToArray array item = cJSON_AddItemToArray array (Some (create_reference item))"

definition cJSON_AddItemReferenceToObject :: "cjson \<Rightarrow> string \<Rightarrow> cjson \<Rightarrow> cjson" where
  "cJSON_AddItemReferenceToObject object s item =
     cJSON_AddItemToObject object s (Some (create_reference item))"

text \<open>Detaching returns the item, if there is one, and what remains.\<close>

fun detach_loop :: "cjson list \<Rightarrow> int \<Rightarrow> cjson option \<times> cjson list" where
  "detach_loop [] which = (None, [])"
| "detach_loop (c # cs) which =
     (if which > 0 then (let (r, cs) = detach_loop cs (which - 1) in (r, c # cs)) else (Some c, cs))"

definition cJSON_DetachItemFromArray :: "cjson \<Rightarrow> int \<Rightarrow> cjson option \<times> cjson" where
  "cJSON_DetachItemFromArray array which =
     (let (r, cs) = detach_loop (cj_child array) which in (r, with_child cs array))"

definition cJSON_DeleteItemFromArray :: "cjson \<Rightarrow> int \<Rightarrow> cjson" where
  "cJSON_DeleteItemFromArray array which = snd (cJSON_DetachItemFromArray array which)"

text \<open>The position of the first item with the name.\<close>

fun index_loop :: "cjson list \<Rightarrow> string option \<Rightarrow> nat option" where
  "index_loop [] s = None"
| "index_loop (c # cs) s =
     (if cJSON_strcasecmp (cj_string c) s \<noteq> 0 then map_option Suc (index_loop cs s) else Some 0)"

definition cJSON_DetachItemFromObject :: "cjson \<Rightarrow> string \<Rightarrow> cjson option \<times> cjson" where
  "cJSON_DetachItemFromObject object s =
     (case index_loop (cj_child object) (Some s) of
        None \<Rightarrow> (None, object)
      | Some i \<Rightarrow> cJSON_DetachItemFromArray object (int i))"

definition cJSON_DeleteItemFromObject :: "cjson \<Rightarrow> string \<Rightarrow> cjson" where
  "cJSON_DeleteItemFromObject object s = snd (cJSON_DetachItemFromObject object s)"

fun replace_loop :: "cjson list \<Rightarrow> int \<Rightarrow> cjson \<Rightarrow> cjson list" where
  "replace_loop [] which n = []"
| "replace_loop (c # cs) which n = (if which > 0 then c # replace_loop cs (which - 1) n else n # cs)"

definition cJSON_ReplaceItemInArray :: "cjson \<Rightarrow> int \<Rightarrow> cjson \<Rightarrow> cjson" where
  "cJSON_ReplaceItemInArray array which newitem =
     with_child (replace_loop (cj_child array) which newitem) array"

definition cJSON_ReplaceItemInObject :: "cjson \<Rightarrow> string \<Rightarrow> cjson \<Rightarrow> cjson" where
  "cJSON_ReplaceItemInObject object s newitem =
     (case index_loop (cj_child object) (Some s) of
        None \<Rightarrow> object
      | Some i \<Rightarrow> cJSON_ReplaceItemInArray object (int i) (with_string (Some s) newitem))"

fun cJSON_Duplicate :: "cjson \<Rightarrow> bool \<Rightarrow> cjson" where
  "cJSON_Duplicate (CJson t vs vi vd st cs) recurse =
     CJson (t AND NOT cJSON_IsReference) vs vi vd st
       (if \<not> recurse then [] else map (\<lambda>c. cJSON_Duplicate c True) cs)"

end
