(* ===== verification/CJsonPrint.thy ===== *)
theory CJsonPrint
  imports CJson
begin

text \<open>
  The printer of \<open>cJSON.c\<close>. A result of \<open>None\<close> is a write past the buffer the printer
  allocated, \<open>Some None\<close> the NULL result (an item of unknown type), \<open>Some (Some s)\<close> the text.
\<close>

subsection \<open>Numbers\<close>

abbreviation (input) DBL_EPSILON :: rat where "DBL_EPSILON \<equiv> 2 powi (- 52)"

text \<open>\<open>sprintf\<close> into a block of \<open>cap\<close> bytes.\<close>

definition sprintf_new :: "nat \<Rightarrow> string \<Rightarrow> string option" where
  "sprintf_new cap s = (if length s < cap then Some s else None)"

definition sign_of :: "rat \<Rightarrow> string" where
  "sign_of d = (if d < 0 then ''-'' else [])"

text \<open>A decimal number padded with zeros to \<open>n\<close> digits.\<close>

definition pad :: "nat \<Rightarrow> nat \<Rightarrow> string" where
  "pad n k = (let s = dec k in replicate (n - length s) (CHR ''0'') @ s)"

text \<open>\<open>%.0f\<close> and \<open>%f\<close>.\<close>

definition fmt_f0 :: "rat \<Rightarrow> string" where
  "fmt_f0 d = sign_of d @ dec (nat (round_even \<bar>d\<bar>))"

definition fmt_f :: "rat \<Rightarrow> string" where
  "fmt_f d =
     (let m = nat (round_even (\<bar>d\<bar> * 1000000))
      in sign_of d @ dec (m div 1000000) @ ''.'' @ pad 6 (m mod 1000000))"

text \<open>\<open>%e\<close>: the decimal exponent is that of the rounded value.\<close>

definition dec_exp :: "rat \<Rightarrow> int" where
  "dec_exp q =
     (if 1 \<le> q then int (length (dec (nat \<lfloor>q\<rfloor>))) - 1 else - int (length (dec (nat (\<lceil>1 / q\<rceil> - 1)))))"

definition fmt_e :: "rat \<Rightarrow> string" where
  "fmt_e d =
     (if d = 0 then ''0.000000e+00''
      else
        let e = dec_exp \<bar>d\<bar>;
            m = nat (round_even (\<bar>d\<bar> / 10 powi e * 1000000));
            (m, e) = (if 10000000 \<le> m then (m div 10, e + 1) else (m, e))
        in sign_of d @ dec (m div 1000000) @ ''.'' @ pad 6 (m mod 1000000) @
             (if e < 0 then ''e-'' else ''e+'') @ pad 2 (nat \<bar>e\<bar>))"

definition print_number :: "cjson \<Rightarrow> string option" where
  "print_number item =
     (let d = cj_valuedouble item in
      if \<bar>of_int (cj_valueint item) - d\<bar> \<le> DBL_EPSILON \<and> d \<le> 2147483647 \<and> - 2147483648 \<le> d
      then sprintf_new 21 (dec_int (cj_valueint item))
      else if \<bar>of_int \<lfloor>d\<rfloor> - d\<bar> \<le> DBL_EPSILON \<and> \<bar>d\<bar> < 10 ^ 60 then sprintf_new 64 (fmt_f0 d)
      else if \<bar>d\<bar> < 1 / 10 ^ 6 \<or> \<bar>d\<bar> > 10 ^ 9 then sprintf_new 64 (fmt_e d)
      else sprintf_new 64 (fmt_f d))"

subsection \<open>Strings\<close>

text \<open>The characters with a short escape, and the escape of each.\<close>

definition specials :: string where
  "specials = [CHR 0x22, CHR 0x5C, CHR 0x08, CHR 0x0C, CHR 0x0A, CHR 0x0D, CHR 0x09]"

definition hex_digit :: "nat \<Rightarrow> char" where
  "hex_digit n = (if n < 10 then char_of (48 + n) else char_of (87 + n))"

definition print_char :: "char \<Rightarrow> string" where
  "print_char c =
     (if (of_char c :: nat) > 31 \<and> c \<noteq> CHR 0x22 \<and> c \<noteq> CHR 0x5C then [c]
      else CHR 0x5C #
        (if c = CHR 0x5C then [CHR 0x5C]
         else if c = CHR 0x22 then [CHR 0x22]
         else if c = CHR 0x08 then ''b''
         else if c = CHR 0x0C then ''f''
         else if c = CHR 0x0A then ''n''
         else if c = CHR 0x0D then ''r''
         else if c = CHR 0x09 then ''t''
         else ''u00'' @ [hex_digit (of_char c div 16), hex_digit (of_char c mod 16)]))"

text \<open>The first pass over the string: the bytes its escaped form needs.\<close>

definition print_char_len :: "char \<Rightarrow> nat" where
  "print_char_len c =
     (if c \<in> set specials then 2 else if (of_char c :: nat) < 32 then 6 else 1)"

definition print_string_ptr :: "string option \<Rightarrow> string option" where
  "print_string_ptr str =
     (case str of None \<Rightarrow> Some []
      | Some s \<Rightarrow>
          sprintf_new (sum_list (map print_char_len s) + 3)
            (CHR 0x22 # concat (map print_char s) @ [CHR 0x22]))"

definition print_string :: "cjson \<Rightarrow> string option" where
  "print_string item = print_string_ptr (cj_valuestring item)"

subsection \<open>Arrays and objects\<close>

fun compose_array :: "bool \<Rightarrow> string list \<Rightarrow> string" where
  "compose_array fmt [] = []"
| "compose_array fmt [e] = e"
| "compose_array fmt (e # es) = e @ '','' @ (if fmt then '' '' else []) @ compose_array fmt es"

text \<open>The results of the children, up to the first NULL.\<close>

fun array_entries :: "string option option list \<Rightarrow> string list option option" where
  "array_entries [] = Some (Some [])"
| "array_entries (r # rs) =
     (case r of None \<Rightarrow> None
      | Some None \<Rightarrow> Some None
      | Some (Some e) \<Rightarrow> map_option (map_option (Cons e)) (array_entries rs))"

definition print_array :: "bool \<Rightarrow> string option option list \<Rightarrow> string option option" where
  "print_array fmt rs =
     (if rs = [] then map_option Some (sprintf_new 3 ''[]'')
      else do {
        entries \<leftarrow> array_entries rs;
        (case entries of None \<Rightarrow> Some None
         | Some es \<Rightarrow>
             map_option Some
               (sprintf_new (5 + sum_list (map (\<lambda>e. length e + 2 + (if fmt then 1 else 0)) es))
                  (''['' @ compose_array fmt es @ '']'')))
      })"

abbreviation tabs :: "nat \<Rightarrow> string" where "tabs n \<equiv> replicate n (CHR 0x09)"

fun compose_object :: "bool \<Rightarrow> nat \<Rightarrow> (string \<times> string) list \<Rightarrow> string" where
  "compose_object fmt depth [] = []"
| "compose_object fmt depth ((n, e) # es) =
     (if fmt then tabs depth else []) @ n @ '':'' @ (if fmt then tabs 1 else []) @ e @
     (if es \<noteq> [] then '','' else []) @ (if fmt then [CHR 0x0A] else []) @
     compose_object fmt depth es"

text \<open>Names and results of the children; all are computed, whatever fails.\<close>

fun object_entries ::
  "(string option \<times> string option option) list \<Rightarrow> (string \<times> string) list option option" where
  "object_entries [] = Some (Some [])"
| "object_entries ((n, r) # rs) =
     (case n of None \<Rightarrow> None
      | Some n \<Rightarrow>
          (case r of None \<Rightarrow> None
           | Some e \<Rightarrow> do {
               es \<leftarrow> object_entries rs;
               Some (case e of None \<Rightarrow> None | Some e \<Rightarrow> map_option (Cons (n, e)) es)
             }))"

definition print_object ::
  "nat \<Rightarrow> bool \<Rightarrow> (string option \<times> string option option) list \<Rightarrow> string option option" where
  "print_object depth fmt rs =
     (if rs = [] then
        map_option Some (sprintf_new (if fmt then depth + 4 else 3)
          (''{'' @ (if fmt then CHR 0x0A # tabs (depth - 1) else []) @ ''}''))
      else do {
        entries \<leftarrow> object_entries rs;
        (case entries of None \<Rightarrow> Some None
         | Some es \<Rightarrow>
             let depth = Suc depth in
             map_option Some
               (sprintf_new
                 (7 + (if fmt then depth else 0) +
                    sum_list (map (\<lambda>(n, e). length e + length n + 2 + (if fmt then 2 + depth else 0)) es))
                 (''{'' @ (if fmt then [CHR 0x0A] else []) @ compose_object fmt depth es @
                    (if fmt then tabs (depth - 1) else []) @ ''}'')))
      })"

fun print_value :: "cjson \<Rightarrow> nat \<Rightarrow> bool \<Rightarrow> string option option" where
  "print_value (CJson t vs vi vd st cs) depth fmt =
     (let k = t AND 255 in
      if k = cJSON_NULL then Some (Some ''null'')
      else if k = cJSON_False then Some (Some ''false'')
      else if k = cJSON_True then Some (Some ''true'')
      else if k = cJSON_Number then map_option Some (print_number (CJson t vs vi vd st cs))
      else if k = cJSON_String then map_option Some (print_string (CJson t vs vi vd st cs))
      else if k = cJSON_Array then print_array fmt (map (\<lambda>c. print_value c (Suc depth) fmt) cs)
      else if k = cJSON_Object then
        print_object depth fmt
          (map (\<lambda>c. (print_string_ptr (cj_string c), print_value c (Suc depth) fmt)) cs)
      else Some None)"

declare print_value.simps [simp del]

definition cJSON_Print :: "cjson \<Rightarrow> string option option" where
  "cJSON_Print item = print_value item 0 True"

definition cJSON_PrintUnformatted :: "cjson \<Rightarrow> string option option" where
  "cJSON_PrintUnformatted item = print_value item 0 False"

subsection \<open>The printer stays within its buffers\<close>

text \<open>A finite double: zero, or between the smallest and the largest magnitude.\<close>

definition is_double :: "rat \<Rightarrow> bool" where
  "is_double d \<longleftrightarrow> \<bar>d\<bar> < 2 ^ 1024 \<and> (d \<noteq> 0 \<longrightarrow> 1 / 2 ^ 1074 \<le> \<bar>d\<bar>)"

fun numbers_ok :: "cjson \<Rightarrow> bool" where
  "numbers_ok (CJson t vs vi vd st cs) =
     (- 2147483648 \<le> vi \<and> vi \<le> 2147483647 \<and> is_double vd \<and> list_all numbers_ok cs)"

lemma length_dec_lower: "0 < n \<Longrightarrow> 10 ^ (length (dec n) - 1) \<le> n"
proof (induction n rule: dec.induct)
  case (1 n)
  show ?case
  proof (cases "n < 10")
    case True
    then show ?thesis using 1(2) by (simp add: length_dec_small)
  next
    case False
    then have "10 ^ (length (dec (n div 10)) - 1) \<le> n div 10" using 1(1) by simp
    moreover have "length (dec n) = Suc (length (dec (n div 10)))" using False by (subst dec.simps) simp
    moreover have "length (dec (n div 10)) \<noteq> 0" by simp
    ultimately have "(10::nat) ^ (length (dec n) - 1) \<le> 10 * (n div 10)"
      by (cases "length (dec (n div 10))") auto
    then show ?thesis by linarith
  qed
qed

lemma length_dec_upper: "n < 10 ^ length (dec n)"
proof (induction n rule: dec.induct)
  case (1 n)
  show ?case
  proof (cases "n < 10")
    case True
    then show ?thesis by (simp add: length_dec_small)
  next
    case False
    then have "n div 10 < 10 ^ length (dec (n div 10))" using 1 by simp
    moreover have "length (dec n) = Suc (length (dec (n div 10)))" using False by (subst dec.simps) simp
    ultimately show ?thesis by simp
  qed
qed

lemma length_pad_le: "k < 10 ^ n \<Longrightarrow> 0 < n \<Longrightarrow> length (pad n k) = n"
  using length_dec_le [of k n] by (simp add: pad_def Let_def)

lemma length_sign_of: "length (sign_of d) \<le> 1"
  by (simp add: sign_of_def)

lemma nat_round_even_le:
  assumes "x \<le> of_nat n"
  shows "nat (round_even x) \<le> n"
proof -
  have "of_int (round_even x) \<le> x + 1 / 2" using round_even_le [of x] by linarith
  also have "\<dots> < of_int (int n + 1)" using assms by simp
  finally have "round_even x < int n + 1" by (simp only: of_int_less_iff)
  then show ?thesis by simp
qed

lemma dec_exp_upper:
  assumes "0 < q"
  shows "q \<le> 10 * 10 powi dec_exp q"
proof (cases "1 \<le> q")
  case True
  have "0 < nat \<lfloor>q\<rfloor>" using True by simp
  have l: "0 < length (dec (nat \<lfloor>q\<rfloor>))" by simp
  have "q < of_int (\<lfloor>q\<rfloor> + 1)" by linarith
  also have "\<lfloor>q\<rfloor> + 1 \<le> 10 ^ length (dec (nat \<lfloor>q\<rfloor>))"
  proof -
    have "nat \<lfloor>q\<rfloor> < 10 ^ length (dec (nat \<lfloor>q\<rfloor>))" by (rule length_dec_upper)
    then have "int (nat \<lfloor>q\<rfloor>) < int (10 ^ length (dec (nat \<lfloor>q\<rfloor>)))" by (simp only: of_nat_less_iff)
    then show ?thesis using True by simp
  qed
  then have "(of_int (\<lfloor>q\<rfloor> + 1) :: rat) \<le> of_int (10 ^ length (dec (nat \<lfloor>q\<rfloor>)))" by (simp only: of_int_le_iff)
  finally have "q \<le> 10 ^ length (dec (nat \<lfloor>q\<rfloor>))" by simp
  moreover have "(10::rat) ^ length (dec (nat \<lfloor>q\<rfloor>)) = 10 * 10 powi dec_exp q"
    using True l by (cases "length (dec (nat \<lfloor>q\<rfloor>))") (simp_all add: dec_exp_def)
  ultimately show ?thesis by simp
next
  case False
  define n where "n = nat (\<lceil>1 / q\<rceil> - 1)"
  define k where "k = length (dec n)"
  have iq: "1 < 1 / q" using False assms by (simp add: field_simps)
  then have c: "2 \<le> \<lceil>1 / q\<rceil>" by linarith
  then have n: "0 < n" by (simp add: n_def)
  have "(of_nat (10 ^ (k - 1)) :: rat) \<le> of_nat n"
    using length_dec_lower [OF n] by (simp only: of_nat_le_iff k_def)
  also have "\<dots> = of_int (int n)" by simp
  also have "\<dots> = of_int (\<lceil>1 / q\<rceil> - 1)" using c unfolding n_def by (metis int_nat_eq linorder_not_le
        diff_ge_0_iff_ge one_le_numeral order_trans)
  also have "\<dots> \<le> 1 / q" by linarith
  finally have "q * 10 ^ (k - 1) \<le> 1" using assms by (simp add: field_simps)
  moreover have "0 < k" by (simp add: k_def)
  then have "(10::rat) ^ k = 10 * 10 ^ (k - 1)" by (cases k) simp_all
  moreover have "dec_exp q = - int k" using False by (simp add: dec_exp_def k_def n_def)
  ultimately show ?thesis by (simp add: power_int_minus field_simps)
qed

lemma big_powers:
  "(2::nat) ^ 1024 < 10 ^ 309" "(2::nat) ^ 1074 < 10 ^ 324"
  "(2::rat) ^ 1024 = of_nat (2 ^ 1024)" "(2::rat) ^ 1074 = of_nat (2 ^ 1074)"
  by simp_all

lemma dec_exp_small:
  assumes "0 < q" "q < 2 ^ 1024" "1 / 2 ^ 1074 \<le> q"
  shows "nat \<bar>dec_exp q\<bar> < 1000"
proof (cases "1 \<le> q")
  case True
  have "of_int \<lfloor>q\<rfloor> < (of_nat (2 ^ 1024) :: rat)" using assms(2) by (simp only: big_powers(3)) linarith
  then have "\<lfloor>q\<rfloor> < int (2 ^ 1024)" by (metis of_int_less_iff of_int_of_nat_eq)
  then have "nat \<lfloor>q\<rfloor> < 2 ^ 1024" using True by (simp add: nat_less_iff)
  then have "nat \<lfloor>q\<rfloor> < 10 ^ 309" using big_powers(1) by (rule less_trans)
  then have "length (dec (nat \<lfloor>q\<rfloor>)) \<le> 309" by (rule length_dec_le) simp
  with True show ?thesis by (simp add: dec_exp_def)
next
  case False
  have "1 / q \<le> of_nat (2 ^ 1074)"
    unfolding big_powers(4) [symmetric] using assms(1,3) by (simp add: field_simps)
  then have "\<lceil>1 / q\<rceil> \<le> int (2 ^ 1074)" by (metis ceiling_le_iff of_int_of_nat_eq)
  then have "\<lceil>1 / q\<rceil> - 1 < int (10 ^ 324)" using big_powers(2) by (simp del: of_nat_power)
  moreover have "0 \<le> \<lceil>1 / q\<rceil> - 1"
  proof -
    have "1 < 1 / q" using False assms(1) by (simp add: field_simps)
    then show ?thesis by linarith
  qed
  ultimately have "nat (\<lceil>1 / q\<rceil> - 1) < 10 ^ 324"
    by (metis nat_less_iff)
  then have "length (dec (nat (\<lceil>1 / q\<rceil> - 1))) \<le> 324" by (rule length_dec_le) simp
  with False show ?thesis by (simp add: dec_exp_def)
qed

lemma length_fmt_e:
  assumes "is_double d"
  shows "length (fmt_e d) < 64"
proof (cases "d = 0")
  case False
  define e where "e = dec_exp \<bar>d\<bar>"
  define m where "m = nat (round_even (\<bar>d\<bar> / 10 powi e * 1000000))"
  have d: "0 < \<bar>d\<bar>" using False by simp
  have "\<bar>d\<bar> / 10 powi e \<le> 10"
    using dec_exp_upper [OF d] by (simp add: e_def field_simps zero_less_power_int)
  then have "\<bar>d\<bar> / 10 powi e * 1000000 \<le> 10 * 1000000" by (intro mult_right_mono) simp_all
  then have m: "m \<le> 10000000" unfolding m_def by (intro nat_round_even_le) simp
  have e: "nat \<bar>e\<bar> < 1000"
    unfolding e_def using assms False by (intro dec_exp_small) (auto simp: is_double_def)
  obtain m' e' where me: "(if 10000000 \<le> m then (m div 10, e + 1) else (m, e)) = (m', e')"
    by (cases "if 10000000 \<le> m then (m div 10, e + 1) else (m, e)")
  have m': "m' div 1000000 < 10 ^ 2" "m' mod 1000000 < 10 ^ 6" and e': "nat \<bar>e'\<bar> < 10 ^ 4"
    using me m e by (auto split: if_splits)
  have "length (pad 2 (nat \<bar>e'\<bar>)) \<le> 4"
    using length_dec_le [OF e'] by (simp add: pad_def Let_def)
  moreover have "length (dec (m' div 1000000)) \<le> 2" using length_dec_le [OF m'(1)] by simp
  moreover have "length (pad 6 (m' mod 1000000)) = 6" by (rule length_pad_le [OF m'(2)]) simp
  moreover have "fmt_e d = sign_of d @ dec (m' div 1000000) @ ''.'' @ pad 6 (m' mod 1000000) @
      (if e' < 0 then ''e-'' else ''e+'') @ pad 2 (nat \<bar>e'\<bar>)"
    using False by (simp only: fmt_e_def Let_def me prod.case if_False flip: e_def m_def)
  ultimately show ?thesis
    using length_sign_of [of d] by auto
qed (simp add: fmt_e_def)

lemma length_fmt_f:
  assumes "\<bar>d\<bar> \<le> 10 ^ 9"
  shows "length (fmt_f d) < 64"
proof -
  define m where "m = nat (round_even (\<bar>d\<bar> * 1000000))"
  have "m \<le> 10 ^ 15" unfolding m_def using assms by (intro nat_round_even_le) simp
  then have "m div 1000000 < 10 ^ 10" "m mod 1000000 < 10 ^ 6" by (simp_all add: div_less_iff_less_mult)
  from length_dec_le [OF this(1)] length_pad_le [OF this(2)] length_sign_of [of d]
  show ?thesis by (simp add: fmt_f_def Let_def flip: m_def)
qed

lemma length_fmt_f0:
  assumes "\<bar>d\<bar> < 10 ^ 60"
  shows "length (fmt_f0 d) < 64"
proof -
  have "nat (round_even \<bar>d\<bar>) \<le> 10 ^ 60" using assms by (intro nat_round_even_le) simp
  then have "nat (round_even \<bar>d\<bar>) < 10 ^ 61" by simp
  from length_dec_le [OF this] length_sign_of [of d] show ?thesis by (simp add: fmt_f0_def)
qed

lemma length_dec_int:
  assumes "- 2147483648 \<le> i" "i \<le> 2147483647"
  shows "length (dec_int i) < 21"
proof -
  have "nat i < 10 ^ 10" "nat (- i) < 10 ^ 10" using assms by auto
  from length_dec_le [OF this(1)] length_dec_le [OF this(2)] show ?thesis by (simp add: dec_int_def)
qed

lemma print_number_fits: "numbers_ok j \<Longrightarrow> print_number j \<noteq> None"
  using length_dec_int [of "cj_valueint j"] length_fmt_f0 [of "cj_valuedouble j"]
    length_fmt_e [of "cj_valuedouble j"] length_fmt_f [of "cj_valuedouble j"]
  by (cases j) (auto simp: print_number_def sprintf_new_def Let_def not_less)

lemma length_print_char: "length (print_char c) = print_char_len c"
  by (auto simp: print_char_def print_char_len_def specials_def)

lemma print_string_ptr_Some:
  "print_string_ptr (Some s) = Some (CHR 0x22 # concat (map print_char s) @ [CHR 0x22])"
  by (simp add: print_string_ptr_def sprintf_new_def length_concat length_print_char comp_def)

lemma print_string_fits: "print_string_ptr st \<noteq> None"
  by (cases st) (simp add: print_string_ptr_def, simp add: print_string_ptr_Some)

lemma length_compose_array:
  "length (compose_array fmt es) \<le> sum_list (map (\<lambda>e. length e + 2 + (if fmt then 1 else 0)) es)"
  by (induction fmt es rule: compose_array.induct) auto

lemma length_compose_object:
  "length (compose_object fmt depth es) \<le>
     sum_list (map (\<lambda>(n, e). length e + length n + 2 + (if fmt then 2 + depth else 0)) es)"
  by (induction fmt depth es rule: compose_object.induct) auto

lemma array_entries_fits: "(\<forall>r\<in>set rs. r \<noteq> None) \<Longrightarrow> array_entries rs \<noteq> None"
  by (induction rs) (auto split: option.splits)

lemma object_entries_fits: "(\<forall>(n, r)\<in>set rs. n \<noteq> None \<and> r \<noteq> None) \<Longrightarrow> object_entries rs \<noteq> None"
  by (induction rs) (auto split: option.splits)

lemma print_array_fits:
  assumes "\<forall>r\<in>set rs. r \<noteq> None"
  shows "print_array fmt rs \<noteq> None"
proof -
  obtain es where "array_entries rs = Some es" using array_entries_fits [OF assms] by auto
  then show ?thesis
    using length_compose_array [of fmt "the es"]
    by (cases es) (auto simp: print_array_def sprintf_new_def)
qed

lemma print_object_fits:
  assumes "\<forall>(n, r)\<in>set rs. n \<noteq> None \<and> r \<noteq> None"
  shows "print_object depth fmt rs \<noteq> None"
proof -
  obtain es where es: "object_entries rs = Some es" using object_entries_fits [OF assms] by auto
  show ?thesis
  proof (cases es)
    case None
    with es show ?thesis by (auto simp: print_object_def sprintf_new_def)
  next
    case (Some xs)
    with es length_compose_object [of fmt "Suc depth" xs] show ?thesis
      by (auto simp: print_object_def sprintf_new_def Let_def)
  qed
qed

lemma print_value_fits: "numbers_ok j \<Longrightarrow> print_value j depth fmt \<noteq> None"
proof (induction j arbitrary: depth)
  case (CJson t vs vi vd st cs)
  then have c: "\<forall>r\<in>set (map (\<lambda>c. print_value c (Suc depth) fmt) cs). r \<noteq> None"
    by (auto simp: list_all_iff)
  then have o: "\<forall>(n, r)\<in>set (map (\<lambda>c. (print_string_ptr (cj_string c), print_value c (Suc depth) fmt)) cs).
      n \<noteq> None \<and> r \<noteq> None"
    using print_string_fits by auto
  show ?case
    using print_number_fits [OF CJson.prems] print_string_fits [of vs] print_array_fits [OF c, of fmt]
      print_object_fits [OF o, of depth fmt]
    by (simp add: print_value.simps Let_def print_string_def)
qed

subsection \<open>Properties of the printer\<close>

text \<open>C12: Printing never writes past a buffer: for every tree of items whose numbers are finite
  doubles, formatted or not, the blocks the printer allocates for numbers, strings, arrays and
  objects are large enough for what it writes into them.\<close>

theorem print_in_bounds:
  assumes "numbers_ok j"
  shows "cJSON_Print j \<noteq> None \<and> cJSON_PrintUnformatted j \<noteq> None"
  using print_value_fits [OF assms] by (simp add: cJSON_Print_def cJSON_PrintUnformatted_def)

lemma print_in_bounds_witness:
  "cJSON_Print (cJSON_AddItemToArray cJSON_CreateArray (Some (CJson cJSON_Number None 0 (1 / 3) None [])))
     \<noteq> None"
  using print_in_bounds [of "cJSON_AddItemToArray cJSON_CreateArray
      (Some (CJson cJSON_Number None 0 (1 / 3) None []))"]
  by (simp add: cJSON_AddItemToArray_def cJSON_CreateArray_def with_child_def is_double_def)

end
