(* ===== verification/CJsonParse.thy ===== *)
theory CJsonParse
  imports CJsonPrint
begin

text \<open>
  The parser of \<open>cJSON.c\<close>, on the bytes of the text and whatever follows them in memory. \<open>UB\<close>:
  a read past those bytes, a write past the block a string is copied to, or an arithmetic result
  C does not define. \<open>Fail e\<close>: NULL with the error pointer at \<open>e\<close>. \<open>Deep\<close>: the recursion limit
  of the model; with the limit \<open>cJSON_Parse\<close> uses it does not occur.
\<close>

datatype 'a pres = UB | Fail cbuf | Done 'a cbuf | Deep

subsection \<open>Numbers\<close>

fun skip :: "cbuf \<Rightarrow> cbuf option" where
  "skip [] = None"
| "skip (c # cs) = (if c \<noteq> NUL \<and> (of_char c :: nat) \<le> 32 then skip cs else Some (c # cs))"

definition finite64 :: "rat \<Rightarrow> rat option" where
  "finite64 q = (let x = fl64 q in if \<bar>x\<bar> < 2 ^ 1024 then Some x else None)"

text \<open>A run of digits: \<open>n = n * 10.0 + digit\<close> for each; with the number of digits.\<close>

fun digits_loop :: "rat \<Rightarrow> nat \<Rightarrow> cbuf \<Rightarrow> (rat \<times> nat \<times> cbuf) option" where
  "digits_loop n k [] = None"
| "digits_loop n k (c # cs) =
     (if is_digit c then
        do { x \<leftarrow> finite64 (n * 10); y \<leftarrow> finite64 (x + of_nat (digit_val c)); digits_loop y (Suc k) cs }
      else Some (n, k, c # cs))"

fun exponent_loop :: "int \<Rightarrow> cbuf \<Rightarrow> (int \<times> cbuf) option" where
  "exponent_loop e [] = None"
| "exponent_loop e (c # cs) =
     (if is_digit c then
        let e' = e * 10 + int (digit_val c) in
        if e' \<le> 2147483647 then exponent_loop e' cs else None
      else Some (e, c # cs))"

definition sign_part :: "cbuf \<Rightarrow> (rat \<times> cbuf) option" where
  "sign_part num =
     (case num of [] \<Rightarrow> None | c # cs \<Rightarrow> Some (if c = CHR ''-'' then (- 1, cs) else (1, num)))"

text \<open>One zero is skipped, then digits are read if the next is not a zero.\<close>

definition integer_part :: "cbuf \<Rightarrow> (rat \<times> nat \<times> cbuf) option" where
  "integer_part num =
     do {
       num \<leftarrow> (case num of [] \<Rightarrow> None | c # cs \<Rightarrow> Some (if c = CHR ''0'' then cs else num));
       (case num of [] \<Rightarrow> None
        | c # cs \<Rightarrow> if is_digit c \<and> c \<noteq> CHR ''0'' then digits_loop 0 0 num else Some (0, 0, num))
     }"

definition fraction_part :: "rat \<Rightarrow> cbuf \<Rightarrow> (rat \<times> nat \<times> cbuf) option" where
  "fraction_part n num =
     (case num of
        [] \<Rightarrow> None
      | c # cs \<Rightarrow>
          if c = CHR ''.'' then
            (case cs of [] \<Rightarrow> None
             | d # ds \<Rightarrow> if is_digit d then digits_loop n 0 cs else Some (n, 0, num))
          else Some (n, 0, num))"

definition exponent_part :: "cbuf \<Rightarrow> (int \<times> cbuf) option" where
  "exponent_part num =
     (case num of
        [] \<Rightarrow> None
      | c # cs \<Rightarrow>
          if c = CHR ''e'' \<or> c = CHR ''E'' then
            (case cs of [] \<Rightarrow> None
             | d # ds \<Rightarrow>
                 if d = CHR ''+'' then exponent_loop 0 ds
                 else if d = CHR ''-'' then map_option (\<lambda>(e, r). (- e, r)) (exponent_loop 0 ds)
                 else exponent_loop 0 cs)
          else Some (0, num))"

definition parse_number :: "cbuf \<Rightarrow> cjson pres" where
  "parse_number num =
     (case do {
        (sign, num) \<leftarrow> sign_part num;
        (n, _, num) \<leftarrow> integer_part num;
        (n, scale, num) \<leftarrow> fraction_part n num;
        (subscale, num) \<leftarrow> exponent_part num;
        p \<leftarrow> finite64 (10 powi (subscale - int scale));
        n \<leftarrow> finite64 (sign * n * p);
        i \<leftarrow> int_of_double n;
        Some (CJson cJSON_Number None i n None [], num)
      } of None \<Rightarrow> UB | Some (item, r) \<Rightarrow> Done item r)"

subsection \<open>Strings\<close>

fun hex_val :: "char \<Rightarrow> nat option" where
  "hex_val c =
     (let n = of_char c :: nat in
      if 48 \<le> n \<and> n \<le> 57 then Some (n - 48)
      else if 65 \<le> n \<and> n \<le> 70 then Some (10 + n - 65)
      else if 97 \<le> n \<and> n \<le> 102 then Some (10 + n - 97)
      else None)"

fun hex4_loop :: "nat \<Rightarrow> nat \<Rightarrow> cbuf \<Rightarrow> nat option" where
  "hex4_loop 0 h str = Some h"
| "hex4_loop (Suc k) h [] = None"
| "hex4_loop (Suc k) h (c # cs) =
     (case hex_val c of None \<Rightarrow> Some 0 | Some v \<Rightarrow> hex4_loop k (16 * h + v) cs)"

definition parse_hex4 :: "cbuf \<Rightarrow> nat option" where
  "parse_hex4 str = hex4_loop 4 0 str"

text \<open>A pointer moved by \<open>n\<close>: at most to one past the end.\<close>

definition advance :: "nat \<Rightarrow> cbuf \<Rightarrow> cbuf option" where
  "advance n b = (if n \<le> length b then Some (drop n b) else None)"

definition utf8 :: "nat \<Rightarrow> string" where
  "utf8 uc =
     (if uc < 0x80 then [char_of uc]
      else if uc < 0x800 then [char_of (0xC0 + uc div 64), char_of (0x80 + uc mod 64)]
      else if uc < 0x10000 then
        [char_of (0xE0 + uc div 4096), char_of (0x80 + uc div 64 mod 64), char_of (0x80 + uc mod 64)]
      else
        [char_of (0xF0 + uc div 262144), char_of (0x80 + uc div 4096 mod 64),
         char_of (0x80 + uc div 64 mod 64), char_of (0x80 + uc mod 64)])"

text \<open>After \<open>\u\<close>: the bytes the code point becomes, and where reading goes on.\<close>

definition unescape_u :: "cbuf \<Rightarrow> (string \<times> cbuf) option" where
  "unescape_u ptr =
     do {
       uc \<leftarrow> parse_hex4 ptr;
       ptr \<leftarrow> advance 4 ptr;
       if (0xDC00 \<le> uc \<and> uc \<le> 0xDFFF) \<or> uc = 0 then Some ([], ptr)
       else if 0xD800 \<le> uc \<and> uc \<le> 0xDBFF then
         (case ptr of
            [] \<Rightarrow> None
          | c # cs \<Rightarrow>
              if c \<noteq> CHR 0x5C then Some ([], ptr)
              else (case cs of
                 [] \<Rightarrow> None
               | d # ds \<Rightarrow>
                   if d \<noteq> CHR ''u'' then Some ([], ptr)
                   else do {
                     uc2 \<leftarrow> parse_hex4 ds;
                     ptr \<leftarrow> advance 4 ds;
                     if uc2 < 0xDC00 \<or> uc2 > 0xDFFF then Some ([], ptr)
                     else Some (utf8 (0x10000 + ((uc mod 0x400) * 0x400 + uc2 mod 0x400)), ptr)
                   }))
       else Some (utf8 uc, ptr)
     }"

text \<open>The first pass: the length the copy is given.\<close>

fun scan_len :: "cbuf \<Rightarrow> nat option" where
  "scan_len [] = None"
| "scan_len (c # cs) =
     (if c = CHR 0x22 \<or> c = NUL then Some 0
      else if c = CHR 0x5C then (case cs of [] \<Rightarrow> None | d # ds \<Rightarrow> map_option Suc (scan_len ds))
      else map_option Suc (scan_len cs))"

text \<open>The second pass: the bytes written, and where it stopped.\<close>

function unescape :: "cbuf \<Rightarrow> (string \<times> cbuf) option" where
  "unescape [] = None"
| "unescape (c # cs) =
     (if c = CHR 0x22 \<or> c = NUL then Some ([], c # cs)
      else if c \<noteq> CHR 0x5C then map_option (apfst (Cons c)) (unescape cs)
      else (case cs of
         [] \<Rightarrow> None
       | e # r \<Rightarrow>
           if e = CHR ''u'' then
             (case unescape_u r of None \<Rightarrow> None
              | Some (bs, r') \<Rightarrow> map_option (apfst (append bs)) (unescape r'))
           else
             map_option (apfst (Cons
               (if e = CHR ''b'' then CHR 0x08 else if e = CHR ''f'' then CHR 0x0C
                else if e = CHR ''n'' then CHR 0x0A else if e = CHR ''r'' then CHR 0x0D
                else if e = CHR ''t'' then CHR 0x09 else e))) (unescape r)))"
  by pat_completeness auto

lemma advance_length: "advance n b = Some r \<Longrightarrow> length r \<le> length b"
  by (auto simp: advance_def split: if_splits)

lemma unescape_u_length: "unescape_u r = Some (bs, r') \<Longrightarrow> length r' \<le> length r"
  by (auto simp: unescape_u_def advance_def split: Option.bind_splits if_splits list.splits
      dest!: arg_cong [of "drop 4 r" _ length])

termination unescape
  by (relation "measure length") (auto dest: unescape_u_length)

declare unescape.simps [simp del]

definition parse_string :: "cbuf \<Rightarrow> string pres" where
  "parse_string str =
     (case str of
        [] \<Rightarrow> UB
      | c # ptr \<Rightarrow>
          if c \<noteq> CHR 0x22 then Fail str
          else
            (case scan_len ptr of None \<Rightarrow> UB
             | Some len \<Rightarrow>
                 (case unescape ptr of None \<Rightarrow> UB
                  | Some (out, r) \<Rightarrow>
                      if len < length out then UB
                      else Done (takeWhile (\<lambda>c. c \<noteq> NUL) out)
                             (if hd r = CHR 0x22 then tl r else r))))"

subsection \<open>Values\<close>

text \<open>\<open>!strncmp(b, s, strlen(s))\<close>.\<close>

fun prefix_eq :: "cbuf \<Rightarrow> string \<Rightarrow> bool option" where
  "prefix_eq b [] = Some True"
| "prefix_eq [] (c # cs) = None"
| "prefix_eq (x # xs) (c # cs) = (if x = c then prefix_eq xs cs else Some False)"

text \<open>The literals a value may be, with the bytes each takes.\<close>

definition literal :: "cbuf \<Rightarrow> (cjson \<times> nat) option option" where
  "literal v =
     do {
       is_null \<leftarrow> prefix_eq v ''null'';
       if is_null then Some (Some (CJson cJSON_NULL None 0 0 None [], 4))
       else do {
         is_false \<leftarrow> prefix_eq v ''false'';
         if is_false then Some (Some (CJson cJSON_False None 0 0 None [], 5))
         else do {
           is_true \<leftarrow> prefix_eq v ''true'';
           if is_true then Some (Some (CJson cJSON_True None 1 0 None [], 4)) else Some None
         }
       }
     }"

definition pskip :: "cbuf \<Rightarrow> (cbuf \<Rightarrow> 'a pres) \<Rightarrow> 'a pres" where
  "pskip b k = (case skip b of None \<Rightarrow> UB | Some r \<Rightarrow> k r)"

fun pbind :: "'a pres \<Rightarrow> ('a \<Rightarrow> cbuf \<Rightarrow> 'b pres) \<Rightarrow> 'b pres" where
  "pbind (Done x r) k = k x r"
| "pbind UB k = UB"
| "pbind (Fail e) k = Fail e"
| "pbind Deep k = Deep"

lemma pbind_cong [fundef_cong]:
  "m = m' \<Longrightarrow> (\<And>x r. m' = Done x r \<Longrightarrow> k x r = k' x r) \<Longrightarrow> pbind m k = pbind m' k'"
  by (cases m') auto

abbreviation array_of :: "cjson list \<Rightarrow> cjson" where "array_of cs \<equiv> CJson cJSON_Array None 0 0 None cs"
abbreviation object_of :: "cjson list \<Rightarrow> cjson" where "object_of cs \<equiv> CJson cJSON_Object None 0 0 None cs"

text \<open>
  \<open>parse_elems\<close> and \<open>parse_members\<close> are the loops of \<open>parse_array\<close> and \<open>parse_object\<close>, at the
  start of an element, with the children so far.
\<close>

fun parse_value :: "nat \<Rightarrow> cbuf \<Rightarrow> cjson pres"
and parse_elems :: "nat \<Rightarrow> cbuf \<Rightarrow> cjson list \<Rightarrow> cjson pres"
and parse_members :: "nat \<Rightarrow> cbuf \<Rightarrow> cjson list \<Rightarrow> cjson pres"
where
  "parse_value 0 v = Deep"
| "parse_value (Suc n) v =
     (case literal v of
        None \<Rightarrow> UB
      | Some (Some (c, k)) \<Rightarrow> Done c (drop k v)
      | Some None \<Rightarrow>
          let c = hd v in
          if c = CHR 0x22 then
            pbind (parse_string v) (\<lambda>s r. Done (CJson cJSON_String (Some s) 0 0 None []) r)
          else if c = CHR ''-'' \<or> is_digit c then parse_number v
          else if c = CHR ''['' then
            pskip (tl v) (\<lambda>w. if hd w = CHR '']'' then Done (array_of []) (tl w) else parse_elems n w [])
          else if c = CHR ''{'' then
            pskip (tl v) (\<lambda>w. if hd w = CHR ''}'' then Done (object_of []) (tl w) else parse_members n w [])
          else Fail v)"
| "parse_elems 0 v acc = Deep"
| "parse_elems (Suc n) v acc =
     pskip v (\<lambda>v.
     pbind (parse_value n v) (\<lambda>c r.
     pskip r (\<lambda>r.
       if hd r = CHR '','' then parse_elems n (tl r) (acc @ [c])
       else if hd r = CHR '']'' then Done (array_of (acc @ [c])) (tl r)
       else Fail r)))"
| "parse_members 0 v acc = Deep"
| "parse_members (Suc n) v acc =
     pskip v (\<lambda>v.
     pbind (parse_string v) (\<lambda>name r.
     pskip r (\<lambda>r.
       if hd r \<noteq> CHR '':'' then Fail r
       else
         pskip (tl r) (\<lambda>v.
         pbind (parse_value n v) (\<lambda>c r.
         pskip r (\<lambda>r.
           let acc = acc @ [with_string (Some name) c] in
           if hd r = CHR '','' then parse_members n (tl r) acc
           else if hd r = CHR ''}'' then Done (object_of acc) (tl r)
           else Fail r))))))"

text \<open>Two levels per byte are enough: every level but the loops' reads one.\<close>

definition cJSON_ParseWithOpts :: "cbuf \<Rightarrow> bool \<Rightarrow> cjson pres" where
  "cJSON_ParseWithOpts value require_null_terminated =
     pskip value (\<lambda>v.
     pbind (parse_value (2 * length v + 1) v) (\<lambda>c r.
       if require_null_terminated then pskip r (\<lambda>r. if hd r \<noteq> NUL then Fail r else Done c r)
       else Done c r))"

definition cJSON_Parse :: "cbuf \<Rightarrow> cjson pres" where
  "cJSON_Parse value = cJSON_ParseWithOpts value False"

subsection \<open>Minify\<close>

fun skip_line :: "cbuf \<Rightarrow> cbuf option" where
  "skip_line [] = None"
| "skip_line (c # cs) = (if c = NUL \<or> c = CHR 0x0A then Some (c # cs) else skip_line cs)"

fun skip_block :: "cbuf \<Rightarrow> cbuf option" where
  "skip_block [] = None"
| "skip_block (c # cs) =
     (if c = NUL then advance 2 (c # cs)
      else if c = CHR ''*'' then
        (case cs of [] \<Rightarrow> None | d # ds \<Rightarrow> if d = CHR ''/'' then Some ds else skip_block cs)
      else skip_block cs)"

text \<open>A string literal after its opening quote: the bytes copied, and the rest.\<close>

fun copy_string :: "cbuf \<Rightarrow> (string \<times> cbuf) option" where
  "copy_string [] = None"
| "copy_string (c # cs) =
     (if c = NUL \<or> c = CHR 0x22 then Some ([c], cs)
      else if c = CHR 0x5C then
        (case cs of [] \<Rightarrow> None | d # ds \<Rightarrow> map_option (apfst (\<lambda>s. c # d # s)) (copy_string ds))
      else map_option (apfst (Cons c)) (copy_string cs))"

lemma skip_line_length: "skip_line b = Some r \<Longrightarrow> length r \<le> length b"
  by (induction b) (auto split: if_splits)

lemma skip_block_length: "skip_block b = Some r \<Longrightarrow> length r \<le> length b"
  by (induction b rule: skip_block.induct)
    (auto split: if_splits list.splits dest: advance_length)

lemma copy_string_length: "copy_string b = Some (s, r) \<Longrightarrow> length r < length b"
  by (induction b arbitrary: s r rule: copy_string.induct)
    (fastforce split: if_splits list.splits)+

function cJSON_Minify :: "cbuf \<Rightarrow> string option" where
  "cJSON_Minify [] = None"
| "cJSON_Minify (c # cs) =
     (if c = NUL then Some []
      else if c \<in> {CHR '' '', CHR 0x09, CHR 0x0D, CHR 0x0A} then cJSON_Minify cs
      else if c = CHR ''/'' then
        (case cs of [] \<Rightarrow> None
         | d # ds \<Rightarrow>
             if d = CHR ''/'' then (case skip_line cs of None \<Rightarrow> None | Some r \<Rightarrow> cJSON_Minify r)
             else if d = CHR ''*'' then (case skip_block cs of None \<Rightarrow> None | Some r \<Rightarrow> cJSON_Minify r)
             else map_option (Cons c) (cJSON_Minify cs))
      else if c = CHR 0x22 then
        (case copy_string cs of None \<Rightarrow> None
         | Some (s, r) \<Rightarrow> map_option (append (c # s)) (cJSON_Minify r))
      else map_option (Cons c) (cJSON_Minify cs))"
  by pat_completeness auto

termination cJSON_Minify
  by (relation "measure length")
    (auto dest!: skip_line_length skip_block_length copy_string_length
      simp del: skip_line.simps skip_block.simps copy_string.simps)

declare cJSON_Minify.simps [simp del]

subsection \<open>Every parse ends\<close>

lemma skip_length: "skip b = Some r \<Longrightarrow> 0 < length r \<and> length r \<le> length b"
  by (induction b) (auto split: if_splits)

lemma digits_loop_length: "digits_loop n k b = Some (m, l, r) \<Longrightarrow> length r \<le> length b"
  by (induction n k b rule: digits_loop.induct)
    (fastforce split: if_splits Option.bind_splits intro: le_SucI)+

lemma digits_loop_first:
  "digits_loop n k (c # cs) = Some (m, l, r) \<Longrightarrow> is_digit c \<Longrightarrow> length r < length (c # cs)"
  by (auto dest: digits_loop_length split: Option.bind_splits)

lemma exponent_loop_length: "exponent_loop e b = Some (m, r) \<Longrightarrow> length r \<le> length b"
  by (induction e b rule: exponent_loop.induct) (auto simp: Let_def split: if_splits)

lemma fraction_part_length: "fraction_part n b = Some (m, l, r) \<Longrightarrow> length r \<le> length b"
  by (auto simp: fraction_part_def split: list.splits if_splits dest!: digits_loop_length
      simp del: digits_loop.simps)

lemma exponent_part_length: "exponent_part b = Some (m, r) \<Longrightarrow> length r \<le> length b"
  by (auto simp: exponent_part_def split: list.splits if_splits dest!: exponent_loop_length
      simp del: exponent_loop.simps)

lemma integer_part_length: "integer_part b = Some (m, l, r) \<Longrightarrow> length r \<le> length b"
  by (fastforce simp: integer_part_def split: Option.bind_splits list.splits if_splits
      dest: digits_loop_length simp del: digits_loop.simps)

lemma integer_part_first:
  "integer_part (c # cs) = Some (m, l, r) \<Longrightarrow> is_digit c \<Longrightarrow> length r < length (c # cs)"
  by (auto simp: integer_part_def split: Option.bind_splits list.splits if_splits
      dest!: digits_loop_first simp del: digits_loop.simps)

lemma parse_number_length:
  assumes "parse_number (c # cs) = Done item r" "c = CHR ''-'' \<or> is_digit c"
  shows "length r < length (c # cs)"
proof -
  obtain sg num n l num2 n2 sc num3 e where st: "sign_part (c # cs) = Some (sg, num)"
    "integer_part num = Some (n, l, num2)" "fraction_part n num2 = Some (n2, sc, num3)"
    "exponent_part num3 = Some (e, r)"
    using assms(1) unfolding parse_number_def by (auto split: Option.bind_splits option.splits)
  have "length num2 < length (c # cs)"
    using st(1,2) assms(2) integer_part_length integer_part_first
    by (fastforce simp: sign_part_def split: if_splits)
  then show ?thesis using fraction_part_length [OF st(3)] exponent_part_length [OF st(4)] by simp
qed

lemma unescape_length: "unescape b = Some (s, r) \<Longrightarrow> 0 < length r \<and> length r \<le> length b"
proof (induction b arbitrary: s r rule: unescape.induct)
  case 1
  then show ?case by (simp add: unescape.simps)
next
  case (2 c cs)
  then show ?case
    by (auto simp: unescape.simps(2) [of c cs] split: if_splits list.splits option.splits prod.splits
        dest!: unescape_u_length) fastforce+
qed

lemma parse_string_length: "parse_string v = Done s r \<Longrightarrow> length r < length v"
  by (auto simp: parse_string_def split: list.splits option.splits if_splits dest!: unescape_length)

lemma prefix_eq_length: "prefix_eq v s = Some True \<Longrightarrow> length s \<le> length v"
  by (induction v s rule: prefix_eq.induct) (auto split: if_splits)

lemma prefix_eq_nonempty: "prefix_eq v (c # s) = Some b \<Longrightarrow> v \<noteq> []"
  by (cases v) auto

lemma literal_length: "literal v = Some (Some (c, k)) \<Longrightarrow> 0 < k \<and> k \<le> length v"
  by (auto simp: literal_def split: Option.bind_splits if_splits dest!: prefix_eq_length)

lemma literal_Some_nonempty: "literal v = Some x \<Longrightarrow> v \<noteq> []"
  by (auto simp: literal_def split: Option.bind_splits)

lemma pbind_Done_iff: "pbind m k = Done y r \<longleftrightarrow> (\<exists>x q. m = Done x q \<and> k x q = Done y r)"
  by (cases m) auto

lemma pskip_Done_iff: "pskip b k = Done y r \<longleftrightarrow> (\<exists>q. skip b = Some q \<and> k q = Done y r)"
  by (auto simp: pskip_def split: option.splits)

lemma parse_shorter:
  "parse_value n v = Done c r \<Longrightarrow> length r < length v"
  "parse_elems n v acc = Done c r \<Longrightarrow> length r < length v"
  "parse_members n v acc = Done c r \<Longrightarrow> length r < length v"
proof (induction n v and n v acc and n v acc arbitrary: c r and c r and c r
    rule: parse_value_parse_elems_parse_members.induct)
  case (2 n v)
  show ?case
  proof (cases "literal v")
    case None
    with 2(3) show ?thesis by simp
  next
    case (Some l)
    then obtain d ds where v: "v = d # ds" using literal_Some_nonempty by (cases v) auto
    show ?thesis
    proof (cases l)
      case None
      with 2 Some v show ?thesis
        by (auto simp: pbind_Done_iff pskip_Done_iff Let_def split: if_splits
          dest!: skip_length parse_string_length parse_number_length) fastforce+
    next
      case (Some lk)
      then obtain c' k where "literal v = Some (Some (c', k))" using \<open>literal v = Some l\<close> by (cases lk) auto
      with 2(3) literal_length [OF this] show ?thesis by auto
    qed
  qed
next
  case (4 n v acc)
  then show ?case
    by (auto simp: pbind_Done_iff pskip_Done_iff split: if_splits dest!: skip_length) fastforce+
next
  case (6 n v acc)
  obtain w nm q x u c' y z where
    st: "skip v = Some w" "parse_string w = Done nm q" "skip q = Some x" "hd x = CHR '':''"
      "skip (tl x) = Some u" "parse_value n u = Done c' y" "skip y = Some z"
    and f: "hd z = CHR '','' \<and> parse_members n (tl z) (acc @ [with_string (Some nm) c']) = Done c r \<or>
      r = tl z"
    using 6(3) by (auto simp: pbind_Done_iff pskip_Done_iff Let_def split: if_splits)
  have "length y < length u" using 6(1) [OF st(2) _ st(6)] st(4) by blast
  moreover have "length r \<le> length (tl z)"
    using f 6(2) [OF st(2) _ st(6) refl] st(4) by (auto intro: less_imp_le)
  ultimately show ?case
    using skip_length [OF st(1)] parse_string_length [OF st(2)] skip_length [OF st(3)]
      skip_length [OF st(5)] skip_length [OF st(7)] by (simp only: length_tl) linarith
qed simp_all

lemma pbind_Deep_iff: "pbind m k = Deep \<longleftrightarrow> m = Deep \<or> (\<exists>x q. m = Done x q \<and> k x q = Deep)"
  by (cases m) auto

lemma pskip_Deep_iff: "pskip b k = Deep \<longleftrightarrow> (\<exists>q. skip b = Some q \<and> k q = Deep)"
  by (auto simp: pskip_def split: option.splits)

lemma parse_string_not_Deep [simp]: "parse_string v \<noteq> Deep"
  by (auto simp: parse_string_def split: list.splits option.splits)

lemma parse_number_not_Deep [simp]: "parse_number v \<noteq> Deep"
  by (auto simp: parse_number_def split: option.splits)

lemma parse_enough:
  "2 * length v + 1 \<le> n \<Longrightarrow> parse_value n v \<noteq> Deep"
  "2 * length v + 2 \<le> n \<Longrightarrow> parse_elems n v acc \<noteq> Deep"
  "2 * length v + 2 \<le> n \<Longrightarrow> parse_members n v acc \<noteq> Deep"
proof (induction n v and n v acc and n v acc rule: parse_value_parse_elems_parse_members.induct)
  case (2 n v)
  show ?case
  proof (cases "literal v")
    case (Some l)
    then obtain d ds where v: "v = d # ds" using literal_Some_nonempty by (cases v) auto
    have s: "2 * length w + 2 \<le> n" if "skip ds = Some w" for w
      using skip_length [OF that] 2(3) v by simp
    show ?thesis
    proof (cases l)
      case None
      with 2(1,2) Some v s show ?thesis
        by (auto simp: pbind_Deep_iff pskip_Deep_iff Let_def)
    qed (use Some in \<open>auto split: prod.splits\<close>)
  qed simp
next
  case (4 n v acc)
  have s: "2 * length w + 1 \<le> n" if "skip v = Some w" for w
    using skip_length [OF that] 4(3) by simp
  have t: "2 * length (tl r) + 2 \<le> n" if "skip v = Some w" "parse_value n w = Done c q" "skip q = Some r"
    for w c q r
    using skip_length [OF that(1)] parse_shorter(1) [OF that(2)] skip_length [OF that(3)] 4(3)
    by (simp only: length_tl) linarith
  show ?case using 4(1,2) s t by (auto simp: pbind_Deep_iff pskip_Deep_iff)
next
  case (6 n v acc)
  have s: "2 * length u + 1 \<le> n"
    if "skip v = Some w" "parse_string w = Done nm q" "skip q = Some r" "skip (tl r) = Some u"
    for w nm q r u
    using skip_length [OF that(1)] parse_string_length [OF that(2)] skip_length [OF that(3)]
      skip_length [OF that(4)] 6(3) by (simp only: length_tl) linarith
  have t: "2 * length (tl y) + 2 \<le> n"
    if "skip v = Some w" "parse_string w = Done nm q" "skip q = Some r" "skip (tl r) = Some u"
      "parse_value n u = Done c x" "skip x = Some y"
    for w nm q r u c x y
    using s [OF that(1-4)] parse_shorter(1) [OF that(5)] skip_length [OF that(6)]
      skip_length [OF that(1)] parse_string_length [OF that(2)] skip_length [OF that(3)]
      skip_length [OF that(4)] 6(3) by (simp only: length_tl) linarith
  show ?case using 6(1,2) s t by (auto simp: pbind_Deep_iff pskip_Deep_iff Let_def)
qed simp_all

text \<open>More levels do not change a result: \<open>le_pres\<close> orders by definedness.\<close>

declare parse_value.simps [simp del] parse_elems.simps [simp del] parse_members.simps [simp del]

definition le_pres :: "'a pres \<Rightarrow> 'a pres \<Rightarrow> bool" where
  "le_pres a b \<longleftrightarrow> a = Deep \<or> a = b"

lemma le_pres_refl [intro!, simp]: "le_pres a a" "le_pres Deep a"
  by (simp_all add: le_pres_def)

lemma le_pres_pskip [intro!]: "(\<And>r. le_pres (k r) (k' r)) \<Longrightarrow> le_pres (pskip b k) (pskip b k')"
  by (auto simp: pskip_def split: option.splits)

lemma le_pres_pbind [intro!]:
  "le_pres m m' \<Longrightarrow> (\<And>x r. le_pres (k x r) (k' x r)) \<Longrightarrow> le_pres (pbind m k) (pbind m' k')"
  unfolding le_pres_def by (cases m) (auto, metis)

lemma le_pres_if [intro!]:
  "(b \<Longrightarrow> le_pres m m') \<Longrightarrow> (\<not> b \<Longrightarrow> le_pres n n') \<Longrightarrow> le_pres (if b then m else n) (if b then m' else n')"
  by simp

lemma parse_le_Suc:
  "le_pres (parse_value n v) (parse_value (Suc n) v) \<and>
   le_pres (parse_elems n v acc) (parse_elems (Suc n) v acc) \<and>
   le_pres (parse_members n v acc) (parse_members (Suc n) v acc)"
proof (induction n arbitrary: v acc)
  case 0
  then show ?case
    by (simp add: parse_value.simps(1) parse_elems.simps(1) parse_members.simps(1))
next
  case (Suc n)
  have "le_pres (parse_value (Suc n) v) (parse_value (Suc (Suc n)) v)"
    by (subst (1 2) parse_value.simps(2)) (unfold Let_def, use Suc in \<open>auto split: option.splits\<close>)
  moreover have "le_pres (parse_elems (Suc n) v acc) (parse_elems (Suc (Suc n)) v acc)"
    by (subst (1 2) parse_elems.simps(2)) (use Suc in blast)
  moreover have "le_pres (parse_members (Suc n) v acc) (parse_members (Suc (Suc n)) v acc)"
    by (subst (1 2) parse_members.simps(2)) (unfold Let_def, use Suc in blast)
  ultimately show ?case by blast
qed

lemma parse_more:
  assumes "n \<le> m" "parse_value n v \<noteq> Deep"
  shows "parse_value m v = parse_value n v"
  using assms
proof (induction m rule: dec_induct)
  case (step k)
  then show ?case using parse_le_Suc [of k v "[]"] by (auto simp: le_pres_def)
qed simp

text \<open>Any two limits with a result agree, so the limit of \<open>cJSON_Parse\<close> is as good as none.\<close>

lemma parse_limit:
  assumes "parse_value n v = x" "x \<noteq> Deep"
  shows "parse_value (2 * length v + 1) v = x"
  using parse_more [of n "2 * length v + 1" v] parse_more [of "2 * length v + 1" n v]
    parse_enough(1) [of v "2 * length v + 1"] assms
  by (cases "n \<le> 2 * length v + 1") auto

end
