(* ===== verification/CJsonRound.thy ===== *)
theory CJsonRound
  imports CJsonParse
begin

text \<open>
  Printing and parsing of \<open>cJSON.c\<close> belong together: the parser reads back what the printer
  writes, and \<open>cJSON_Minify\<close> turns the formatted text into the unformatted one.
\<close>

subsection \<open>Strings\<close>

lemma of_char_pos: "c \<noteq> NUL \<Longrightarrow> 0 < (of_char c :: nat)"
proof (rule ccontr)
  assume "c \<noteq> NUL" "\<not> 0 < (of_char c :: nat)"
  then have "char_of (of_char c :: nat) = char_of (0 :: nat)" by simp
  then have "c = char_of (0 :: nat)" by (simp only: char_of_char)
  with \<open>c \<noteq> NUL\<close> show False by (simp add: char_of_def)
qed

lemma hex_digit_val: "n < 16 \<Longrightarrow> hex_val (hex_digit n) = Some n"
  by (cases "n < 10") (simp_all add: hex_digit_def of_char_of Let_def)

lemma hex_digit_plain: "n < 16 \<Longrightarrow> hex_digit n \<noteq> CHR 0x22 \<and> hex_digit n \<noteq> CHR 0x5C \<and> hex_digit n \<noteq> NUL"
  by (auto simp: hex_digit_def dest!: arg_cong [of _ _ "of_char :: char \<Rightarrow> nat"] split: if_splits)

text \<open>The three shapes of a printed character.\<close>

lemma print_char_cases:
  assumes "c \<noteq> NUL"
  obtains (plain) "print_char c = [c]" "c \<noteq> CHR 0x22" "c \<noteq> CHR 0x5C" "31 < (of_char c :: nat)"
  | (short) e where "print_char c = [CHR 0x5C, e]" "e \<noteq> CHR ''u''"
      "c = (if e = CHR ''b'' then CHR 0x08 else if e = CHR ''f'' then CHR 0x0C
            else if e = CHR ''n'' then CHR 0x0A else if e = CHR ''r'' then CHR 0x0D
            else if e = CHR ''t'' then CHR 0x09 else e)"
  | (long) "print_char c = CHR 0x5C # CHR ''u'' # CHR ''0'' # CHR ''0'' #
        [hex_digit (of_char c div 16), hex_digit (of_char c mod 16)]"
      "(of_char c :: nat) < 32" "0 < (of_char c :: nat)"
proof -
  have z: "0 < (of_char c :: nat)"
    using assms by (rule of_char_pos)
  consider "31 < (of_char c :: nat)" "c \<noteq> CHR 0x22" "c \<noteq> CHR 0x5C" | "c \<in> set specials"
    | "\<not> 31 < (of_char c :: nat)" "c \<notin> set specials"
    by (auto simp: specials_def)
  then show thesis
  proof cases
    case 1
    then show thesis by (intro plain) (simp_all add: print_char_def)
  next
    case 2
    then show thesis by (auto simp: specials_def print_char_def intro: short)
  next
    case 3
    then show thesis using z by (intro long) (simp_all add: print_char_def specials_def)
  qed
qed

lemma parse_hex4_eq:
  assumes "hex_val a = Some w" "hex_val b = Some x" "hex_val c = Some y" "hex_val d = Some z"
  shows "parse_hex4 (a # b # c # d # r) = Some (16 * (16 * (16 * w + x) + y) + z)"
proof -
  have "(4 :: nat) = Suc (Suc (Suc (Suc 0)))" by simp
  then show ?thesis using assms by (simp only: parse_hex4_def hex4_loop.simps option.case)
      (simp del: hex_val.simps)
qed

lemma unescape_print_char:
  assumes "c \<noteq> NUL"
  shows "unescape (print_char c @ r) = map_option (apfst (Cons c)) (unescape r)"
  using assms
proof (cases rule: print_char_cases)
  case plain
  then show ?thesis using assms by (simp add: unescape.simps)
next
  case (short e)
  then show ?thesis by (simp add: unescape.simps)
next
  case long
  let ?n = "of_char c :: nat"
  have d: "?n div 16 < 16" "?n mod 16 < 16" using long(2) by simp_all
  have "hex_val (CHR ''0'') = Some 0" by simp
  from parse_hex4_eq [OF this this hex_digit_val [OF d(1)] hex_digit_val [OF d(2)], of r]
  have "parse_hex4 (CHR ''0'' # CHR ''0'' # hex_digit (?n div 16) # hex_digit (?n mod 16) # r) = Some ?n"
    by simp
  then have "unescape_u (CHR ''0'' # CHR ''0'' # hex_digit (?n div 16) # hex_digit (?n mod 16) # r) =
      Some ([c], r)"
    using long(2,3) by (simp add: unescape_u_def advance_def utf8_def)
  moreover have "append [c] = Cons c" by (rule ext) simp
  ultimately show ?thesis unfolding long(1) by (simp add: unescape.simps)
qed

lemma scan_print_char:
  assumes "c \<noteq> NUL" "scan_len r = Some n"
  shows "\<exists>m. scan_len (print_char c @ r) = Some m \<and> Suc n \<le> m"
  using assms(1)
proof (cases rule: print_char_cases)
  case plain
  then show ?thesis using assms by simp
next
  case (short e)
  then show ?thesis using assms by simp
next
  case long
  have d: "of_char c div 16 < (16 :: nat)" "of_char c mod 16 < (16 :: nat)" using long(2) by simp_all
  show ?thesis
    unfolding long(1) using assms(2) hex_digit_plain [OF d(1)] hex_digit_plain [OF d(2)] by simp
qed

lemma unescape_print:
  "nul_free s \<Longrightarrow> unescape (concat (map print_char s) @ CHR 0x22 # r) = Some (s, CHR 0x22 # r)"
  by (induction s) (simp_all add: unescape_print_char [OF not_sym] unescape.simps)

lemma scan_print:
  "nul_free s \<Longrightarrow> \<exists>n. scan_len (concat (map print_char s) @ CHR 0x22 # r) = Some n \<and> length s \<le> n"
proof (induction s)
  case (Cons c s)
  then obtain n where "scan_len (concat (map print_char s) @ CHR 0x22 # r) = Some n" "length s \<le> n"
    by auto
  with scan_print_char [of c _ n] Cons.prems show ?case by fastforce
qed simp

lemma parse_string_print:
  assumes "nul_free s"
  shows "parse_string (CHR 0x22 # concat (map print_char s) @ CHR 0x22 # r) = Done s r"
proof -
  obtain n where "scan_len (concat (map print_char s) @ CHR 0x22 # r) = Some n" "length s \<le> n"
    using scan_print [OF assms] by blast
  moreover have "takeWhile (\<lambda>c. c \<noteq> NUL) s = s" using assms by (intro takeWhile_eq_all_conv [THEN iffD2]) auto
  ultimately show ?thesis using unescape_print [OF assms] by (simp add: parse_string_def)
qed

subsection \<open>Whole numbers\<close>

text \<open>What follows a number may not continue it.\<close>

definition ends_number :: "char \<Rightarrow> bool" where
  "ends_number c \<longleftrightarrow> \<not> is_digit c \<and> c \<noteq> CHR ''.'' \<and> c \<noteq> CHR ''e'' \<and> c \<noteq> CHR ''E''"

lemma finite64_int:
  assumes "\<bar>i\<bar> < 9007199254740992"
  shows "finite64 (of_int i) = Some (of_int i)"
proof -
  have "(of_int \<bar>i\<bar> :: rat) < of_int 9007199254740992" using assms by (simp only: of_int_less_iff)
  then have "\<bar>of_int i\<bar> < (2 :: rat) ^ 1024" by simp
  then show ?thesis using fl64_int [OF assms] by (simp add: finite64_def Let_def)
qed

lemma finite64_nat: "n < 9007199254740992 \<Longrightarrow> finite64 (of_nat n) = Some (of_nat n)"
  using finite64_int [of "int n"] by simp

lemma foldl_dec_mono:
  "a \<le> foldl (\<lambda>a c. 10 * a + digit_val c) a s"
proof (induction s arbitrary: a)
  case (Cons c s)
  have "a \<le> 10 * a + digit_val c" by simp
  also have "\<dots> \<le> foldl (\<lambda>a c. 10 * a + digit_val c) (10 * a + digit_val c) s" by (rule Cons.IH)
  finally show ?case by simp
qed simp

lemma digits_loop_exact:
  "\<forall>c\<in>set s. is_digit c \<Longrightarrow> \<not> is_digit c \<Longrightarrow>
   foldl (\<lambda>a c. 10 * a + digit_val c) a s < 9007199254740992 \<Longrightarrow>
   \<exists>k'. digits_loop (of_nat a) k (s @ c # r) =
     Some (of_nat (foldl (\<lambda>a c. 10 * a + digit_val c) a s), k', c # r)"
proof (induction s arbitrary: a k)
  case Nil
  then show ?case by simp
next
  case (Cons d s)
  have le: "10 * a + digit_val d < 9007199254740992"
    using foldl_dec_mono [of "10 * a + digit_val d" s] Cons.prems(3) by simp
  have e: "(of_nat a :: rat) * 10 = of_nat (10 * a)" by simp
  have f: "(of_nat (10 * a) :: rat) + of_nat (digit_val d) = of_nat (10 * a + digit_val d)" by simp
  have "is_digit d" "10 * a < 9007199254740992" using Cons.prems(1) le by simp_all
  then have "digits_loop (of_nat a) k (d # s @ c # r) =
      digits_loop (of_nat (10 * a + digit_val d)) (Suc k) (s @ c # r)"
    by (simp only: digits_loop.simps if_True e f finite64_nat le bind.bind_lunit)
  with Cons show ?case by (simp del: of_nat_mult of_nat_add digits_loop.simps)
qed

lemma dec_first_nonzero: "0 < n \<Longrightarrow> hd (dec n) \<noteq> CHR ''0''"
proof (induction n rule: dec.induct)
  case (1 n)
  show ?case
  proof (cases "n < 10")
    case True
    have "(of_char (digit_char n) :: nat) = 48 + n" using True by (simp add: digit_char_def)
    moreover have "(of_char (CHR ''0'') :: nat) = 48" by simp
    ultimately have "digit_char n \<noteq> CHR ''0''" using 1(2) by force
    with True show ?thesis by (subst dec.simps) simp
  next
    case False
    with 1 have "hd (dec (n div 10)) \<noteq> CHR ''0''" by simp
    with False show ?thesis by (subst dec.simps) simp
  qed
qed

text \<open>The digits of a natural number, then the end of the number.\<close>

lemma finite64_1 [simp]: "finite64 1 = Some 1"
  using finite64_int [of 1] by simp

lemma int_of_double_int:
  "- 2147483648 \<le> i \<Longrightarrow> i \<le> 2147483647 \<Longrightarrow> int_of_double (of_int i) = Some i"
  by (simp add: int_of_double_def Let_def)

lemma parse_number_dec_int:
  assumes i: "- 2147483648 \<le> i" "i \<le> 2147483647" and c: "ends_number c"
  shows "parse_number (dec_int i @ c # r) = Done (CJson cJSON_Number None i (of_int i) None []) (c # r)"
proof -
  define n where "n = nat \<bar>i\<bar>"
  have n: "n < 9007199254740992" using i by (auto simp: n_def)
  obtain d ds where d: "dec n = d # ds" by (cases "dec n") auto
  then have dd: "is_digit d" "d \<noteq> CHR ''-''" using dec_digits [of n] is_digit_not_special by auto
  have c0: "\<not> is_digit c" "c \<noteq> CHR ''.''" "c \<noteq> CHR ''e''" "c \<noteq> CHR ''E''" using c by (simp_all add: ends_number_def)
  obtain k where dl: "digits_loop 0 0 (dec n @ c # r) = Some (of_nat n, k, c # r)"
    using digits_loop_exact [OF dec_digits [of n] c0(1), of 0 0 r] n foldl_dec [of n] by auto
  have z: "dec 0 = ''0''" by (subst dec.simps) (simp add: digit_char_def char_of_eq_iff)
  have tail: "fraction_part m (c # r) = Some (m, 0, c # r)" "exponent_part (c # r) = Some (0, c # r)" for m
    using c0 by (simp_all add: fraction_part_def exponent_part_def)
  have fin: "finite64 (of_int i) = Some (of_int i)" using i by (intro finite64_int) auto
  have int: "int_of_double (of_int i) = Some i" by (rule int_of_double_int [OF i])
  define sg where "sg = (if i < 0 then - 1 else (1 :: rat))"
  have sg: "sg * of_nat n * 1 = of_int i" by (simp add: sg_def n_def)
  have sp: "sign_part (dec_int i @ c # r) = Some (sg, dec n @ c # r)"
    using d dd by (auto simp: sign_part_def dec_int_def sg_def n_def)
  have "\<exists>k. integer_part (dec n @ c # r) = Some (of_nat n, k, c # r)"
  proof (cases "n = 0")
    case True
    then show ?thesis using c0(1) by (simp add: integer_part_def z)
  next
    case False
    then have "d \<noteq> CHR ''0''" using dec_first_nonzero [of n] d by simp
    with d dd dl show ?thesis by (simp add: integer_part_def del: digits_loop.simps)
  qed
  then obtain k where ip: "integer_part (dec n @ c # r) = Some (of_nat n, k, c # r)" by blast
  show ?thesis
    unfolding parse_number_def by (simp add: sp ip tail fin int sg [unfolded mult_1_right])
qed

subsection \<open>Values\<close>

text \<open>
  A tree a program builds to be printed: known types, whole numbers, strings without NUL, and
  named members.
\<close>

definition str_ok :: "string option \<Rightarrow> bool" where
  "str_ok st = (case st of None \<Rightarrow> False | Some s \<Rightarrow> nul_free s)"

fun plain :: "cjson \<Rightarrow> bool" where
  "plain (CJson t vs vi vd st cs) =
     (t \<le> 6 \<and>
      (t = cJSON_Number \<longrightarrow> - 2147483648 \<le> vi \<and> vi \<le> 2147483647 \<and> vd = of_int vi) \<and>
      (t = cJSON_String \<longrightarrow> str_ok vs) \<and>
      (t = cJSON_Array \<longrightarrow> list_all plain cs) \<and>
      (t = cJSON_Object \<longrightarrow> list_all (\<lambda>c. plain c \<and> str_ok (cj_string c)) cs))"

text \<open>What of a tree the text shows: the fields the type does not use are reset.\<close>

fun canon :: "cjson \<Rightarrow> cjson" where
  "canon (CJson t vs vi vd st cs) =
     (if t = cJSON_Number then CJson t None vi (of_int vi) None []
      else if t = cJSON_String then CJson t vs 0 0 None []
      else if t = cJSON_Array then CJson t None 0 0 None (map canon cs)
      else if t = cJSON_Object then
        CJson t None 0 0 None (map (\<lambda>c. with_string (cj_string c) (canon c)) cs)
      else CJson t None (if t = cJSON_True then 1 else 0) 0 None [])"

lemma type_cases:
  assumes "t \<le> (6 :: u32)"
  obtains "t = 0" | "t = 1" | "t = 2" | "t = 3" | "t = 4" | "t = 5" | "t = 6"
proof -
  have "unat t \<le> 6" using assms by (simp add: word_le_nat_alt)
  then have "unat t \<in> {0, 1, 2, 3, 4, 5, 6}" by auto
  then have "t = 0 \<or> t = 1 \<or> t = 2 \<or> t = 3 \<or> t = 4 \<or> t = 5 \<or> t = 6"
    by (auto simp: word_unat_eq_iff)
  then show thesis using that by blast
qed

text \<open>A text that reads as a value, whatever follows it.\<close>

definition reads_as :: "cjson \<Rightarrow> string \<Rightarrow> nat \<Rightarrow> bool" where
  "reads_as j s n \<longleftrightarrow>
     (\<forall>m c r. n \<le> m \<longrightarrow> ends_number c \<longrightarrow> parse_value m (s @ c # r) = Done (canon j) (c # r))"

definition solid :: "string \<Rightarrow> bool" where
  "solid s \<longleftrightarrow> (case s of [] \<Rightarrow> False
     | c # cs \<Rightarrow> 32 < (of_char c :: nat) \<and> c \<noteq> CHR '']'' \<and> c \<noteq> CHR ''}'')"

definition blank :: "string \<Rightarrow> bool" where
  "blank s \<longleftrightarrow> (\<forall>c\<in>set s. c \<noteq> NUL \<and> (of_char c :: nat) \<le> 32)"

lemma skip_blank: "blank ws \<Longrightarrow> 32 < (of_char c :: nat) \<Longrightarrow> skip (ws @ c # r) = Some (c # r)"
  by (induction ws) (auto simp: blank_def)

lemma skip_solid: "blank ws \<Longrightarrow> solid s \<Longrightarrow> skip (ws @ s @ r) = Some (s @ r)"
  by (cases s) (auto simp: solid_def skip_blank)

lemma blank_simps [simp]: "blank []" "blank (CHR '' '' # s) = blank s" "blank (CHR 0x09 # s) = blank s"
  "blank (CHR 0x0A # s) = blank s" "blank (tabs n)" "blank (s @ t) = (blank s \<and> blank t)"
  by (auto simp: blank_def)

lemma literal_other:
  "c \<noteq> CHR ''n'' \<Longrightarrow> c \<noteq> CHR ''f'' \<Longrightarrow> c \<noteq> CHR ''t'' \<Longrightarrow> literal (c # cs) = Some None"
  by (simp add: literal_def)

lemma reads_asD: "reads_as j s n \<Longrightarrow> n \<le> m \<Longrightarrow> ends_number c \<Longrightarrow>
    parse_value m (s @ c # r) = Done (canon j) (c # r)"
  by (simp add: reads_as_def)

lemma ends_simps [simp]: "ends_number (CHR '','')" "ends_number (CHR '']'')" "ends_number (CHR ''}'')"
  "ends_number (CHR 0x0A)" "ends_number NUL"
  by (simp_all add: ends_number_def is_digit_def)

text \<open>The elements of an array, from the start of one of them.\<close>

lemma parse_elems_compose:
  assumes "list_all2 (\<lambda>j s. \<exists>n. reads_as j s n \<and> solid s) js ss" "ss \<noteq> []"
  shows "\<exists>n. \<forall>m ws acc r. n \<le> m \<longrightarrow> blank ws \<longrightarrow>
    parse_elems m (ws @ compose_array fmt ss @ CHR '']'' # r) acc = Done (array_of (acc @ map canon js)) r"
  using assms
proof (induction js ss rule: list_all2_induct)
  case Nil
  then show ?case by simp
next
  case (Cons j js s ss)
  then obtain n where n: "reads_as j s n" and s: "solid s" by blast
  show ?case
  proof (cases ss)
    case Nil
    with Cons have js: "js = []" by simp
    have "parse_elems m (ws @ s @ CHR '']'' # r) acc = Done (array_of (acc @ [canon j])) r"
      if m: "Suc n \<le> m" and ws: "blank ws" for m ws acc r
    proof -
      obtain k where "m = Suc k" "n \<le> k" using m by (cases m) auto
      then show ?thesis
        using skip_solid [OF ws s, of "CHR '']'' # r"] reads_asD [OF n, of k]
        by (simp add: parse_elems.simps pskip_def)
    qed
    then show ?thesis using Nil js by (intro exI [of _ "Suc n"]) simp
  next
    case (Cons s' ss')
    then obtain n2 where n2: "\<forall>m ws acc r. n2 \<le> m \<longrightarrow> blank ws \<longrightarrow>
        parse_elems m (ws @ compose_array fmt ss @ CHR '']'' # r) acc = Done (array_of (acc @ map canon js)) r"
      using Cons.IH by blast
    have "parse_elems m (ws @ compose_array fmt (s # ss) @ CHR '']'' # r) acc =
        Done (array_of (acc @ map canon (j # js))) r"
      if m: "Suc (max n n2) \<le> m" and ws: "blank ws" for m ws acc r
    proof -
      obtain k where k: "m = Suc k" "n \<le> k" "n2 \<le> k" using m by (cases m) auto
      let ?rest = "(if fmt then '' '' else []) @ compose_array fmt ss @ CHR '']'' # r"
      have "parse_elems k ?rest (acc @ [canon j]) = Done (array_of ((acc @ [canon j]) @ map canon js)) r"
        using n2 [rule_format, OF k(3), of "if fmt then '' '' else []"] by simp
      then show ?thesis
        using skip_solid [OF ws s, of "CHR '','' # ?rest"] reads_asD [OF n k(2), of "CHR '',''" ?rest]
        by (simp add: k(1) parse_elems.simps(2) [of k] pskip_def Cons)
    qed
    then show ?thesis by blast
  qed
qed

text \<open>The members of an object, from the start of one of them.\<close>

definition quoted :: "string \<Rightarrow> string" where
  "quoted s = CHR 0x22 # concat (map print_char s) @ [CHR 0x22]"

definition member :: "cjson \<Rightarrow> cjson" where
  "member j = with_string (cj_string j) (canon j)"

definition member_text :: "cjson \<Rightarrow> string \<times> string \<Rightarrow> bool" where
  "member_text j ne \<longleftrightarrow> (\<exists>s n. cj_string j = Some s \<and> nul_free s \<and> fst ne = quoted s \<and>
     reads_as j (snd ne) n \<and> solid (snd ne))"

lemma solid_quoted: "solid (quoted s)"
  by (simp add: solid_def quoted_def)

lemma parse_string_quoted: "nul_free s \<Longrightarrow> parse_string (quoted s @ r) = Done s r"
  using parse_string_print [of s r] by (simp add: quoted_def)

text \<open>One member: its name, a colon, its value, up to the comma or the brace.\<close>

lemma blank_ends: "blank (w # ws) \<Longrightarrow> ends_number w"
proof -
  assume "blank (w # ws)"
  then have n: "(of_char w :: nat) \<le> 32" by (simp add: blank_def)
  show "ends_number w" unfolding ends_number_def is_digit_def
  proof (intro conjI notI)
    assume "48 \<le> (of_char w :: nat) \<and> (of_char w :: nat) \<le> 57"
    with n show False by simp
  qed (use n in simp_all)
qed

lemma parse_members_step:
  assumes j: "cj_string j = Some s" "nul_free s" "reads_as j e n" "solid e" "n \<le> m"
    and b: "blank ws" "blank ws2" "blank ws3" and c: "c = CHR '','' \<or> c = CHR ''}''"
  shows "parse_members (Suc m) (ws @ quoted s @ CHR '':'' # ws2 @ e @ ws3 @ c # r) acc =
    (if c = CHR '','' then parse_members m r (acc @ [member j])
     else Done (object_of (acc @ [member j])) r)"
proof -
  have c32: "32 < (of_char c :: nat)" "ends_number c" using c by auto
  have e: "parse_value m (e @ ws3 @ c # r) = Done (canon j) (ws3 @ c # r)"
  proof (cases ws3)
    case Nil
    then show ?thesis using reads_asD [OF j(3,5) c32(2)] by simp
  next
    case (Cons w ws')
    then have "ends_number w" using b(3) blank_ends by simp
    then show ?thesis using reads_asD [OF j(3,5), of w "ws' @ c # r"] Cons by simp
  qed
  have w: "skip (ws @ quoted s @ x) = Some (quoted s @ x)" for x
    by (rule skip_solid [OF b(1) solid_quoted])
  have v: "skip (ws2 @ e @ x) = Some (e @ x)" for x by (rule skip_solid [OF b(2) j(4)])
  have u: "skip (ws3 @ c # r) = Some (c # r)" by (rule skip_blank [OF b(3) c32(1)])
  have col: "skip (CHR '':'' # x) = Some (CHR '':'' # x)" for x by simp
  have "parse_members (Suc m) (ws @ quoted s @ CHR '':'' # ws2 @ e @ ws3 @ c # r) acc =
    (if c = CHR '','' then parse_members m r (acc @ [with_string (Some s) (canon j)])
     else if c = CHR ''}'' then Done (object_of (acc @ [with_string (Some s) (canon j)])) r
     else Fail (c # r))"
    unfolding parse_members.simps(2) pskip_def w option.case parse_string_quoted [OF j(2)] pbind.simps
      col list.sel v e u Let_def not_not by (simp only: simp_thms if_False)
  then show ?thesis using c by (auto simp: member_def j(1))
qed

lemma parse_members_compose:
  assumes "list_all2 member_text js es" "es \<noteq> []" "blank ws2"
  shows "\<exists>n. \<forall>m ws acc r. n \<le> m \<longrightarrow> blank ws \<longrightarrow>
    parse_members m (ws @ compose_object fmt d es @ ws2 @ CHR ''}'' # r) acc =
      Done (object_of (acc @ map member js)) r"
  using assms(1,2)
proof (induction js es rule: list_all2_induct)
  case Nil
  then show ?case by simp
next
  case (Cons j js ne es)
  obtain nm e where ne: "ne = (nm, e)" by (cases ne)
  let ?tab = "if fmt then tabs 1 else []" and ?nl = "if fmt then [CHR 0x0A] else []"
    and ?ind = "if fmt then tabs d else []"
  have bl: "blank ?tab" "blank (?nl @ ws2)" "blank ?ind" "blank ?nl" using assms(3) by simp_all
  obtain s n where s: "cj_string j = Some s" "nul_free s" "nm = quoted s" "reads_as j e n" "solid e"
    using Cons.hyps(1) ne by (auto simp: member_text_def)
  note step = parse_members_step [OF s(1,2,4,5)]
  show ?case
  proof (cases "es = []")
    case True
    with Cons have js: "js = []" by simp
    have "parse_members m (ws @ compose_object fmt d [ne] @ ws2 @ CHR ''}'' # r) acc =
        Done (object_of (acc @ [member j])) r" if m: "Suc n \<le> m" and ws: "blank ws" for m ws acc r
    proof -
      obtain k where k: "m = Suc k" "n \<le> k" using m by (cases m) auto
      have "blank (ws @ ?ind)" using ws bl(3) by simp
      from step [OF k(2) this bl(1,2), of "CHR ''}''" r acc] show ?thesis
        by (simp add: k(1) ne s(3) cong: if_cong)
    qed
    then show ?thesis using True js by (intro exI [of _ "Suc n"]) simp
  next
    case False
    then obtain n2 where n2: "\<forall>m ws acc r. n2 \<le> m \<longrightarrow> blank ws \<longrightarrow>
        parse_members m (ws @ compose_object fmt d es @ ws2 @ CHR ''}'' # r) acc =
          Done (object_of (acc @ map member js)) r"
      using Cons.IH by blast
    have "parse_members m (ws @ compose_object fmt d (ne # es) @ ws2 @ CHR ''}'' # r) acc =
        Done (object_of (acc @ map member (j # js))) r"
      if m: "Suc (max n n2) \<le> m" and ws: "blank ws" for m ws acc r
    proof -
      obtain k where k: "m = Suc k" "n \<le> k" "n2 \<le> k" using m by (cases m) auto
      have "blank (ws @ ?ind)" using ws bl(3) by simp
      let ?rest = "?nl @ compose_object fmt d es @ ws2 @ CHR ''}'' # r"
      have "parse_members k ?rest (acc @ [member j]) = Done (object_of ((acc @ [member j]) @ map member js)) r"
        using n2 [rule_format, OF k(3) bl(4)] by simp
      with step [OF k(2) \<open>blank (ws @ ?ind)\<close> bl(1), of "[]" "CHR '',''" ?rest acc] show ?thesis
        using False by (simp add: k(1) ne s(3) cong: if_cong)
    qed
    then show ?thesis by blast
  qed
qed

lemma array_entries_Some: "array_entries rs = Some (Some es) \<Longrightarrow> rs = map (\<lambda>e. Some (Some e)) es"
  by (induction rs arbitrary: es) (auto split: option.splits)

lemma object_entries_Some:
  "object_entries rs = Some (Some es) \<Longrightarrow> rs = map (\<lambda>(n, e). (Some n, Some (Some e))) es"
  by (induction rs arbitrary: es) (auto split: option.splits Option.bind_splits)

lemma first_level:
  assumes "\<And>k c r. n \<le> k \<Longrightarrow> ends_number c \<Longrightarrow> parse_value (Suc k) (s @ c # r) = Done (canon j) (c # r)"
  shows "reads_as j s (Suc n)"
  unfolding reads_as_def
proof (intro allI impI)
  fix m c r
  assume "Suc n \<le> m" "ends_number c"
  then obtain k where "m = Suc k" "n \<le> k" by (cases m) auto
  then show "parse_value m (s @ c # r) = Done (canon j) (c # r)" using assms \<open>ends_number c\<close> by simp
qed

lemma solid_dec_int: "solid (dec_int i)"
proof -
  have "solid (dec n)" for n
  proof -
    obtain d ds where d: "dec n = d # ds" by (cases "dec n") auto
    then have "is_digit d" using dec_digits [of n] by auto
    then show ?thesis using d by (auto simp: solid_def is_digit_def)
  qed
  then show ?thesis by (simp add: dec_int_def) (simp add: solid_def)
qed

lemma dec_int_first: "\<exists>d ds. dec_int i = d # ds \<and> (d = CHR ''-'' \<or> is_digit d)"
proof -
  obtain d ds where "dec (nat i) = d # ds" by (cases "dec (nat i)") auto
  moreover from this have "is_digit d" using dec_digits [of "nat i"] by auto
  ultimately show ?thesis by (auto simp: dec_int_def)
qed

text \<open>A leaf.\<close>

lemma print_reads_leaf:
  assumes "plain (CJson t vs vi vd st cs)" "t \<le> 4"
    and "print_value (CJson t vs vi vd st cs) d fmt = Some (Some s)"
  shows "reads_as (CJson t vs vi vd st cs) s 1 \<and> solid s"
proof -
  have "t = 0 \<or> t = 1 \<or> t = 2 \<or> t = 3 \<or> t = 4"
  proof -
    have "unat t \<le> 4" using assms(2) by (simp add: word_le_nat_alt)
    then show ?thesis by (auto simp: word_unat_eq_iff)
  qed
  then consider "t = 0" | "t = 1" | "t = 2" | "t = 3" | "t = 4" by blast
  then show ?thesis
  proof cases
    case 1
    with assms(3) have s: "s = ''false''" by (simp add: print_value.simps)
    have "reads_as (CJson t vs vi vd st cs) s (Suc 0)"
      by (rule first_level) (simp add: 1 s parse_value.simps literal_def)
    then show ?thesis by (simp add: s solid_def)
  next
    case 2
    with assms(3) have s: "s = ''true''" by (simp add: print_value.simps)
    have "reads_as (CJson t vs vi vd st cs) s (Suc 0)"
      by (rule first_level) (simp add: 2 s parse_value.simps literal_def)
    then show ?thesis by (simp add: s solid_def)
  next
    case 3
    with assms(3) have s: "s = ''null''" by (simp add: print_value.simps)
    have "reads_as (CJson t vs vi vd st cs) s (Suc 0)"
      by (rule first_level) (simp add: 3 s parse_value.simps literal_def)
    then show ?thesis by (simp add: s solid_def)
  next
    case 4
    with assms(1) have i: "- 2147483648 \<le> vi" "vi \<le> 2147483647" "vd = of_int vi" by simp_all
    have "(of_int vi :: rat) \<le> 2147483647" "- 2147483648 \<le> (of_int vi :: rat)"
      using i by (metis of_int_le_iff of_int_numeral, metis of_int_le_iff of_int_numeral of_int_minus)
    then have s: "s = dec_int vi"
      using assms(3) 4 i by (simp add: print_value.simps print_number_def sprintf_new_def Let_def split: if_splits)
    obtain e es where e: "dec_int vi = e # es" "e = CHR ''-'' \<or> is_digit e" using dec_int_first by blast
    then have ne: "e \<noteq> CHR ''n''" "e \<noteq> CHR ''f''" "e \<noteq> CHR ''t''" "e \<noteq> CHR 0x22" by (auto simp: is_digit_def)
    have "reads_as (CJson t vs vi vd st cs) s (Suc 0)"
    proof (rule first_level)
      fix k c r
      assume "ends_number c"
      then have "parse_value (Suc k) (s @ c # r) = parse_number (s @ c # r)"
        using e ne by (simp add: s parse_value.simps literal_other)
      then show "parse_value (Suc k) (s @ c # r) = Done (canon (CJson t vs vi vd st cs)) (c # r)"
        using parse_number_dec_int [OF i(1,2) \<open>ends_number c\<close>] 4 by (simp add: s)
    qed
    then show ?thesis using solid_dec_int by (simp add: s)
  next
    case 5
    then obtain x where x: "vs = Some x" "nul_free x" using assms(1) by (auto simp: str_ok_def split: option.splits)
    then have s: "s = quoted x"
      using assms(3) 5 by (simp add: print_value.simps print_string_def print_string_ptr_Some quoted_def)
    have "literal (quoted x @ y) = Some None" "hd (quoted x @ y) = CHR 0x22" for y
      by (simp_all add: quoted_def literal_other)
    then have "reads_as (CJson t vs vi vd st cs) s (Suc 0)"
      by (intro first_level) (simp add: 5 s x parse_value.simps parse_string_quoted)
    then show ?thesis using solid_quoted by (simp add: s)
  qed
qed

lemma literal_bracket [simp]:
  "literal (CHR ''['' # x) = Some None" "literal (CHR ''{'' # x) = Some None"
  "\<not> is_digit (CHR ''['')" "\<not> is_digit (CHR ''{'')"
  by (simp_all add: literal_other is_digit_def)

lemma skip_solid' : "solid s \<Longrightarrow> skip (s @ r) = Some (s @ r)"
  using skip_solid [of "[]"] by simp

lemma solid_hd: "solid s \<Longrightarrow> hd (s @ r) \<noteq> CHR '']'' \<and> hd (s @ r) \<noteq> CHR ''}''"
  by (cases s) (auto simp: solid_def)

lemma solid_append: "solid s \<Longrightarrow> solid (s @ r)"
  by (cases s) (auto simp: solid_def)

lemma print_reads_array:
  assumes IH: "\<And>c e. c \<in> set cs \<Longrightarrow> print_value c (Suc d) fmt = Some (Some e) \<Longrightarrow>
      \<exists>n. reads_as c e n \<and> solid e"
    and p: "print_array fmt (map (\<lambda>c. print_value c (Suc d) fmt) cs) = Some (Some s)"
  shows "\<exists>n. reads_as (CJson cJSON_Array vs vi vd st cs) s n \<and> solid s"
proof (cases "cs = []")
  case True
  with p have s: "s = ''[]''" by (simp add: print_array_def sprintf_new_def)
  have "reads_as (CJson cJSON_Array vs vi vd st cs) s (Suc 0)"
    by (rule first_level) (simp add: s True parse_value.simps pskip_def)
  then show ?thesis by (auto simp: s solid_def)
next
  case False
  then obtain es where es: "map (\<lambda>c. print_value c (Suc d) fmt) cs = map (\<lambda>e. Some (Some e)) es"
    and s: "s = CHR ''['' # compose_array fmt es @ '']''"
    using p by (auto simp: print_array_def sprintf_new_def dest!: array_entries_Some
        split: Option.bind_splits option.splits if_splits)
  have len: "length cs = length es" using arg_cong [OF es, of length] by simp
  have "print_value (cs ! i) (Suc d) fmt = Some (Some (es ! i))" if "i < length es" for i
    using arg_cong [OF es, of "\<lambda>l. l ! i"] that len by simp
  then have l: "list_all2 (\<lambda>j s. \<exists>n. reads_as j s n \<and> solid s) cs es"
    using IH len unfolding list_all2_conv_all_nth by (metis nth_mem)
  then have ne: "es \<noteq> []" using False by auto
  then obtain e es' where e: "es = e # es'" "solid e" using l by (cases es) (auto simp: list_all2_Cons2)
  then have sol: "solid (compose_array fmt es @ x)" for x
    by (cases es') (auto intro: solid_append)
  obtain n where n: "\<forall>m ws acc r. n \<le> m \<longrightarrow> blank ws \<longrightarrow>
    parse_elems m (ws @ compose_array fmt es @ CHR '']'' # r) acc = Done (array_of (acc @ map canon cs)) r"
    using parse_elems_compose [OF l ne] by blast
  have "reads_as (CJson cJSON_Array vs vi vd st cs) s (Suc n)"
  proof (rule first_level)
    fix k c r
    assume k: "n \<le> k"
    have "parse_elems k (compose_array fmt es @ CHR '']'' # c # r) [] = Done (array_of (map canon cs)) (c # r)"
      using n [rule_format, OF k, of "[]" "c # r" "[]"] by simp
    then show "parse_value (Suc k) (s @ c # r) = Done (canon (CJson cJSON_Array vs vi vd st cs)) (c # r)"
      using skip_solid' [OF sol, of "CHR '']'' # c # r" "[]"] solid_hd [OF sol, of "CHR '']'' # c # r" "[]"]
      by (simp add: s parse_value.simps pskip_def)
  qed
  then show ?thesis by (auto simp: s solid_def)
qed

lemma skip_idem: "skip v = Some w \<Longrightarrow> skip w = Some w"
  by (induction v) (auto split: if_splits)

lemma members_skip: "skip v = Some w \<Longrightarrow> parse_members m v acc = parse_members m w acc"
  by (cases m) (simp_all add: parse_members.simps pskip_def skip_idem)

lemma print_reads_object:
  assumes IH: "\<And>c e. c \<in> set cs \<Longrightarrow> print_value c (Suc d) fmt = Some (Some e) \<Longrightarrow>
      \<exists>n. reads_as c e n \<and> solid e"
    and nm: "\<And>c. c \<in> set cs \<Longrightarrow> str_ok (cj_string c)"
    and p: "print_object d fmt
      (map (\<lambda>c. (print_string_ptr (cj_string c), print_value c (Suc d) fmt)) cs) = Some (Some s)"
  shows "\<exists>n. reads_as (CJson cJSON_Object vs vi vd st cs) s n \<and> solid s"
proof -
  let ?nl = "if fmt then [CHR 0x0A] else []" and ?tabs = "if fmt then tabs d else []"
  have bl: "blank ?nl" "blank ?tabs" "blank (CHR 0x0A # tabs (d - 1))" by simp_all
  show ?thesis
  proof (cases "cs = []")
    case True
    then have s: "s = CHR ''{'' # (if fmt then CHR 0x0A # tabs (d - 1) else []) @ ''}''"
      using p by (auto simp: print_object_def sprintf_new_def split: if_splits)
    have "reads_as (CJson cJSON_Object vs vi vd st cs) s (Suc 0)"
    proof (rule first_level)
      fix k c r
      have "skip ((if fmt then CHR 0x0A # tabs (d - 1) else []) @ CHR ''}'' # c # r) = Some (CHR ''}'' # c # r)"
        by (rule skip_blank) (use bl(3) in auto)
      then show "parse_value (Suc k) (s @ c # r) = Done (canon (CJson cJSON_Object vs vi vd st cs)) (c # r)"
        by (simp add: s True parse_value.simps pskip_def)
    qed
    then show ?thesis by (auto simp: s solid_def)
  next
    case False
    obtain es where
      es: "map (\<lambda>c. (print_string_ptr (cj_string c), print_value c (Suc d) fmt)) cs =
        map (\<lambda>(n, e). (Some n, Some (Some e))) es"
      and s: "s = CHR ''{'' # ?nl @ compose_object fmt (Suc d) es @ ?tabs @ ''}''"
      using p False by (auto simp: print_object_def sprintf_new_def Let_def dest!: object_entries_Some
        split: Option.bind_splits option.splits if_splits)
    have len: "length cs = length es" using arg_cong [OF es, of length] by simp
    have "member_text (cs ! i) (es ! i)" if i: "i < length es" for i
    proof -
      have c: "cs ! i \<in> set cs" using i len by simp
      have "print_string_ptr (cj_string (cs ! i)) = Some (fst (es ! i)) \<and>
          print_value (cs ! i) (Suc d) fmt = Some (Some (snd (es ! i)))"
        using arg_cong [OF es, of "\<lambda>l. l ! i"] i len by (cases "es ! i") simp
      with IH [OF c] nm [OF c] show ?thesis
        by (auto simp: member_text_def str_ok_def print_string_ptr_Some quoted_def split: option.splits)
    qed
    then have l: "list_all2 member_text cs es" using len by (simp add: list_all2_conv_all_nth)
    then have ne: "es \<noteq> []" using False by auto
    obtain n where n: "\<forall>m ws acc r. n \<le> m \<longrightarrow> blank ws \<longrightarrow>
      parse_members m (ws @ compose_object fmt (Suc d) es @ ?tabs @ CHR ''}'' # r) acc =
        Done (object_of (acc @ map member cs)) r"
      using parse_members_compose [OF l ne bl(2)] by blast
    obtain nm' e es' where e: "es = (quoted nm', e) # es'"
      using l ne by (cases es) (auto simp: list_all2_Cons2 member_text_def)
    let ?ind = "if fmt then tabs (Suc d) else []"
    have "\<exists>x. compose_object fmt (Suc d) es = ?ind @ quoted nm' @ x"
      unfolding e compose_object.simps by blast
    then obtain x where x: "compose_object fmt (Suc d) es = ?ind @ quoted nm' @ x" by blast
    have "reads_as (CJson cJSON_Object vs vi vd st cs) s (Suc n)"
    proof (rule first_level)
      fix k c r
      assume k: "n \<le> k"
      let ?y = "?tabs @ CHR ''}'' # c # r"
      let ?v = "?nl @ compose_object fmt (Suc d) es @ ?y"
      have "blank (?nl @ ?ind)" by simp
      from skip_solid [OF this solid_quoted, of nm' "x @ ?y"]
      have v: "skip ?v = Some (quoted nm' @ x @ ?y)" by (simp add: x)
      have "parse_members k ?v [] = Done (object_of (map member cs)) (c # r)"
        using n [rule_format, OF k bl(1)] by simp
      with members_skip [OF v]
      have "parse_members k (quoted nm' @ x @ ?y) [] = Done (object_of (map member cs)) (c # r)" by simp
      moreover have "hd (quoted nm' @ x @ ?y) \<noteq> CHR ''}''" by (simp add: quoted_def)
      moreover have "s @ c # r = CHR ''{'' # ?v" by (simp add: s)
      ultimately show "parse_value (Suc k) (s @ c # r) = Done (canon (CJson cJSON_Object vs vi vd st cs)) (c # r)"
        using v by (simp add: parse_value.simps(2) pskip_def member_def del: skip.simps)
    qed
    then show ?thesis by (auto simp: s solid_def)
  qed
qed

lemma print_reads:
  "plain j \<Longrightarrow> print_value j d fmt = Some (Some s) \<Longrightarrow> \<exists>n. reads_as j s n \<and> solid s"
proof (induction j arbitrary: d s)
  case (CJson t vs vi vd st cs)
  have t: "t \<le> 6" using CJson.prems(1) by simp
  then consider "t \<le> 4" | "t = 5" | "t = 6"
    by (rule type_cases) auto
  then show ?case
  proof cases
    case 1
    then show ?thesis using print_reads_leaf CJson.prems by blast
  next
    case 2
    have pl: "c \<in> set cs \<Longrightarrow> plain c" for c using CJson.prems(1) 2 by (simp add: list_all_iff)
    have "print_array fmt (map (\<lambda>c. print_value c (Suc d) fmt) cs) = Some (Some s)"
      using CJson.prems(2) 2 by (simp add: print_value.simps)
    with print_reads_array [of cs d fmt s] CJson.IH pl 2 show ?thesis by blast
  next
    case 3
    have pl: "c \<in> set cs \<Longrightarrow> plain c" "c \<in> set cs \<Longrightarrow> str_ok (cj_string c)" for c
      using CJson.prems(1) 3 by (simp_all add: list_all_iff)
    have "print_object d fmt (map (\<lambda>c. (print_string_ptr (cj_string c), print_value c (Suc d) fmt)) cs) =
        Some (Some s)"
      using CJson.prems(2) 3 by (simp add: print_value.simps)
    with print_reads_object [of cs d fmt s] CJson.IH pl 3 show ?thesis by blast
  qed
qed

lemma parse_print:
  assumes "plain j" "print_value j d fmt = Some (Some s)"
  shows "cJSON_Parse (s @ NUL # r) = Done (canon j) (NUL # r)"
proof -
  obtain n where n: "reads_as j s n" "solid s" using print_reads [OF assms] by blast
  have "parse_value n (s @ NUL # r) = Done (canon j) (NUL # r)" by (rule reads_asD [OF n(1)]) simp_all
  from parse_limit [OF this] have "parse_value (2 * length (s @ NUL # r) + 1) (s @ NUL # r) =
      Done (canon j) (NUL # r)" by simp
  then show ?thesis
    using skip_solid' [OF n(2)] by (simp add: cJSON_Parse_def cJSON_ParseWithOpts_def pskip_def)
qed

text \<open>A plain tree has a text.\<close>

lemma array_entries_all: "(\<forall>r\<in>set rs. \<exists>e. r = Some (Some e)) \<Longrightarrow> \<exists>es. array_entries rs = Some (Some es)"
  by (induction rs) auto

lemma object_entries_all:
  "(\<forall>(n, r)\<in>set rs. n \<noteq> None \<and> (\<exists>e. r = Some (Some e))) \<Longrightarrow> \<exists>es. object_entries rs = Some (Some es)"
  by (induction rs) auto

lemma print_array_all:
  assumes "\<forall>r\<in>set rs. \<exists>e. r = Some (Some e)"
  shows "\<exists>s. print_array fmt rs = Some (Some s)"
proof -
  obtain es where "array_entries rs = Some (Some es)" using array_entries_all [OF assms] by blast
  moreover have "\<forall>r\<in>set rs. r \<noteq> None" using assms by auto
  ultimately show ?thesis
    using print_array_fits [of rs fmt] by (auto simp: print_array_def sprintf_new_def split: if_splits)
qed

lemma print_object_all:
  assumes "\<forall>(n, r)\<in>set rs. n \<noteq> None \<and> (\<exists>e. r = Some (Some e))"
  shows "\<exists>s. print_object d fmt rs = Some (Some s)"
proof -
  obtain es where "object_entries rs = Some (Some es)" using object_entries_all [OF assms] by blast
  moreover have "\<forall>(n, r)\<in>set rs. n \<noteq> None \<and> r \<noteq> None" using assms by auto
  ultimately show ?thesis
    using print_object_fits [of rs d fmt]
    by (auto simp: print_object_def sprintf_new_def Let_def split: if_splits)
qed

lemma print_plain: "plain j \<Longrightarrow> \<exists>s. print_value j d fmt = Some (Some s)"
proof (induction j arbitrary: d)
  case (CJson t vs vi vd st cs)
  have "t \<le> 6" using CJson.prems by simp
  then show ?case
  proof (cases rule: type_cases)
    case 4
    with CJson.prems have i: "- 2147483648 \<le> vi" "vi \<le> 2147483647" "vd = of_int vi" by simp_all
    then have "(of_int vi :: rat) \<le> 2147483647" "- 2147483648 \<le> (of_int vi :: rat)"
      by (metis of_int_le_iff of_int_numeral, metis of_int_le_iff of_int_numeral of_int_minus)
    then show ?thesis
      using 4 i length_dec_int [OF i(1,2)]
      by (simp add: print_value.simps print_number_def sprintf_new_def Let_def)
  next
    case 5
    with CJson.prems show ?thesis
      by (auto simp: print_value.simps print_string_def str_ok_def print_string_ptr_Some split: option.splits)
  next
    case 6
    then have "\<forall>r\<in>set (map (\<lambda>c. print_value c (Suc d) fmt) cs). \<exists>e. r = Some (Some e)"
      using CJson by (auto simp: list_all_iff)
    from print_array_all [OF this] show ?thesis using 6 by (simp add: print_value.simps)
  next
    case 7
    have "\<forall>(n, r)\<in>set (map (\<lambda>c. (print_string_ptr (cj_string c), print_value c (Suc d) fmt)) cs).
        n \<noteq> None \<and> (\<exists>e. r = Some (Some e))"
      using CJson 7 print_string_fits by (auto simp: list_all_iff)
    from print_object_all [OF this] show ?thesis using 7 by (simp add: print_value.simps)
  qed (simp_all add: print_value.simps)
qed

subsection \<open>Minifying the formatted text\<close>

text \<open>\<open>cJSON_Minify\<close> turns the text \<open>s\<close> into \<open>u\<close>, whatever follows.\<close>

definition keeps :: "string \<Rightarrow> string \<Rightarrow> bool" where
  "keeps s u \<longleftrightarrow> (\<forall>r. cJSON_Minify (s @ r) = map_option (append u) (cJSON_Minify r))"

lemma keeps_Nil [simp]: "keeps [] []"
  by (simp add: keeps_def option.map_ident_strong)

lemma keeps_append: "keeps s u \<Longrightarrow> keeps t v \<Longrightarrow> keeps (s @ t) (u @ v)"
proof -
  have "append (u @ v) = (\<lambda>x. u @ v @ x)" by (rule ext) simp
  then show "keeps s u \<Longrightarrow> keeps t v \<Longrightarrow> keeps (s @ t) (u @ v)"
    by (simp add: keeps_def option.map_comp comp_def)
qed

lemma keeps_char:
  assumes "32 < (of_char c :: nat)" "c \<noteq> CHR ''/''" "c \<noteq> CHR 0x22"
  shows "keeps [c] [c]"
proof -
  have "c \<noteq> NUL" "c \<notin> {CHR '' '', CHR 0x09, CHR 0x0D, CHR 0x0A}" using assms(1) by auto
  moreover have "append [c] = Cons c" by (rule ext) simp
  ultimately show ?thesis using assms by (simp add: keeps_def cJSON_Minify.simps)
qed

lemma keeps_blank: "c \<in> {CHR '' '', CHR 0x09, CHR 0x0A} \<Longrightarrow> keeps [c] []"
  by (auto simp: keeps_def cJSON_Minify.simps option.map_ident_strong)

lemma keeps_tabs: "keeps (tabs n) []"
proof (induction n)
  case (Suc n)
  with keeps_append [OF keeps_blank [of "CHR 0x09"] Suc] show ?case by simp
qed simp

lemma keeps_word:
  "\<forall>c\<in>set s. 32 < (of_char c :: nat) \<and> c \<noteq> CHR ''/'' \<and> c \<noteq> CHR 0x22 \<Longrightarrow> keeps s s"
proof (induction s)
  case (Cons c s)
  then have "keeps [c] [c]" "keeps s s" using keeps_char by auto
  from keeps_append [OF this] show ?case by simp
qed simp

lemma copy_print_char:
  assumes "c \<noteq> NUL"
  shows "copy_string (print_char c @ r) = map_option (apfst (append (print_char c))) (copy_string r)"
  using assms
proof (cases rule: print_char_cases)
  case plain
  moreover have "append [c] = Cons c" by (rule ext) simp
  ultimately show ?thesis using assms by simp
next
  case (short e)
  moreover have "append [CHR 0x5C, e] = (\<lambda>s. CHR 0x5C # e # s)" by (rule ext) simp
  ultimately show ?thesis by simp
next
  case long
  have d: "of_char c div 16 < (16 :: nat)" "of_char c mod 16 < (16 :: nat)" using long(2) by simp_all
  show ?thesis
    unfolding long(1) using hex_digit_plain [OF d(1)] hex_digit_plain [OF d(2)]
    by (cases "copy_string r") (auto simp: apfst_def map_prod_def)
qed

lemma copy_print: "nul_free s \<Longrightarrow>
    copy_string (concat (map print_char s) @ CHR 0x22 # r) = Some (concat (map print_char s) @ [CHR 0x22], r)"
  by (induction s) (simp_all add: copy_print_char [OF not_sym])

lemma keeps_quoted: "nul_free s \<Longrightarrow> keeps (quoted s) (quoted s)"
  using copy_print [of s]
  by (simp add: keeps_def quoted_def cJSON_Minify.simps del: copy_string.simps)

lemma keeps_punct:
  "keeps '','' '',''" "keeps '':'' '':''" "keeps ''['' ''[''" "keeps '']'' '']''" "keeps ''{'' ''{''"
  "keeps ''}'' ''}''" "keeps '' '' []" "keeps [CHR 0x0A] []"
  by (rule keeps_char; simp)+ (rule keeps_blank; simp)+

lemma keeps_compose_array:
  "list_all2 keeps ss us \<Longrightarrow> keeps (compose_array True ss) (compose_array False us)"
proof (induction ss us rule: list_all2_induct)
  case (Cons s ss u us)
  show ?case
  proof (cases "ss = []")
    case True
    with Cons show ?thesis by simp
  next
    case False
    with Cons have "us \<noteq> []" by auto
    with False Cons.hyps keeps_append [OF Cons.hyps(1) keeps_append [OF keeps_punct(1)
          keeps_append [OF keeps_punct(7) Cons.IH]]]
    show ?thesis by (cases ss; cases us) simp_all
  qed
qed simp

lemma keeps_compose_object:
  "list_all2 (\<lambda>(n, e) (n', e'). n = n' \<and> keeps n n \<and> keeps e e') ss us \<Longrightarrow>
     keeps (compose_object True d ss) (compose_object False d' us)"
proof (induction ss us rule: list_all2_induct)
  case (Cons s ss u us)
  obtain n e e' where ne: "s = (n, e)" "u = (n, e')" "keeps n n" "keeps e e'"
    using Cons.hyps(1) by (cases s; cases u) auto
  have es: "ss = [] \<longleftrightarrow> us = []" using Cons.hyps by auto
  have c: "keeps (if ss \<noteq> [] then '','' else []) (if us \<noteq> [] then '','' else [])"
    using es keeps_punct(1) by simp
  have "keeps (tabs d @ n @ '':'' @ tabs 1 @ e @ (if ss \<noteq> [] then '','' else []) @ [CHR 0x0A] @
        compose_object True d ss)
      ([] @ n @ '':'' @ [] @ e' @ (if us \<noteq> [] then '','' else []) @ [] @ compose_object False d' us)"
    by (intro keeps_append keeps_tabs keeps_punct ne c Cons.IH)
  then show ?case by (simp add: ne)
qed simp

lemma keeps_dec_int: "keeps (dec_int i) (dec_int i)"
proof (rule keeps_word)
  have "is_digit c \<Longrightarrow> 32 < (of_char c :: nat) \<and> c \<noteq> CHR ''/'' \<and> c \<noteq> CHR 0x22" for c
    by (auto simp: is_digit_def)
  then show "\<forall>c\<in>set (dec_int i). 32 < (of_char c :: nat) \<and> c \<noteq> CHR ''/'' \<and> c \<noteq> CHR 0x22"
    using dec_digits by (auto simp: dec_int_def)
qed

lemma print_array_Some:
  assumes "print_array fmt rs = Some (Some s)"
  obtains es where "rs = map (\<lambda>e. Some (Some e)) es" "s = ''['' @ compose_array fmt es @ '']''"
  using assms that [of "[]"] that
  by (auto simp: print_array_def sprintf_new_def dest!: array_entries_Some
      split: if_splits Option.bind_splits option.splits)

lemma print_object_Some:
  assumes "print_object d fmt rs = Some (Some s)"
  obtains es k where "rs = map (\<lambda>(n, e). (Some n, Some (Some e))) es"
    "s = ''{'' @ (if fmt then [CHR 0x0A] else []) @ compose_object fmt (Suc d) es @
      (if fmt then tabs k else []) @ ''}''"
  using assms that [of "[]" "d - 1"] that [of _ d]
  by (auto simp: print_object_def sprintf_new_def Let_def dest!: object_entries_Some
      split: if_splits Option.bind_splits option.splits)

lemma print_keeps:
  "plain j \<Longrightarrow> print_value j d True = Some (Some s) \<Longrightarrow> print_value j d' False = Some (Some u) \<Longrightarrow>
     keeps s u"
proof (induction j arbitrary: d d' s u)
  case (CJson t vs vi vd st cs)
  have "t \<le> 6" using CJson.prems by simp
  then show ?case
  proof (cases rule: type_cases)
    case 4
    have i: "- 2147483648 \<le> vi" "vi \<le> 2147483647" "vd = of_int vi" using CJson.prems 4 by simp_all
    then have "(of_int vi :: rat) \<le> 2147483647" "- 2147483648 \<le> (of_int vi :: rat)"
      by (metis of_int_le_iff of_int_numeral, metis of_int_le_iff of_int_numeral of_int_minus)
    with CJson.prems 4 i have "s = dec_int vi" "u = dec_int vi"
      by (auto simp: print_value.simps print_number_def sprintf_new_def Let_def split: if_splits)
    then show ?thesis using keeps_dec_int by simp
  next
    case 5
    with CJson.prems obtain x where "nul_free x" "s = quoted x" "u = quoted x"
      by (auto simp: print_value.simps print_string_def print_string_ptr_Some str_ok_def quoted_def
          split: option.splits)
    then show ?thesis using keeps_quoted by simp
  next
    case 6
    let ?f = "\<lambda>d fmt c. print_value c (Suc d) fmt"
    have a: "print_array True (map (?f d True) cs) = Some (Some s)"
      "print_array False (map (?f d' False) cs) = Some (Some u)"
      using CJson.prems 6 by (simp_all add: print_value.simps)
    obtain es where es: "map (?f d True) cs = map (\<lambda>e. Some (Some e)) es"
      "s = ''['' @ compose_array True es @ '']''" by (rule print_array_Some [OF a(1)])
    obtain es' where es': "map (?f d' False) cs = map (\<lambda>e. Some (Some e)) es'"
      "u = ''['' @ compose_array False es' @ '']''" by (rule print_array_Some [OF a(2)])
    have l: "length cs = length es" "length cs = length es'"
      using arg_cong [OF es(1), of length] arg_cong [OF es'(1), of length] by simp_all
    have "list_all2 keeps es es'"
      unfolding list_all2_conv_all_nth
    proof (intro conjI allI impI)
      fix i assume i: "i < length es"
      then have "plain (cs ! i)" using CJson.prems(1) 6 l by (simp add: list_all_iff)
      then show "keeps (es ! i) (es' ! i)"
        using CJson.IH [of "cs ! i"] arg_cong [OF es(1), of "\<lambda>x. x ! i"]
          arg_cong [OF es'(1), of "\<lambda>x. x ! i"] i l by simp
    qed (use l in simp)
    then show ?thesis unfolding es(2) es'(2) by (intro keeps_append keeps_punct keeps_compose_array)
  next
    case 7
    let ?f = "\<lambda>d fmt c. (print_string_ptr (cj_string c), print_value c (Suc d) fmt)"
    have a: "print_object d True (map (?f d True) cs) = Some (Some s)"
      "print_object d' False (map (?f d' False) cs) = Some (Some u)"
      using CJson.prems 7 by (simp_all add: print_value.simps)
    obtain es k where es: "map (?f d True) cs = map (\<lambda>(n, e). (Some n, Some (Some e))) es"
      "s = ''{'' @ (if True then [CHR 0x0A] else []) @ compose_object True (Suc d) es @
        (if True then tabs k else []) @ ''}''" by (rule print_object_Some [OF a(1)])
    obtain es' k' where es': "map (?f d' False) cs = map (\<lambda>(n, e). (Some n, Some (Some e))) es'"
      "u = ''{'' @ (if False then [CHR 0x0A] else []) @ compose_object False (Suc d') es' @
        (if False then tabs k' else []) @ ''}''" by (rule print_object_Some [OF a(2)])
    have l: "length cs = length es" "length cs = length es'"
      using arg_cong [OF es(1), of length] arg_cong [OF es'(1), of length] by simp_all
    have "list_all2 (\<lambda>(n, e) (n', e'). n = n' \<and> keeps n n \<and> keeps e e') es es'"
      unfolding list_all2_conv_all_nth
    proof (intro conjI allI impI)
      fix i assume i: "i < length es"
      then have p: "plain (cs ! i)" "str_ok (cj_string (cs ! i))" using CJson.prems(1) 7 l by (simp_all add: list_all_iff)
      then obtain x where x: "cj_string (cs ! i) = Some x" "nul_free x"
        by (auto simp: str_ok_def split: option.splits)
      obtain n e n' e' where ne: "es ! i = (n, e)" "es' ! i = (n', e')" by (cases "es ! i"; cases "es' ! i")
      have "print_string_ptr (Some x) = Some n" "print_string_ptr (Some x) = Some n'"
        "print_value (cs ! i) (Suc d) True = Some (Some e)" "print_value (cs ! i) (Suc d') False = Some (Some e')"
        using arg_cong [OF es(1), of "\<lambda>x. x ! i"] arg_cong [OF es'(1), of "\<lambda>x. x ! i"] i l x ne by simp_all
      then have "n = quoted x" "n' = quoted x" "keeps e e'"
        using CJson.IH [of "cs ! i"] p(1) i l by (simp_all add: print_string_ptr_Some quoted_def)
      then show "(case es ! i of (n, e) \<Rightarrow> \<lambda>(n', e'). n = n' \<and> keeps n n \<and> keeps e e') (es' ! i)"
        using keeps_quoted [OF x(2)] ne by simp
    qed (use l in simp)
    then have "keeps s u" unfolding es(2) es'(2) if_True if_False
      by (intro keeps_append keeps_punct keeps_compose_object keeps_tabs)
    then show ?thesis .
  qed (use CJson.prems in \<open>auto simp: print_value.simps intro!: keeps_word\<close>)
qed

text \<open>A text has no NUL: what a string holds is escaped.\<close>

lemma print_char_nul_free: "nul_free (print_char c)"
proof (cases "c = NUL")
  case True
  then show ?thesis using hex_digit_plain [of 0] by (auto simp: print_char_def)
next
  case False
  then show ?thesis
  proof (cases rule: print_char_cases)
    case long
    have d: "of_char c div 16 < (16 :: nat)" "of_char c mod 16 < (16 :: nat)" using long(2) by simp_all
    show ?thesis unfolding long(1) using hex_digit_plain [OF d(1)] hex_digit_plain [OF d(2)] by auto
  qed (use False in \<open>auto simp: specials_def\<close>)
qed

lemma print_string_nul_free: "print_string_ptr x = Some s \<Longrightarrow> nul_free s"
  using print_char_nul_free
  by (auto simp: print_string_ptr_def sprintf_new_def split: option.splits if_splits)

lemma compose_array_nul_free: "\<forall>e\<in>set es. nul_free e \<Longrightarrow> nul_free (compose_array fmt es)"
  by (induction fmt es rule: compose_array.induct) auto

lemma compose_object_nul_free:
  "\<forall>(n, e)\<in>set es. nul_free n \<and> nul_free e \<Longrightarrow> nul_free (compose_object fmt d es)"
  by (induction es) auto

lemma dec_int_nul_free: "nul_free (dec_int i)"
  using dec_nul_free by (auto simp: dec_int_def)

lemma print_nul_free: "plain j \<Longrightarrow> print_value j d fmt = Some (Some s) \<Longrightarrow> nul_free s"
proof (induction j arbitrary: d s)
  case (CJson t vs vi vd st cs)
  have "t \<le> 6" using CJson.prems by simp
  then show ?case
  proof (cases rule: type_cases)
    case 4
    have i: "- 2147483648 \<le> vi" "vi \<le> 2147483647" "vd = of_int vi" using CJson.prems 4 by simp_all
    then have "(of_int vi :: rat) \<le> 2147483647" "- 2147483648 \<le> (of_int vi :: rat)"
      by (metis of_int_le_iff of_int_numeral, metis of_int_le_iff of_int_numeral of_int_minus)
    with CJson.prems 4 i show ?thesis using dec_int_nul_free
      by (auto simp: print_value.simps print_number_def sprintf_new_def Let_def split: if_splits)
  next
    case 5
    with CJson.prems show ?thesis using print_string_nul_free
      by (auto simp: print_value.simps print_string_def)
  next
    case 6
    then have "print_array fmt (map (\<lambda>c. print_value c (Suc d) fmt) cs) = Some (Some s)"
      using CJson.prems by (simp add: print_value.simps)
    then obtain es where es: "map (\<lambda>c. print_value c (Suc d) fmt) cs = map (\<lambda>e. Some (Some e)) es"
      "s = ''['' @ compose_array fmt es @ '']''" by (rule print_array_Some)
    have "nul_free e" if "e \<in> set es" for e
    proof -
      have "Some (Some e) \<in> set (map (\<lambda>c. print_value c (Suc d) fmt) cs)" using that by (simp add: es(1))
      then show ?thesis using CJson.IH CJson.prems(1) 6 by (auto simp: list_all_iff)
    qed
    then show ?thesis using compose_array_nul_free [of es fmt] by (auto simp: es(2))
  next
    case 7
    let ?f = "\<lambda>c. (print_string_ptr (cj_string c), print_value c (Suc d) fmt)"
    have "print_object d fmt (map ?f cs) = Some (Some s)"
      using CJson.prems 7 by (simp add: print_value.simps)
    then obtain es k where es: "map ?f cs = map (\<lambda>(n, e). (Some n, Some (Some e))) es"
      "s = ''{'' @ (if fmt then [CHR 0x0A] else []) @ compose_object fmt (Suc d) es @
        (if fmt then tabs k else []) @ ''}''" by (rule print_object_Some)
    have "nul_free n \<and> nul_free e" if "(n, e) \<in> set es" for n e
    proof -
      have "(Some n, Some (Some e)) \<in> set (map ?f cs)" using that by (force simp: es(1))
      then show ?thesis using CJson.IH CJson.prems(1) 7 print_string_nul_free by (force simp: list_all_iff)
    qed
    then show ?thesis using compose_object_nul_free [of es fmt "Suc d"] by (auto simp: es(2))
  qed (use CJson.prems in \<open>auto simp: print_value.simps\<close>)
qed

subsection \<open>Properties\<close>

text \<open>C10: Printing and parsing round-trip: a tree of known types, whole numbers and strings without
  NUL prints, formatted and unformatted, and parsing either text gives back the tree, with the
  fields its types do not use reset, and stops at the terminator, whatever memory follows.\<close>

theorem json_round_trip:
  assumes "plain j"
  shows "\<exists>s u. cJSON_Print j = Some (Some s) \<and> cJSON_PrintUnformatted j = Some (Some u) \<and>
    (\<forall>r. cJSON_Parse (s @ NUL # r) = Done (canon j) (NUL # r) \<and>
         cJSON_Parse (u @ NUL # r) = Done (canon j) (NUL # r))"
proof -
  obtain s u where "print_value j 0 True = Some (Some s)" "print_value j 0 False = Some (Some u)"
    using print_plain [OF assms] by blast
  then show ?thesis
    using parse_print [OF assms] by (simp add: cJSON_Print_def cJSON_PrintUnformatted_def)
qed

lemma json_round_trip_witness:
  "\<exists>s. cJSON_Print (cJSON_AddItemToObject cJSON_CreateObject ''a'' (Some (cJSON_CreateString ''x''))) =
     Some (Some s) \<and> (\<exists>t. cJSON_Parse (s @ [NUL]) = Done t [NUL])"
proof -
  let ?j = "cJSON_AddItemToObject cJSON_CreateObject ''a'' (Some (cJSON_CreateString ''x''))"
  have "plain ?j"
    by (simp add: cJSON_AddItemToObject_def cJSON_AddItemToArray_def cJSON_CreateObject_def
        cJSON_CreateString_def with_child_def with_string_def str_ok_def)
  from json_round_trip [OF this] show ?thesis by blast
qed

text \<open>\<open>cJSON_Minify\<close> makes the unformatted text of the formatted one: for every such tree, all
  tabs, spaces and line ends the printer added go, and the strings stay as they are.\<close>

lemma json_minify:
  assumes "plain j" "cJSON_Print j = Some (Some s)"
  shows "\<exists>u. cJSON_PrintUnformatted j = Some (Some u) \<and> cJSON_Minify (s @ NUL # r) = Some u"
proof -
  obtain u where u: "print_value j 0 False = Some (Some u)" using print_plain [OF assms(1)] by blast
  have "keeps s u" by (rule print_keeps [OF assms(1) _ u]) (use assms(2) in \<open>simp add: cJSON_Print_def\<close>)
  then show ?thesis using u by (simp add: keeps_def cJSON_PrintUnformatted_def cJSON_Minify.simps)
qed

lemma json_minify_witness:
  "\<exists>u. cJSON_PrintUnformatted (cJSON_CreateStringArray [''a b'', ''/* '']) = Some (Some u) \<and>
     cJSON_Minify (CHR ''['' # quoted ''a b'' @ '', '' @ quoted ''/* '' @ '']'' @ [NUL]) = Some u"
proof -
  let ?j = "cJSON_CreateStringArray [''a b'', ''/* '']"
  have "plain ?j"
    by (simp add: cJSON_CreateStringArray_def cJSON_CreateArray_def cJSON_CreateString_def
        with_child_def str_ok_def)
  moreover have "cJSON_Print ?j = Some (Some (CHR ''['' # quoted ''a b'' @ '', '' @ quoted ''/* '' @ '']''))"
    by (simp add: cJSON_CreateStringArray_def cJSON_CreateArray_def cJSON_CreateString_def with_child_def
        cJSON_Print_def print_value.simps print_string_def print_string_ptr_Some print_array_def
        sprintf_new_def quoted_def print_char_def)
  ultimately show ?thesis using json_minify [of ?j _ "[]"] by simp
qed

text \<open>C13: Every parse ends: on any bytes, within the recursion depth of two levels per byte, and any
  larger limit gives the same result.\<close>

theorem json_parse_ends:
  "cJSON_ParseWithOpts value b \<noteq> Deep \<and>
   parse_value (2 * length value + 1 + k) value = parse_value (2 * length value + 1) value"
proof
  show "cJSON_ParseWithOpts value b \<noteq> Deep"
    using parse_enough(1) [OF order_refl] by (auto simp: cJSON_ParseWithOpts_def pskip_Deep_iff pbind_Deep_iff)
  show "parse_value (2 * length value + 1 + k) value = parse_value (2 * length value + 1) value"
    by (rule parse_more [OF _ parse_enough(1)]) simp_all
qed

text \<open>C14: A heap overflow in \<open>parse_string\<close>: when \<open>\u\<close> stands right before a closing quote, the first
  pass stops at that quote and sizes the copy by it, while the second pass takes the quote for a
  hexadecimal digit, reads on in the following text and copies what it finds there, so a text
  such as this one writes past the allocated block.\<close>

theorem json_parse_string_overflow:
  assumes "2 \<le> length s" "\<forall>c\<in>set s. c \<noteq> CHR 0x22 \<and> c \<noteq> CHR 0x5C \<and> c \<noteq> NUL"
  shows "parse_string ([CHR 0x22, CHR 0x5C] @ ''u'' @ [CHR 0x22] @ '','' @ [CHR 0x22] @ ''a'' @ s @
    CHR 0x22 # r) = UB"
proof -
  have un: "unescape (s @ CHR 0x22 # r) = Some (s, CHR 0x22 # r)"
    using assms(2) by (induction s) (simp_all add: unescape.simps)
  have "hex_val (CHR 0x22) = None" by simp
  moreover have "(4 :: nat) = Suc 3" by simp
  ultimately have "parse_hex4 (CHR 0x22 # x) = Some 0" for x
    by (simp only: parse_hex4_def hex4_loop.simps option.case)
  then have "unescape_u (CHR 0x22 # CHR '','' # CHR 0x22 # CHR ''a'' # x) = Some ([], x)" for x
    by (simp add: unescape_u_def advance_def)
  then have "unescape ([CHR 0x5C] @ ''u'' @ [CHR 0x22] @ '','' @ [CHR 0x22] @ ''a'' @ s @ CHR 0x22 # r) =
      Some (s, CHR 0x22 # r)"
    by (simp add: unescape.simps(2) [of "CHR 0x5C"] un apfst_def map_prod_def)
  then show ?thesis using assms(1) by (simp add: parse_string_def)
qed

lemma json_parse_string_overflow_witness:
  "parse_string ([CHR 0x22, CHR 0x5C] @ ''u'' @ [CHR 0x22] @ '','' @ [CHR 0x22] @ ''aaaa'' @ [CHR 0x22, NUL]) = UB"
  using json_parse_string_overflow [of "''aaa''" "[NUL]"] by simp

text \<open>
  The members of an object behave as a list searched by name without regard to case: a member
  just added is found unless an older one has its name, detaching a name returns what looking it
  up finds and nothing else changes, and after replacing a member looking it up gives the new one.\<close>

lemma json_object_members:
  "cJSON_GetObjectItem (cJSON_AddItemToObject obj nm (Some item)) nm' =
     (case cJSON_GetObjectItem obj nm' of Some x \<Rightarrow> Some x
      | None \<Rightarrow> if cJSON_strcasecmp (Some nm) (Some nm') = 0 then Some (with_string (Some nm) item) else None) \<and>
   fst (cJSON_DetachItemFromObject obj nm) = cJSON_GetObjectItem obj nm \<and>
   cJSON_GetObjectItem (cJSON_ReplaceItemInObject obj nm item) nm =
     map_option (\<lambda>_. with_string (Some nm) item) (cJSON_GetObjectItem obj nm) \<and>
   cJSON_GetArraySize (cJSON_DeleteItemFromObject obj nm) =
     cJSON_GetArraySize obj - (if cJSON_GetObjectItem obj nm = None then 0 else 1)"
proof -
  have child: "cj_child (with_child cs j) = cs" and str: "cj_string (with_string st j) = st" for cs st j
    by (cases j; simp add: with_child_def with_string_def)+
  have find_app: "find_loop (cs @ [i]) s = (case find_loop cs s of Some x \<Rightarrow> Some x
      | None \<Rightarrow> if cJSON_strcasecmp (cj_string i) s = 0 then Some i else None)" for cs i s
    by (induction cs) auto
  have idx: "index_loop cs s = None \<longleftrightarrow> find_loop cs s = None" for cs s
    by (induction cs) auto
  have det: "index_loop cs s = Some k \<Longrightarrow> find_loop cs s = Some (cs ! k) \<and> k < length cs \<and>
      detach_loop cs (int k) = (Some (cs ! k), take k cs @ drop (Suc k) cs)" for cs s k
    by (induction cs arbitrary: k) (auto split: if_splits)
  have refl: "strcasecmp_loop a a = 0" for a by (induction a) auto
  then have r: "cJSON_strcasecmp (Some a) (Some a) = 0" for a by (simp add: cJSON_strcasecmp_def)
  have rep: "index_loop cs (Some s) = Some k \<Longrightarrow> cj_string i = Some s \<Longrightarrow>
      find_loop (replace_loop cs (int k) i) (Some s) = Some i" for cs s k i
    using r by (induction cs arbitrary: k) (auto split: if_splits)
  show ?thesis
    using det [of "cj_child obj" "Some nm"] rep [of "cj_child obj" nm _ "with_string (Some nm) item"]
      idx [of "cj_child obj" "Some nm"]
    by (auto simp: cJSON_GetObjectItem_def cJSON_AddItemToObject_def cJSON_AddItemToArray_def find_app child
        str cJSON_DetachItemFromObject_def cJSON_DetachItemFromArray_def cJSON_ReplaceItemInObject_def
        cJSON_ReplaceItemInArray_def cJSON_GetArraySize_def cJSON_DeleteItemFromObject_def
        split: option.splits)
qed

end
