(* ===== verification/HassDiscovery.thy ===== *)
theory HassDiscovery
  imports HassComponent CJsonRound
begin

text \<open>
  \<open>src/components/device/hass_mqtt_discovery.c\<close>: the topics of the device and the JSON message
  that announces a component to Home Assistant. \<open>sprintf\<close> into an array is \<open>strcpy\<close> of the
  formatted text: undefined when the array is too small.
\<close>

datatype discovery_value_e = HASS_MQTT_DISCOVERY_AVAILABILITY_TOPIC | HASS_MQTT_DISCOVERY_COMMAND_TOPIC

definition discovery_junk :: "fw \<Rightarrow> ptr \<Rightarrow> hass_mqtt_discovery_t" where
  "discovery_junk s p =
     \<lparr> dis_discovery_prefix = junk s p 0 100, dis_availability_topic = junk s p 100 100,
       dis_command_topic = junk s p 200 100 \<rparr>"

text \<open>The topics, from the prefix, the identifiers and the id.\<close>

definition availability_topic :: "string \<Rightarrow> string \<Rightarrow> string" where
  "availability_topic prefix ids = prefix @ ''/'' @ ids @ ''/available''"

definition command_filter :: "string \<Rightarrow> string \<Rightarrow> string" where
  "command_filter prefix ids = prefix @ ''/'' @ ids @ ''/+/set''"

definition command_topic :: "string \<Rightarrow> string \<Rightarrow> u32 \<Rightarrow> string" where
  "command_topic prefix ids i = prefix @ ''/'' @ ids @ ''/'' @ dec (unat i) @ ''/set''"

definition state_topic :: "string \<Rightarrow> string \<Rightarrow> u32 \<Rightarrow> string" where
  "state_topic prefix ids i = prefix @ ''/'' @ ids @ ''/'' @ dec (unat i) @ ''/state''"

definition type_name :: "hass_component_type_e \<Rightarrow> string" where
  "type_name type = (case type of SWITCH \<Rightarrow> ''switch'' | SENSOR \<Rightarrow> ''sensor'')"

definition config_topic :: "string \<Rightarrow> hass_component_type_e \<Rightarrow> string \<Rightarrow> u32 \<Rightarrow> string" where
  "config_topic prefix type ids i =
     prefix @ ''/'' @ type_name type @ ''/'' @ ids @ ''/'' @ dec (unat i) @ ''/config''"

definition hass_mqtt_discovery_create :: "string \<Rightarrow> ptr \<Rightarrow> fw \<Rightarrow> (ptr \<times> fw) option" where
  "hass_mqtt_discovery_create discovery_prefix handle s =
     (let (p, s) = hfmem_malloc ''hass_mqtt_discovery_t'' (\<lambda>p. DiscoveryObj (discovery_junk s p)) s in
      do {
        d \<leftarrow> discovery_at p s;
        b1 \<leftarrow> strcpy (dis_discovery_prefix d) discovery_prefix;
        ids \<leftarrow> Option.bind (hass_component_identifiers_get handle s) cstr;
        b2 \<leftarrow> strcpy (dis_availability_topic d) (availability_topic discovery_prefix ids);
        b3 \<leftarrow> strcpy (dis_command_topic d) (command_filter discovery_prefix ids);
        Some (p, store p (DiscoveryObj \<lparr>dis_discovery_prefix = b1, dis_availability_topic = b2,
          dis_command_topic = b3\<rparr>) s)
      })"

definition hass_mqtt_discovery_delete :: "ptr \<Rightarrow> fw \<Rightarrow> ptr \<times> fw" where
  "hass_mqtt_discovery_delete handle s = (if handle \<noteq> 0 then (0, hfmem_free handle s) else (handle, s))"

definition hass_component_config_topic_set :: "ptr \<Rightarrow> ptr \<Rightarrow> fw \<Rightarrow> fw option" where
  "hass_component_config_topic_set mqtt_discovery_handle component_handle s =
     do {
       type \<leftarrow> hass_component_type_get component_handle s;
       c \<leftarrow> component_at component_handle s;
       d \<leftarrow> discovery_at mqtt_discovery_handle s;
       prefix \<leftarrow> cstr (dis_discovery_prefix d);
       ids \<leftarrow> Option.bind (hass_component_identifiers_get component_handle s) cstr;
       i \<leftarrow> hass_component_id_get component_handle s;
       b \<leftarrow> strcpy (hc_config_topic c) (config_topic prefix type ids i);
       Some (store component_handle (ComponentObj (c\<lparr>hc_config_topic := b\<rparr>)) s)
     }"

text \<open>The JSON message. The members of \<open>root\<close> are added in the order of the code.\<close>

definition add_string :: "string \<Rightarrow> string \<Rightarrow> cjson \<Rightarrow> cjson" where
  "add_string name v object = cJSON_AddItemToObject object name (Some (cJSON_CreateString v))"

definition string_pair :: "string \<Rightarrow> string \<Rightarrow> cjson" where
  "string_pair a b =
     cJSON_AddItemToArray (cJSON_AddItemToArray cJSON_CreateArray (Some (cJSON_CreateString a)))
       (Some (cJSON_CreateString b))"

definition device_json :: "string \<Rightarrow> string \<Rightarrow> string \<Rightarrow> string \<Rightarrow> string \<Rightarrow> string \<Rightarrow> cjson" where
  "device_json ids mf name mdl sw ip =
     (let jsonDevice = add_string ''sw'' sw (add_string ''mdl'' mdl (add_string ''name'' name
            (add_string ''mf'' mf (add_string ''ids'' ids cJSON_CreateObject))));
          jsonDeviceConnections =
            cJSON_AddItemToArray (cJSON_AddItemToArray cJSON_CreateArray (Some (string_pair ''mac'' ids)))
              (Some (string_pair ''ip'' ip))
      in cJSON_AddItemToObject jsonDevice ''cns'' (Some jsonDeviceConnections))"

definition hass_component_config_json_get :: "ptr \<Rightarrow> ptr \<Rightarrow> ptr \<Rightarrow> fw \<Rightarrow> (string option \<times> fw) option" where
  "hass_component_config_json_get mqtt_discovery_handle component_handle device_handle s =
     do {
       d \<leftarrow> discovery_at mqtt_discovery_handle s;
       c \<leftarrow> component_at component_handle s;
       prefix \<leftarrow> cstr (dis_discovery_prefix d);
       ids \<leftarrow> Option.bind (hass_component_identifiers_get component_handle s) cstr;
       i \<leftarrow> hass_component_id_get component_handle s;
       b \<leftarrow> strcpy (hc_state_topic c) (state_topic prefix ids i);
       let s = store component_handle (ComponentObj (c\<lparr>hc_state_topic := b\<rparr>)) s;
       name \<leftarrow> Option.bind (hass_component_name_get component_handle s) cstr;
       icon \<leftarrow> Option.bind (hass_component_icon_get component_handle s) cstr;
       stat_t \<leftarrow> Option.bind (hass_component_state_topic_get component_handle s) cstr;
       avty \<leftarrow> cstr (dis_availability_topic d);
       let root = add_string ''pl_not_avail'' ''offline'' (add_string ''pl_avail'' ''online''
                    (add_string ''avty_t'' avty (add_string ''stat_t'' stat_t
                      (add_string ''icon'' icon (add_string ''name'' name cJSON_CreateObject)))));
       type \<leftarrow> hass_component_type_get component_handle s;
       root \<leftarrow> (case type of
           SWITCH \<Rightarrow> do {
             commandTopic \<leftarrow> strcpy (replicate 100 NUL) (command_topic prefix ids i);
             cmd_t \<leftarrow> cstr commandTopic;
             Some (add_string ''cmd_t'' cmd_t (add_string ''pl_off'' ''OFF'' (add_string ''pl_on'' ''ON'' root)))
           }
         | SENSOR \<Rightarrow> do {
             dev_cla \<leftarrow> Option.bind (hass_component_device_class_get component_handle s) cstr;
             unit_of_meas \<leftarrow> Option.bind (hass_component_unit_of_measurement_get component_handle s) cstr;
             val_tpl \<leftarrow> Option.bind (hass_component_value_template_get component_handle s) cstr;
             Some (add_string ''val_tpl'' val_tpl (add_string ''unit_of_meas'' unit_of_meas
               (add_string ''dev_cla'' dev_cla root)))
           });
       root \<leftarrow> (if device_handle \<noteq> 0 then do {
             v1 \<leftarrow> Option.bind (hass_device_identifiers_get device_handle s) cstr;
             v2 \<leftarrow> Option.bind (hass_device_manufacturer_get device_handle s) cstr;
             v3 \<leftarrow> Option.bind (hass_device_name_get device_handle s) cstr;
             v4 \<leftarrow> Option.bind (hass_device_model_get device_handle s) cstr;
             v5 \<leftarrow> Option.bind (hass_device_version_get device_handle s) cstr;
             v6 \<leftarrow> Option.bind (hass_device_ip device_handle s) cstr;
             Some (cJSON_AddItemToObject root ''dev'' (Some (device_json v1 v2 v3 v4 v5 v6)))
           } else Some root);
       res \<leftarrow> cJSON_PrintUnformatted root;
       Some (res, s)
     }"

fun discovery_value :: "discovery_value_e \<Rightarrow> hass_mqtt_discovery_t \<Rightarrow> cbuf" where
  "discovery_value HASS_MQTT_DISCOVERY_AVAILABILITY_TOPIC d = dis_availability_topic d"
| "discovery_value HASS_MQTT_DISCOVERY_COMMAND_TOPIC d = dis_command_topic d"

definition hass_mqss_discovery_value_get :: "ptr \<Rightarrow> discovery_value_e \<Rightarrow> fw \<Rightarrow> cbuf option" where
  "hass_mqss_discovery_value_get handle type s = map_option (discovery_value type) (discovery_at handle s)"

definition hass_mqtt_discovery_availability_topic_get :: "ptr \<Rightarrow> fw \<Rightarrow> cbuf option" where
  "hass_mqtt_discovery_availability_topic_get handle s =
     hass_mqss_discovery_value_get handle HASS_MQTT_DISCOVERY_AVAILABILITY_TOPIC s"

definition hass_mqtt_discovery_command_topic_get :: "ptr \<Rightarrow> fw \<Rightarrow> cbuf option" where
  "hass_mqtt_discovery_command_topic_get handle s =
     hass_mqss_discovery_value_get handle HASS_MQTT_DISCOVERY_COMMAND_TOPIC s"

lemmas discovery_get_defs = hass_mqss_discovery_value_get_def
  hass_mqtt_discovery_availability_topic_get_def hass_mqtt_discovery_command_topic_get_def

subsection \<open>Topics that fit\<close>

text \<open>The longest topic, the configuration topic, fits in its 100 bytes for one-digit ids.\<close>

definition topics_fit :: "string \<Rightarrow> string \<Rightarrow> bool" where
  "topics_fit prefix ids \<longleftrightarrow> length prefix + length ids + 17 < 100"

lemma length_type_name [simp]: "length (type_name type) = 6"
  by (cases type) (simp_all add: type_name_def)

lemma nul_free_type_name [simp]: "nul_free (type_name type)"
  by (cases type) (simp_all add: type_name_def)

lemma topics_nul_free [topic_simps]:
  assumes "nul_free prefix" "nul_free ids"
  shows "nul_free (availability_topic prefix ids)" "nul_free (command_filter prefix ids)"
    "nul_free (command_topic prefix ids i)" "nul_free (state_topic prefix ids i)"
    "nul_free (config_topic prefix type ids i)"
  using assms
  by (auto simp: availability_topic_def command_filter_def command_topic_def state_topic_def config_topic_def
      dest: in_set_conv_decomp [THEN iffD1])

lemma topics_length [topic_simps]:
  assumes "topics_fit prefix ids" "unat i < 10"
  shows "length prefix < 100" "length (availability_topic prefix ids) < 100"
    "length (command_filter prefix ids) < 100"
    "length (command_topic prefix ids i) < 100" "length (state_topic prefix ids i) < 100"
    "length (config_topic prefix type ids i) < 100"
  using assms length_dec_small [of "unat i"]
  by (simp_all add: topics_fit_def availability_topic_def command_filter_def command_topic_def
      state_topic_def config_topic_def)

lemma config_topic_length: "length (config_topic prefix type ids i) =
    length prefix + length ids + length (dec (unat i)) + 16"
  by (simp add: config_topic_def)

text \<open>The objects a configuration message is made from.\<close>

definition discovery_holds :: "string \<Rightarrow> string \<Rightarrow> hass_mqtt_discovery_t \<Rightarrow> bool" where
  "discovery_holds prefix ids d \<longleftrightarrow>
     cstr (dis_discovery_prefix d) = Some prefix \<and>
     cstr (dis_availability_topic d) = Some (availability_topic prefix ids) \<and>
     cstr (dis_command_topic d) = Some (command_filter prefix ids)"

lemma strcpy_ok: "length x < length b \<Longrightarrow> nul_free x \<Longrightarrow>
    \<exists>b'. strcpy b x = Some b' \<and> cstr b' = Some x \<and> length b' = length b"
  using strcpy_Some_iff [of b x] strcpy_cstr strcpy_length by metis

lemma hass_mqtt_discovery_create_ok:
  assumes m: "malloc_ok s" and c: "component_at h s = Some c" "cstr (hc_identifiers c) = Some ids" "h \<noteq> brk s"
    and f: "topics_fit prefix ids" "nul_free prefix"
  obtains d where "hass_mqtt_discovery_create prefix h s =
      Some (brk s, s\<lparr>calls := Malloc ''hass_mqtt_discovery_t'' # calls s,
        heap := (heap s)(brk s \<mapsto> DiscoveryObj d), brk := Suc (brk s)\<rparr>)"
    and "discovery_holds prefix ids d"
proof -
  have n: "nul_free ids" using c(2) cstr_SomeD by blast
  note tl = topics_length [OF f(1), of 0, simplified] and tn = topics_nul_free [OF f(2) n]
  obtain b1 b2 b3 where b: "strcpy (junk s (brk s) 0 100) prefix = Some b1" "cstr b1 = Some prefix"
    "strcpy (junk s (brk s) 100 100) (availability_topic prefix ids) = Some b2"
    "cstr b2 = Some (availability_topic prefix ids)"
    "strcpy (junk s (brk s) 200 100) (command_filter prefix ids) = Some b3"
    "cstr b3 = Some (command_filter prefix ids)"
    using strcpy_ok [of prefix "junk s (brk s) 0 100"]
      strcpy_ok [of "availability_topic prefix ids" "junk s (brk s) 100 100"]
      strcpy_ok [of "command_filter prefix ids" "junk s (brk s) 200 100"] tl tn f(2) by auto
  have at: "component_at h (s\<lparr>calls := cs, heap := (heap s)(brk s \<mapsto> x), brk := k\<rparr>) = Some c" for cs x k
    using c(1,3) by (simp add: component_at_def)
  show thesis
  proof (rule that)
    show "hass_mqtt_discovery_create prefix h s =
      Some (brk s, s\<lparr>calls := Malloc ''hass_mqtt_discovery_t'' # calls s, heap := (heap s)(brk s \<mapsto>
        DiscoveryObj \<lparr>dis_discovery_prefix = b1, dis_availability_topic = b2, dis_command_topic = b3\<rparr>),
        brk := Suc (brk s)\<rparr>)"
      using b c(2) at by (simp add: hass_mqtt_discovery_create_def malloc_ok_eq [OF m] discovery_at_def
          discovery_junk_def hass_component_identifiers_get_def get_component_value_def store_def)
  qed (use b in \<open>simp add: discovery_holds_def\<close>)
qed

lemma hass_component_config_topic_set_ok:
  assumes d: "discovery_at dh s = Some d" "discovery_holds prefix ids d"
    and c: "component_at h s = Some c" "cstr (hc_identifiers c) = Some ids" "length (hc_config_topic c) = 100"
      "unat (hc_id c) < 10"
    and f: "topics_fit prefix ids"
  obtains b where "hass_component_config_topic_set dh h s =
      Some (store h (ComponentObj (c\<lparr>hc_config_topic := b\<rparr>)) s)"
    and "cstr b = Some (config_topic prefix (hc_type c) ids (hc_id c))" "length b = 100"
proof -
  have n: "nul_free prefix" "nul_free ids" using d(2) c(2) cstr_SomeD by (auto simp: discovery_holds_def)
  obtain b where "strcpy (hc_config_topic c) (config_topic prefix (hc_type c) ids (hc_id c)) = Some b"
    "cstr b = Some (config_topic prefix (hc_type c) ids (hc_id c))" "length b = 100"
    using strcpy_ok [of "config_topic prefix (hc_type c) ids (hc_id c)" "hc_config_topic c"]
      topics_length [OF f c(4)] topics_nul_free [OF n] c(3) by auto
  then show thesis
    using d c by (intro that [of b])
      (simp_all add: hass_component_config_topic_set_def component_get_defs discovery_holds_def)
qed

subsection \<open>The message\<close>

abbreviation str_item :: "string \<Rightarrow> string \<Rightarrow> cjson" where
  "str_item n v \<equiv> CJson cJSON_String (Some v) 0 0 (Some n) []"

lemma add_string_object [simp]: "add_string n v (object_of cs) = object_of (cs @ [str_item n v])"
  by (simp add: add_string_def cJSON_AddItemToObject_def cJSON_AddItemToArray_def cJSON_CreateString_def
      with_child_def with_string_def)

lemma create_object [simp]: "cJSON_CreateObject = object_of []"
  by (simp add: cJSON_CreateObject_def)

lemma add_object_object [simp]:
  "cJSON_AddItemToObject (object_of cs) n (Some (CJson t vs vi vd st ds)) =
     object_of (cs @ [CJson t vs vi vd (Some n) ds])"
  by (simp add: cJSON_AddItemToObject_def cJSON_AddItemToArray_def with_child_def with_string_def)

lemma string_pair_eq [simp]:
  "string_pair a b = array_of [CJson cJSON_String (Some a) 0 0 None [], CJson cJSON_String (Some b) 0 0 None []]"
  by (simp add: string_pair_def cJSON_AddItemToArray_def cJSON_CreateArray_def cJSON_CreateString_def
      with_child_def)

lemma device_json_eq:
  "device_json ids mf name mdl sw ip =
     object_of [str_item ''ids'' ids, str_item ''mf'' mf, str_item ''name'' name, str_item ''mdl'' mdl,
       str_item ''sw'' sw, CJson cJSON_Array None 0 0 (Some ''cns'') [string_pair ''mac'' ids, string_pair ''ip'' ip]]"
  by (simp add: device_json_def cJSON_AddItemToArray_def cJSON_CreateArray_def with_child_def)

lemma device_json_plain:
  assumes "nul_free a" "nul_free b" "nul_free c" "nul_free d" "nul_free e" "nul_free f"
  shows "plain (device_json a b c d e f)" "canon (device_json a b c d e f) = device_json a b c d e f"
  using assms by (simp_all add: device_json_eq str_ok_def with_string_def)

text \<open>A flat object of strings, and the device at its end.\<close>

definition config_root :: "(string \<times> string) list \<Rightarrow> cjson \<Rightarrow> cjson" where
  "config_root kvs dev =
     cJSON_AddItemToObject (object_of (map (\<lambda>(k, v). str_item k v) kvs)) ''dev'' (Some dev)"

lemma canon_object:
  "(\<forall>c\<in>set cs. with_string (cj_string c) (canon c) = c) \<Longrightarrow> canon (object_of cs) = object_of cs"
  by (simp add: map_idI)

lemma config_root_plain:
  assumes "\<forall>(k, v)\<in>set kvs. nul_free k \<and> nul_free v" "plain dev" "canon dev = dev" "cj_string dev = None"
  shows "plain (config_root kvs dev)" "canon (config_root kvs dev) = config_root kvs dev"
proof -
  obtain t vs vi vd ds where d: "dev = CJson t vs vi vd None ds" using assms(4) by (cases dev) auto
  have dd: "CJson t vs vi vd (Some ''dev'') ds = with_string (Some ''dev'') dev" by (simp add: d with_string_def)
  have "plain (CJson t vs vi vd (Some ''dev'') ds)" using assms(2) d by simp
  then show "plain (config_root kvs dev)"
    using assms(1) by (auto simp: config_root_def d list_all_iff str_ok_def)
  have "canon (CJson t vs vi vd (Some ''dev'') ds) = dev" using assms(3) d by simp
  then have "with_string (Some ''dev'') (canon (CJson t vs vi vd (Some ''dev'') ds)) = CJson t vs vi vd (Some ''dev'') ds"
    by (simp only: dd)
  moreover have "with_string (Some k) (canon (str_item k x)) = str_item k x" for k x
    by (simp add: with_string_def)
  ultimately show "canon (config_root kvs dev) = config_root kvs dev"
    unfolding config_root_def d add_object_object by (intro canon_object) (auto simp del: canon.simps)
qed

text \<open>Looking a key up in the message.\<close>

lemma config_root_get:
  assumes "map_of kvs k = Some v" "\<forall>k'\<in>fst ` set kvs. k' \<noteq> k \<longrightarrow> cJSON_strcasecmp (Some k') (Some k) \<noteq> 0"
  shows "cJSON_GetObjectItem (config_root kvs dev) k = Some (str_item k v)"
proof -
  have refl: "strcasecmp_loop a a = 0" for a by (induction a) auto
  have "find_loop (map (\<lambda>(k, v). str_item k v) kvs @ xs) (Some k) = Some (str_item k v)" for xs
    using assms by (induction kvs) (auto simp: cJSON_strcasecmp_def refl split: if_splits)
  then show ?thesis
    by (cases dev) (simp add: cJSON_GetObjectItem_def config_root_def)
qed

definition json_base :: "string \<Rightarrow> string \<Rightarrow> string \<Rightarrow> string \<Rightarrow> (string \<times> string) list" where
  "json_base name icon stat_t avty =
     [(''name'', name), (''icon'', icon), (''stat_t'', stat_t), (''avty_t'', avty), (''pl_avail'', ''online''),
      (''pl_not_avail'', ''offline'')]"

definition json_kind :: "hass_component_type_e \<Rightarrow> string \<Rightarrow> string \<Rightarrow> string \<Rightarrow> string \<Rightarrow> (string \<times> string) list" where
  "json_kind type cmd_t dev_cla unit tpl =
     (case type of SWITCH \<Rightarrow> [(''pl_on'', ''ON''), (''pl_off'', ''OFF''), (''cmd_t'', cmd_t)]
      | SENSOR \<Rightarrow> [(''dev_cla'', dev_cla), (''unit_of_meas'', unit), (''val_tpl'', tpl)])"

lemma hass_component_config_json_get_ok:
  assumes d: "discovery_at dh s = Some d" "discovery_holds prefix ids d"
    and c: "component_at h s = Some c" "cstr (hc_identifiers c) = Some ids" "cstr (hc_name c) = Some name"
      "cstr (hc_icon c) = Some icon" "length (hc_state_topic c) = 100" "unat (hc_id c) < 10"
    and k: "hc_type c = SENSOR \<longrightarrow> cstr (hc_device_class c) = Some cla \<and>
      cstr (hc_unit_of_measurement c) = Some unit \<and> cstr (hc_value_template c) = Some tpl"
    and v: "device_at vh s = Some v" "device_holds ids mf dname mdl sw ip v" "vh \<noteq> 0" "vh \<noteq> h"
    and f: "topics_fit prefix ids"
  obtains b out where
    "hass_component_config_json_get dh h vh s =
       Some (Some out, store h (ComponentObj (c\<lparr>hc_state_topic := b\<rparr>)) s)"
    "cstr b = Some (state_topic prefix ids (hc_id c))" "length b = 100"
    "\<forall>r. cJSON_Parse (out @ NUL # r) = Done (config_root
       (json_base name icon (state_topic prefix ids (hc_id c)) (availability_topic prefix ids) @
        json_kind (hc_type c) (command_topic prefix ids (hc_id c)) cla unit tpl)
       (device_json ids mf dname mdl sw ip)) (NUL # r)"
    "nul_free out"
proof -
  have n: "nul_free prefix" "nul_free ids" "nul_free name" "nul_free icon"
    using d(2) c(2-4) cstr_SomeD by (auto simp: discovery_holds_def)
  have ns: "hc_type c = SENSOR \<Longrightarrow> nul_free cla \<and> nul_free unit \<and> nul_free tpl" using k cstr_SomeD by blast
  have nd: "nul_free mf" "nul_free dname" "nul_free mdl" "nul_free sw" "nul_free ip"
    using v(2) cstr_SomeD by (auto simp: device_holds_def)
  note tl = topics_length [OF f c(6)] and tn = topics_nul_free [OF n(1,2)]
  obtain b where b: "strcpy (hc_state_topic c) (state_topic prefix ids (hc_id c)) = Some b"
    "cstr b = Some (state_topic prefix ids (hc_id c))" "length b = 100"
    using strcpy_ok [of "state_topic prefix ids (hc_id c)" "hc_state_topic c"] tl tn c(5) by auto
  obtain b2 where b2: "strcpy (replicate 100 NUL) (command_topic prefix ids (hc_id c)) = Some b2"
    "cstr b2 = Some (command_topic prefix ids (hc_id c))"
    using strcpy_ok [of "command_topic prefix ids (hc_id c)" "replicate 100 NUL"] tl tn by auto
  let ?t = "store h (ComponentObj (c\<lparr>hc_state_topic := b\<rparr>)) s"
  have ct: "component_at h ?t = Some (c\<lparr>hc_state_topic := b\<rparr>)" "device_at vh ?t = Some v"
    using v by (auto simp: component_at_def device_at_def store_def)
  let ?kvs = "json_base name icon (state_topic prefix ids (hc_id c)) (availability_topic prefix ids) @
        json_kind (hc_type c) (command_topic prefix ids (hc_id c)) cla unit tpl"
  let ?dev = "device_json ids mf dname mdl sw ip"
  have "\<forall>(x, y)\<in>set ?kvs. nul_free x \<and> nul_free y"
    using n ns tn by (auto simp: json_base_def json_kind_def split: hass_component_type_e.splits)
  moreover have "cj_string ?dev = None" by (simp add: device_json_eq)
  ultimately have r: "plain (config_root ?kvs ?dev)" "canon (config_root ?kvs ?dev) = config_root ?kvs ?dev"
    using config_root_plain device_json_plain n(2) nd by simp_all
  obtain out where out: "print_value (config_root ?kvs ?dev) 0 False = Some (Some out)"
    using print_plain [OF r(1)] by blast
  have "hass_component_config_json_get dh h vh s = Some (Some out, ?t)"
    using out k
    by (cases "hc_type c")
      (simp_all add: hass_component_config_json_get_def d(1) d(2) [unfolded discovery_holds_def] c b b2 ct
        v(3) v(2) [unfolded device_holds_def] component_get_defs device_get_defs Let_def
        config_root_def json_base_def json_kind_def cJSON_PrintUnformatted_def)
  moreover have "\<forall>r. cJSON_Parse (out @ NUL # r) = Done (config_root ?kvs ?dev) (NUL # r)"
    using parse_print [OF r(1) out] r(2) by simp
  ultimately show thesis using b(2,3) print_nul_free [OF r(1) out] by (intro that [of out b]) simp_all
qed

subsection \<open>Properties\<close>

lemma switch_root_get:
  fixes name icon st av cmd dev
  defines "rt \<equiv> config_root (json_base name icon st av @ json_kind SWITCH cmd [] [] []) dev"
  shows "cJSON_GetObjectItem rt ''cmd_t'' = Some (str_item ''cmd_t'' cmd)"
    "cJSON_GetObjectItem rt ''stat_t'' = Some (str_item ''stat_t'' st)"
    "cJSON_GetObjectItem rt ''avty_t'' = Some (str_item ''avty_t'' av)"
    "cJSON_GetObjectItem rt ''pl_on'' = Some (str_item ''pl_on'' ''ON'')"
    "cJSON_GetObjectItem rt ''pl_off'' = Some (str_item ''pl_off'' ''OFF'')"
  unfolding rt_def
  by (rule config_root_get;
      simp add: json_base_def json_kind_def cJSON_strcasecmp_def tolower_def Let_def)+

text \<open>C11: The discovery message of a switch says what the firmware does: when the topics fit, the
  message is built without overflow, its text parses back, whatever memory follows, to an object
  whose command, state and availability topics are those the firmware subscribes to and
  publishes on, and the component keeps its state topic.\<close>

theorem discovery_message:
  assumes d: "discovery_at dh s = Some d" "discovery_holds prefix ids d"
    and c: "component_at h s = Some c" "component_holds i ids name SWITCH icon None None None c" "unat i < 10"
    and v: "device_at vh s = Some v" "device_holds ids mf dname mdl sw ip v" "vh \<noteq> 0" "vh \<noteq> h"
    and f: "topics_fit prefix ids"
  shows "\<exists>out t c'. hass_component_config_json_get dh h vh s = Some (Some out, t) \<and>
    component_at h t = Some c' \<and> cstr (hc_state_topic c') = Some (state_topic prefix ids i) \<and>
    (\<forall>r. \<exists>j. cJSON_Parse (out @ NUL # r) = Done j (NUL # r) \<and>
       cJSON_GetObjectItem j ''cmd_t'' = Some (str_item ''cmd_t'' (command_topic prefix ids i)) \<and>
       cJSON_GetObjectItem j ''stat_t'' = Some (str_item ''stat_t'' (state_topic prefix ids i)) \<and>
       cJSON_GetObjectItem j ''avty_t'' = Some (str_item ''avty_t'' (availability_topic prefix ids)) \<and>
       cJSON_GetObjectItem j ''pl_on'' = Some (str_item ''pl_on'' ''ON'') \<and>
       cJSON_GetObjectItem j ''pl_off'' = Some (str_item ''pl_off'' ''OFF''))"
proof -
  have ch: "cstr (hc_identifiers c) = Some ids" "cstr (hc_name c) = Some name" "cstr (hc_icon c) = Some icon"
    "length (hc_state_topic c) = 100" "hc_type c = SWITCH" "hc_id c = i" "unat (hc_id c) < 10"
    using c(2,3) by (simp_all add: component_holds_def)
  let ?kvs = "json_base name icon (state_topic prefix ids i) (availability_topic prefix ids) @
        json_kind SWITCH (command_topic prefix ids i) [] [] []"
  let ?root = "config_root ?kvs (device_json ids mf dname mdl sw ip)"
  have k: "hc_type c = SENSOR \<longrightarrow> cstr (hc_device_class c) = Some [] \<and>
      cstr (hc_unit_of_measurement c) = Some [] \<and> cstr (hc_value_template c) = Some []" using ch(5) by simp
  obtain b out where o: "hass_component_config_json_get dh h vh s =
       Some (Some out, store h (ComponentObj (c\<lparr>hc_state_topic := b\<rparr>)) s)"
    "cstr b = Some (state_topic prefix ids i)" "\<forall>r. cJSON_Parse (out @ NUL # r) = Done ?root (NUL # r)"
    by (rule hass_component_config_json_get_ok [OF d c(1) ch(1-4,7) k v f]) (simp_all add: ch(5,6))
  show ?thesis
    using o switch_root_get [of name icon "state_topic prefix ids i" "availability_topic prefix ids"
        "command_topic prefix ids i" "device_json ids mf dname mdl sw ip"]
    by (intro exI [of _ out] exI) (auto simp: component_at_def store_def)
qed

definition sim_discovery :: fw where
  "sim_discovery = (boot_state (sim_sdk (\<lambda>_. 0)) (\<lambda>_ _. NUL))\<lparr>heap := [
     1 \<mapsto> DiscoveryObj \<lparr>dis_discovery_prefix = ''ha'' @ replicate 98 NUL,
        dis_availability_topic = ''ha/m/available'' @ replicate 86 NUL,
        dis_command_topic = ''ha/m/+/set'' @ replicate 90 NUL\<rparr>,
     2 \<mapsto> ComponentObj \<lparr>hc_id = 3, hc_identifiers = ''m'' @ replicate 19 NUL, hc_name = ''n'' @ replicate 19 NUL,
        hc_type = SWITCH, hc_icon = ''i'' @ replicate 29 NUL, hc_unit_of_measurement = replicate 4 NUL,
        hc_value_template = replicate 100 NUL, hc_device_class = replicate 50 NUL,
        hc_state_topic = replicate 100 NUL, hc_config_topic = replicate 100 NUL\<rparr>,
     3 \<mapsto> DeviceObj \<lparr>hd_identifiers = ''m'' @ replicate 19 NUL, hd_manufacturer = replicate 20 NUL,
        hd_name = replicate 20 NUL, hd_model = replicate 10 NUL, hd_version = replicate 15 NUL,
        hd_ip = replicate 16 NUL\<rparr>], brk := 4\<rparr>"

lemma cstr_zeros [simp]: "0 < n \<Longrightarrow> cstr (replicate n NUL) = Some []"
  by (cases n) simp_all

lemma discovery_message_witness:
  "\<exists>out t. hass_component_config_json_get 1 2 3 sim_discovery = Some (Some out, t) \<and>
     (\<exists>j. cJSON_Parse (out @ [NUL]) = Done j [NUL] \<and>
        cJSON_GetObjectItem j ''cmd_t'' = Some (str_item ''cmd_t'' ''ha/m/3/set''))"
proof -
  have three: "dec 3 = ''3''" by (subst dec.simps) (simp add: digit_char_def char_of_eq_iff)
  obtain d where d: "discovery_at 1 sim_discovery = Some d" "discovery_holds ''ha'' ''m'' d"
    by (simp add: sim_discovery_def discovery_at_def discovery_holds_def availability_topic_def
        command_filter_def)
  obtain c where c: "component_at 2 sim_discovery = Some c"
    "component_holds 3 ''m'' ''n'' SWITCH ''i'' None None None c"
    by (simp add: sim_discovery_def component_at_def component_holds_def)
  obtain v where v: "device_at 3 sim_discovery = Some v" "device_holds ''m'' [] [] [] [] [] v"
    by (simp add: sim_discovery_def device_at_def device_holds_def)
  have "topics_fit ''ha'' ''m''" by (simp add: topics_fit_def)
  from discovery_message [OF d c _ v _ _ this] show ?thesis
    by (simp add: command_topic_def three) blast
qed

end
