(* ===== verification/Mqtt.thy ===== *)
theory Mqtt
  imports Machine
begin

text \<open>
  \<open>src/components/device/mqtt.c\<close>: the MQTT client of the firmware, over the Paho client in the
  SDK. The Paho functions are calls to the environment. The thread is a step function over its
  control points; what it calls through pointers, the status callback and the message handler
  that \<open>MQTTYield\<close> runs for each message that arrives, are its parameters.
\<close>

abbreviation (input) SUCCESS :: int where "SUCCESS \<equiv> 0"
abbreviation (input) FAILURE :: int where "FAILURE \<equiv> - 1"

text \<open>A pointer as the four bytes at an offset of uninitialised memory.\<close>

definition junk_ptr :: "fw \<Rightarrow> ptr \<Rightarrow> nat \<Rightarrow> ptr" where
  "junk_ptr s p off = (\<Sum>i<4. of_char (garbage s p (off + i)) * 256 ^ i)"

definition mqtt_junk :: "fw \<Rightarrow> ptr \<Rightarrow> mqtt_device_t" where
  "mqtt_junk s p =
     \<lparr> md_config = junk_ptr s p 0, md_mqtt_cb_func = P_mqtt_connect_status_cb_handler,
       md_availability_topic = junk s p 8 100, md_mqtt_thread = junk_ptr s p 108 \<rparr>"

definition mqtt_config_junk :: "fw \<Rightarrow> ptr \<Rightarrow> mqtt_config_t" where
  "mqtt_config_junk s p =
     \<lparr> mc_server_address = junk s p 0 100, mc_port = of_nat (junk_ptr s p 100),
       mc_client_id = junk s p 102 100, mc_username = junk s p 202 100, mc_password = junk s p 302 100 \<rparr>"

subsection \<open>Subscribing, publishing, creating\<close>

definition mqtt_subscribe_topic :: "ptr \<Rightarrow> cbuf \<Rightarrow> qos \<Rightarrow> code_ptr \<Rightarrow> fw \<Rightarrow> (bool \<times> fw) option" where
  "mqtt_subscribe_topic handle topic q msg_cb s =
     do {
       _ \<leftarrow> mqtt_at handle s;
       t \<leftarrow> cstr topic;
       let (r, s) = sdk_int (MQTT_Subscribe t q msg_cb) s;
       Some (r = SUCCESS, s)
     }"

definition mqtt_message_publish :: "ptr \<Rightarrow> cbuf \<Rightarrow> cbuf option \<Rightarrow> qos \<Rightarrow> fw \<Rightarrow> (int \<times> fw) option" where
  "mqtt_message_publish handle topic data q s =
     do {
       payload \<leftarrow> Option.bind data cstr;
       _ \<leftarrow> mqtt_at handle s;
       t \<leftarrow> cstr topic;
       Some (sdk_int (MQTT_Publish t payload q) s)
     }"

text \<open>The strings of the configuration are copied into 100-byte arrays.\<close>

definition mqtt_create ::
  "string \<Rightarrow> u16 \<Rightarrow> string \<Rightarrow> string \<Rightarrow> string \<Rightarrow> code_ptr \<Rightarrow> string \<Rightarrow> fw \<Rightarrow> (ptr \<times> fw) option" where
  "mqtt_create address port client_id username password status_cb availabilityTopic s =
     (let (p, s) = hfmem_malloc ''mqtt_device_t'' (\<lambda>p. MqttObj (mqtt_junk s p)) s in
      if p = 0 then Some (0, s)
      else
        let (c, s) = hfmem_malloc ''mqtt_config_t'' (\<lambda>p. MqttConfigObj (mqtt_config_junk s p)) s in
        do {
          m \<leftarrow> mqtt_at p s;
          let s = store p (MqttObj (m\<lparr>md_config := c\<rparr>)) s;
          cf \<leftarrow> mqtt_config_at c s;
          b1 \<leftarrow> strcpy (mc_server_address cf) address;
          b2 \<leftarrow> strcpy (mc_client_id cf) client_id;
          b3 \<leftarrow> strcpy (mc_username cf) username;
          b4 \<leftarrow> strcpy (mc_password cf) password;
          let s = store c (MqttConfigObj \<lparr>mc_server_address = b1, mc_port = port, mc_client_id = b2,
                             mc_username = b3, mc_password = b4\<rparr>) s;
          b5 \<leftarrow> strcpy (md_availability_topic m) availabilityTopic;
          let s = store p (MqttObj (m\<lparr>md_config := c, md_mqtt_cb_func := status_cb,
                             md_availability_topic := b5\<rparr>)) s;
          let (r, s) = sdk_int (Thread_create P_mqtt_client_thread p (md_mqtt_thread m)) s;
          Some (p, s)
        })"

definition mqtt_delete :: "ptr \<Rightarrow> fw \<Rightarrow> fw option" where
  "mqtt_delete handle s =
     (if handle = 0 then Some s
      else do {
        m \<leftarrow> mqtt_at handle s;
        let (_, s) = sdk_int (Thread_destroy (md_mqtt_thread m)) s;
        let s = (if md_config m \<noteq> 0 then hfmem_free (md_config m) s else s);
        Some (hfmem_free handle s)
      })"

subsection \<open>The thread\<close>

datatype thread_pc = T_Wifi | T_Net | T_Connect | T_Session u32 | T_End

definition keep_alive_interval :: nat where "keep_alive_interval = 60"

text \<open>
  The thread's own state: its control point and its two 1024-byte buffers. \<open>T_Session t\<close> holds
  \<open>ping_time\<close>.
\<close>

record mqtt_thread =
  th_pc :: thread_pc
  th_buf :: ptr
  th_read_buf :: ptr

definition thread_start :: "fw \<Rightarrow> mqtt_thread \<times> fw" where
  "thread_start s =
     (let (b, s) = hfmem_malloc ''mqtt_client_buf'' (\<lambda>p. BufferObj (junk s p 0 1024)) s;
          (rb, s) = hfmem_malloc ''mqtt_client_read_buf'' (\<lambda>p. BufferObj (junk s p 0 1024)) s
      in (\<lparr>th_pc = T_Wifi, th_buf = b, th_read_buf = rb\<rparr>, s))"

definition buffer_at :: "ptr \<Rightarrow> fw \<Rightarrow> cbuf option" where
  "buffer_at p s = (case heap s p of Some (BufferObj b) \<Rightarrow> Some b | _ \<Rightarrow> None)"

text \<open>\<open>MQTTSerialize_pingreq\<close> puts a two-byte packet at the start of the buffer.\<close>

definition pingreq :: cbuf where "pingreq = [char_of (192 :: nat), NUL]"

definition send_ping :: "ptr \<Rightarrow> fw \<Rightarrow> fw option" where
  "send_ping b s =
     do {
       buf \<leftarrow> buffer_at b s;
       let s = store b (BufferObj (pingreq @ drop 2 buf)) s;
       Some (snd (sdk_int (Mqttwrite pingreq 100) s))
     }"

text \<open>One round of the inner loop; \<open>msgs\<close> are the messages the library delivers meanwhile.\<close>

definition session_round ::
  "(mqtt_cb_type_e \<Rightarrow> fw \<Rightarrow> fw option) \<Rightarrow> ('m \<Rightarrow> fw \<Rightarrow> fw option) \<Rightarrow> 'm list \<Rightarrow> ptr \<Rightarrow> u32 \<Rightarrow> fw \<Rightarrow>
   (thread_pc \<times> fw) option" where
  "session_round cb on_message msgs b ping_time s =
     do {
       s \<leftarrow> cb MQTT_EARTBEAT s;
       let (ret, s) = sdk_int (MQTT_Yield 300) s;
       s \<leftarrow> for_each msgs on_message s;
       if ret = FAILURE then Some (T_End, s)
       else
         let (connected, s) = sdk_int Sta_is_connected s in
         if connected = 0 then Some (T_End, s)
         else
           let (t, s) = hfsys_get_time s in
           if t - ping_time > of_nat ((keep_alive_interval - 10) * 1000) then
             let (t, s) = hfsys_get_time s in
             do { s \<leftarrow> send_ping b s; Some (T_Session t, s) }
           else Some (T_Session ping_time, s)
     }"

text \<open>One step of the thread at a control point.\<close>

definition thread_next ::
  "(mqtt_cb_type_e \<Rightarrow> fw \<Rightarrow> fw option) \<Rightarrow> ('m \<Rightarrow> fw \<Rightarrow> fw option) \<Rightarrow> 'm list \<Rightarrow> ptr \<Rightarrow> ptr \<Rightarrow>
   thread_pc \<Rightarrow> fw \<Rightarrow> (thread_pc \<times> fw) option" where
  "thread_next cb on_message msgs dev b pc s =
     (case pc of
        T_Wifi \<Rightarrow>
          let (connected, s) = sdk_int Sta_is_connected s in
          if connected = 0 then Some (T_Wifi, snd (sdk_int (Msleep 1000) s))
          else do { _ \<leftarrow> mqtt_at dev s; s \<leftarrow> cb MQTT_WIFI_CONNECT_SUCCESS s; Some (T_Net, s) }
      | T_Net \<Rightarrow>
          do {
            m \<leftarrow> mqtt_at dev s;
            c \<leftarrow> mqtt_config_at (md_config m) s;
            address \<leftarrow> cstr (mc_server_address c);
            let (r, s) = sdk_int (ConnectNetwork address (mc_port c)) s;
            if r \<noteq> SUCCESS then Some (T_End, s)
            else do { s \<leftarrow> cb MQTT_CONNECT_NET_SUCCESS s; Some (T_Connect, s) }
          }
      | T_Connect \<Rightarrow>
          do {
            m \<leftarrow> mqtt_at dev s;
            c \<leftarrow> mqtt_config_at (md_config m) s;
            will_topic \<leftarrow> cstr (md_availability_topic m);
            client_id \<leftarrow> cstr (mc_client_id c);
            username \<leftarrow> cstr (mc_username c);
            password \<leftarrow> cstr (mc_password c);
            let (r, s) = sdk_int (MQTT_Connect will_topic ''offline'' client_id username password
                            keep_alive_interval) s;
            if r \<noteq> SUCCESS then Some (T_End, s)
            else do {
              s \<leftarrow> cb MQTT_CONNECT_SUCCESS s;
              let (t, s) = hfsys_get_time s;
              Some (T_Session t, s)
            }
          }
      | T_Session ping_time \<Rightarrow> session_round cb on_message msgs b ping_time s
      | T_End \<Rightarrow>
          do {
            s \<leftarrow> cb MQTT_DISCONNECT s;
            let (_, s) = sdk_int Network_disconnect s;
            Some (T_Wifi, snd (sdk_int (Msleep 3000) s))
          })"

subsection \<open>The client of the thread\<close>

text \<open>
  What the thread asks of its user. \<open>up\<close>: the device has its configuration, so the thread can
  connect. \<open>online\<close>: after \<open>MQTT_CONNECT_SUCCESS\<close>, so heartbeats and messages may come. A user
  that keeps these laws is only ever called back in the order the thread promises, and the
  thread runs without undefined behaviour.
\<close>

definition thread_call :: "call \<Rightarrow> bool" where
  "thread_call c \<longleftrightarrow> (\<forall>f fl. c \<noteq> Configure_fpin f fl)"

locale status_client =
  fixes cb :: "mqtt_cb_type_e \<Rightarrow> fw \<Rightarrow> fw option"
    and on_message :: "'m \<Rightarrow> fw \<Rightarrow> fw option"
    and legal :: "'m \<Rightarrow> bool"
    and up :: "fw \<Rightarrow> bool"
    and online :: "fw \<Rightarrow> bool"
    and dev :: ptr
    and b :: ptr
  assumes quiet: "up s \<Longrightarrow> e \<in> {MQTT_WIFI_CONNECT_SUCCESS, MQTT_CONNECT_NET_SUCCESS, MQTT_DISCONNECT} \<Longrightarrow>
      wp (cb e s) up"
    and connected: "up s \<Longrightarrow> wp (cb MQTT_CONNECT_SUCCESS s) online"
    and beat: "online s \<Longrightarrow> wp (cb MQTT_EARTBEAT s) online"
    and message: "online s \<Longrightarrow> legal m \<Longrightarrow> wp (on_message m s) online"
    and online_up: "online s \<Longrightarrow> up s"
    and up_call: "up s \<Longrightarrow> thread_call c \<Longrightarrow> up (s\<lparr>calls := c # calls s\<rparr>)"
    and online_call: "online s \<Longrightarrow> thread_call c \<Longrightarrow> online (s\<lparr>calls := c # calls s\<rparr>)"
    and configured: "up s \<Longrightarrow> \<exists>m c. mqtt_at dev s = Some m \<and> mqtt_config_at (md_config m) s = Some c \<and>
      (\<forall>b\<in>{md_availability_topic m, mc_server_address c, mc_client_id c, mc_username c, mc_password c}.
         \<exists>x. cstr b = Some x)"
    and buffered: "online s \<Longrightarrow> \<exists>x. buffer_at b s = Some x \<and> online (store b (BufferObj y) s)"
begin

definition at_pc :: "thread_pc \<Rightarrow> fw \<Rightarrow> bool" where
  "at_pc pc s = (case pc of T_Session t \<Rightarrow> online s | _ \<Rightarrow> up s)"

lemma messages: "online s \<Longrightarrow> list_all legal ms \<Longrightarrow> wp (for_each ms on_message s) online"
  using message by (intro for_each_inv) (auto simp: list_all_iff)

lemma sdk_up:
  "up s \<Longrightarrow> thread_call c \<Longrightarrow> sdk_int c s = (r, t) \<Longrightarrow> up t"
  "online s \<Longrightarrow> thread_call c \<Longrightarrow> sdk_int c s = (r, t) \<Longrightarrow> online t"
  using up_call online_call by (auto simp: sdk_int_def)

lemma time_online: "online s \<Longrightarrow> hfsys_get_time s = (t, u) \<Longrightarrow> online u"
  using online_call [of s Get_time] by (auto simp: hfsys_get_time_eq thread_call_def)

lemma ping_online: "online s \<Longrightarrow> wp (send_ping b s) online"
proof -
  assume s: "online s"
  obtain x where x: "buffer_at b s = Some x" using buffered [OF s] by blast
  have "online (store b (BufferObj (pingreq @ drop 2 x)) s)" using buffered [OF s] by blast
  from online_call [OF this, of "Mqttwrite pingreq 100"] show ?thesis
    using x by (simp add: send_ping_def sdk_int_def thread_call_def Let_def)
qed

lemma round_safe:
  assumes "online s" "list_all legal ms"
  shows "wp (session_round cb on_message ms b p s) (\<lambda>(pc, t). at_pc pc t)"
proof -
  obtain s1 where s1: "cb MQTT_EARTBEAT s = Some s1" "online s1"
    using beat [OF assms(1)] by (auto simp: wp_Some_iff)
  obtain r s2 where s2: "sdk_int (MQTT_Yield 300) s1 = (r, s2)" "online s2"
    using sdk_up(2) [OF s1(2), of "MQTT_Yield 300"] by (cases "sdk_int (MQTT_Yield 300) s1") (auto simp: thread_call_def)
  obtain s3 where s3: "for_each ms on_message s2 = Some s3" "online s3"
    using messages [OF s2(2) assms(2)] by (auto simp: wp_Some_iff)
  obtain c s4 where s4: "sdk_int Sta_is_connected s3 = (c, s4)" "online s4"
    using sdk_up(2) [OF s3(2), of Sta_is_connected] by (cases "sdk_int Sta_is_connected s3") (auto simp: thread_call_def)
  obtain t s5 where s5: "hfsys_get_time s4 = (t, s5)" "online s5"
    using time_online [OF s4(2)] by (cases "hfsys_get_time s4") auto
  obtain t' s6 where s6: "hfsys_get_time s5 = (t', s6)" "online s6"
    using time_online [OF s5(2)] by (cases "hfsys_get_time s5") auto
  show ?thesis
    using ping_online [OF s6(2)] s1 s2 s3 s4 s5 s6 online_up
    by (auto simp: session_round_def at_pc_def Let_def wp_Some_iff)
qed

lemma step_safe:
  assumes "at_pc pc s" "list_all legal ms"
  shows "wp (thread_next cb on_message ms dev b pc s) (\<lambda>(pc, t). at_pc pc t)"
proof -
  have call: "up (snd (sdk_int c s))" if "up s" "thread_call c" for c s
    using sdk_up(1) [OF that] by (metis prod.collapse)
  have cbs: "wp (cb e (snd (sdk_int c s))) up"
    if "up s" "thread_call c" "e \<in> {MQTT_WIFI_CONNECT_SUCCESS, MQTT_CONNECT_NET_SUCCESS, MQTT_DISCONNECT}" for e c s
    by (rule quiet [OF call [OF that(1,2)] that(3)])
  show ?thesis
  proof (cases pc)
    case (T_Session p)
    then show ?thesis using round_safe [OF _ assms(2)] assms(1) by (simp add: thread_next_def at_pc_def)
  next
    case T_Wifi
    have "\<exists>m. mqtt_at dev (snd (sdk_int Sta_is_connected s)) = Some m"
      using configured [OF call] assms(1) T_Wifi by (auto simp: at_pc_def thread_call_def)
    then show ?thesis
      using assms(1) T_Wifi cbs [of s Sta_is_connected MQTT_WIFI_CONNECT_SUCCESS]
        call [OF call, of s Sta_is_connected "Msleep 1000"]
      by (auto simp: thread_next_def at_pc_def thread_call_def wp_Some_iff split: prod.splits)
  next
    case T_Net
    then obtain m c a where "mqtt_at dev s = Some m" "mqtt_config_at (md_config m) s = Some c"
      "cstr (mc_server_address c) = Some a"
      using configured assms(1) by (fastforce simp: at_pc_def)
    then show ?thesis
      using assms(1) T_Net cbs [of s "ConnectNetwork a (mc_port c)" MQTT_CONNECT_NET_SUCCESS]
        call [of s "ConnectNetwork a (mc_port c)"]
      by (auto simp: thread_next_def at_pc_def thread_call_def wp_Some_iff split: prod.splits)
  next
    case T_Connect
    then obtain m c w i u p where "mqtt_at dev s = Some m" "mqtt_config_at (md_config m) s = Some c"
      "cstr (md_availability_topic m) = Some w" "cstr (mc_client_id c) = Some i"
      "cstr (mc_username c) = Some u" "cstr (mc_password c) = Some p"
      using configured assms(1) by (fastforce simp: at_pc_def)
    moreover have "up s" using assms(1) T_Connect by (simp add: at_pc_def)
    then have "up (snd (sdk_int (MQTT_Connect w ''offline'' i u p keep_alive_interval) s))"
      by (rule call) (simp add: thread_call_def)
    moreover from connected [OF this] obtain t where
      "cb MQTT_CONNECT_SUCCESS (snd (sdk_int (MQTT_Connect w ''offline'' i u p keep_alive_interval) s)) = Some t"
      "online t" by (auto simp: wp_Some_iff)
    ultimately show ?thesis
      using T_Connect time_online [of t]
      by (auto simp: thread_next_def at_pc_def split: prod.splits)
  next
    case T_End
    have "up s" using assms(1) T_End by (simp add: at_pc_def)
    from quiet [OF this, of MQTT_DISCONNECT] obtain t where t: "cb MQTT_DISCONNECT s = Some t" "up t"
      by (auto simp: wp_Some_iff)
    then have "up (snd (sdk_int (Msleep 3000) (snd (sdk_int Network_disconnect t))))"
      by (intro call) (simp_all add: thread_call_def)
    then show ?thesis using t(1) T_End
      by (auto simp: thread_next_def at_pc_def split: prod.splits)
  qed
qed

end

end
