(* ===== verification/UserMqtt.thy ===== *)
theory UserMqtt
  imports UserRelay HassDiscovery Mqtt
begin

text \<open>
  \<open>src/components/user/user_mqtt.c\<close>: what the firmware does over MQTT. It announces its
  components, publishes their states when a relay was switched at the button, and switches a
  relay when a command arrives. \<open>mqtt_relay_update_flag\<close> is in \<open>UserRelay\<close>.
\<close>

subsection \<open>Publishing\<close>

definition component_num_set :: "u32 \<Rightarrow> fw \<Rightarrow> fw" where
  "component_num_set component_num s = s\<lparr>g_component_num := component_num\<rparr>"

text \<open>\<open>_component_handle[id]\<close> at an \<open>int\<close> index: undefined outside the array.\<close>

definition component_nth :: "int \<Rightarrow> fw \<Rightarrow> ptr option" where
  "component_nth i s =
     (if 0 \<le> i \<and> nat i < length (g_component_handle s) then Some (g_component_handle s ! nat i) else None)"

definition mqtt_hass_config_publish :: "int \<Rightarrow> fw \<Rightarrow> (bool \<times> fw) option" where
  "mqtt_hass_config_publish cid s =
     do {
       h \<leftarrow> component_nth cid s;
       (json, s) \<leftarrow> hass_component_config_json_get (g_mqtt_discovery_handle s) h (g_device_handle s) s;
       topic \<leftarrow> hass_component_config_topic_get h s;
       (r, s) \<leftarrow> mqtt_message_publish (g_mqtt_clien s) topic (map_option (\<lambda>j. j @ [NUL]) json) QOS0 s;
       Some (r = HF_SUCCESS, s)
     }"

definition mqtt_state_publish :: "int \<Rightarrow> cbuf \<Rightarrow> fw \<Rightarrow> (bool \<times> fw) option" where
  "mqtt_state_publish cid message s =
     do {
       h \<leftarrow> component_nth cid s;
       topic \<leftarrow> hass_component_state_topic_get h s;
       (r, s) \<leftarrow> mqtt_message_publish (g_mqtt_clien s) topic (Some message) QOS0 s;
       Some (r = HF_SUCCESS, s)
     }"

subsection \<open>A command arrives\<close>

text \<open>
  \<open>MessageData\<close>: the topic and the payload are pointers into the read buffer of the client, so
  each comes with the bytes that follow it there. Nothing terminates the topic.
\<close>

record message =
  m_topic :: cbuf
  m_payload :: cbuf
  m_payloadlen :: nat

text \<open>A local array, uninitialised.\<close>

definition stack_junk :: "nat \<Rightarrow> fw \<Rightarrow> cbuf" where
  "stack_junk n s = junk s 0 0 n"

text \<open>\<open>strlen(tem) - 5\<close> in \<open>size_t\<close>.\<close>

definition id_length :: "nat \<Rightarrow> nat" where
  "id_length l = (if l < 5 then 4294967296 + l - 5 else l - 5)"

text \<open>The id in the topic: what stands behind the second slash.\<close>

definition topic_id :: "cbuf \<Rightarrow> cbuf \<Rightarrow> int option" where
  "topic_id topic id_str =
     do {
       r \<leftarrow> strchr topic (CHR ''/'');
       tem \<leftarrow> r;
       r \<leftarrow> strchr (tl tem) (CHR ''/'');
       tem \<leftarrow> r;
       l \<leftarrow> strlen tem;
       id_str \<leftarrow> strncpy id_str (tl tem) (id_length l);
       atoi id_str
     }"

definition relay_command :: "int \<Rightarrow> cbuf \<Rightarrow> fw \<Rightarrow> fw option" where
  "relay_command cid state s =
     do {
       on \<leftarrow> streq state ''ON'';
       if on then do {
         (_, s) \<leftarrow> user_relay_states_set (word_of_int cid) RELAY_STATUS_OPEN s;
         l \<leftarrow> user_led_states_get s;
         if l = LED_STATUS_OFF then user_led_on s else Some s
       }
       else do {
         off \<leftarrow> streq state ''OFF'';
         if off then do {
           (_, s) \<leftarrow> user_relay_states_set (word_of_int cid) RELAY_STATUS_CLOSE s;
           user_relay_led_state s
         }
         else Some s
       }
     }"

definition mqtt_cmd_topic_Msg_cb :: "message \<Rightarrow> fw \<Rightarrow> fw option" where
  "mqtt_cmd_topic_Msg_cb meg s =
     do {
       cid \<leftarrow> topic_id (m_topic meg) (stack_junk 4 s);
       state \<leftarrow> strncpy (replicate 4 NUL) (m_payload meg) (m_payloadlen meg);
       s \<leftarrow> (if cid < 6 then do {
           s \<leftarrow> relay_command cid state s;
           (_, s) \<leftarrow> mqtt_state_publish cid state s;
           Some s
         } else Some s);
       if cid = 8 then do {
         on \<leftarrow> streq state ''ON'';
         _ \<leftarrow> (if on then Some False else streq state ''OFF'');
         (_, s) \<leftarrow> mqtt_state_publish cid state s;
         Some s
       } else Some s
     }"

subsection \<open>The status callback\<close>

definition hassRelayState :: "relay_status_e \<Rightarrow> cbuf option" where
  "hassRelayState st =
     (if st = RELAY_STATUS_CLOSE then Some (''OFF'' @ [NUL])
      else if st = RELAY_STATUS_OPEN then Some (''ON'' @ [NUL]) else None)"

definition announce :: "fw \<Rightarrow> fw option" where
  "announce s =
     do {
       filter_buf \<leftarrow> hass_mqtt_discovery_command_topic_get (g_mqtt_discovery_handle s) s;
       (ok, s) \<leftarrow> mqtt_subscribe_topic (g_mqtt_clien s) filter_buf QOS0 P_mqtt_cmd_topic_Msg_cb s;
       if ok then do {
         s \<leftarrow> for_each [0..<unat (g_component_num s)]
               (\<lambda>i s. do { (_, s) \<leftarrow> mqtt_hass_config_publish (int i) s; Some s }) s;
         topic \<leftarrow> hass_mqtt_discovery_availability_topic_get (g_mqtt_discovery_handle s) s;
         (_, s) \<leftarrow> mqtt_message_publish (g_mqtt_clien s) topic (Some (''online'' @ [NUL])) QOS0 s;
         Some s
       }
       else Some s
     }"

definition publish_states :: "fw \<Rightarrow> fw option" where
  "publish_states s =
     for_each [0..<6]
       (\<lambda>i s. do {
          st \<leftarrow> user_relay_states_get (of_nat i) s;
          message \<leftarrow> hassRelayState st;
          (_, s) \<leftarrow> mqtt_state_publish (int i) message s;
          Some s
        }) s"

definition mqtt_connect_status_cb_handler :: "mqtt_cb_type_e \<Rightarrow> fw \<Rightarrow> fw option" where
  "mqtt_connect_status_cb_handler cb_type s =
     (case cb_type of
        MQTT_CONNECT_SUCCESS \<Rightarrow> announce s
      | MQTT_DISCONNECT \<Rightarrow> Some s
      | MQTT_WIFI_CONNECT_SUCCESS \<Rightarrow> Some s
      | MQTT_CONNECT_NET_SUCCESS \<Rightarrow> Some s
      | MQTT_EARTBEAT \<Rightarrow>
          if g_relay_update_flg s then do { s \<leftarrow> publish_states s; Some (s\<lparr>g_relay_update_flg := False\<rparr>) }
          else Some s)"

subsection \<open>Initialisation\<close>

text \<open>The constants of the device; names in Chinese are UTF-8 strings.\<close>

definition product_name :: string where
  "product_name = ''TC1'' @ utf8 0x667A @ utf8 0x80FD @ utf8 0x63D2 @ utf8 0x677F"

definition socket_name :: "nat \<Rightarrow> string" where
  "socket_name k = utf8 0x63D2 @ utf8 0x5EA7 @ dec k"

definition set_component :: "nat \<Rightarrow> ptr \<Rightarrow> fw \<Rightarrow> fw" where
  "set_component i p s = s\<lparr>g_component_handle := (g_component_handle s)[i := p]\<rparr>"

definition switch_create :: "nat \<Rightarrow> string \<Rightarrow> string \<Rightarrow> string \<Rightarrow> fw \<Rightarrow> fw option" where
  "switch_create i mac name icon s =
     do {
       (p, s) \<leftarrow> hass_component_create (of_nat i) mac name SWITCH icon None None None s;
       Some (set_component i p s)
     }"

definition sensor_create :: "nat \<Rightarrow> string \<Rightarrow> string \<Rightarrow> string \<Rightarrow> string \<Rightarrow> string \<Rightarrow> fw \<Rightarrow> fw option" where
  "sensor_create i mac name u tpl cla s =
     do {
       (p, s) \<leftarrow> hass_component_create (of_nat i) mac name SENSOR ''mdi:gauge'' (Some u) (Some tpl) (Some cla) s;
       Some (set_component i p s)
     }"

definition user_mqtt_init ::
  "string \<Rightarrow> string \<Rightarrow> string \<Rightarrow> u16 \<Rightarrow> string \<Rightarrow> string \<Rightarrow> string \<Rightarrow> fw \<Rightarrow> fw option" where
  "user_mqtt_init mac ip address port username password discovery_prefix s =
     do {
       (p, s) \<leftarrow> hass_device_create mac ''LIMBANG'' product_name ''TC1_A2'' ''v0.2.12.31'' ip s;
       let s = s\<lparr>g_device_handle := p\<rparr>;
       s \<leftarrow> for_each [0..<6]
             (\<lambda>i s. do {
                name \<leftarrow> strcpy (stack_junk 15 s) (socket_name (i + 1));
                name \<leftarrow> cstr name;
                switch_create i mac name ''mdi:power-socket-uk'' s
              }) s;
       s \<leftarrow> sensor_create 6 mac (utf8 0x5F53 @ utf8 0x524D @ utf8 0x529F @ utf8 0x7387)
             ''W'' ''{{ value_json.power }}'' ''Power'' s;
       s \<leftarrow> (if g_component_num s \<ge> 9 then do {
             s \<leftarrow> sensor_create 7 mac (utf8 0x5F53 @ utf8 0x524D @ utf8 0x7535 @ utf8 0x6D41)
                   ''A'' ''{{ value_json.current }}'' ''Current'' s;
             s \<leftarrow> sensor_create 8 mac (utf8 0x5F53 @ utf8 0x524D @ utf8 0x7535 @ utf8 0x538B)
                   ''V'' ''{{ value_json.voltage }}'' ''Voltage'' s;
             if g_component_num s = 10 then
               switch_create 9 mac (utf8 0x7535 @ utf8 0x6D41 @ ''/'' @ utf8 0x7535 @ utf8 0x538B)
                 ''mdi:settings-outline'' s
             else Some s
           } else Some s);
       h \<leftarrow> component_nth 0 s;
       (p, s) \<leftarrow> hass_mqtt_discovery_create discovery_prefix h s;
       let s = s\<lparr>g_mqtt_discovery_handle := p\<rparr>;
       s \<leftarrow> for_each [0..<unat (g_component_num s)]
             (\<lambda>i s. do {
                h \<leftarrow> component_nth (int i) s;
                hass_component_config_topic_set (g_mqtt_discovery_handle s) h s
              }) s;
       av \<leftarrow> Option.bind (hass_mqtt_discovery_availability_topic_get (g_mqtt_discovery_handle s) s) cstr;
       (p, s) \<leftarrow> mqtt_create address port mac username password P_mqtt_connect_status_cb_handler av s;
       Some (s\<lparr>g_mqtt_clien := p\<rparr>)
     }"

subsection \<open>The id of a command\<close>

lemma strchr_skip [cstr_simps]:
  "c \<notin> set a \<Longrightarrow> nul_free a \<Longrightarrow> strchr (a @ r) c = strchr r c"
  by (induction a) auto

lemma strlen_append [cstr_simps]: "nul_free a \<Longrightarrow> strlen (a @ NUL # r) = Some (length a)"
  by (simp add: strlen_def cstr_append_NUL)

lemma strncpy_prefix:
  assumes "nul_free a" "n \<le> length a"
  shows "strncpy dst (a @ r) n = (if n \<le> length dst then Some (take n a @ drop n dst) else None)"
  using assms by (simp add: strncpy_def ctake_all)

lemma digit_of_small: "n < 10 \<Longrightarrow> dec n = [digit_char n]"
  by (subst dec.simps) simp

text \<open>
  The id read from a topic of the form the firmware subscribes to, when \<open>rest\<close> stands between the
  topic and the next NUL in the read buffer. The copy to the four bytes of \<open>id_str\<close> takes
  \<open>rest\<close> and one byte more.
\<close>

lemma topic_id_eq:
  assumes "nul_free prefix" "nul_free ids" "CHR ''/'' \<notin> set prefix" "CHR ''/'' \<notin> set ids"
    and "n < 10" "nul_free rest" "rest \<noteq> []" "length b = 4"
  shows "topic_id (prefix @ ''/'' @ ids @ ''/'' @ dec n @ ''/set'' @ rest @ NUL # r) b =
    (if length rest \<le> 3 then Some (int n) else None)"
proof -
  let ?t = "digit_char n # ''/set'' @ rest"
  have nf: "nul_free ?t" using assms(5,6) dec_nul_free [of n] by (auto simp: digit_of_small)
  let ?k = "Suc (length rest)"
  have n2: "strchr (''/'' @ x) (CHR ''/'') = Some (Some (''/'' @ x))" for x by simp
  have l: "strlen (CHR ''/'' # ?t @ NUL # r) = Some (length rest + 6)"
    using strlen_append [of "CHR ''/'' # ?t" r] nf by simp
  have cp: "strncpy b (?t @ NUL # r) ?k = (if ?k \<le> 4 then Some (take ?k ?t @ drop ?k b) else None)"
    using strncpy_prefix [OF nf, of ?k b "NUL # r"] assms(8) by simp
  have "topic_id (prefix @ ''/'' @ ids @ ''/'' @ dec n @ ''/set'' @ rest @ NUL # r) b =
      Option.bind (strncpy b (?t @ NUL # r) ?k) atoi"
    using assms(1-4) l by (simp add: topic_id_def strchr_skip digit_of_small [OF assms(5)] id_length_def)
  also have "\<dots> = (if ?k \<le> 4 then atoi (take ?k ?t @ drop ?k b) else None)" by (subst cp) simp
  also have "take ?k ?t = dec n @ CHR ''/'' # take (length rest - 1) (''set'' @ rest)"
    using assms(7) by (cases rest) (simp_all add: digit_of_small [OF assms(5)])
  also have "atoi ((dec n @ CHR ''/'' # take (length rest - 1) (''set'' @ rest)) @ drop ?k b) = Some (int n)"
    using assms(5) by (simp add: atoi_dec is_digit_def)
  finally show ?thesis by simp
qed

subsection \<open>What the link to the broker needs\<close>

definition component_shape :: "nat \<Rightarrow> hass_component_type_e" where
  "component_shape i = (if i < 6 then SWITCH else SENSOR)"

definition comp_ok :: "bool \<Rightarrow> string \<Rightarrow> string \<Rightarrow> nat \<Rightarrow> hass_component_t \<Rightarrow> bool" where
  "comp_ok announced prefix ids i c \<longleftrightarrow>
     hc_id c = of_nat i \<and> hc_type c = component_shape i \<and> cstr (hc_identifiers c) = Some ids \<and>
     (\<exists>name. cstr (hc_name c) = Some name) \<and> (\<exists>icon. cstr (hc_icon c) = Some icon) \<and>
     length (hc_state_topic c) = 100 \<and>
     (hc_type c = SENSOR \<longrightarrow> (\<exists>cla unit tpl. cstr (hc_device_class c) = Some cla \<and>
        cstr (hc_unit_of_measurement c) = Some unit \<and> cstr (hc_value_template c) = Some tpl)) \<and>
     cstr (hc_config_topic c) = Some (config_topic prefix (component_shape i) ids (of_nat i)) \<and>
     (announced \<longrightarrow> cstr (hc_state_topic c) = Some (state_topic prefix ids (of_nat i)))"

lemma comp_ok_mono: "comp_ok a prefix ids i c \<Longrightarrow> (b \<Longrightarrow> a) \<Longrightarrow> comp_ok b prefix ids i c"
  by (simp add: comp_ok_def)

text \<open>
  The client with its configuration, the topics, the device and the seven components; the first
  \<open>n\<close> components have been announced, so their state topics are set.
\<close>

definition link_ok :: "nat \<Rightarrow> string \<Rightarrow> string \<Rightarrow> fw \<Rightarrow> bool" where
  "link_ok n prefix ids s \<longleftrightarrow>
     (\<exists>m c. mqtt_at (g_mqtt_clien s) s = Some m \<and> mqtt_config_at (md_config m) s = Some c \<and>
        (\<forall>b\<in>{md_availability_topic m, mc_server_address c, mc_client_id c, mc_username c, mc_password c}.
           \<exists>x. cstr b = Some x)) \<and>
     (\<exists>d. discovery_at (g_mqtt_discovery_handle s) s = Some d \<and> discovery_holds prefix ids d) \<and>
     g_device_handle s \<noteq> 0 \<and>
     (\<exists>v mf name mdl sw ip. device_at (g_device_handle s) s = Some v \<and>
        device_holds ids mf name mdl sw ip v) \<and>
     g_component_num s = 7 \<and> length (g_component_handle s) = 10 \<and>
     (\<forall>i<7. \<exists>c. component_at (g_component_handle s ! i) s = Some c \<and> comp_ok (i < n) prefix ids i c) \<and>
     topics_fit prefix ids"

lemma link_ok_cong:
  assumes "\<And>p. mqtt_at p t = mqtt_at p s" "\<And>p. mqtt_config_at p t = mqtt_config_at p s"
    "\<And>p. discovery_at p t = discovery_at p s" "\<And>p. device_at p t = device_at p s"
    "\<And>p. component_at p t = component_at p s" "g_mqtt_clien t = g_mqtt_clien s"
    "g_mqtt_discovery_handle t = g_mqtt_discovery_handle s" "g_device_handle t = g_device_handle s"
    "g_component_num t = g_component_num s" "g_component_handle t = g_component_handle s"
  shows "link_ok a prefix ids t = link_ok a prefix ids s"
  by (simp add: link_ok_def assms)

lemma link_ok_simps [simp]:
  "link_ok a prefix ids (s\<lparr>calls := cs\<rparr>) = link_ok a prefix ids s"
  "link_ok a prefix ids (s\<lparr>g_relay_update_flg := b\<rparr>) = link_ok a prefix ids s"
  "link_ok a prefix ids (s\<lparr>g_interrupt_time := u\<rparr>) = link_ok a prefix ids s"
  "link_ok a prefix ids (s\<lparr>g_last_interrupt_time := u\<rparr>) = link_ok a prefix ids s"
  "link_ok a prefix ids (s\<lparr>g_interrupt_duration := u\<rparr>) = link_ok a prefix ids s"
  "link_ok a prefix ids (s\<lparr>g_relay_all_status := x\<rparr>) = link_ok a prefix ids s"
  by (rule link_ok_cong; simp add: at_defs)+

lemma link_ok_weaken: "link_ok n prefix ids s \<Longrightarrow> k \<le> n \<Longrightarrow> link_ok k prefix ids s"
  unfolding link_ok_def by (meson comp_ok_mono less_le_trans)

lemma link_okD:
  assumes "link_ok n prefix ids s"
  shows "\<exists>m. mqtt_at (g_mqtt_clien s) s = Some m"
    "\<exists>d. discovery_at (g_mqtt_discovery_handle s) s = Some d \<and> discovery_holds prefix ids d"
    "topics_fit prefix ids" "g_component_num s = 7" "length (g_component_handle s) = 10"
    "i < 7 \<Longrightarrow> component_nth (int i) s = Some (g_component_handle s ! i)"
    "i < 7 \<Longrightarrow> \<exists>c. component_at (g_component_handle s ! i) s = Some c \<and> comp_ok (i < n) prefix ids i c"
    "nul_free prefix" "nul_free ids"
proof -
  show "topics_fit prefix ids" "g_component_num s = 7" and l: "length (g_component_handle s) = 10"
    using assms by (simp_all add: link_ok_def)
  show "\<exists>m. mqtt_at (g_mqtt_clien s) s = Some m" using assms unfolding link_ok_def by blast
  show "\<exists>d. discovery_at (g_mqtt_discovery_handle s) s = Some d \<and> discovery_holds prefix ids d"
    using assms by (simp add: link_ok_def)
  show "i < 7 \<Longrightarrow> \<exists>c. component_at (g_component_handle s ! i) s = Some c \<and> comp_ok (i < n) prefix ids i c"
    using assms by (simp add: link_ok_def)
  show "i < 7 \<Longrightarrow> component_nth (int i) s = Some (g_component_handle s ! i)"
    using l by (simp add: component_nth_def)
  obtain d where "discovery_holds prefix ids d" using assms unfolding link_ok_def by blast
  then show "nul_free prefix" using cstr_SomeD unfolding discovery_holds_def by blast
  obtain v mf name mdl sw ip where "device_holds ids mf name mdl sw ip v"
    using assms unfolding link_ok_def by blast
  then show "nul_free ids" using cstr_SomeD unfolding device_holds_def by blast
qed

lemma comp_ok_state_topic:
  assumes "comp_ok a prefix ids i c" "cstr b = Some (state_topic prefix ids (of_nat i))" "length b = 100"
  shows "comp_ok True prefix ids i (c\<lparr>hc_state_topic := b\<rparr>)"
  using assms by (auto simp: comp_ok_def)

subsection \<open>Publishing, exactly\<close>

definition answer :: "call \<Rightarrow> fw \<Rightarrow> int" where
  "answer c s = r_int (sys s (calls s) c)"

abbreviation called :: "call \<Rightarrow> fw \<Rightarrow> fw" where
  "called c s \<equiv> s\<lparr>calls := c # calls s\<rparr>"

lemma sdk_int_eq: "sdk_int c s = (answer c s, called c s)"
  by (simp add: sdk_int_def answer_def)

lemma mqtt_message_publish_eq:
  "mqtt_at h s = Some m \<Longrightarrow> cstr topic = Some t \<Longrightarrow> cstr data = Some p \<Longrightarrow>
     mqtt_message_publish h topic (Some data) q s =
       Some (answer (MQTT_Publish t p q) s, called (MQTT_Publish t p q) s)"
  by (simp add: mqtt_message_publish_def sdk_int_eq)

lemma mqtt_state_publish_eq:
  assumes "link_ok n prefix ids s" "i < n" "i < 7" "cstr msg = Some p"
  shows "\<exists>r. mqtt_state_publish (int i) msg s =
    Some (r, called (MQTT_Publish (state_topic prefix ids (of_nat i)) p QOS0) s)"
proof -
  note l = link_okD [OF assms(1)]
  obtain m where "mqtt_at (g_mqtt_clien s) s = Some m" using l(1) by blast
  moreover obtain c where "component_at (g_component_handle s ! i) s = Some c"
    "cstr (hc_state_topic c) = Some (state_topic prefix ids (of_nat i))"
    using l(7) [OF assms(3)] assms(2) by (auto simp: comp_ok_def)
  ultimately show ?thesis
    using l(6) [OF assms(3)] assms(4)
    by (simp add: mqtt_state_publish_def component_get_defs mqtt_message_publish_eq)
qed

text \<open>What an announcement of component \<open>i\<close> says, as its reader parses it.\<close>

definition announces :: "string \<Rightarrow> string \<Rightarrow> nat \<Rightarrow> string \<Rightarrow> bool" where
  "announces prefix ids i json \<longleftrightarrow>
     (\<exists>j. cJSON_Parse (json @ [NUL]) = Done j [NUL] \<and>
        cJSON_GetObjectItem j ''stat_t'' = Some (str_item ''stat_t'' (state_topic prefix ids (of_nat i))) \<and>
        cJSON_GetObjectItem j ''avty_t'' = Some (str_item ''avty_t'' (availability_topic prefix ids)) \<and>
        (i < 6 \<longrightarrow> cJSON_GetObjectItem j ''cmd_t'' =
           Some (str_item ''cmd_t'' (command_topic prefix ids (of_nat i)))))"

lemma config_root_announces:
  assumes "cJSON_Parse (json @ [NUL]) = Done (config_root
      (json_base name icon (state_topic prefix ids (of_nat i)) (availability_topic prefix ids) @
       json_kind (component_shape i) (command_topic prefix ids (of_nat i)) cla unit tpl) dev) [NUL]"
  shows "announces prefix ids i json"
proof -
  let ?rt = "config_root
      (json_base name icon (state_topic prefix ids (of_nat i)) (availability_topic prefix ids) @
       json_kind (component_shape i) (command_topic prefix ids (of_nat i)) cla unit tpl) dev"
  have "cJSON_GetObjectItem ?rt ''stat_t'' = Some (str_item ''stat_t'' (state_topic prefix ids (of_nat i)))"
    "cJSON_GetObjectItem ?rt ''avty_t'' = Some (str_item ''avty_t'' (availability_topic prefix ids))"
    by (rule config_root_get; cases "i < 6";
        simp add: json_base_def json_kind_def component_shape_def cJSON_strcasecmp_def tolower_def Let_def)+
  moreover have "i < 6 \<Longrightarrow> cJSON_GetObjectItem ?rt ''cmd_t'' =
      Some (str_item ''cmd_t'' (command_topic prefix ids (of_nat i)))"
    by (rule config_root_get;
        simp add: json_base_def json_kind_def component_shape_def cJSON_strcasecmp_def tolower_def Let_def)
  ultimately show ?thesis using assms unfolding announces_def by blast
qed

lemma link_ok_component:
  assumes l: "link_ok n prefix ids s" and i: "i < 7" "i \<le> n"
    and c: "component_at (g_component_handle s ! i) s = Some c" "comp_ok True prefix ids i c'"
    and t: "t = store (g_component_handle s ! i) (ComponentObj c') s"
  shows "link_ok (max n (Suc i)) prefix ids t"
proof -
  have at: "mqtt_at p t = mqtt_at p s" "mqtt_config_at p t = mqtt_config_at p s"
    "discovery_at p t = discovery_at p s" "device_at p t = device_at p s" for p
    using c(1) by (auto simp: t at_defs store_def split: option.splits obj.splits)
  have g: "g_mqtt_clien t = g_mqtt_clien s" "g_mqtt_discovery_handle t = g_mqtt_discovery_handle s"
    "g_device_handle t = g_device_handle s" "g_component_num t = g_component_num s"
    "g_component_handle t = g_component_handle s" by (simp_all add: t store_def)
  have "\<exists>d. component_at (g_component_handle s ! j) t = Some d \<and> comp_ok (j < max n (Suc i)) prefix ids j d"
    if j: "j < 7" for j
  proof -
    obtain d where d: "component_at (g_component_handle s ! j) s = Some d" "comp_ok (j < n) prefix ids j d"
      using link_okD(7) [OF l j] by blast
    obtain e where e: "component_at (g_component_handle s ! i) s = Some e" "comp_ok (i < n) prefix ids i e"
      using link_okD(7) [OF l i(1)] by blast
    show ?thesis
    proof (cases "j = i")
      case True
      then show ?thesis using comp_ok_mono [OF c(2)] by (simp add: t component_at_def store_def)
    next
      case False
      then have "(of_nat i :: u32) \<noteq> of_nat j"
        using i j by (auto simp: word_unat_eq_iff unat_of_nat)
      then have "g_component_handle s ! j \<noteq> g_component_handle s ! i"
        using d e by (auto simp: comp_ok_def)
      with d False i show ?thesis
        by (intro exI [of _ d]) (auto simp: t component_at_def store_def comp_ok_def)
    qed
  qed
  then show ?thesis using l by (simp add: link_ok_def at g)
qed

text \<open>What announcing leaves alone.\<close>

definition same_link :: "fw \<Rightarrow> fw \<Rightarrow> bool" where
  "same_link s t \<longleftrightarrow> g_mqtt_clien t = g_mqtt_clien s \<and>
     g_mqtt_discovery_handle t = g_mqtt_discovery_handle s \<and>
     g_relay_update_flg t = g_relay_update_flg s \<and> (\<forall>p. buffer_at p t = buffer_at p s)"

lemma same_link_refl [simp]: "same_link s s"
  by (simp add: same_link_def)

lemma same_link_called [simp]: "same_link s (t\<lparr>calls := cs\<rparr>) = same_link s t" "same_link (s\<lparr>calls := cs\<rparr>) t = same_link s t"
  by (simp_all add: same_link_def buffer_at_def)

lemma same_link_trans: "same_link s t \<Longrightarrow> same_link t u \<Longrightarrow> same_link s u"
  by (simp add: same_link_def)

lemma mqtt_hass_config_publish_wp:
  assumes l: "link_ok n prefix ids s" and b: "board_inv s" and i: "i < 7" "i \<le> n"
  shows "wp (mqtt_hass_config_publish (int i) s) (\<lambda>(r, t). link_ok (max n (Suc i)) prefix ids t \<and>
    board_inv t \<and> relay_bank t = relay_bank s \<and> user_led_states_get t = user_led_states_get s \<and> sys t = sys s \<and>
    (\<exists>json. announces prefix ids i json \<and>
      calls t = MQTT_Publish (config_topic prefix (component_shape i) ids (of_nat i)) json QOS0 # calls s) \<and>
    same_link s t)"
proof -
  note lk = link_okD [OF l]
  obtain m where m: "mqtt_at (g_mqtt_clien s) s = Some m" using lk(1) by blast
  let ?h = "g_component_handle s ! i"
  obtain c where c: "component_at ?h s = Some c" "comp_ok (i < n) prefix ids i c" using lk(7) [OF i(1)] by blast
  obtain d where d: "discovery_at (g_mqtt_discovery_handle s) s = Some d" "discovery_holds prefix ids d"
    using lk(2) by blast
  obtain v mf dname mdl sw ip where v: "device_at (g_device_handle s) s = Some v"
    "device_holds ids mf dname mdl sw ip v" "g_device_handle s \<noteq> 0"
    using l unfolding link_ok_def by blast
  have vh: "g_device_handle s \<noteq> ?h" using v(1) c(1) by (auto simp: at_iffs)
  obtain name icon cla unit tpl where cc: "hc_id c = of_nat i" "hc_type c = component_shape i"
    "cstr (hc_identifiers c) = Some ids" "cstr (hc_name c) = Some name" "cstr (hc_icon c) = Some icon"
    "length (hc_state_topic c) = 100"
    "hc_type c = SENSOR \<longrightarrow> cstr (hc_device_class c) = Some cla \<and>
      cstr (hc_unit_of_measurement c) = Some unit \<and> cstr (hc_value_template c) = Some tpl"
    "cstr (hc_config_topic c) = Some (config_topic prefix (component_shape i) ids (of_nat i))"
    using c(2) unfolding comp_ok_def by blast
  have u: "unat (hc_id c) < 10" using i(1) by (simp add: cc(1) unat_of_nat)
  obtain b' out where o: "hass_component_config_json_get (g_mqtt_discovery_handle s) ?h (g_device_handle s) s =
       Some (Some out, store ?h (ComponentObj (c\<lparr>hc_state_topic := b'\<rparr>)) s)"
    "cstr b' = Some (state_topic prefix ids (hc_id c))" "length b' = 100"
    "\<forall>r. cJSON_Parse (out @ NUL # r) = Done (config_root
       (json_base name icon (state_topic prefix ids (hc_id c)) (availability_topic prefix ids) @
        json_kind (hc_type c) (command_topic prefix ids (hc_id c)) cla unit tpl)
       (device_json ids mf dname mdl sw ip)) (NUL # r)" "nul_free out"
    by (rule hass_component_config_json_get_ok [OF d c(1) cc(3-6) u cc(7) v vh lk(3)])
  define t where "t = store ?h (ComponentObj (c\<lparr>hc_state_topic := b'\<rparr>)) s"
  have a: "announces prefix ids i out"
    by (rule config_root_announces) (use o(4) [rule_format, of "[]"] in \<open>simp add: cc(1,2)\<close>)
  have lt: "link_ok (max n (Suc i)) prefix ids t"
    using o(2,3) unfolding t_def
    by (intro link_ok_component [OF l i c(1) comp_ok_state_topic [OF c(2)] refl]) (simp_all add: cc(1))
  have g: "sys t = sys s" "calls t = calls s" "g_mqtt_clien t = g_mqtt_clien s"
    "g_mqtt_discovery_handle t = g_mqtt_discovery_handle s" "g_relay_update_flg t = g_relay_update_flg s"
    "g_led t = g_led s" "g_relays t = g_relays s" by (simp_all add: t_def store_def)
  have at: "led_at p t = led_at p s" "relay_at p t = relay_at p s" "mqtt_at p t = mqtt_at p s"
    "buffer_at p t = buffer_at p s" for p
    using c(1) by (auto simp: t_def at_defs buffer_at_def store_def split: option.splits obj.splits)
  have sl: "same_link s t" by (simp add: same_link_def g at)
  have bd: "board_inv t" "relay_bank t = relay_bank s" "user_led_states_get t = user_led_states_get s"
    using board_cong [of t s] at g b by simp_all
  have ct: "hass_component_config_topic_get ?h t = Some (hc_config_topic c)"
    by (simp add: t_def component_get_defs component_at_def store_def)
  have "mqtt_hass_config_publish (int i) s = Some (answer (MQTT_Publish (config_topic prefix (component_shape i) ids (of_nat i)) out QOS0) t = 0,
      called (MQTT_Publish (config_topic prefix (component_shape i) ids (of_nat i)) out QOS0) t)"
    using o(1,5) m lk(6) [OF i(1)] cc(8) ct
    by (simp add: mqtt_hass_config_publish_def mqtt_message_publish_eq at g cstr_append_NUL flip: t_def)
  moreover have "board_inv (called (MQTT_Publish x y q) t)" "relay_bank (called (MQTT_Publish x y q) t) = relay_bank s"
    "user_led_states_get (called (MQTT_Publish x y q) t) = user_led_states_get s" for x y q
    using bd by simp_all
  ultimately show ?thesis using lt a g sl by auto
qed

subsection \<open>The callbacks\<close>

text \<open>The board is as it was, and the environment too.\<close>

definition same_board :: "fw \<Rightarrow> fw \<Rightarrow> bool" where
  "same_board s t \<longleftrightarrow> board_inv t \<and> relay_bank t = relay_bank s \<and>
     user_led_states_get t = user_led_states_get s \<and> sys t = sys s"

lemma same_board_refl: "board_inv s \<Longrightarrow> same_board s s"
  by (simp add: same_board_def)

lemma same_board_trans: "same_board s t \<Longrightarrow> same_board t u \<Longrightarrow> same_board s u"
  by (simp add: same_board_def)

lemma same_board_called [simp]:
  "board_inv s \<Longrightarrow> \<forall>f fl. c \<noteq> Configure_fpin f fl \<Longrightarrow> same_board s (called c s)"
  by (simp add: same_board_def)

lemma upt_split: "[0..<n] = pre @ i # suf \<Longrightarrow> i = length pre \<and> i < n"
  by (metis (no_types, lifting) add_cancel_left_left length_append length_upt less_add_Suc1 linorder_not_less
      list.size(4) minus_nat.diff_0 nth_append_length nth_upt plus_nat.add_0 trans_less_add1 upt_conv_Nil
      Nil_is_append_conv list.distinct(1) length_Cons add_Suc_right)

definition config_call :: "string \<Rightarrow> string \<Rightarrow> nat \<Rightarrow> string \<Rightarrow> call" where
  "config_call prefix ids i json =
     MQTT_Publish (config_topic prefix (component_shape i) ids (of_nat i)) json QOS0"

lemma announce_loop:
  assumes l: "link_ok n prefix ids s" and b: "board_inv s"
  shows "wp (for_each [0..<7] (\<lambda>i s. do { (_, s) \<leftarrow> mqtt_hass_config_publish (int i) s; Some s }) s)
    (\<lambda>t. link_ok (max n 7) prefix ids t \<and> same_board s t \<and>
       same_link s t \<and>
       (\<exists>js. length js = 7 \<and> (\<forall>i<7. announces prefix ids i (js ! i)) \<and>
          calls t = rev (map (\<lambda>i. config_call prefix ids i (js ! i)) [0..<7]) @ calls s))"
proof -
  let ?I = "\<lambda>pre t. link_ok (max n (length pre)) prefix ids t \<and> same_board s t \<and>
       same_link s t \<and>
       (\<exists>js. length js = length pre \<and> (\<forall>i<length pre. announces prefix ids i (js ! i)) \<and>
          calls t = rev (map (\<lambda>i. config_call prefix ids i (js ! i)) [0..<length pre]) @ calls s)"
  have "wp (for_each [0..<7] (\<lambda>i s. do { (_, s) \<leftarrow> mqtt_hass_config_publish (int i) s; Some s }) s) (?I [0..<7])"
  proof (rule for_each_prefix_inv [where I = ?I])
    fix pre i suf t
    assume split: "[0..<7] = pre @ i # suf" and I: "?I pre t"
    have i: "i = length pre" "i < 7" using upt_split [OF split] by simp_all
    obtain js where js: "length js = length pre" "\<forall>i<length pre. announces prefix ids i (js ! i)"
      "calls t = rev (map (\<lambda>i. config_call prefix ids i (js ! i)) [0..<length pre]) @ calls s" using I by blast
    have "wp (mqtt_hass_config_publish (int i) t) (\<lambda>(r, u). ?I (pre @ [i]) u)"
    proof (rule wp_mono [OF mqtt_hass_config_publish_wp])
      show "link_ok (max n (length pre)) prefix ids t" "board_inv t" "i < 7" "i \<le> max n (length pre)"
        using I i by (simp_all add: same_board_def)
      fix x
      assume "case x of (r, u) \<Rightarrow> link_ok (max (max n (length pre)) (Suc i)) prefix ids u \<and>
        board_inv u \<and> relay_bank u = relay_bank t \<and> user_led_states_get u = user_led_states_get t \<and> sys u = sys t \<and>
        (\<exists>json. announces prefix ids i json \<and>
          calls u = MQTT_Publish (config_topic prefix (component_shape i) ids (of_nat i)) json QOS0 # calls t) \<and>
        same_link t u"
      then obtain r u json where x: "x = (r, u)" "link_ok (max (max n (length pre)) (Suc i)) prefix ids u"
        "same_board t u" "announces prefix ids i json" "calls u = config_call prefix ids i json # calls t"
        "same_link t u"
        by (cases x) (auto simp: same_board_def config_call_def)
      have "\<forall>k<Suc i. announces prefix ids k ((js @ [json]) ! k)"
        using js(1,2) x(4) i(1) by (auto simp: nth_append less_Suc_eq)
      moreover have "map (\<lambda>i. config_call prefix ids i ((js @ [json]) ! i)) [0..<length pre] =
          map (\<lambda>i. config_call prefix ids i (js ! i)) [0..<length pre]"
        using js(1) by (simp add: nth_append)
      ultimately show "case x of (r, u) \<Rightarrow> ?I (pre @ [i]) u"
        using x I js i(1) same_board_trans [of s t u] same_link_trans [of s t u]
        by (auto intro!: exI [of _ "js @ [json]"] simp: nth_append max.assoc)
    qed
    then show "wp (do { (_, s) \<leftarrow> mqtt_hass_config_publish (int i) t; Some s }) (?I (pre @ [i]))"
      by (auto simp: wp_Some_iff)
  qed (use l b in \<open>simp add: same_board_refl\<close>)
  then show ?thesis by (rule wp_mono) simp
qed

lemma announce_wp:
  assumes l: "link_ok n prefix ids s" and b: "board_inv s"
  shows "wp (announce s) (\<lambda>t. same_board s t \<and> same_link s t \<and>
    (let sub = MQTT_Subscribe (command_filter prefix ids) QOS0 P_mqtt_cmd_topic_Msg_cb in
     if answer sub s = SUCCESS then
       link_ok (max n 7) prefix ids t \<and>
       (\<exists>js. length js = 7 \<and> (\<forall>i<7. announces prefix ids i (js ! i)) \<and>
          calls t = MQTT_Publish (availability_topic prefix ids) ''online'' QOS0 #
            rev (map (\<lambda>i. config_call prefix ids i (js ! i)) [0..<7]) @ sub # calls s)
     else t = called sub s))"
proof -
  note lk = link_okD [OF l]
  obtain m where m: "mqtt_at (g_mqtt_clien s) s = Some m" using lk(1) by blast
  obtain d where d: "discovery_at (g_mqtt_discovery_handle s) s = Some d" "discovery_holds prefix ids d"
    using lk(2) by blast
  let ?sub = "MQTT_Subscribe (command_filter prefix ids) QOS0 P_mqtt_cmd_topic_Msg_cb"
  let ?s = "called ?sub s"
  have sub: "mqtt_subscribe_topic (g_mqtt_clien s) (dis_command_topic d) QOS0 P_mqtt_cmd_topic_Msg_cb s =
      Some (answer ?sub s = SUCCESS, ?s)"
    using d(2) m by (simp add: mqtt_subscribe_topic_def sdk_int_eq discovery_holds_def)
  have num: "unat (g_component_num ?s) = 7" using lk(4) by simp
  have sb: "same_board s ?s" using b by simp
  show ?thesis
  proof (cases "answer ?sub s = SUCCESS")
    case False
    then show ?thesis using d sub sb
      by (simp add: announce_def discovery_get_defs)
  next
    case True
    have loop: "wp (for_each [0..<7] (\<lambda>i s. do { (_, s) \<leftarrow> mqtt_hass_config_publish (int i) s; Some s }) ?s)
      (\<lambda>t. link_ok (max n 7) prefix ids t \<and> same_board ?s t \<and>
       same_link ?s t \<and>
       (\<exists>js. length js = 7 \<and> (\<forall>i<7. announces prefix ids i (js ! i)) \<and>
          calls t = rev (map (\<lambda>i. config_call prefix ids i (js ! i)) [0..<7]) @ calls ?s))"
      by (rule announce_loop) (use l b in simp_all)
    let ?pub = "\<lambda>t. do {
         topic \<leftarrow> hass_mqtt_discovery_availability_topic_get (g_mqtt_discovery_handle t) t;
         (_, s) \<leftarrow> mqtt_message_publish (g_mqtt_clien t) topic (Some (''online'' @ [NUL])) QOS0 t;
         Some s }"
    have pub: "?pub t = Some (called (MQTT_Publish (availability_topic prefix ids) ''online'' QOS0) t)"
      if "link_ok k prefix ids t" for k t
      using link_okD(1,2) [OF that]
      by (auto simp: discovery_get_defs discovery_holds_def mqtt_message_publish_eq)
    have "announce s = do { t \<leftarrow> for_each [0..<7] (\<lambda>i s. do { (_, s) \<leftarrow> mqtt_hass_config_publish (int i) s; Some s }) ?s;
        ?pub t }"
      using d sub num True by (simp add: announce_def discovery_get_defs)
    moreover obtain t js where t: "for_each [0..<7] (\<lambda>i s. do { (_, s) \<leftarrow> mqtt_hass_config_publish (int i) s; Some s }) ?s = Some t"
      "link_ok (max n 7) prefix ids t" "same_board ?s t" "same_link s t"
      "length js = 7" "\<forall>i<7. announces prefix ids i (js ! i)"
      "calls t = rev (map (\<lambda>i. config_call prefix ids i (js ! i)) [0..<7]) @ calls ?s"
      using loop by (auto simp: wp_Some_iff)
    ultimately have "announce s = Some (called (MQTT_Publish (availability_topic prefix ids) ''online'' QOS0) t)"
      using pub [OF t(2)] by simp
    moreover have "same_board s (called (MQTT_Publish (availability_topic prefix ids) ''online'' QOS0) t)"
      using same_board_trans [OF same_board_trans [OF sb t(3)]] t(3) by (simp add: same_board_def)
    ultimately show ?thesis using t True by (auto simp: Let_def simp del: upt_rec_numeral)
  qed
qed

definition state_word :: "relay_status_e option \<Rightarrow> string" where
  "state_word st = (if st = Some RELAY_STATUS_OPEN then ''ON'' else ''OFF'')"

definition state_call :: "string \<Rightarrow> string \<Rightarrow> fw \<Rightarrow> nat \<Rightarrow> call" where
  "state_call prefix ids s i =
     MQTT_Publish (state_topic prefix ids (of_nat i)) (state_word (relay_bank s ! i)) QOS0"

lemma publish_states_eq:
  assumes l: "link_ok n prefix ids s" "6 \<le> n" and b: "board_inv s"
  shows "\<exists>t. publish_states s = Some t \<and> same_board s t \<and>
    t = s\<lparr>calls := rev (map (state_call prefix ids s) [0..<6]) @ calls s\<rparr>"
proof -
  let ?I = "\<lambda>pre t. same_board s t \<and> t = s\<lparr>calls := rev (map (state_call prefix ids s) [0..<length pre]) @ calls s\<rparr>"
  have "wp (publish_states s) (?I [0..<6])"
    unfolding publish_states_def
  proof (rule for_each_prefix_inv [where I = ?I])
    fix pre i suf t
    assume split: "[0..<6] = pre @ i # suf" and I: "?I pre t"
    have i: "i = length pre" "i < 6" using upt_split [OF split] by simp_all
    have "same_board s t" using I by blast
    then have bt: "board_inv t" "relay_bank t = relay_bank s" unfolding same_board_def by blast+
    have u: "unat (of_nat i :: u32) = i" using i(2) by (simp add: unat_of_nat)
    have g: "user_relay_states_get (of_nat i) t = relay_bank s ! i"
      using user_relay_states_get_eq [OF bt(1), of "of_nat i"] i(2) bt(2) by (simp add: u)
    obtain st msg where m: "relay_bank s ! i = Some st" "hassRelayState st = Some msg"
      "cstr msg = Some (state_word (relay_bank s ! i))"
      using board_invD(8) [OF b i(2)] by (auto simp: hassRelayState_def state_word_def)
    have "link_ok n prefix ids t" using I l(1) by simp
    from mqtt_state_publish_eq [OF this _ _ m(3), of i] l(2) i(2)
    obtain r where p: "mqtt_state_publish (int i) msg t = Some (r, called (state_call prefix ids s i) t)"
      by (auto simp: state_call_def)
    have "same_board s (called (state_call prefix ids s i) t)"
      by (rule same_board_trans [OF \<open>same_board s t\<close>]) (simp add: state_call_def bt(1))
    moreover have "calls t = rev (map (state_call prefix ids s) [0..<length pre]) @ calls s"
      "t\<lparr>calls := c\<rparr> = s\<lparr>calls := c\<rparr>" for c using conjunct2 [OF I] by simp_all
    then have "called (state_call prefix ids s i) t =
        s\<lparr>calls := rev (map (state_call prefix ids s) [0..<length (pre @ [i])]) @ calls s\<rparr>"
      by (simp only: i(1) length_append_singleton upt_Suc_append [OF le0] map_append list.map rev_append
          rev.simps append.simps append_assoc)
    ultimately have "?I (pre @ [i]) (called (state_call prefix ids s i) t)" by blast
    moreover have "do { st \<leftarrow> user_relay_states_get (of_nat i) t; message \<leftarrow> hassRelayState st;
        (_, s) \<leftarrow> mqtt_state_publish (int i) message t; Some s } = Some (called (state_call prefix ids s i) t)"
      by (simp only: g m(1,2) p bind.bind_lunit prod.case)
    ultimately show "wp (do { st \<leftarrow> user_relay_states_get (of_nat i) t; message \<leftarrow> hassRelayState st;
        (_, s) \<leftarrow> mqtt_state_publish (int i) message t; Some s }) (?I (pre @ [i]))"
      by (rule wpI [rotated])
  qed (use b in \<open>simp add: same_board_refl\<close>)
  then show ?thesis by (auto simp: wp_Some_iff simp del: upt_rec_numeral)
qed

lemma heartbeat_eq:
  assumes l: "link_ok n prefix ids s" "6 \<le> n" and b: "board_inv s"
  shows "\<exists>t. mqtt_connect_status_cb_handler MQTT_EARTBEAT s = Some t \<and> same_board s t \<and>
    t = s\<lparr>calls := (if g_relay_update_flg s then rev (map (state_call prefix ids s) [0..<6]) else []) @ calls s,
          g_relay_update_flg := False\<rparr>"
proof (cases "g_relay_update_flg s")
  case False
  then show ?thesis using b by (simp add: mqtt_connect_status_cb_handler_def same_board_refl)
next
  case True
  obtain t where t: "publish_states s = Some t" "same_board s t"
    "t = s\<lparr>calls := rev (map (state_call prefix ids s) [0..<6]) @ calls s\<rparr>"
    using publish_states_eq [OF assms] by blast
  then have "same_board s (t\<lparr>g_relay_update_flg := False\<rparr>)" by (simp add: same_board_def)
  with t True show ?thesis by (auto simp: mqtt_connect_status_cb_handler_def simp del: upt_rec_numeral)
qed

subsection \<open>A command is carried out\<close>

definition payload_status :: "string \<Rightarrow> relay_status_e option" where
  "payload_status p =
     (if p = ''ON'' then Some RELAY_STATUS_OPEN else if p = ''OFF'' then Some RELAY_STATUS_CLOSE else None)"

lemma streq_cstr: "cstr b = Some a \<Longrightarrow> nul_free s \<Longrightarrow> streq b s = Some (a = s)"
  by (induction b s arbitrary: a rule: streq.induct) (auto split: if_splits)

text \<open>What switching relays and the LED leaves alone.\<close>

definition framed :: "fw \<Rightarrow> fw \<Rightarrow> bool" where
  "framed s t \<longleftrightarrow> (\<forall>n prefix ids. link_ok n prefix ids t = link_ok n prefix ids s) \<and> sys t = sys s \<and>
     g_mqtt_clien t = g_mqtt_clien s \<and> (\<forall>p. buffer_at p t = buffer_at p s)"

lemma framed_trans: "framed s t \<Longrightarrow> framed t u \<Longrightarrow> framed s u"
  by (simp add: framed_def)

lemma framed_refl [simp]: "framed s s"
  by (simp add: framed_def)

lemma framed_called [simp]: "framed s (called c s)"
  by (simp add: framed_def buffer_at_def)

lemma framedI:
  assumes h: "\<And>p x. (\<forall>d. x \<noteq> LedObj d) \<Longrightarrow> (\<forall>d. x \<noteq> RelayObj d) \<Longrightarrow> heap t p = Some x \<longleftrightarrow> heap s p = Some x"
    and r: "t\<lparr>calls := [], heap := Map.empty\<rparr> = s\<lparr>calls := [], heap := Map.empty\<rparr>"
  shows "framed s t"
proof -
  have at: "mqtt_at p t = mqtt_at p s" "mqtt_config_at p t = mqtt_config_at p s"
    "discovery_at p t = discovery_at p s" "device_at p t = device_at p s"
    "component_at p t = component_at p s" "buffer_at p t = buffer_at p s" for p
  proof -
    have eq: "(\<And>d. x = Some d \<longleftrightarrow> y = Some d) \<Longrightarrow> x = y" for x y :: "'a option"
      by (metis option.exhaust)
    have b: "buffer_at p v = Some d \<longleftrightarrow> heap v p = Some (BufferObj d)" for v d
      by (auto simp: buffer_at_def split: option.splits obj.splits)
    show "mqtt_at p t = mqtt_at p s" "mqtt_config_at p t = mqtt_config_at p s"
      "discovery_at p t = discovery_at p s" "device_at p t = device_at p s"
      "component_at p t = component_at p s" "buffer_at p t = buffer_at p s"
      by (rule eq; simp add: at_iffs b h)+
  qed
  have g: "sys t = sys s" "g_mqtt_clien t = g_mqtt_clien s"
    "g_mqtt_discovery_handle t = g_mqtt_discovery_handle s" "g_device_handle t = g_device_handle s"
    "g_component_num t = g_component_num s" "g_component_handle t = g_component_handle s"
    "g_relay_update_flg t = g_relay_update_flg s"
    using arg_cong [OF r, of sys] arg_cong [OF r, of g_mqtt_clien] arg_cong [OF r, of g_mqtt_discovery_handle]
      arg_cong [OF r, of g_device_handle] arg_cong [OF r, of g_component_num]
      arg_cong [OF r, of g_component_handle] arg_cong [OF r, of g_relay_update_flg] by simp_all
  show ?thesis unfolding framed_def using at g link_ok_cong [of t s] by simp
qed

lemma framed_relay: "relay_rest t = relay_rest s \<Longrightarrow> framed s t"
proof (rule framedI)
  assume r: "relay_rest t = relay_rest s"
  then show "t\<lparr>calls := [], heap := Map.empty\<rparr> = s\<lparr>calls := [], heap := Map.empty\<rparr>" by (rule relay_restD)
  fix p x
  assume "\<forall>d. x \<noteq> RelayObj d"
  moreover have "(case heap t p of Some (RelayObj d) \<Rightarrow> None | x \<Rightarrow> x) =
      (case heap s p of Some (RelayObj d) \<Rightarrow> None | x \<Rightarrow> x)"
    using r by (auto simp: relay_rest_def fun_eq_iff)
  ultimately show "heap t p = Some x \<longleftrightarrow> heap s p = Some x"
    by (auto split: option.splits obj.splits)
qed

lemma framed_led: "led_rest t = led_rest s \<Longrightarrow> framed s t"
proof (rule framedI)
  assume r: "led_rest t = led_rest s"
  then show "t\<lparr>calls := [], heap := Map.empty\<rparr> = s\<lparr>calls := [], heap := Map.empty\<rparr>" by (rule led_restD)
  fix p x
  assume "\<forall>d. x \<noteq> LedObj d"
  moreover have "(case heap t p of Some (LedObj d) \<Rightarrow> None | x \<Rightarrow> x) =
      (case heap s p of Some (LedObj d) \<Rightarrow> None | x \<Rightarrow> x)"
    using r by (auto simp: led_rest_def fun_eq_iff)
  ultimately show "heap t p = Some x \<longleftrightarrow> heap s p = Some x"
    by (auto split: option.splits obj.splits)
qed

lemma relay_command_wp:
  assumes b: "board_inv s" and i: "i < 6" and st: "cstr state = Some p"
  shows "wp (relay_command (int i) state s) (\<lambda>t. board_inv t \<and> framed s t \<and>
    (gpio_ok s \<longrightarrow>
       relay_bank t = (case payload_status p of None \<Rightarrow> relay_bank s | Some x \<Rightarrow> (relay_bank s)[i := Some x]) \<and>
       (payload_status p \<noteq> None \<longrightarrow>
          user_led_states_get t = Some (if any_open t then LED_STATUS_ON else LED_STATUS_OFF))))"
proof -
  have u: "unat (word_of_int (int i) :: u32) = i" using i by (simp add: unat_of_nat)
  have cmp: "streq state ''ON'' = Some (p = ''ON'')" "streq state ''OFF'' = Some (p = ''OFF'')"
    using streq_cstr [OF st] by simp_all
  have set: "wp (user_relay_states_set (word_of_int (int i)) x s) (\<lambda>(r, t). board_inv t \<and> framed s t \<and>
      (gpio_ok s \<longrightarrow> relay_bank t = (relay_bank s)[i := Some x]))" if "x = 0 \<or> x = 1" for x
    using user_relay_states_set_wp [OF b that, of "word_of_int (int i)"] i framed_relay
    unfolding u by (auto simp: wp_Some_iff)
  have on': "wp (do { l \<leftarrow> user_led_states_get t; if l = LED_STATUS_OFF then user_led_on t else Some t })
      (\<lambda>v. board_inv v \<and> framed t v \<and> relay_bank v = relay_bank t \<and>
         (gpio_ok t \<longrightarrow> user_led_states_get v = Some LED_STATUS_ON))" if t: "board_inv t" for t
  proof -
    obtain r w where w: "led_status_set (g_led t) 1 t = Some (r, w)" "board_inv w" "led_rest w = led_rest t"
      "gpio_ok t \<longrightarrow> r" "user_led_states_get w = (if r then Some 1 else user_led_states_get t)"
      using board_inv_led_set [OF t, of 1] by (auto simp: wp_Some_iff)
    then show ?thesis
      using board_invD(6) [OF t] t framed_led [OF w(3)] led_dev_facts(4) [OF w(3)]
      by (auto simp: user_led_on_def)
  qed
  have off': "wp (user_relay_led_state t) (\<lambda>v. board_inv v \<and> framed t v \<and> relay_bank v = relay_bank t \<and>
         (gpio_ok t \<longrightarrow> user_led_states_get v = Some (if any_open v then LED_STATUS_ON else LED_STATUS_OFF)))"
    if t: "board_inv t" for t
  proof -
    obtain w where w: "user_relay_led_state t = Some w" "board_inv w" "led_rest w = led_rest t"
      "gpio_ok t \<longrightarrow> user_led_states_get w = Some (if any_open t then LED_STATUS_ON else LED_STATUS_OFF)"
      using user_relay_led_state_wp [OF t] unfolding wp_Some_iff by blast
    then show ?thesis using framed_led [OF w(3)] led_dev_facts(4) [OF w(3)] by (simp add: any_open_def)
  qed
  have gs: "framed s t \<Longrightarrow> gpio_ok t = gpio_ok s" for t
    by (rule gpio_ok_sys) (simp add: framed_def)
  have op: "relay_bank v = (relay_bank s)[i := Some 1] \<Longrightarrow> any_open v" for v
    using board_invD(5) [OF b] i by (simp add: any_open_def set_update_memI)
  consider (on) "p = ''ON''" | (off) "p = ''OFF''" | (other) "p \<noteq> ''ON''" "p \<noteq> ''OFF''" by blast
  then show ?thesis
  proof cases
    case on
    obtain r t where t: "user_relay_states_set (word_of_int (int i)) 1 s = Some (r, t)" "board_inv t" "framed s t"
      "gpio_ok s \<longrightarrow> relay_bank t = (relay_bank s)[i := Some 1]" using set [of 1] by (auto simp: wp_Some_iff)
    obtain v where v: "do { l \<leftarrow> user_led_states_get t; if l = LED_STATUS_OFF then user_led_on t else Some t } = Some v"
      "board_inv v" "framed t v" "relay_bank v = relay_bank t" "gpio_ok t \<longrightarrow> user_led_states_get v = Some LED_STATUS_ON"
      using on' [OF t(2)] unfolding wp_Some_iff by blast
    have "relay_command (int i) state s = Some v" using cmp on t(1) v(1) by (simp add: relay_command_def)
    then show ?thesis
      using v t framed_trans [OF t(3) v(3)] gs [OF t(3)] op [of v] on by (simp add: payload_status_def)
  next
    case off
    obtain r t where t: "user_relay_states_set (word_of_int (int i)) 0 s = Some (r, t)" "board_inv t" "framed s t"
      "gpio_ok s \<longrightarrow> relay_bank t = (relay_bank s)[i := Some 0]" using set [of 0] by (auto simp: wp_Some_iff)
    obtain v where v: "user_relay_led_state t = Some v" "board_inv v" "framed t v" "relay_bank v = relay_bank t"
      "gpio_ok t \<longrightarrow> user_led_states_get v = Some (if any_open v then LED_STATUS_ON else LED_STATUS_OFF)"
      using off' [OF t(2)] unfolding wp_Some_iff by blast
    have "relay_command (int i) state s = Some v" using cmp off t(1) v(1) by (simp add: relay_command_def)
    then show ?thesis
      using v t framed_trans [OF t(3) v(3)] gs [OF t(3)] off by (simp add: payload_status_def)
  next
    case other
    then show ?thesis using b cmp by (simp add: relay_command_def payload_status_def)
  qed
qed

text \<open>
  A message on the command topic of component \<open>i\<close> as the read buffer holds it: the topic, the
  payload right behind it, and whatever the buffer holds up to the next NUL.
\<close>

definition command_message :: "string \<Rightarrow> string \<Rightarrow> nat \<Rightarrow> string \<Rightarrow> string \<Rightarrow> message \<Rightarrow> bool" where
  "command_message prefix ids i p stale m \<longleftrightarrow>
     nul_free p \<and> p \<noteq> [] \<and> nul_free stale \<and>
     (\<exists>r. m_topic m = command_topic prefix ids (of_nat i) @ p @ stale @ NUL # r \<and>
        m_payload m = p @ stale @ NUL # r) \<and>
     m_payloadlen m = length p"

definition slash_free :: "string \<Rightarrow> bool" where
  "slash_free s \<longleftrightarrow> CHR ''/'' \<notin> set s"

lemma command_message_id:
  assumes m: "command_message prefix ids i p stale m" and i: "i < 10"
    and n: "nul_free prefix" "nul_free ids" "slash_free prefix" "slash_free ids" and b: "length b = 4"
  shows "topic_id (m_topic m) b = (if length p + length stale \<le> 3 then Some (int i) else None)"
proof -
  obtain r where r: "m_topic m = command_topic prefix ids (of_nat i) @ p @ stale @ NUL # r"
    using m by (auto simp: command_message_def)
  have u: "unat (of_nat i :: u32) = i" using i by (simp add: unat_of_nat)
  have t: "command_topic prefix ids (of_nat i) @ p @ stale @ NUL # r =
      prefix @ ''/'' @ ids @ ''/'' @ dec i @ ''/set'' @ (p @ stale) @ NUL # r"
    by (simp only: command_topic_def u append_assoc)
  have "topic_id (prefix @ ''/'' @ ids @ ''/'' @ dec i @ ''/set'' @ (p @ stale) @ NUL # r) b =
      (if length (p @ stale) \<le> 3 then Some (int i) else None)"
    using m n i b by (intro topic_id_eq) (simp_all add: command_message_def slash_free_def)
  then show ?thesis by (simp only: r t length_append)
qed

lemma length_stack_junk [simp]: "length (stack_junk n s) = n"
  by (simp add: stack_junk_def)

lemma command_wp:
  assumes b: "board_inv s" and l: "link_ok n prefix ids s" "6 \<le> n" and i: "i < 6"
    and sl: "slash_free prefix" "slash_free ids"
    and m: "command_message prefix ids i p stale m" "length p + length stale \<le> 3"
  shows "wp (mqtt_cmd_topic_Msg_cb m s) (\<lambda>t. board_inv t \<and> framed s t \<and>
    hd (calls t) = MQTT_Publish (state_topic prefix ids (of_nat i)) p QOS0 \<and>
    (gpio_ok s \<longrightarrow>
       relay_bank t = (case payload_status p of None \<Rightarrow> relay_bank s | Some x \<Rightarrow> (relay_bank s)[i := Some x]) \<and>
       (payload_status p \<noteq> None \<longrightarrow>
          user_led_states_get t = Some (if any_open t then LED_STATUS_ON else LED_STATUS_OFF))))"
proof -
  have tid: "topic_id (m_topic m) (stack_junk 4 s) = Some (int i)"
    using command_message_id [OF m(1) _ link_okD(8,9) [OF l(1)] sl, of "stack_junk 4 s"] i m(2) by simp
  obtain r where r: "m_payload m = p @ stale @ NUL # r" "m_payloadlen m = length p" "nul_free p"
    using m(1) by (auto simp: command_message_def)
  define state where "state = p @ replicate (4 - length p) NUL"
  have st: "strncpy (replicate 4 NUL) (m_payload m) (m_payloadlen m) = Some state"
    using strncpy_prefix [OF r(3), of "length p" "replicate 4 NUL" "stale @ NUL # r"] m(2) r
    by (simp add: state_def)
  have "replicate (4 - length p) NUL = NUL # replicate (3 - length p) NUL"
    using m(2) by (simp flip: replicate_Suc add: Suc_diff_le)
  then have cs: "cstr state = Some p" by (simp add: state_def cstr_append_NUL r(3))
  obtain t where t: "relay_command (int i) state s = Some t" "board_inv t" "framed s t"
    "gpio_ok s \<longrightarrow>
       relay_bank t = (case payload_status p of None \<Rightarrow> relay_bank s | Some x \<Rightarrow> (relay_bank s)[i := Some x]) \<and>
       (payload_status p \<noteq> None \<longrightarrow>
          user_led_states_get t = Some (if any_open t then LED_STATUS_ON else LED_STATUS_OFF))"
    using relay_command_wp [OF b i cs] unfolding wp_Some_iff by blast
  have lt: "link_ok n prefix ids t" using l(1) t(3) by (simp add: framed_def)
  let ?c = "MQTT_Publish (state_topic prefix ids (of_nat i)) p QOS0"
  have "i < n" "i < 7" using l(2) i by simp_all
  from mqtt_state_publish_eq [OF lt this cs]
  obtain r where p: "mqtt_state_publish (int i) state t = Some (r, called ?c t)" by blast
  have "mqtt_cmd_topic_Msg_cb m s = Some (called ?c t)"
    using tid st t(1) p i by (simp add: mqtt_cmd_topic_Msg_cb_def)
  moreover have "framed s (called ?c t)" by (rule framed_trans [OF t(3)]) simp
  moreover have "any_open (called ?c t) = any_open t" by (rule board_cong; simp add: at_defs)
  ultimately show ?thesis using t(2,4) by simp
qed

subsection \<open>Initialisation makes the link\<close>

text \<open>One more object on the heap.\<close>

definition allocated :: "obj \<Rightarrow> fw \<Rightarrow> fw \<Rightarrow> bool" where
  "allocated x s t \<longleftrightarrow>
     (\<exists>n. t = s\<lparr>calls := Malloc n # calls s, heap := (heap s)(brk s \<mapsto> x), brk := Suc (brk s)\<rparr>)"

lemma allocatedD:
  assumes "allocated x s t" "heap_ok s" "malloc_ok s" "board_inv s"
    "\<forall>d. x \<noteq> LedObj d" "\<forall>d. x \<noteq> RelayObj d"
  shows "heap_ok t" "malloc_ok t" "same_board s t" "heap t (brk s) = Some x" "0 < brk s"
    "heap s p = Some y \<Longrightarrow> heap t p = Some y"
    "g_component_num t = g_component_num s" "g_component_handle t = g_component_handle s"
    "g_device_handle t = g_device_handle s" "g_mqtt_discovery_handle t = g_mqtt_discovery_handle s"
    "g_mqtt_clien t = g_mqtt_clien s" "g_relay_update_flg t = g_relay_update_flg s"
proof -
  obtain n where t: "t = s\<lparr>calls := Malloc n # calls s, heap := (heap s)(brk s \<mapsto> x), brk := Suc (brk s)\<rparr>"
    using assms(1) by (auto simp: allocated_def)
  have fresh: "heap s (brk s) = None" "0 < brk s" using assms(2) by (simp_all add: heap_ok_def)
  show "heap_ok t" using assms(2) by (auto simp: t heap_ok_def)
  show "malloc_ok t" using assms(3) by (simp add: t malloc_ok_def)
  show "heap t (brk s) = Some x" by (simp add: t)
  show "0 < brk s" by (rule fresh)
  show "heap s p = Some y \<Longrightarrow> heap t p = Some y" using fresh by (auto simp: t)
  show "g_component_num t = g_component_num s" "g_component_handle t = g_component_handle s"
    "g_device_handle t = g_device_handle s" "g_mqtt_discovery_handle t = g_mqtt_discovery_handle s"
    "g_mqtt_clien t = g_mqtt_clien s" "g_relay_update_flg t = g_relay_update_flg s" by (simp_all add: t)
  let ?u = "s\<lparr>heap := (heap s)(brk s \<mapsto> x), brk := Suc (brk s)\<rparr>"
  have "led_at p ?u = led_at p s" "relay_at p ?u = relay_at p s" for p
    using fresh assms(5,6) by (auto simp: at_defs split: obj.splits)
  then have "board_inv ?u = board_inv s" "relay_bank ?u = relay_bank s"
    "user_led_states_get ?u = user_led_states_get s" by (rule board_cong; simp)+
  moreover have "t = called (Malloc n) ?u" by (simp add: t)
  ultimately show "same_board s t" using assms(4) by (simp only: same_board_def board_call call.distinct
      not_False_eq_True simp_thms) (simp add: t)
qed

text \<open>A component just created: \<open>comp_ok\<close> but for its topics.\<close>

definition comp_made :: "string \<Rightarrow> nat \<Rightarrow> hass_component_t \<Rightarrow> bool" where
  "comp_made ids i c \<longleftrightarrow>
     hc_id c = of_nat i \<and> hc_type c = component_shape i \<and> cstr (hc_identifiers c) = Some ids \<and>
     (\<exists>name. cstr (hc_name c) = Some name) \<and> (\<exists>icon. cstr (hc_icon c) = Some icon) \<and>
     length (hc_state_topic c) = 100 \<and> length (hc_config_topic c) = 100 \<and>
     (hc_type c = SENSOR \<longrightarrow> (\<exists>cla unit tpl. cstr (hc_device_class c) = Some cla \<and>
        cstr (hc_unit_of_measurement c) = Some unit \<and> cstr (hc_value_template c) = Some tpl))"

definition init_inv :: "nat \<Rightarrow> string \<Rightarrow> fw \<Rightarrow> fw \<Rightarrow> bool" where
  "init_inv k mac s0 t \<longleftrightarrow>
     heap_ok t \<and> malloc_ok t \<and> same_board s0 t \<and> g_component_num t = 7 \<and>
     length (g_component_handle t) = 10 \<and> g_relay_update_flg t = g_relay_update_flg s0 \<and>
     g_device_handle t \<noteq> 0 \<and>
     (\<exists>v mf name mdl sw ip. device_at (g_device_handle t) t = Some v \<and>
        device_holds mac mf name mdl sw ip v) \<and>
     (\<forall>i<k. \<exists>c. component_at (g_component_handle t ! i) t = Some c \<and> comp_made mac i c)"

lemma init_inv_alloc:
  assumes I: "init_inv k mac s0 s" and a: "allocated x s t" and x: "\<forall>d. x \<noteq> LedObj d" "\<forall>d. x \<noteq> RelayObj d"
  shows "init_inv k mac s0 t"
proof -
  have s: "heap_ok s" "malloc_ok s" "board_inv s" "same_board s0 s"
    using I by (simp_all add: init_inv_def same_board_def)
  note f = allocatedD [OF a s(1-3) x]
  have at: "component_at p s = Some c \<Longrightarrow> component_at p t = Some c" "device_at p s = Some v \<Longrightarrow> device_at p t = Some v"
    for p c v using f(6) by (simp_all add: at_iffs)
  have "\<exists>c. component_at (g_component_handle s ! i) t = Some c \<and> comp_made mac i c" if "i < k" for i
    using I that at(1) unfolding init_inv_def by blast
  moreover have "\<exists>v mf name mdl sw ip. device_at (g_device_handle s) t = Some v \<and>
      device_holds mac mf name mdl sw ip v"
    using I at(2) unfolding init_inv_def by blast
  ultimately show ?thesis
    using I f(1,2) same_board_trans [OF s(4) f(3)] by (simp add: init_inv_def f(7-9,12))
qed

lemma init_inv_component:
  assumes I: "init_inv k mac s0 s" and a: "allocated (ComponentObj c) s t" and c: "comp_made mac k c" and k: "k < 10"
  shows "init_inv (Suc k) mac s0 (set_component k (brk s) t)"
proof -
  let ?t = "set_component k (brk s) t"
  have It: "init_inv k mac s0 t" by (rule init_inv_alloc [OF I a]) simp_all
  have s: "heap_ok s" "malloc_ok s" "board_inv s" using I by (simp_all add: init_inv_def same_board_def)
  have h: "heap t (brk s) = Some (ComponentObj c)" by (rule allocatedD(4) [OF a s]) simp_all
  have at: "led_at p ?t = led_at p t" "relay_at p ?t = relay_at p t" "component_at p ?t = component_at p t"
    "device_at p ?t = device_at p t" for p by (simp_all add: at_defs set_component_def)
  have "same_board s0 ?t"
  proof -
    have "board_inv ?t = board_inv t" "relay_bank ?t = relay_bank t"
      "user_led_states_get ?t = user_led_states_get t"
      by (rule board_cong; use at in \<open>simp add: set_component_def\<close>)+
    then show ?thesis using It by (simp add: init_inv_def same_board_def set_component_def)
  qed
  moreover have "heap_ok ?t" "malloc_ok ?t"
    using It by (simp_all add: init_inv_def heap_ok_def malloc_ok_def set_component_def)
  moreover have "\<exists>d. component_at (g_component_handle ?t ! i) ?t = Some d \<and> comp_made mac i d" if "i < Suc k" for i
  proof (cases "i = k")
    case True
    then show ?thesis using It h c k
      by (auto simp: init_inv_def set_component_def component_at_iff)
  next
    case False
    then have "i < k" using that by simp
    then show ?thesis using It by (auto simp: init_inv_def set_component_def at [unfolded set_component_def])
  qed
  ultimately show ?thesis
    using It unfolding init_inv_def at by (simp add: set_component_def)
qed

lemma char_of_NUL: "0 < n \<Longrightarrow> n < 256 \<Longrightarrow> NUL \<noteq> char_of (n :: nat)"
proof
  assume "0 < n" "n < 256" "NUL = char_of n"
  then have "of_char (char_of n :: char) = (of_char NUL :: nat)" by simp
  with \<open>0 < n\<close> \<open>n < 256\<close> show False by simp
qed

lemma utf8_three [simp]:
  assumes "0x800 \<le> uc" "uc < 0x10000"
  shows "length (utf8 uc) = 3" "nul_free (utf8 uc)"
proof -
  have u: "utf8 uc = [char_of (0xE0 + uc div 4096), char_of (0x80 + uc div 64 mod 64), char_of (0x80 + uc mod 64)]"
    using assms by (simp add: utf8_def)
  have "uc div 4096 < 16" "uc div 64 mod 64 < 64" "uc mod 64 < 64"
    using assms(2) by (simp_all add: less_mult_imp_div_less)
  then show "length (utf8 uc) = 3" "nul_free (utf8 uc)" using char_of_NUL by (simp_all add: u)
qed

lemma component_created:
  assumes I: "init_inv k mac s0 s" and k: "k < 7"
    and f: "length mac < 20" "nul_free mac" "length name < 20" "nul_free name" "length icon < 30" "nul_free icon"
      "opt_fits 4 u" "opt_nul_free u" "opt_fits 100 v" "opt_nul_free v" "opt_fits 50 d" "opt_nul_free d"
    and t: "type = component_shape k" "type = SENSOR \<longrightarrow> u \<noteq> None \<and> v \<noteq> None \<and> d \<noteq> None"
  shows "wp (hass_component_create (of_nat k) mac name type icon u v d s)
    (\<lambda>(p, t). init_inv (Suc k) mac s0 (set_component k p t))"
proof -
  have m: "malloc_ok s" using I by (simp add: init_inv_def)
  have "component_fits mac name icon u v d" using f by (simp add: component_fits_def)
  from hass_component_create_ok [OF m this f(2,4,6,8,10,12)]
  obtain c where c: "hass_component_create (of_nat k) mac name type icon u v d s =
      Some (brk s, s\<lparr>calls := Malloc ''hass_component_t'' # calls s,
        heap := (heap s)(brk s \<mapsto> ComponentObj c), brk := Suc (brk s)\<rparr>)"
    "component_holds (of_nat k) mac name type icon u v d c" by metis
  have "comp_made mac k c" using c(2) t by (auto simp: comp_made_def component_holds_def)
  moreover have "allocated (ComponentObj c) s (s\<lparr>calls := Malloc ''hass_component_t'' # calls s,
        heap := (heap s)(brk s \<mapsto> ComponentObj c), brk := Suc (brk s)\<rparr>)"
    unfolding allocated_def by blast
  ultimately show ?thesis using c(1) k init_inv_component [OF I] by simp
qed

lemma switches_created:
  assumes I: "init_inv 0 mac s0 s" and f: "length mac < 20" "nul_free mac"
  shows "wp (for_each [0..<6]
     (\<lambda>i s. do { name \<leftarrow> strcpy (stack_junk 15 s) (socket_name (i + 1)); name \<leftarrow> cstr name;
        switch_create i mac name ''mdi:power-socket-uk'' s }) s) (init_inv 6 mac s0)"
proof -
  have "wp (for_each [0..<6]
     (\<lambda>i s. do { name \<leftarrow> strcpy (stack_junk 15 s) (socket_name (i + 1)); name \<leftarrow> cstr name;
        switch_create i mac name ''mdi:power-socket-uk'' s }) s) (init_inv (length [0..<6]) mac s0)"
  proof (rule for_each_prefix_inv [where I = "\<lambda>pre. init_inv (length pre) mac s0"])
    fix pre i suf t
    assume split: "[0..<6] = pre @ i # suf" and J: "init_inv (length pre) mac s0 t"
    have i: "i = length pre" "i < 6" using upt_split [OF split] by simp_all
    have sn: "length (socket_name (i + 1)) = 7" "nul_free (socket_name (i + 1))"
      using i(2) length_dec_small [of "i + 1"] by (simp_all add: socket_name_def)
    obtain b where b: "strcpy (stack_junk 15 t) (socket_name (i + 1)) = Some b" "cstr b = Some (socket_name (i + 1))"
      using strcpy_ok [of "socket_name (i + 1)" "stack_junk 15 t"] sn by auto
    have "wp (hass_component_create (of_nat i) mac (socket_name (i + 1)) SWITCH ''mdi:power-socket-uk'' None None None t)
        (\<lambda>(p, u). init_inv (Suc i) mac s0 (set_component i p u))"
      using J i f sn by (intro component_created) (simp_all add: component_shape_def opt_fits_def opt_nul_free_def)
    then show "wp (do { name \<leftarrow> strcpy (stack_junk 15 t) (socket_name (i + 1)); name \<leftarrow> cstr name;
        switch_create i mac name ''mdi:power-socket-uk'' t }) (init_inv (length (pre @ [i])) mac s0)"
      using b i(1) by (auto simp: switch_create_def wp_Some_iff)
  qed (use I in simp)
  then show ?thesis by simp
qed

text \<open>With the discovery object, and the configuration topics of the first \<open>k\<close> components.\<close>

definition topics_inv :: "nat \<Rightarrow> string \<Rightarrow> string \<Rightarrow> fw \<Rightarrow> fw \<Rightarrow> bool" where
  "topics_inv k prefix mac s0 t \<longleftrightarrow>
     init_inv 7 mac s0 t \<and>
     (\<exists>d. discovery_at (g_mqtt_discovery_handle t) t = Some d \<and> discovery_holds prefix mac d) \<and>
     (\<forall>i<k. \<exists>c. component_at (g_component_handle t ! i) t = Some c \<and>
        cstr (hc_config_topic c) = Some (config_topic prefix (component_shape i) mac (of_nat i)))"

lemma config_topic_step:
  assumes K: "topics_inv k prefix mac s0 s" and k: "k < 7" and f: "topics_fit prefix mac"
  shows "wp (do { h \<leftarrow> component_nth (int k) s;
      hass_component_config_topic_set (g_mqtt_discovery_handle s) h s }) (topics_inv (Suc k) prefix mac s0)"
proof -
  have I: "init_inv 7 mac s0 s" using K by (simp add: topics_inv_def)
  obtain d where d: "discovery_at (g_mqtt_discovery_handle s) s = Some d" "discovery_holds prefix mac d"
    using K by (auto simp: topics_inv_def)
  let ?h = "g_component_handle s ! k"
  obtain c where c: "component_at ?h s = Some c" "comp_made mac k c" using I k by (auto simp: init_inv_def)
  have cc: "cstr (hc_identifiers c) = Some mac" "length (hc_config_topic c) = 100" "unat (hc_id c) < 10"
    "hc_type c = component_shape k" "hc_id c = of_nat k"
    using c(2) k by (simp_all add: comp_made_def unat_of_nat)
  obtain b where b: "hass_component_config_topic_set (g_mqtt_discovery_handle s) ?h s =
      Some (store ?h (ComponentObj (c\<lparr>hc_config_topic := b\<rparr>)) s)"
    "cstr b = Some (config_topic prefix (hc_type c) mac (hc_id c))" "length b = 100"
    by (rule hass_component_config_topic_set_ok [OF d c(1) cc(1-3) f])
  define t where "t = store ?h (ComponentObj (c\<lparr>hc_config_topic := b\<rparr>)) s"
  have at: "led_at p t = led_at p s" "relay_at p t = relay_at p s" "device_at p t = device_at p s"
    "discovery_at p t = discovery_at p s" for p
    using c(1) by (auto simp: t_def at_defs store_def split: option.splits obj.splits)
  have cat: "component_at p t = (if p = ?h then Some (c\<lparr>hc_config_topic := b\<rparr>) else component_at p s)" for p
    by (simp add: t_def component_at_def store_def)
  have g: "sys t = sys s" "calls t = calls s" "brk t = brk s" "g_mqtt_discovery_handle t = g_mqtt_discovery_handle s"
    "g_device_handle t = g_device_handle s" "g_component_handle t = g_component_handle s"
    "g_component_num t = g_component_num s" "g_relay_update_flg t = g_relay_update_flg s"
    "g_led t = g_led s" "g_relays t = g_relays s" by (simp_all add: t_def store_def)
  have "heap_ok t" unfolding t_def
    using I c(1) by (intro heap_ok_store) (simp_all add: init_inv_def component_at_iff)
  moreover have "same_board s0 t"
    using I board_cong [of t s] at g by (simp add: init_inv_def same_board_def)
  moreover have "comp_made mac k (c\<lparr>hc_config_topic := b\<rparr>)" using c(2) b(3) by (simp add: comp_made_def)
  then have "\<exists>e. component_at (g_component_handle s ! i) t = Some e \<and> comp_made mac i e" if i: "i < 7" for i
  proof -
    obtain e where e: "component_at (g_component_handle s ! i) s = Some e" "comp_made mac i e"
      using I i by (auto simp: init_inv_def)
    show ?thesis
    proof (cases "g_component_handle s ! i = ?h")
      case True
      then have "(of_nat i :: u32) = of_nat k" using e c by (simp add: comp_made_def)
      then have "i = k" using i k by (auto simp: word_unat_eq_iff unat_of_nat)
      with \<open>comp_made mac k (c\<lparr>hc_config_topic := b\<rparr>)\<close> show ?thesis by (simp add: cat)
    qed (use e in \<open>simp add: cat\<close>)
  qed
  moreover have "malloc_ok t" using I g(1) by (simp add: init_inv_def malloc_ok_def)
  ultimately have It: "init_inv 7 mac s0 t" using I by (simp add: init_inv_def g at)
  have "\<exists>e. component_at (g_component_handle s ! i) t = Some e \<and>
      cstr (hc_config_topic e) = Some (config_topic prefix (component_shape i) mac (of_nat i))" if i: "i < Suc k" for i
  proof (cases "i = k")
    case True
    then show ?thesis using b(2) cc(4,5) by (simp add: cat)
  next
    case False
    then obtain e where e: "component_at (g_component_handle s ! i) s = Some e"
      "cstr (hc_config_topic e) = Some (config_topic prefix (component_shape i) mac (of_nat i))"
      using K i by (auto simp: topics_inv_def less_Suc_eq)
    have "i < 7" using i k by simp
    then obtain e' where "component_at (g_component_handle s ! i) s = Some e'" "comp_made mac i e'"
      using I by (auto simp: init_inv_def)
    then have "hc_id e = of_nat i" using e(1) by (simp add: comp_made_def)
    then have "hc_id e \<noteq> hc_id c" using False i k by (auto simp: cc(5) word_unat_eq_iff unat_of_nat)
    then show ?thesis using e c(1) by (auto simp: cat)
  qed
  then have "topics_inv (Suc k) prefix mac s0 t" using It d by (simp add: topics_inv_def g at)
  moreover have "component_nth (int k) s = Some ?h" using I k by (simp add: init_inv_def component_nth_def)
  ultimately show ?thesis using b(1) by (simp add: t_def)
qed

lemma mqtt_create_ok:
  assumes h: "heap_ok s" "malloc_ok s"
    and f: "length a < 100" "length c < 100" "length u < 100" "length p < 100" "length av < 100"
    and n: "nul_free a" "nul_free c" "nul_free u" "nul_free p" "nul_free av"
  obtains m mc r where "mqtt_create a port c u p f av s = Some (brk s,
      s\<lparr>calls := Thread_create P_mqtt_client_thread (brk s) r # Malloc ''mqtt_config_t'' # Malloc ''mqtt_device_t'' # calls s,
        heap := (heap s)(Suc (brk s) \<mapsto> MqttConfigObj mc, brk s \<mapsto> MqttObj m), brk := Suc (Suc (brk s))\<rparr>)"
    and "md_config m = Suc (brk s)" "cstr (md_availability_topic m) = Some av"
    "cstr (mc_server_address mc) = Some a" "cstr (mc_client_id mc) = Some c" "cstr (mc_username mc) = Some u"
    "cstr (mc_password mc) = Some p" "mc_port mc = port" "md_mqtt_cb_func m = f"
    "r = junk_ptr s (brk s) 108"
proof -
  define w where "w b y = y @ NUL # drop (Suc (length y)) b" for b y :: cbuf
  have cp: "strcpy b y = Some (w b y)" if "length y < length b" for b y
    using that by (simp add: strcpy_def w_def)
  have cs: "cstr (w b y) = Some y" if "nul_free y" for b y
    using that by (simp add: w_def cstr_append_NUL)
  have pos: "0 < brk s" using h(1) by (simp add: heap_ok_def)
  let ?m = "mqtt_junk s (brk s)"
  let ?s1 = "s\<lparr>calls := Malloc ''mqtt_device_t'' # calls s, heap := (heap s)(brk s \<mapsto> MqttObj ?m), brk := Suc (brk s)\<rparr>"
  have m1: "malloc_ok ?s1" using h(2) by (simp add: malloc_ok_def)
  let ?c = "mqtt_config_junk ?s1 (Suc (brk s))"
  show thesis
  proof (rule that)
    show "mqtt_create a port c u p f av s = Some (brk s,
      s\<lparr>calls := Thread_create P_mqtt_client_thread (brk s) (md_mqtt_thread ?m) # Malloc ''mqtt_config_t'' # Malloc ''mqtt_device_t'' # calls s,
        heap := (heap s)(Suc (brk s) \<mapsto> MqttConfigObj \<lparr>mc_server_address = w (mc_server_address ?c) a, mc_port = port,
           mc_client_id = w (mc_client_id ?c) c, mc_username = w (mc_username ?c) u, mc_password = w (mc_password ?c) p\<rparr>,
           brk s \<mapsto> MqttObj (?m\<lparr>md_config := Suc (brk s), md_mqtt_cb_func := f,
             md_availability_topic := w (md_availability_topic ?m) av\<rparr>)), brk := Suc (Suc (brk s))\<rparr>)"
      unfolding mqtt_create_def malloc_ok_eq [OF h(2)] Let_def prod.case malloc_ok_eq [OF m1]
      using f pos
      by (simp add: mqtt_at_def mqtt_config_at_def store_def cp mqtt_config_junk_def mqtt_junk_def sdk_int_def
          fun_upd_twist)
  qed (simp_all add: cs n mqtt_junk_def junk_ptr_def)
qed

text \<open>The values \<open>user_mqtt_init\<close> takes without overflow.\<close>

definition settings_fit :: "string \<Rightarrow> string \<Rightarrow> string \<Rightarrow> string \<Rightarrow> string \<Rightarrow> string \<Rightarrow> bool" where
  "settings_fit mac ip address username password prefix \<longleftrightarrow>
     length mac < 20 \<and> length ip < 16 \<and> length address < 100 \<and> length username < 100 \<and>
     length password < 100 \<and> topics_fit prefix mac \<and>
     nul_free mac \<and> nul_free ip \<and> nul_free address \<and> nul_free username \<and> nul_free password \<and> nul_free prefix"

lemma settings_fitD:
  assumes "settings_fit mac ip address username password prefix"
  shows "length mac < 20" "length ip < 16" "length address < 100" "length username < 100" "length password < 100"
    "topics_fit prefix mac" "nul_free mac" "nul_free ip" "nul_free address" "nul_free username" "nul_free password"
    "nul_free prefix"
  using assms by (simp_all add: settings_fit_def)

lemma same_board_global:
  assumes "same_board s t" "\<And>p. led_at p u = led_at p t" "\<And>p. relay_at p u = relay_at p t"
    "g_led u = g_led t" "g_relays u = g_relays t" "sys u = sys t" "calls u = calls t"
  shows "same_board s u"
  using assms(1) board_cong [of u t] assms(2-) by (simp add: same_board_def)

lemma device_made:
  assumes s: "heap_ok s" "malloc_ok s" "board_inv s" "g_component_num s = 7" "length (g_component_handle s) = 10"
    and f: "settings_fit mac ip address username password prefix"
  shows "wp (hass_device_create mac ''LIMBANG'' product_name ''TC1_A2'' ''v0.2.12.31'' ip s)
    (\<lambda>(p, t). init_inv 0 mac s (t\<lparr>g_device_handle := p\<rparr>))"
proof -
  note ff = settings_fitD [OF f]
  have pn: "length product_name = 15" "nul_free product_name" by (simp_all add: product_name_def)
  have "device_fits mac ''LIMBANG'' product_name ''TC1_A2'' ''v0.2.12.31'' ip"
    using ff pn by (simp add: device_fits_def)
  then obtain v where v: "hass_device_create mac ''LIMBANG'' product_name ''TC1_A2'' ''v0.2.12.31'' ip s =
      Some (brk s, s\<lparr>calls := Malloc ''hass_device_t'' # calls s,
        heap := (heap s)(brk s \<mapsto> DeviceObj v), brk := Suc (brk s)\<rparr>)"
    "device_holds mac ''LIMBANG'' product_name ''TC1_A2'' ''v0.2.12.31'' ip v"
    by (rule hass_device_create_ok [OF s(2)]) (use ff pn in simp_all)
  define t where "t = s\<lparr>calls := Malloc ''hass_device_t'' # calls s,
        heap := (heap s)(brk s \<mapsto> DeviceObj v), brk := Suc (brk s)\<rparr>"
  have "allocated (DeviceObj v) s t" unfolding allocated_def t_def by blast
  note a = allocatedD [OF this s(1-3)]
  have "\<exists>mf name mdl sw ip. device_holds mac mf name mdl sw ip v" using v(2) by blast
  moreover have "same_board s (t\<lparr>g_device_handle := brk s\<rparr>)"
    using a(3) by (rule same_board_global) (simp_all add: at_defs)
  ultimately have "init_inv 0 mac s (t\<lparr>g_device_handle := brk s\<rparr>)"
    using a(1,2,4,5,7,8,12) s(4,5) by (simp add: init_inv_def heap_ok_def malloc_ok_def device_at_def)
  then show ?thesis using v(1) by (simp flip: t_def)
qed

lemma discovery_made:
  assumes I: "init_inv 7 mac s0 s" and f: "topics_fit prefix mac" "nul_free prefix"
  shows "wp (do { h \<leftarrow> component_nth 0 s; hass_mqtt_discovery_create prefix h s })
    (\<lambda>(p, t). topics_inv 0 prefix mac s0 (t\<lparr>g_mqtt_discovery_handle := p\<rparr>))"
proof -
  have m: "malloc_ok s" "heap_ok s" "board_inv s" using I by (simp_all add: init_inv_def same_board_def)
  let ?h = "g_component_handle s ! 0"
  have h: "component_nth 0 s = Some ?h" using I by (simp add: init_inv_def component_nth_def)
  have "0 < (7 :: nat)" by simp
  then obtain c where c: "component_at ?h s = Some c" "comp_made mac 0 c" using I unfolding init_inv_def by blast
  have hb: "?h \<noteq> brk s" using c(1) m(2) by (auto simp: component_at_iff heap_ok_def)
  have ci: "cstr (hc_identifiers c) = Some mac" using c(2) by (simp add: comp_made_def)
  obtain d where d: "hass_mqtt_discovery_create prefix ?h s =
      Some (brk s, s\<lparr>calls := Malloc ''hass_mqtt_discovery_t'' # calls s,
        heap := (heap s)(brk s \<mapsto> DiscoveryObj d), brk := Suc (brk s)\<rparr>)" "discovery_holds prefix mac d"
    by (rule hass_mqtt_discovery_create_ok [OF m(1) c(1) ci hb f])
  define t where "t = s\<lparr>calls := Malloc ''hass_mqtt_discovery_t'' # calls s,
        heap := (heap s)(brk s \<mapsto> DiscoveryObj d), brk := Suc (brk s)\<rparr>"
  have a: "allocated (DiscoveryObj d) s t" unfolding allocated_def t_def by blast
  have It: "init_inv 7 mac s0 t" by (rule init_inv_alloc [OF I a]) simp_all
  let ?u = "t\<lparr>g_mqtt_discovery_handle := brk s\<rparr>"
  have at: "led_at p ?u = led_at p t" "relay_at p ?u = relay_at p t" "component_at p ?u = component_at p t"
    "device_at p ?u = device_at p t" for p by (simp_all add: at_defs)
  have "same_board s0 t" using It by (simp add: init_inv_def)
  then have "same_board s0 ?u" by (rule same_board_global) (simp_all add: at_defs)
  then have "init_inv 7 mac s0 ?u" using It unfolding init_inv_def at by (simp add: heap_ok_def malloc_ok_def)
  moreover have "discovery_at (brk s) ?u = Some d" by (simp add: t_def discovery_at_def)
  ultimately have "topics_inv 0 prefix mac s0 ?u" using d(2) by (simp add: topics_inv_def)
  then show ?thesis using h d(1) by (simp flip: t_def)
qed

lemma topics_set:
  assumes K: "topics_inv 0 prefix mac s0 s" and f: "topics_fit prefix mac"
  shows "wp (for_each [0..<7] (\<lambda>i s. do { h \<leftarrow> component_nth (int i) s;
      hass_component_config_topic_set (g_mqtt_discovery_handle s) h s }) s) (topics_inv 7 prefix mac s0)"
proof -
  have "wp (for_each [0..<7] (\<lambda>i s. do { h \<leftarrow> component_nth (int i) s;
      hass_component_config_topic_set (g_mqtt_discovery_handle s) h s }) s) (topics_inv (length [0..<7]) prefix mac s0)"
  proof (rule for_each_prefix_inv [where I = "\<lambda>pre. topics_inv (length pre) prefix mac s0"])
    fix pre i suf t
    assume split: "[0..<7] = pre @ i # suf" and K: "topics_inv (length pre) prefix mac s0 t"
    have i: "i = length pre" "i < 7" using upt_split [OF split] by simp_all
    show "wp (do { h \<leftarrow> component_nth (int i) t; hass_component_config_topic_set (g_mqtt_discovery_handle t) h t })
        (topics_inv (length (pre @ [i])) prefix mac s0)"
      using config_topic_step [OF _ i(2) f] K i(1) by simp
  qed (use K in simp)
  then show ?thesis by simp
qed

lemma allocated_once:
  "allocated x s (s\<lparr>calls := Malloc n # calls s, heap := (heap s)(brk s \<mapsto> x), brk := Suc (brk s)\<rparr>)"
  unfolding allocated_def by blast

lemma client_made:
  assumes K: "topics_inv 7 prefix mac s0 s" and f: "settings_fit mac ip address username password prefix"
  shows "wp (do {
      av \<leftarrow> Option.bind (hass_mqtt_discovery_availability_topic_get (g_mqtt_discovery_handle s) s) cstr;
      mqtt_create address port mac username password P_mqtt_connect_status_cb_handler av s })
    (\<lambda>(p, t). link_ok 0 prefix mac (t\<lparr>g_mqtt_clien := p\<rparr>) \<and> same_board s0 (t\<lparr>g_mqtt_clien := p\<rparr>) \<and> heap_ok t \<and>
       g_relay_update_flg t = g_relay_update_flg s0 \<and>
       (\<exists>r. hd (calls t) = Thread_create P_mqtt_client_thread p r))"
proof -
  note ff = settings_fitD [OF f]
  have I: "init_inv 7 mac s0 s" using K by (simp add: topics_inv_def)
  have s: "malloc_ok s" "heap_ok s" "board_inv s" "same_board s0 s"
    using I by (simp_all add: init_inv_def same_board_def)
  obtain d where d: "discovery_at (g_mqtt_discovery_handle s) s = Some d" "discovery_holds prefix mac d"
    using K by (auto simp: topics_inv_def)
  have av: "length (availability_topic prefix mac) < 100" "nul_free (availability_topic prefix mac)"
    using topics_length(2) [OF ff(6), of 0] topics_nul_free [OF ff(12,7)] by simp_all
  have mac: "length mac < 100" using ff(1) by simp
  obtain m mc r where m: "mqtt_create address port mac username password P_mqtt_connect_status_cb_handler
      (availability_topic prefix mac) s = Some (brk s,
      s\<lparr>calls := Thread_create P_mqtt_client_thread (brk s) r # Malloc ''mqtt_config_t'' # Malloc ''mqtt_device_t'' # calls s,
        heap := (heap s)(Suc (brk s) \<mapsto> MqttConfigObj mc, brk s \<mapsto> MqttObj m), brk := Suc (Suc (brk s))\<rparr>)"
    "md_config m = Suc (brk s)" "cstr (md_availability_topic m) = Some (availability_topic prefix mac)"
    "cstr (mc_server_address mc) = Some address" "cstr (mc_client_id mc) = Some mac"
    "cstr (mc_username mc) = Some username" "cstr (mc_password mc) = Some password"
    by (rule mqtt_create_ok [OF s(2,1) ff(3) mac ff(4,5) av(1) ff(9,7,10,11) av(2)])
  define u where "u = s\<lparr>calls := Malloc ''mqtt_device_t'' # calls s, heap := (heap s)(brk s \<mapsto> MqttObj m),
      brk := Suc (brk s)\<rparr>"
  define v where "v = u\<lparr>calls := Malloc ''mqtt_config_t'' # calls u, heap := (heap u)(brk u \<mapsto> MqttConfigObj mc),
      brk := Suc (brk u)\<rparr>"
  have a: "allocated (MqttObj m) s u" "allocated (MqttConfigObj mc) u v" unfolding u_def v_def by (rule allocated_once)+
  have Iu: "init_inv 7 mac s0 u" by (rule init_inv_alloc [OF I a(1)]) simp_all
  have Iv: "init_inv 7 mac s0 v" by (rule init_inv_alloc [OF Iu a(2)]) simp_all
  have u: "heap_ok u" "malloc_ok u" "board_inv u" using Iu by (simp_all add: init_inv_def same_board_def)
  note fu = allocatedD [OF a(1) s(2,1,3), simplified] and fv = allocatedD [OF a(2) u, simplified]
  define t where "t = v\<lparr>calls := Thread_create P_mqtt_client_thread (brk s) r # calls v\<rparr>"
  define w where "w = t\<lparr>g_mqtt_clien := brk s\<rparr>"
  have keep: "heap s p = Some y \<Longrightarrow> heap w p = Some y" for p y
    using fu(6) fv(6) by (simp add: w_def t_def)
  have g: "g_component_num w = 7" "g_component_handle w = g_component_handle s" "length (g_component_handle w) = 10"
    "g_device_handle w = g_device_handle s" "g_mqtt_discovery_handle w = g_mqtt_discovery_handle s"
    "g_mqtt_clien w = brk s" "g_relay_update_flg w = g_relay_update_flg s0"
    using I fu(7-12) fv(7-12) by (simp_all add: w_def t_def init_inv_def)
  have "mqtt_at (brk s) w = Some m" "mqtt_config_at (Suc (brk s)) w = Some mc"
    by (simp_all add: w_def t_def v_def u_def at_defs)
  then have l1: "\<exists>m c. mqtt_at (brk s) w = Some m \<and> mqtt_config_at (md_config m) w = Some c \<and>
      (\<forall>b\<in>{md_availability_topic m, mc_server_address c, mc_client_id c, mc_username c, mc_password c}.
         \<exists>x. cstr b = Some x)" using m(2-7) by simp
  have l6: "\<exists>c. component_at (g_component_handle s ! i) w = Some c \<and> comp_ok (i < 0) prefix mac i c" if i: "i < 7" for i
  proof -
    obtain c where c: "component_at (g_component_handle s ! i) s = Some c" "comp_made mac i c"
      using I i unfolding init_inv_def by blast
    obtain c' where "component_at (g_component_handle s ! i) s = Some c'"
      "cstr (hc_config_topic c') = Some (config_topic prefix (component_shape i) mac (of_nat i))"
      using K i unfolding topics_inv_def by blast
    then have "comp_ok (i < 0) prefix mac i c" using c by (simp add: comp_ok_def comp_made_def)
    then show ?thesis using c(1) keep by (auto simp: component_at_iff)
  qed
  have l2: "\<exists>d. discovery_at (g_mqtt_discovery_handle s) w = Some d \<and> discovery_holds prefix mac d" using d(2) d(1) keep by (simp add: discovery_at_iff)
  have l4: "\<exists>x mf name mdl sw ip. device_at (g_device_handle s) w = Some x \<and> device_holds mac mf name mdl sw ip x"
    and l3: "g_device_handle s \<noteq> 0" using I keep unfolding init_inv_def device_at_iff by blast+
  have l5: "length (g_component_handle s) = 10" using g(2,3) by simp
  have "link_ok 0 prefix mac w"
    unfolding link_ok_def g(1,2,4-6) by (intro conjI allI impI l1 l2 l3 l4 l5 l6 refl ff(6))
  moreover have "same_board s0 w"
  proof -
    have "board_inv v" "same_board s0 v" using Iv by (simp_all add: init_inv_def same_board_def)
    then have "same_board s0 t" unfolding t_def by (elim same_board_trans) simp
    then show ?thesis by (rule same_board_global) (simp_all add: w_def at_defs)
  qed
  moreover have "heap_ok t" using fv(1) by (simp add: t_def)
  moreover have "mqtt_create address port mac username password P_mqtt_connect_status_cb_handler
      (availability_topic prefix mac) s = Some (brk s, t)"
    unfolding m(1) by (simp add: t_def v_def u_def fun_upd_twist)
  moreover have "Option.bind (hass_mqtt_discovery_availability_topic_get (g_mqtt_discovery_handle s) s) cstr =
      Some (availability_topic prefix mac)" using d by (simp add: discovery_get_defs discovery_holds_def)
  moreover have "g_relay_update_flg t = g_relay_update_flg s0" using g(7) by (simp add: w_def)
  moreover have "hd (calls t) = Thread_create P_mqtt_client_thread (brk s) r" by (simp add: t_def)
  ultimately show ?thesis by (simp add: w_def)
qed

lemma user_mqtt_init_wp:
  assumes s: "heap_ok s" "malloc_ok s" "board_inv s" "g_component_num s = 7" "length (g_component_handle s) = 10"
    and f: "settings_fit mac ip address username password prefix"
  shows "wp (user_mqtt_init mac ip address port username password prefix s) (\<lambda>t.
    link_ok 0 prefix mac t \<and> same_board s t \<and> heap_ok t \<and> g_relay_update_flg t = g_relay_update_flg s \<and>
    (\<exists>r. hd (calls t) = Thread_create P_mqtt_client_thread (g_mqtt_clien t) r))"
proof -
  note ff = settings_fitD [OF f]
  obtain p1 s1 where s1: "hass_device_create mac ''LIMBANG'' product_name ''TC1_A2'' ''v0.2.12.31'' ip s = Some (p1, s1)"
    "init_inv 0 mac s (s1\<lparr>g_device_handle := p1\<rparr>)"
    using device_made [OF s f] by (auto simp: wp_Some_iff)
  obtain s3 where s3: "for_each [0..<6] (\<lambda>i s. do { name \<leftarrow> strcpy (stack_junk 15 s) (socket_name (i + 1));
      name \<leftarrow> cstr name; switch_create i mac name ''mdi:power-socket-uk'' s }) (s1\<lparr>g_device_handle := p1\<rparr>) = Some s3"
    "init_inv 6 mac s s3"
    using switches_created [OF s1(2) ff(1,7)] unfolding wp_Some_iff by blast
  let ?power = "utf8 0x5F53 @ utf8 0x524D @ utf8 0x529F @ utf8 0x7387"
  have "wp (hass_component_create (of_nat 6) mac ?power SENSOR ''mdi:gauge'' (Some ''W'')
      (Some ''{{ value_json.power }}'') (Some ''Power'') s3) (\<lambda>(p, t). init_inv (Suc 6) mac s (set_component 6 p t))"
    using s3(2) ff by (intro component_created) (simp_all add: component_shape_def opt_fits_def opt_nul_free_def)
  then obtain s4 where s4: "sensor_create 6 mac ?power ''W'' ''{{ value_json.power }}'' ''Power'' s3 = Some s4"
    "init_inv 7 mac s s4" by (auto simp: sensor_create_def wp_Some_iff)
  have n4: "g_component_num s4 = 7" using s4(2) by (simp add: init_inv_def)
  obtain p5 s5 where s5: "do { h \<leftarrow> component_nth 0 s4; hass_mqtt_discovery_create prefix h s4 } = Some (p5, s5)"
    "topics_inv 0 prefix mac s (s5\<lparr>g_mqtt_discovery_handle := p5\<rparr>)"
    using discovery_made [OF s4(2) ff(6,12)] by (auto simp: wp_Some_iff)
  have n5: "g_component_num (s5\<lparr>g_mqtt_discovery_handle := p5\<rparr>) = 7"
    using s5(2) by (simp add: topics_inv_def init_inv_def)
  obtain s7 where s7: "for_each [0..<7] (\<lambda>i s. do { h \<leftarrow> component_nth (int i) s;
      hass_component_config_topic_set (g_mqtt_discovery_handle s) h s }) (s5\<lparr>g_mqtt_discovery_handle := p5\<rparr>) = Some s7"
    "topics_inv 7 prefix mac s s7"
    using topics_set [OF s5(2) ff(6)] unfolding wp_Some_iff by blast
  obtain p8 s8 where s8: "do {
      av \<leftarrow> Option.bind (hass_mqtt_discovery_availability_topic_get (g_mqtt_discovery_handle s7) s7) cstr;
      mqtt_create address port mac username password P_mqtt_connect_status_cb_handler av s7 } = Some (p8, s8)"
    "link_ok 0 prefix mac (s8\<lparr>g_mqtt_clien := p8\<rparr>)" "same_board s (s8\<lparr>g_mqtt_clien := p8\<rparr>)" "heap_ok s8"
    "g_relay_update_flg s8 = g_relay_update_flg s" "\<exists>r. hd (calls s8) = Thread_create P_mqtt_client_thread p8 r"
    using client_made [OF s7(2) f, of port] by (auto simp: wp_Some_iff)
  obtain h where h: "component_nth 0 s4 = Some h" "hass_mqtt_discovery_create prefix h s4 = Some (p5, s5)"
    using s5(1) by (auto simp: bind_Some_conv)
  obtain av where av: "Option.bind (hass_mqtt_discovery_availability_topic_get (g_mqtt_discovery_handle s7) s7) cstr = Some av"
    "mqtt_create address port mac username password P_mqtt_connect_status_cb_handler av s7 = Some (p8, s8)"
    using s8(1) by (auto simp: bind_Some_conv)
  have u7: "unat (7 :: u32) = 7" and not9: "((9 :: u32) \<le> 7) = False" by simp_all
  have "user_mqtt_init mac ip address port username password prefix s = Some (s8\<lparr>g_mqtt_clien := p8\<rparr>)"
    unfolding user_mqtt_init_def Let_def
    by (simp only: s1(1) bind.bind_lunit prod.case s3(1) s4(1) n4 not9 if_False h n5 s7(1) av u7)
  then show ?thesis using s8(2-6) by (simp add: heap_ok_def)
qed

subsection \<open>The link on a simulated SDK\<close>

lemma malloc_frame: "\<exists>p cs h b. hfmem_malloc t fresh s = (p, s\<lparr>calls := cs, heap := h, brk := b\<rparr>)"
proof (cases rule: malloc_cases [of t fresh s])
  case null
  then show ?thesis
    by (intro exI [of _ 0] exI [of _ "Malloc t # calls s"] exI [of _ "heap s"] exI [of _ "brk s"]) simp
qed blast

lemma board_init_frame:
  "\<exists>cs h b l r. user_relay_init (user_led_init s) =
     s\<lparr>calls := cs, heap := h, brk := b, g_led := l, g_relays := r\<rparr>"
proof -
  have loop: "\<exists>cs h b r. relay_init_loop is s = s\<lparr>calls := cs, heap := h, brk := b, g_relays := r\<rparr>" for "is" s
  proof (induction "is" arbitrary: s)
    case Nil
    show ?case by (intro exI [of _ "calls s"] exI [of _ "heap s"] exI [of _ "brk s"] exI [of _ "g_relays s"]) simp
  next
    case (Cons i "is")
    obtain p cs h b where "relay_create (relays_gpio ! i) GPIO_LOW s = (p, s\<lparr>calls := cs, heap := h, brk := b\<rparr>)"
      using malloc_frame unfolding relay_create_def by blast
    then show ?case using Cons.IH [of "s\<lparr>calls := cs, heap := h, brk := b, g_relays := (g_relays s)[i := p]\<rparr>"]
      by (auto 0 3)
  qed
  obtain p cs h b where "led_create GPIO5 GPIO_HIGH s = (p, s\<lparr>calls := cs, heap := h, brk := b\<rparr>)"
    using malloc_frame unfolding led_create_def by blast
  then have "user_led_init s = s\<lparr>calls := cs, heap := h, brk := b, g_led := p\<rparr>" by (simp add: user_led_init_def)
  moreover obtain cs' h' b' r where
    "relay_init_loop [0..<6] (user_led_init s) = (user_led_init s)\<lparr>calls := cs', heap := h', brk := b', g_relays := r\<rparr>"
    using loop by blast
  ultimately show ?thesis unfolding user_relay_init_def
    by (intro exI [of _ cs'] exI [of _ h'] exI [of _ b'] exI [of _ p] exI [of _ r]) simp
qed

lemma board_init_heap:
  "heap_ok s \<Longrightarrow> malloc_ok s \<Longrightarrow> length (g_relays s) = 6 \<Longrightarrow> heap_ok (user_relay_init (user_led_init s))"
proof -
  assume s: "heap_ok s" "malloc_ok s" "length (g_relays s) = 6"
  note u = user_led_init_wp [OF s(1,2)]
  have "relays_made 0 (brk (user_led_init s)) (user_led_init s)" using s(3) u by (simp add: relays_made_def)
  from relay_init_loop_made [OF u(7,8) this] show ?thesis by (simp add: user_relay_init_def Let_def)
qed

definition sim_link :: fw where
  "sim_link = the (user_mqtt_init ''m'' ''1.2.3.4'' ''b'' 1883 ''u'' ''p'' ''ha'' (sim_board (\<lambda>_. 0)))"

definition sim_online :: fw where
  "sim_online = the (announce sim_link)"

lemma sim_settings: "settings_fit ''m'' ''1.2.3.4'' ''b'' ''u'' ''p'' ''ha''"
  by (simp add: settings_fit_def topics_fit_def)

lemma sim_board_more:
  "heap_ok (sim_board clk)" "malloc_ok (sim_board clk)" "g_component_num (sim_board clk) = 7"
  "length (g_component_handle (sim_board clk)) = 10"
proof -
  let ?s = "boot_state (sim_sdk clk) (\<lambda>_ _. NUL)"
  have m: "malloc_ok ?s" by (rule malloc_ok_sim [of _ clk]) (simp add: boot_state_def)
  obtain cs h b l r where t: "sim_board clk = ?s\<lparr>calls := cs, heap := h, brk := b, g_led := l, g_relays := r\<rparr>"
    using board_init_frame [of ?s] unfolding sim_board_def by blast
  show "g_component_num (sim_board clk) = 7" "length (g_component_handle (sim_board clk)) = 10"
    by (simp_all add: t boot_state_def)
  show "malloc_ok (sim_board clk)" by (rule malloc_ok_sim [OF sim_board_sys(1)])
  show "heap_ok (sim_board clk)" unfolding sim_board_def
    by (rule board_init_heap [OF heap_ok_boot m]) (simp add: boot_state_def)
qed

lemma sim_link:
  "link_ok 0 ''ha'' ''m'' sim_link" "same_board (sim_board (\<lambda>_. 0)) sim_link"
  "\<not> g_relay_update_flg sim_link" "board_inv sim_link" "sys sim_link = sim_sdk (\<lambda>_. 0)" "heap_ok sim_link"
proof -
  let ?b = "sim_board (\<lambda>_. 0)"
  have "wp (user_mqtt_init ''m'' ''1.2.3.4'' ''b'' 1883 ''u'' ''p'' ''ha'' ?b) (\<lambda>t.
    link_ok 0 ''ha'' ''m'' t \<and> same_board ?b t \<and> heap_ok t \<and> g_relay_update_flg t = g_relay_update_flg ?b \<and>
    (\<exists>r. hd (calls t) = Thread_create P_mqtt_client_thread (g_mqtt_clien t) r))"
    by (rule user_mqtt_init_wp [OF sim_board_more(1,2) sim_board(1) sim_board_more(3,4) sim_settings])
  then have "user_mqtt_init ''m'' ''1.2.3.4'' ''b'' 1883 ''u'' ''p'' ''ha'' ?b = Some sim_link \<and>
      link_ok 0 ''ha'' ''m'' sim_link \<and> same_board ?b sim_link \<and> heap_ok sim_link \<and> g_relay_update_flg sim_link = g_relay_update_flg ?b"
    unfolding wp_Some_iff sim_link_def by (elim exE conjE) simp
  then show "link_ok 0 ''ha'' ''m'' sim_link" "same_board ?b sim_link"
    "\<not> g_relay_update_flg sim_link" "board_inv sim_link" "sys sim_link = sim_sdk (\<lambda>_. 0)" "heap_ok sim_link"
    by (auto simp: sim_board_sys same_board_def)
qed

lemma sim_online:
  "link_ok 7 ''ha'' ''m'' sim_online" "same_board (sim_board (\<lambda>_. 0)) sim_online"
  "\<not> g_relay_update_flg sim_online" "board_inv sim_online" "gpio_ok sim_online" "sys sim_online = sim_sdk (\<lambda>_. 0)"
proof -
  have a: "answer (MQTT_Subscribe f QOS0 P_mqtt_cmd_topic_Msg_cb) sim_link = SUCCESS" for f
    by (simp add: answer_def sim_link(5) sim_sdk_def)
  have "announce sim_link = Some sim_online \<and> link_ok 7 ''ha'' ''m'' sim_online \<and>
      same_board sim_link sim_online \<and> same_link sim_link sim_online"
    using announce_wp [OF sim_link(1,4)] unfolding wp_Some_iff sim_online_def
    by (elim exE conjE) (simp add: a Let_def del: upt_rec_numeral)
  then show "link_ok 7 ''ha'' ''m'' sim_online" "same_board (sim_board (\<lambda>_. 0)) sim_online"
    "\<not> g_relay_update_flg sim_online" "board_inv sim_online" "gpio_ok sim_online" "sys sim_online = sim_sdk (\<lambda>_. 0)"
    using sim_link same_board_trans [OF sim_link(2), of sim_online] sim_board(4) [of "\<lambda>_. 0"]
      gpio_ok_sys [of sim_online "sim_board (\<lambda>_. 0)"]
    by (auto simp: same_link_def same_board_def)
qed

subsection \<open>Properties\<close>

text \<open>C16: A command does what it says: on a strip that has announced itself, in step with its pins and with pins
  that answer every call, with slash-free prefix and
  identifiers, a message with payload \<open>ON\<close> or \<open>OFF\<close> on the command topic of relay \<open>i\<close> switches
  exactly that relay, sets the LED to whether any relay is on, leaves statuses and pins in step
  and the link intact, and ends by publishing the payload on that relay's state topic, as long as
  payload and stale bytes of the read buffer are at most three.\<close>

theorem command_carried_out:
  assumes "board_inv s" "gpio_ok s" "link_ok 7 prefix ids s" "i < 6" "slash_free prefix" "slash_free ids"
    and "command_message prefix ids i p stale m" "length p + length stale \<le> 3" "payload_status p = Some x"
  shows "wp (mqtt_cmd_topic_Msg_cb m s) (\<lambda>t. board_inv t \<and> link_ok 7 prefix ids t \<and>
    relay_bank t = (relay_bank s)[i := Some x] \<and>
    user_led_states_get t = Some (if any_open t then LED_STATUS_ON else LED_STATUS_OFF) \<and>
    hd (calls t) = MQTT_Publish (state_topic prefix ids (of_nat i)) p QOS0)"
  using command_wp [OF assms(1,3) _ assms(4-8)]
  by (rule wp_mono) (use assms in \<open>simp_all add: framed_def\<close>)

lemma dec_one_digit: "n < 10 \<Longrightarrow> dec n = [char_of (48 + n)]"
  by (simp add: digit_of_small digit_char_def)

lemma command_carried_out_witness:
  "wp (mqtt_cmd_topic_Msg_cb \<lparr>m_topic = ''ha/m/4/setON'' @ [NUL], m_payload = ''ON'' @ [NUL], m_payloadlen = 2\<rparr>
     sim_online) (\<lambda>t. relay_bank t = (replicate 6 (Some 0))[4 := Some 1] \<and>
     user_led_states_get t = Some LED_STATUS_ON)"
proof -
  let ?m = "\<lparr>m_topic = ''ha/m/4/setON'' @ [NUL], m_payload = ''ON'' @ [NUL], m_payloadlen = 2\<rparr>"
  have four: "dec 4 = ''4''" by (simp add: dec_one_digit char_of_eq_iff)
  have m: "command_message ''ha'' ''m'' 4 ''ON'' [] ?m"
    by (simp add: command_message_def command_topic_def four)
  have b: "relay_bank sim_online = replicate 6 (Some 0)" using sim_online(2) by (simp add: same_board_def sim_board)
  show ?thesis
    by (rule wp_mono [OF command_carried_out [OF sim_online(4,5,1) _ _ _ m, of 1]])
      (auto simp: slash_free_def payload_status_def b any_open_def eval_nat_numeral)
qed

text \<open>C20: A stack overflow anyone who can publish can cause: when payload and stale bytes up to the next
  NUL of the read buffer are more than three, the copy of the id runs past the four bytes of its
  array, whatever the state. So every payload of four bytes or more does it.\<close>

theorem command_overflow:
  assumes "command_message prefix ids i p stale m" "i < 10" "3 < length p + length stale"
    and "nul_free prefix" "nul_free ids" "slash_free prefix" "slash_free ids"
  shows "mqtt_cmd_topic_Msg_cb m s = None"
  using command_message_id [OF assms(1,2,4-7), of "stack_junk 4 s"] assms(3)
  by (simp add: mqtt_cmd_topic_Msg_cb_def)

lemma command_overflow_witness:
  "mqtt_cmd_topic_Msg_cb \<lparr>m_topic = ''ha/m/0/setTRUE'' @ [NUL], m_payload = ''TRUE'' @ [NUL], m_payloadlen = 4\<rparr>
     sim_online = None"
proof -
  let ?m = "\<lparr>m_topic = ''ha/m/0/setTRUE'' @ [NUL], m_payload = ''TRUE'' @ [NUL], m_payloadlen = 4\<rparr>"
  have zero: "dec 0 = ''0''" by (simp add: dec_one_digit char_of_eq_iff)
  have "command_message ''ha'' ''m'' 0 ''TRUE'' [] ?m"
    by (simp add: command_message_def command_topic_def zero)
  from command_overflow [OF this] show ?thesis by (simp add: slash_free_def)
qed

text \<open>C17: When the broker accepts the connection the strip subscribes to its command topics and, if that
  succeeds, announces its seven components in order, each on its configuration topic with a
  message that parses to the topics the firmware uses, then publishes that it is online, and
  from then on every component has its state topic.\<close>

theorem announcement:
  assumes "link_ok n prefix ids s" "board_inv s"
    and "answer (MQTT_Subscribe (command_filter prefix ids) QOS0 P_mqtt_cmd_topic_Msg_cb) s = SUCCESS"
  shows "wp (mqtt_connect_status_cb_handler MQTT_CONNECT_SUCCESS s) (\<lambda>t. link_ok 7 prefix ids t \<and> board_inv t \<and>
    (\<exists>js. length js = 7 \<and> (\<forall>i<7. announces prefix ids i (js ! i)) \<and>
       rev (calls t) = rev (calls s) @ [MQTT_Subscribe (command_filter prefix ids) QOS0 P_mqtt_cmd_topic_Msg_cb] @
         map (\<lambda>i. config_call prefix ids i (js ! i)) [0..<7] @
         [MQTT_Publish (availability_topic prefix ids) ''online'' QOS0]))"
  using announce_wp [OF assms(1,2)] unfolding mqtt_connect_status_cb_handler_def mqtt_cb_type_e.case
proof (rule wp_mono)
  fix t
  assume "same_board s t \<and> same_link s t \<and>
    (let sub = MQTT_Subscribe (command_filter prefix ids) QOS0 P_mqtt_cmd_topic_Msg_cb in
     if answer sub s = SUCCESS then
       link_ok (max n 7) prefix ids t \<and>
       (\<exists>js. length js = 7 \<and> (\<forall>i<7. announces prefix ids i (js ! i)) \<and>
          calls t = MQTT_Publish (availability_topic prefix ids) ''online'' QOS0 #
            rev (map (\<lambda>i. config_call prefix ids i (js ! i)) [0..<7]) @ sub # calls s)
     else t = called sub s)"
  then obtain js where js: "board_inv t" "link_ok (max n 7) prefix ids t" "length js = 7"
    "\<forall>i<7. announces prefix ids i (js ! i)"
    "calls t = MQTT_Publish (availability_topic prefix ids) ''online'' QOS0 #
       rev (map (\<lambda>i. config_call prefix ids i (js ! i)) [0..<7]) @
       MQTT_Subscribe (command_filter prefix ids) QOS0 P_mqtt_cmd_topic_Msg_cb # calls s"
    using assms(3) by (auto simp: Let_def same_board_def simp del: upt_rec_numeral)
  have "link_ok 7 prefix ids t" by (rule link_ok_weaken [OF js(2)]) simp
  with js(1,3-5) show "link_ok 7 prefix ids t \<and> board_inv t \<and>
    (\<exists>js. length js = 7 \<and> (\<forall>i<7. announces prefix ids i (js ! i)) \<and>
       rev (calls t) = rev (calls s) @ [MQTT_Subscribe (command_filter prefix ids) QOS0 P_mqtt_cmd_topic_Msg_cb] @
         map (\<lambda>i. config_call prefix ids i (js ! i)) [0..<7] @
         [MQTT_Publish (availability_topic prefix ids) ''online'' QOS0])"
    by (auto simp del: upt_rec_numeral)
qed

lemma announcement_witness:
  "wp (mqtt_connect_status_cb_handler MQTT_CONNECT_SUCCESS sim_link) (\<lambda>t. link_ok 7 ''ha'' ''m'' t)"
  by (rule wp_mono [OF announcement [OF sim_link(1,4)]]) (simp_all add: answer_def sim_link(5) sim_sdk_def)

text \<open>C18: The heartbeat: on a strip that has announced itself, so that every component has its state topic, and is in
  step with its pins, with the update flag up it publishes the status of each of the six relays on its
  state topic, in order, and lowers the flag; with the flag down it does nothing. Either way
  nothing else changes.\<close>

theorem heartbeat:
  assumes "link_ok 7 prefix ids s" "board_inv s"
  shows "mqtt_connect_status_cb_handler MQTT_EARTBEAT s =
    Some (s\<lparr>calls := (if g_relay_update_flg s then rev (map (state_call prefix ids s) [0..<6]) else []) @ calls s,
           g_relay_update_flg := False\<rparr>)"
  using heartbeat_eq [OF assms(1) _ assms(2)] by (auto simp del: upt_rec_numeral)

lemma heartbeat_witness:
  "mqtt_connect_status_cb_handler MQTT_EARTBEAT (sim_online\<lparr>g_relay_update_flg := True\<rparr>) =
    Some (sim_online\<lparr>calls := rev (map (\<lambda>i. MQTT_Publish (''ha/m/'' @ dec i @ ''/state'') ''OFF'' QOS0) [0..<6]) @
      calls sim_online\<rparr>)"
proof -
  have b: "relay_bank sim_online = replicate 6 (Some 0)" using sim_online(2) by (simp add: same_board_def sim_board)
  have f: "sim_online\<lparr>calls := c, g_relay_update_flg := False\<rparr> = sim_online\<lparr>calls := c\<rparr>" for c
    using sim_online(3) by (cases sim_online) simp
  have "relay_bank (sim_online\<lparr>g_relay_update_flg := True\<rparr>) = replicate 6 (Some 0)"
    unfolding b [symmetric] by (rule board_cong; simp add: at_defs)
  then have "map (state_call ''ha'' ''m'' (sim_online\<lparr>g_relay_update_flg := True\<rparr>)) [0..<6] =
      map (\<lambda>i. MQTT_Publish (''ha/m/'' @ dec i @ ''/state'') ''OFF'' QOS0) [0..<6]"
    by (intro map_cong refl) (simp add: state_call_def state_topic_def state_word_def unat_of_nat)
  then show ?thesis
    using heartbeat [of "''ha''" "''m''" "sim_online\<lparr>g_relay_update_flg := True\<rparr>"] sim_online(1,4) f
    by (simp del: upt_rec_numeral add: fun_upd_def)
qed



end
