(* ===== verification/MqttRun.thy ===== *)
theory MqttRun
  imports UserKey UserMqtt
begin

text \<open>
  The MQTT thread of \<open>mqtt.c\<close> with the callbacks of \<open>user_mqtt.c\<close>, and the button's interrupt
  between its steps: the strip as it runs. Shown is that the callbacks keep the contract of the
  thread (\<open>status_client\<close>) and that no run reaches undefined behaviour while the commands fit.
\<close>

subsection \<open>The button and the link\<close>

lemma framed_simps [simp]:
  "framed s (s\<lparr>g_relay_update_flg := x\<rparr>)" "framed s (s\<lparr>g_interrupt_time := u\<rparr>)"
  "framed s (s\<lparr>g_last_interrupt_time := u\<rparr>)" "framed s (s\<lparr>g_interrupt_duration := u\<rparr>)"
  "framed s (s\<lparr>g_relay_all_status := y\<rparr>)" "framed s (s\<lparr>calls := cs\<rparr>)"
  by (simp_all add: framed_def buffer_at_def)

lemma framed_released: "framed s (released s)"
proof -
  have "released s = s\<lparr>calls := Get_time # Get_time # calls s, g_interrupt_time := now s,
      g_interrupt_duration := held s\<rparr>"
    by (simp add: released_def held_def hfsys_get_time_eq Let_def)
  moreover have "framed s (s\<lparr>calls := cs, g_interrupt_time := t, g_interrupt_duration := d\<rparr>)" for cs t d
    by (rule framed_trans [OF framed_trans [OF framed_simps(6) framed_simps(2)] framed_simps(4)])
  ultimately show ?thesis by simp
qed

lemma framed_toggle:
  assumes "board_inv s" "x = 0 \<or> x = 1"
  shows "wp (toggle_all x s) (\<lambda>t. board_inv t \<and> framed s t)"
proof -
  obtain u where u: "user_relay_aLL_set x s = Some u" "board_inv u"
    "relay_rest u = relay_rest (s\<lparr>g_relay_update_flg := True\<rparr>)"
    using user_relay_aLL_set_wp [OF assms] by (auto simp: wp_Some_iff)
  have su: "framed s u" using framed_trans [OF framed_simps(1) framed_relay [OF u(3)]] .
  let ?v = "u\<lparr>g_relay_all_status := x\<rparr>"
  have "board_inv ?v" using u(2) by simp
  then obtain r w where w: "led_status_set (g_led ?v) x ?v = Some (r, w)" "board_inv w" "led_rest w = led_rest ?v"
    using board_inv_led_set [of ?v x] assms(2) by (auto simp: wp_Some_iff)
  have "framed s w" using framed_trans [OF framed_trans [OF su framed_simps(5)] framed_led [OF w(3)]] .
  moreover have "(if x = 1 then user_led_on else user_led_off) ?v = Some w"
    using w(1) assms(2) by (auto simp: user_led_on_def user_led_off_def)
  ultimately show ?thesis using u(1) w(2) by (simp add: toggle_all_def)
qed

lemma button_keeps:
  assumes b: "board_inv s"
  shows "wp (interrupt_handler st fid s) (\<lambda>t. board_inv t \<and> framed s t)"
proof (cases "st = 2")
  case True
  have "framed s (s\<lparr>calls := Get_time # calls s, g_interrupt_time := now s, g_last_interrupt_time := now s\<rparr>)"
    by (rule framed_trans [OF framed_trans [OF framed_simps(6) framed_simps(2)] framed_simps(3)])
  moreover have "board_inv (s\<lparr>calls := Get_time # calls s, g_interrupt_time := now s,
      g_last_interrupt_time := now s\<rparr>)"
    using b by simp
  ultimately show ?thesis using True press_eq [of fid s] by simp
next
  case False
  let ?x = "if g_relay_all_status s = 0 then 1 else 0 :: u8"
  have br: "board_inv (released s)" using b by simp
  obtain t where t: "toggle_all ?x (released s) = Some t" "board_inv t" "framed (released s) t"
    using framed_toggle [OF br, of ?x] unfolding wp_Some_iff by force
  have st: "framed s t" by (rule framed_trans [OF framed_released t(3)])
  have smt: "board_inv (snd (sdk Smtlk_start u)) \<and> framed s (snd (sdk Smtlk_start u))"
    if "board_inv u" "framed s u" for u
    using that framed_trans [OF that(2) framed_called] by (simp add: sdk_def)
  show ?thesis
    using release_cases [OF False, of fid s] t(1,2) st br framed_released [of s] smt
    by (auto split: press.splits)
qed

subsection \<open>The callbacks keep the contract of the thread\<close>

text \<open>The broker accepts subscriptions.\<close>

definition sub_ok :: "fw \<Rightarrow> bool" where
  "sub_ok s \<longleftrightarrow> (\<forall>cs f q h. r_int (sys s cs (MQTT_Subscribe f q h)) = SUCCESS)"

text \<open>\<open>env\<close> are the answers of the environment, which never change.\<close>

definition strip_up ::
  "nat \<Rightarrow> string \<Rightarrow> string \<Rightarrow> ptr \<Rightarrow> ptr \<Rightarrow> (call list \<Rightarrow> call \<Rightarrow> ret) \<Rightarrow> fw \<Rightarrow> bool" where
  "strip_up n prefix ids dev b env s \<longleftrightarrow>
     board_inv s \<and> link_ok n prefix ids s \<and> g_mqtt_clien s = dev \<and> buffer_at b s \<noteq> None \<and> sub_ok s \<and> sys s = env"

text \<open>Commands that fit, from subscribers of the topics the strip announced.\<close>

definition legal :: "string \<Rightarrow> string \<Rightarrow> message \<Rightarrow> bool" where
  "legal prefix ids m \<longleftrightarrow> slash_free prefix \<and> slash_free ids \<and>
     (\<exists>i p stale. i < 6 \<and> command_message prefix ids i p stale m \<and> length p + length stale \<le> 3)"

lemma strip_up_framed:
  "strip_up n prefix ids dev b env s \<Longrightarrow> board_inv t \<Longrightarrow> framed s t \<Longrightarrow> strip_up n prefix ids dev b env t"
  by (auto simp: strip_up_def framed_def sub_ok_def)

lemma strip_up_announce:
  assumes "strip_up n prefix ids dev b env s"
  shows "wp (announce s) (strip_up 7 prefix ids dev b env)"
proof -
  have s: "link_ok n prefix ids s" "board_inv s" "sub_ok s" using assms by (simp_all add: strip_up_def)
  have a: "answer (MQTT_Subscribe f q h) s = SUCCESS" for f q h using s(3) by (simp add: answer_def sub_ok_def)
  show ?thesis
  proof (rule wp_mono [OF announce_wp [OF s(1,2)]])
    fix t
    assume t: "same_board s t \<and> same_link s t \<and>
      (let sub = MQTT_Subscribe (command_filter prefix ids) QOS0 P_mqtt_cmd_topic_Msg_cb in
       if answer sub s = SUCCESS then
         link_ok (max n 7) prefix ids t \<and>
         (\<exists>js. length js = 7 \<and> (\<forall>i<7. announces prefix ids i (js ! i)) \<and>
            calls t = MQTT_Publish (availability_topic prefix ids) ''online'' QOS0 #
              rev (map (\<lambda>i. config_call prefix ids i (js ! i)) [0..<7]) @ sub # calls s)
       else t = called sub s)"
    then have "link_ok (max n 7) prefix ids t" by (simp add: Let_def a)
    then have "link_ok 7 prefix ids t" by (rule link_ok_weaken) simp
    with t assms show "strip_up 7 prefix ids dev b env t"
      by (auto simp: strip_up_def same_board_def same_link_def sub_ok_def)
  qed
qed

lemma strip_up_beat:
  assumes "strip_up 7 prefix ids dev b env s"
  shows "wp (mqtt_connect_status_cb_handler MQTT_EARTBEAT s) (strip_up 7 prefix ids dev b env)"
proof -
  have s: "link_ok 7 prefix ids s" "board_inv s" using assms by (simp_all add: strip_up_def)
  obtain t cs where t: "mqtt_connect_status_cb_handler MQTT_EARTBEAT s = Some t" "same_board s t"
    "t = s\<lparr>calls := cs, g_relay_update_flg := False\<rparr>"
    using heartbeat_eq [OF s(1) _ s(2)] by auto
  have "framed s t" unfolding t(3) by (rule framed_trans [OF framed_simps(6) framed_simps(1)])
  then show ?thesis using t(1,2) strip_up_framed [OF assms] by (simp add: same_board_def)
qed

lemma strip_up_message:
  assumes "strip_up 7 prefix ids dev b env s" "legal prefix ids m"
  shows "wp (mqtt_cmd_topic_Msg_cb m s) (strip_up 7 prefix ids dev b env)"
proof -
  have s: "link_ok 7 prefix ids s" "board_inv s" using assms by (simp_all add: strip_up_def)
  obtain i p stale where "i < 6" "slash_free prefix" "slash_free ids"
    "command_message prefix ids i p stale m" "length p + length stale \<le> 3"
    using assms(2) by (auto simp: legal_def)
  from command_wp [OF s(2,1) _ this] show ?thesis
    by (rule wp_mono [of "mqtt_cmd_topic_Msg_cb m s"]) (auto intro: strip_up_framed [OF assms(1)])
qed

lemma strip_up_buffer:
  assumes "strip_up n prefix ids dev b env s"
  shows "strip_up n prefix ids dev b env (store b (BufferObj y) s)"
proof -
  obtain x where x: "heap s b = Some (BufferObj x)"
    using assms by (auto simp: strip_up_def buffer_at_def split: option.splits obj.splits)
  let ?t = "store b (BufferObj y) s"
  have at: "led_at p ?t = led_at p s" "relay_at p ?t = relay_at p s" "mqtt_at p ?t = mqtt_at p s"
    "mqtt_config_at p ?t = mqtt_config_at p s" "discovery_at p ?t = discovery_at p s"
    "device_at p ?t = device_at p s" "component_at p ?t = component_at p s" for p
    using x by (simp_all add: at_defs store_def)
  have "board_inv ?t = board_inv s" by (rule board_cong; use at in \<open>simp add: store_def\<close>)
  moreover have "link_ok n prefix ids ?t = link_ok n prefix ids s"
    by (rule link_ok_cong; use at in \<open>simp add: store_def\<close>)
  moreover have "buffer_at b ?t = Some y" by (simp add: buffer_at_def store_def)
  ultimately show ?thesis using assms by (auto simp: strip_up_def store_def sub_ok_def)
qed

interpretation strip: status_client mqtt_connect_status_cb_handler mqtt_cmd_topic_Msg_cb "legal prefix ids"
  "strip_up 0 prefix ids dev b env" "strip_up 7 prefix ids dev b env" dev b for prefix ids dev b env
proof unfold_locales
  show "strip_up 0 prefix ids dev b env s \<Longrightarrow>
      e \<in> {MQTT_WIFI_CONNECT_SUCCESS, MQTT_CONNECT_NET_SUCCESS, MQTT_DISCONNECT} \<Longrightarrow>
      wp (mqtt_connect_status_cb_handler e s) (strip_up 0 prefix ids dev b env)" for s e
    by (auto simp: mqtt_connect_status_cb_handler_def)
  show "strip_up 0 prefix ids dev b env s \<Longrightarrow>
      wp (mqtt_connect_status_cb_handler MQTT_CONNECT_SUCCESS s) (strip_up 7 prefix ids dev b env)" for s
    using strip_up_announce by (simp add: mqtt_connect_status_cb_handler_def)
  show "strip_up 7 prefix ids dev b env s \<Longrightarrow> strip_up 0 prefix ids dev b env s" for s
    using link_ok_weaken by (auto simp: strip_up_def)
  show "strip_up 0 prefix ids dev b env s \<Longrightarrow> thread_call c \<Longrightarrow> strip_up 0 prefix ids dev b env (s\<lparr>calls := c # calls s\<rparr>)"
    "strip_up 7 prefix ids dev b env s \<Longrightarrow> thread_call c \<Longrightarrow> strip_up 7 prefix ids dev b env (s\<lparr>calls := c # calls s\<rparr>)" for s c
    by (auto simp: strip_up_def thread_call_def sub_ok_def buffer_at_def)
  show "strip_up 0 prefix ids dev b env s \<Longrightarrow> \<exists>m c. mqtt_at dev s = Some m \<and> mqtt_config_at (md_config m) s = Some c \<and>
      (\<forall>b\<in>{md_availability_topic m, mc_server_address c, mc_client_id c, mc_username c, mc_password c}.
         \<exists>x. cstr b = Some x)" for s
    unfolding strip_up_def link_ok_def by blast
  show "strip_up 7 prefix ids dev b env s \<Longrightarrow>
      \<exists>x. buffer_at b s = Some x \<and> strip_up 7 prefix ids dev b env (store b (BufferObj y) s)" for s y
    using strip_up_buffer [of 7] by (auto simp: strip_up_def)
qed (rule strip_up_beat strip_up_message; assumption)+

subsection \<open>Runs\<close>

text \<open>
  From a configuration to another by steps of the thread, in which messages arrive, and button
  interrupts between them. \<open>None\<close> is undefined behaviour.
\<close>

inductive strip_run ::
  "string \<Rightarrow> string \<Rightarrow> ptr \<Rightarrow> ptr \<Rightarrow> thread_pc \<times> fw \<Rightarrow> (thread_pc \<times> fw) option \<Rightarrow> bool"
  for prefix ids dev b c where
  start: "strip_run prefix ids dev b c (Some c)"
| thread: "strip_run prefix ids dev b c (Some (pc, s)) \<Longrightarrow> list_all (legal prefix ids) msgs \<Longrightarrow>
    strip_run prefix ids dev b c
      (thread_next mqtt_connect_status_cb_handler mqtt_cmd_topic_Msg_cb msgs dev b pc s)"
| button: "strip_run prefix ids dev b c (Some (pc, s)) \<Longrightarrow>
    strip_run prefix ids dev b c (map_option (Pair pc) (interrupt_handler st fid s))"

lemma button_at_pc:
  assumes "strip.at_pc prefix ids dev b env pc s"
  shows "wp (interrupt_handler st fid s) (strip.at_pc prefix ids dev b env pc)"
proof -
  have "board_inv s" using assms by (auto simp: strip.at_pc_def strip_up_def split: thread_pc.splits)
  from button_keeps [OF this] show ?thesis
    by (rule wp_mono) (use assms strip_up_framed in \<open>auto simp: strip.at_pc_def split: thread_pc.splits\<close>)
qed

lemma strip_run_inv:
  assumes "strip_run prefix ids dev b c r" "strip.at_pc prefix ids dev b env (fst c) (snd c)"
  shows "wp r (\<lambda>(pc, t). strip.at_pc prefix ids dev b env pc t)"
  using assms
proof (induction rule: strip_run.induct)
  case (thread pc s msgs)
  then have "strip.at_pc prefix ids dev b env pc s" by simp
  then show ?case by (rule strip.step_safe) (rule thread.hyps)
next
  case (button pc s st fid)
  then have "strip.at_pc prefix ids dev b env pc s" by simp
  from button_at_pc [OF this, of st fid] show ?case by (auto simp: wp_Some_iff)
qed (cases c, simp)

text \<open>The thread's buffers are new, so starting it keeps everything else.\<close>

lemma buffer_alloc:
  assumes "heap_ok s" "malloc_ok s" "board_inv s" "link_ok 0 prefix ids s"
    and "hfmem_malloc n (\<lambda>p. BufferObj (f p)) s = (b, t)"
  shows "heap_ok t" "malloc_ok t" "board_inv t" "link_ok 0 prefix ids t" "g_mqtt_clien t = g_mqtt_clien s"
    "sys t = sys s" "buffer_at b t = Some (f b)" "\<And>p x. buffer_at p s = Some x \<Longrightarrow> buffer_at p t = Some x"
proof -
  have free: "heap s (brk s) = None" using assms(1) by (simp add: heap_ok_def)
  have t: "b = brk s" "t = s\<lparr>calls := Malloc n # calls s, heap := (heap s)(brk s \<mapsto> BufferObj (f b)), brk := Suc (brk s)\<rparr>"
    using malloc_ok_eq [OF assms(2), of n "\<lambda>p. BufferObj (f p)"] assms(5) by auto
  have at: "led_at p t = led_at p s" "relay_at p t = relay_at p s" "mqtt_at p t = mqtt_at p s"
    "mqtt_config_at p t = mqtt_config_at p s" "discovery_at p t = discovery_at p s"
    "device_at p t = device_at p s" "component_at p t = component_at p s" for p
    using free by (simp_all add: at_defs t)
  show "heap_ok t" "malloc_ok t" "sys t = sys s" "g_mqtt_clien t = g_mqtt_clien s" "buffer_at b t = Some (f b)"
    using assms(1,2) by (auto simp: t heap_ok_def malloc_ok_def buffer_at_def)
  show "link_ok 0 prefix ids t"
    using link_ok_cong [of t s 0 prefix ids] at assms(4) by (simp add: t)
  have "board_inv t = board_inv (s\<lparr>calls := Malloc n # calls s\<rparr>)"
    by (rule board_cong; use at in \<open>simp add: at_defs t\<close>)
  then show "board_inv t" using assms(3) by simp
  show "buffer_at p t = Some x" if "buffer_at p s = Some x" for p x
    using that free by (cases "p = brk s") (auto simp: buffer_at_def t)
qed

lemma thread_start_up:
  assumes "heap_ok s" "malloc_ok s" "board_inv s" "link_ok 0 prefix ids s" "sub_ok s"
  shows "strip_up 0 prefix ids (g_mqtt_clien s) (th_buf (fst (thread_start s))) (sys s) (snd (thread_start s))"
proof -
  obtain b u where u: "hfmem_malloc ''mqtt_client_buf'' (\<lambda>p. BufferObj (junk s p 0 1024)) s = (b, u)" by fastforce
  obtain c t where t: "hfmem_malloc ''mqtt_client_read_buf'' (\<lambda>p. BufferObj (junk u p 0 1024)) u = (c, t)" by fastforce
  note a = buffer_alloc [OF assms(1-4) u]
  note d = buffer_alloc [OF a(1-4) t]
  have "thread_start s = (\<lparr>th_pc = T_Wifi, th_buf = b, th_read_buf = c\<rparr>, t)"
    by (simp add: thread_start_def u t)
  moreover have "buffer_at b t \<noteq> None" using d(8) [OF a(7)] by simp
  moreover have "sub_ok t" using assms(5) a(6) d(6) by (simp add: sub_ok_def)
  ultimately show ?thesis using a(5,6) d(3-6) by (simp add: strip_up_def)
qed

lemma at_pc_up: "strip.at_pc prefix ids dev b env pc t \<Longrightarrow> strip_up 0 prefix ids dev b env t"
  by (auto simp: strip.at_pc_def strip_up_def intro: link_ok_weaken split: thread_pc.splits)

subsection \<open>Back to a session\<close>

text \<open>A network that lets the strip in whenever it tries; a session may still be lost.\<close>

definition net_ok :: "(call list \<Rightarrow> call \<Rightarrow> ret) \<Rightarrow> bool" where
  "net_ok env \<longleftrightarrow>
     (\<forall>cs. r_int (env cs Sta_is_connected) \<noteq> 0 \<and> (\<forall>a p. r_int (env cs (ConnectNetwork a p)) = SUCCESS) \<and>
       (\<forall>w m i u p k. r_int (env cs (MQTT_Connect w m i u p k)) = SUCCESS))"

fun steps_to_session :: "thread_pc \<Rightarrow> nat" where
  "steps_to_session T_End = 4"
| "steps_to_session T_Wifi = 3"
| "steps_to_session T_Net = 2"
| "steps_to_session T_Connect = 1"
| "steps_to_session (T_Session p) = 0"

text \<open>A run with its number of steps of the thread.\<close>

inductive strip_steps ::
  "string \<Rightarrow> string \<Rightarrow> ptr \<Rightarrow> ptr \<Rightarrow> thread_pc \<times> fw \<Rightarrow> nat \<Rightarrow> (thread_pc \<times> fw) option \<Rightarrow> bool"
  for prefix ids dev b c where
  none: "strip_steps prefix ids dev b c 0 (Some c)"
| step: "strip_steps prefix ids dev b c n (Some (pc, s)) \<Longrightarrow> list_all (legal prefix ids) msgs \<Longrightarrow>
    strip_steps prefix ids dev b c (Suc n)
      (thread_next mqtt_connect_status_cb_handler mqtt_cmd_topic_Msg_cb msgs dev b pc s)"
| press: "strip_steps prefix ids dev b c n (Some (pc, s)) \<Longrightarrow>
    strip_steps prefix ids dev b c n (map_option (Pair pc) (interrupt_handler st fid s))"

lemma steps_to_session_0: "steps_to_session pc = 0 \<longleftrightarrow> (\<exists>p. pc = T_Session p)"
  by (cases pc) simp_all

lemma thread_next_nearer:
  assumes "thread_next cb on_message msgs dev b pc s = Some (pc', t)" "net_ok (sys s)" "steps_to_session pc \<noteq> 0"
  shows "steps_to_session pc = Suc (steps_to_session pc')"
  using assms by (cases pc)
    (auto simp: thread_next_def net_ok_def sdk_int_def hfsys_get_time_eq Let_def bind_eq_Some_conv split: prod.splits if_splits)

lemma strip_steps_nearer:
  assumes "strip_steps prefix ids dev b c n r" "strip.at_pc prefix ids dev b env (fst c) (snd c)" "net_ok env"
    and "n \<le> steps_to_session (fst c)"
  shows "wp r (\<lambda>(pc, t). strip.at_pc prefix ids dev b env pc t \<and> steps_to_session pc = steps_to_session (fst c) - n)"
  using assms
proof (induction rule: strip_steps.induct)
  case (step n pc s msgs)
  then have s: "strip.at_pc prefix ids dev b env pc s" "steps_to_session pc = steps_to_session (fst c) - n" by simp_all
  have e: "net_ok (sys s)" using at_pc_up [OF s(1)] step.prems(2) by (simp add: strip_up_def)
  show ?case
    using strip.step_safe [OF s(1) step.hyps(2)] thread_next_nearer [OF _ e] s(2) step.prems(3)
    by (fastforce simp: wp_Some_iff)
next
  case (press n pc s st fid)
  then have "strip.at_pc prefix ids dev b env pc s" "steps_to_session pc = steps_to_session (fst c) - n" by simp_all
  with button_at_pc [OF this(1), of st fid] show ?case by (auto simp: wp_Some_iff)
qed (cases c, simp)

subsection \<open>An environment for the witnesses\<close>

definition refusing_sdk :: "call list \<Rightarrow> call \<Rightarrow> ret" where
  "refusing_sdk cs c =
     (case c of MQTT_Subscribe f q h \<Rightarrow> \<lparr>r_int = FAILURE, r_bytes = []\<rparr> | _ \<Rightarrow> sim_sdk (\<lambda>_. 0) cs c)"

subsection \<open>Properties\<close>

text \<open>C15: As long as memory lasts the strip never fails. The thread starts on an initialised strip with
  its board in step and a heap that holds nothing at fresh addresses, the broker accepts
  subscriptions, and every allocation succeeds. The last is a hypothesis on the whole run, which a
  device can break in time: each announcement leaks its document. Then no interleaving of thread
  steps, delivered commands that fit and button interrupts reaches undefined behaviour; relays, LED,
  pins and the MQTT objects stay well-formed throughout, and during a session every component has
  its state topic.\<close>

theorem strip_never_fails:
  assumes "heap_ok s" "malloc_ok s" "board_inv s" "link_ok 0 prefix ids s" "sub_ok s"
    and "thread_start s = (th, s1)"
    and "strip_run prefix ids (g_mqtt_clien s) (th_buf th) (th_pc th, s1) r"
  shows "wp r (\<lambda>(pc, t). board_inv t \<and> link_ok 0 prefix ids t \<and>
    (\<forall>p. pc = T_Session p \<longrightarrow> link_ok 7 prefix ids t))"
proof -
  have "th_pc th = T_Wifi" using assms(6) by (auto simp: thread_start_def Let_def split: prod.splits)
  then have "wp r (\<lambda>(pc, t). strip.at_pc prefix ids (g_mqtt_clien s) (th_buf th) (sys s) pc t)"
    using strip_run_inv [OF assms(7)] thread_start_up [OF assms(1-5)] assms(6) by (simp add: strip.at_pc_def)
  then show ?thesis
    by (rule wp_mono) (use at_pc_up in \<open>auto simp: strip.at_pc_def strip_up_def\<close>)
qed

lemma strip_never_fails_witness:
  "wp (thread_next mqtt_connect_status_cb_handler mqtt_cmd_topic_Msg_cb [] (g_mqtt_clien sim_link)
     (th_buf (fst (thread_start sim_link))) T_Wifi (snd (thread_start sim_link)))
     (\<lambda>(pc, t). board_inv t \<and> link_ok 0 ''ha'' ''m'' t)"
proof -
  have m: "malloc_ok sim_link" by (rule malloc_ok_sim [OF sim_link(5)])
  have sub: "sub_ok sim_link" by (simp add: sub_ok_def sim_link(5) sim_sdk_def)
  obtain th s1 where th: "thread_start sim_link = (th, s1)" by fastforce
  then have pc: "th_pc th = T_Wifi" by (auto simp: thread_start_def Let_def split: prod.splits)
  have "strip_run ''ha'' ''m'' (g_mqtt_clien sim_link) (th_buf th) (th_pc th, s1)
      (thread_next mqtt_connect_status_cb_handler mqtt_cmd_topic_Msg_cb [] (g_mqtt_clien sim_link) (th_buf th)
        (th_pc th) s1)"
    by (rule strip_run.thread [OF strip_run.start]) simp
  from strip_never_fails [OF sim_link(6) m sim_link(4,1) sub th this] show ?thesis
    unfolding th fst_conv snd_conv pc by (rule wp_mono) auto
qed

text \<open>C35: As long as memory lasts the strip comes back. Under the hypotheses of \<open>strip_never_fails\<close> - an
  initialised strip in step, a broker that accepts subscriptions, and every allocation successful, although
  each announcement leaks - and on a network that lets it in: wherever a run has left the thread, before
  the Wi-Fi or with its session lost, after as many steps of the thread as the way to a session is long,
  four at most, it is in a session, all state topics set. Button interrupts in between neither stop nor
  delay it, and no step fails.\<close>

theorem strip_comes_back:
  assumes "heap_ok s" "malloc_ok s" "board_inv s" "link_ok 0 prefix ids s" "sub_ok s" "net_ok (sys s)"
    and "thread_start s = (th, s1)"
    and "strip_run prefix ids (g_mqtt_clien s) (th_buf th) (th_pc th, s1) (Some (pc, t))"
    and "strip_steps prefix ids (g_mqtt_clien s) (th_buf th) (pc, t) (steps_to_session pc) r"
  shows "steps_to_session pc \<le> 4 \<and> wp r (\<lambda>(pc', u). (\<exists>p. pc' = T_Session p) \<and> board_inv u \<and> link_ok 7 prefix ids u)"
proof -
  have "th_pc th = T_Wifi" using assms(7) by (auto simp: thread_start_def Let_def split: prod.splits)
  then have "strip.at_pc prefix ids (g_mqtt_clien s) (th_buf th) (sys s) pc t"
    using strip_run_inv [OF assms(8)] thread_start_up [OF assms(1-5)] assms(7) by (simp add: strip.at_pc_def)
  then have "wp r (\<lambda>(pc', u). strip.at_pc prefix ids (g_mqtt_clien s) (th_buf th) (sys s) pc' u \<and> steps_to_session pc' = 0)"
    using strip_steps_nearer [OF assms(9) _ assms(6)] by simp
  then have "wp r (\<lambda>(pc', u). (\<exists>p. pc' = T_Session p) \<and> board_inv u \<and> link_ok 7 prefix ids u)"
    by (rule wp_mono) (auto simp: steps_to_session_0 strip.at_pc_def strip_up_def)
  then show ?thesis by (cases pc) simp_all
qed

lemma strip_comes_back_witness:
  "\<exists>b s r. strip_steps ''ha'' ''m'' (g_mqtt_clien sim_link) b (T_Wifi, s) 3 r \<and>
     wp r (\<lambda>(pc, u). (\<exists>p. pc = T_Session p) \<and> link_ok 7 ''ha'' ''m'' u)"
proof -
  let ?s = "sim_link"
  have m: "malloc_ok ?s" "sub_ok ?s" "net_ok (sys ?s)"
    using malloc_ok_sim [OF sim_link(5)] by (simp_all add: sub_ok_def net_ok_def sim_link(5) sim_sdk_def)
  let ?dev = "g_mqtt_clien ?s"
  obtain th s1 where th: "thread_start ?s = (th, s1)" by fastforce
  then have pc: "th_pc th = T_Wifi" by (auto simp: thread_start_def Let_def split: prod.splits)
  let ?b = "th_buf th"
  have run: "strip_run ''ha'' ''m'' ?dev ?b (th_pc th, s1) (Some (T_Wifi, s1))" unfolding pc by (rule strip_run.start)
  have up: "strip.at_pc ''ha'' ''m'' ?dev ?b (sys ?s) T_Wifi s1"
    using thread_start_up [OF sim_link(6) m(1) sim_link(4,1) m(2)] th by (simp add: strip.at_pc_def)
  have nx: "\<exists>pc u. strip_steps ''ha'' ''m'' ?dev ?b (T_Wifi, s1) (Suc n) (Some (pc, u))"
    if "n < 3" "strip_steps ''ha'' ''m'' ?dev ?b (T_Wifi, s1) n (Some (pc, u))" for n pc u
  proof -
    let ?r = "thread_next mqtt_connect_status_cb_handler mqtt_cmd_topic_Msg_cb [] ?dev ?b pc u"
    have step: "strip_steps ''ha'' ''m'' ?dev ?b (T_Wifi, s1) (Suc n) ?r" by (rule strip_steps.step [OF that(2)]) simp
    have "wp ?r (\<lambda>_. True)"
      using strip_steps_nearer [OF step, of "sys ?s"] up m(3) that(1) by (auto simp: wp_Some_iff)
    then obtain pc' u' where "?r = Some (pc', u')" by (auto simp: wp_Some_iff)
    then show ?thesis using step by metis
  qed
  obtain p1 u1 where "strip_steps ''ha'' ''m'' ?dev ?b (T_Wifi, s1) (Suc 0) (Some (p1, u1))"
    using nx [OF _ strip_steps.none] by auto
  then obtain p2 u2 where "strip_steps ''ha'' ''m'' ?dev ?b (T_Wifi, s1) (Suc (Suc 0)) (Some (p2, u2))"
    using nx [of "Suc 0" p1 u1] by auto
  then have "\<exists>pc u. strip_steps ''ha'' ''m'' ?dev ?b (T_Wifi, s1) 3 (Some (pc, u))"
    using nx [of "Suc (Suc 0)" p2 u2] by (simp add: numeral_3_eq_3)
  then obtain pc u where three: "strip_steps ''ha'' ''m'' ?dev ?b (T_Wifi, s1) 3 (Some (pc, u))" by blast
  then have "strip_steps ''ha'' ''m'' ?dev ?b (T_Wifi, s1) (steps_to_session T_Wifi) (Some (pc, u))" by simp
  from strip_comes_back [OF sim_link(6) m(1) sim_link(4,1) m(2,3) th run this] three show ?thesis
    by (intro exI [where x = ?b] exI [where x = s1] exI [where x = "Some (pc, u)"]) auto
qed

text \<open>The order of the callbacks matters: if the broker refuses the subscription, the connect callback
  announces nothing, the state topics keep whatever the heap held, and the next heartbeat after
  a relay was switched at the button reads one as a string and runs off its array when no NUL
  happens to be in it.\<close>

lemma heartbeat_unannounced:
  assumes "link_ok 0 prefix ids s" "board_inv s"
    and "answer (MQTT_Subscribe (command_filter prefix ids) QOS0 P_mqtt_cmd_topic_Msg_cb) s \<noteq> SUCCESS"
    and "component_at (g_component_handle s ! 0) s = Some c" "nul_free (hc_state_topic c)"
  shows "wp (mqtt_connect_status_cb_handler MQTT_CONNECT_SUCCESS s)
    (\<lambda>t. mqtt_connect_status_cb_handler MQTT_EARTBEAT (t\<lparr>g_relay_update_flg := True\<rparr>) = None)"
proof -
  let ?sub = "MQTT_Subscribe (command_filter prefix ids) QOS0 P_mqtt_cmd_topic_Msg_cb"
  let ?u = "(called ?sub s)\<lparr>g_relay_update_flg := True\<rparr>"
  have l: "length (g_component_handle s) = 10" using link_okD(5) [OF assms(1)] .
  have u: "component_nth 0 ?u = Some (g_component_handle s ! 0)"
    "component_at (g_component_handle s ! 0) ?u = Some c"
    using l assms(4) by (simp_all add: component_nth_def at_defs)
  have "cstr (hc_state_topic c) = None" using assms(5) by (simp add: cstr_None_iff)
  with u have "mqtt_state_publish 0 m ?u = None" for m
    by (auto simp: mqtt_state_publish_def mqtt_message_publish_def
      hass_component_state_topic_get_def get_component_value_def split: Option.bind_splits option.splits)
  then have "publish_states ?u = None"
    by (auto simp: publish_states_def upt_conv_Cons split: Option.bind_splits)
  then have "mqtt_connect_status_cb_handler MQTT_EARTBEAT ?u = None"
    by (simp add: mqtt_connect_status_cb_handler_def)
  then show ?thesis
    using announce_wp [OF assms(1,2)] assms(3)
    by (auto simp: mqtt_connect_status_cb_handler_def wp_Some_iff Let_def)
qed

definition sim_stale :: fw where
  "sim_stale =
     (let p = g_component_handle sim_link ! 0; c = the (component_at p sim_link)
      in (store p (ComponentObj (c\<lparr>hc_state_topic := replicate 100 (CHR ''x'')\<rparr>)) sim_link)\<lparr>sys := refusing_sdk\<rparr>)"

lemma sim_stale:
  "link_ok 0 ''ha'' ''m'' sim_stale" "board_inv sim_stale" "sys sim_stale = refusing_sdk"
  "\<exists>c. component_at (g_component_handle sim_stale ! 0) sim_stale = Some c \<and> nul_free (hc_state_topic c)"
proof -
  let ?p = "g_component_handle sim_link ! 0"
  obtain c where c: "component_at ?p sim_link = Some c" "comp_ok False ''ha'' ''m'' 0 c"
    using link_okD(7) [OF sim_link(1), of 0] by auto
  let ?c = "c\<lparr>hc_state_topic := replicate 100 (CHR ''x'')\<rparr>"
  have s: "sim_stale = (store ?p (ComponentObj ?c) sim_link)\<lparr>sys := refusing_sdk\<rparr>"
    by (simp add: sim_stale_def c(1))
  have h: "heap sim_link ?p = Some (ComponentObj c)" using c(1) by (simp add: component_at_iff)
  have at: "led_at p sim_stale = led_at p sim_link" "relay_at p sim_stale = relay_at p sim_link"
    "mqtt_at p sim_stale = mqtt_at p sim_link" "mqtt_config_at p sim_stale = mqtt_config_at p sim_link"
    "discovery_at p sim_stale = discovery_at p sim_link" "device_at p sim_stale = device_at p sim_link"
    "component_at p sim_stale = (if p = ?p then Some ?c else component_at p sim_link)" for p
    using h by (simp_all add: at_defs s store_def)
  have ck: "comp_ok False ''ha'' ''m'' 0 ?c" using c(2) by (simp add: comp_ok_def)
  have "\<exists>d. component_at (g_component_handle sim_stale ! i) sim_stale = Some d \<and> comp_ok (i < 0) ''ha'' ''m'' i d"
    if lt: "i < 7" for i
  proof (cases "g_component_handle sim_link ! i = ?p")
    case True
    obtain d where "component_at ?p sim_link = Some d" "comp_ok False ''ha'' ''m'' i d"
      using link_okD(7) [OF sim_link(1) lt] True by auto
    then have "comp_ok False ''ha'' ''m'' i ?c" using c by (simp add: comp_ok_def)
    then show ?thesis using True by (simp add: at(7)) (simp add: s store_def)
  next
    case False
    then show ?thesis using link_okD(7) [OF sim_link(1) lt] by (simp add: at(7)) (simp add: s store_def)
  qed
  moreover have g: "g_mqtt_clien sim_stale = g_mqtt_clien sim_link" "g_device_handle sim_stale = g_device_handle sim_link"
    "g_mqtt_discovery_handle sim_stale = g_mqtt_discovery_handle sim_link"
    "g_component_num sim_stale = g_component_num sim_link" "g_led sim_stale = g_led sim_link"
    "g_component_handle sim_stale = g_component_handle sim_link" "g_relays sim_stale = g_relays sim_link"
    by (simp_all add: s store_def)
  ultimately show "link_ok 0 ''ha'' ''m'' sim_stale"
    using sim_link(1) unfolding link_ok_def by (simp add: at(3-6))
  have "pin_level refusing_sdk cs fid = pin_level (sim_sdk (\<lambda>_. 0)) cs fid" for cs fid
    by (induction cs) (auto simp: refusing_sdk_def)
  then have "level_of n sim_stale = level_of n sim_link" for n
    by (simp add: s store_def sim_link(5))
  then show "board_inv sim_stale"
    using board_cong(1) [of sim_stale sim_link] at(1,2) g sim_link(4) by simp
  show "sys sim_stale = refusing_sdk" by (simp add: s)
  show "\<exists>c. component_at (g_component_handle sim_stale ! 0) sim_stale = Some c \<and> nul_free (hc_state_topic c)"
    using at(7) g(6) by simp
qed

lemma heartbeat_unannounced_witness:
  "wp (mqtt_connect_status_cb_handler MQTT_CONNECT_SUCCESS sim_stale)
    (\<lambda>t. mqtt_connect_status_cb_handler MQTT_EARTBEAT (t\<lparr>g_relay_update_flg := True\<rparr>) = None)"
proof -
  obtain c where "component_at (g_component_handle sim_stale ! 0) sim_stale = Some c" "nul_free (hc_state_topic c)"
    using sim_stale(4) by blast
  from heartbeat_unannounced [OF sim_stale(1,2) _ this] show ?thesis
    by (simp add: answer_def sim_stale(3) refusing_sdk_def)
qed

end
