(* ===== verification/UserInit.thy ===== *)
theory UserInit
  imports PowerMeter MqttRun
begin

text \<open>
  \<open>src/components/user/user_init.c\<close> and \<open>user_power_meter.c\<close>: the initialisation of the strip,
  and the configuration the AT command \<open>AT+HASSMQTT\<close> leaves in flash for it.

  \<open>hass_config_t\<close> goes to flash byte by byte, so it is kept as its 404-byte image: the address in
  the first 100 bytes, the port (two bytes, little endian) at 100, the user name at 102, the
  password at 202, the mode (an enumeration of one byte) at 302, the prefix at 303, and one byte
  of padding.
\<close>

subsection \<open>The image of the configuration\<close>

definition field :: "nat \<Rightarrow> nat \<Rightarrow> cbuf \<Rightarrow> cbuf" where
  "field off n img = take n (drop off img)"

definition set_field :: "nat \<Rightarrow> cbuf \<Rightarrow> cbuf \<Rightarrow> cbuf" where
  "set_field off b img = take off img @ b @ drop (off + length b) img"

definition set_string :: "nat \<Rightarrow> string \<Rightarrow> cbuf \<Rightarrow> cbuf option" where
  "set_string off str img = do { b \<leftarrow> strcpy (field off 100 img) str; Some (set_field off b img) }"

definition u16_bytes :: "u16 \<Rightarrow> cbuf" where
  "u16_bytes w = [char_of (unat w mod 256), char_of (unat w div 256)]"

definition u16_of :: "cbuf \<Rightarrow> u16" where
  "u16_of b = of_nat (of_char (b ! 0) + 256 * of_char (b ! 1))"

definition hass_config_size :: nat where "hass_config_size = 404"

abbreviation (input) ADDRESS :: nat where "ADDRESS \<equiv> 0"
abbreviation (input) PORT :: nat where "PORT \<equiv> 100"
abbreviation (input) USERNAME :: nat where "USERNAME \<equiv> 102"
abbreviation (input) PASSWORD :: nat where "PASSWORD \<equiv> 202"
abbreviation (input) MODE :: nat where "MODE \<equiv> 302"
abbreviation (input) PREFIX :: nat where "PREFIX \<equiv> 303"

definition config_port :: "cbuf \<Rightarrow> u16" where
  "config_port img = u16_of (field PORT 2 img)"

definition config_mode :: "cbuf \<Rightarrow> pm_run_mode_e" where
  "config_mode img = of_nat (of_char (img ! MODE))"

subsection \<open>The IP address\<close>

definition user_ip_set :: "string \<Rightarrow> fw \<Rightarrow> fw option" where
  "user_ip_set ipAddress s = do { b \<leftarrow> strcpy (g_ip s) ipAddress; Some (s\<lparr>g_ip := b\<rparr>) }"

subsection \<open>The command that saves a configuration\<close>

text \<open>The bytes of the image go to flash one at a time; a failure ends the loop.\<close>

fun write_image :: "nat \<Rightarrow> cbuf \<Rightarrow> fw \<Rightarrow> fw" where
  "write_image i [] s = s"
| "write_image i (b # bs) s =
     (let (r, s) = sdk_int (Uflash_write i [b]) s in if r < 0 then s else write_image (Suc i) bs s)"

definition user_hass_mqtt_cmd_cb :: "string list \<Rightarrow> fw \<Rightarrow> (int \<times> fw) option" where
  "user_hass_mqtt_cmd_cb argv s =
     (if length argv < 4 \<or> length argv > 6 then Some (-1, s)
      else do {
        c \<leftarrow> hass_config_at (g_hass_config s) s;
        c \<leftarrow> set_string ADDRESS (argv ! 0) c;
        port \<leftarrow> atoi (argv ! 1 @ [NUL]);
        let c = set_field PORT (u16_bytes (word_of_int port)) c;
        c \<leftarrow> set_string USERNAME (argv ! 2) c;
        c \<leftarrow> set_string PASSWORD (argv ! 3) c;
        mode \<leftarrow> (if length argv \<ge> 5 then map_option word_of_int (atoi (argv ! 4 @ [NUL]))
                 else Some PM_RUN_MODE_1);
        let c = set_field MODE [char_of (unat (mode :: u8))] c;
        c \<leftarrow> set_string PREFIX (if length argv = 6 then argv ! 5 else ''homeassistant'') c;
        let s = store (g_hass_config s) (HassConfigObj c) s;
        let (r, s) = sdk_int (Uflash_erase_page 0 1) s;
        let (r, s) = sdk_int (Uflash_write 0 [CHR 0x01]) s;
        Some (0, write_image 1 c s)
      })"

subsection \<open>Reading it back\<close>

definition stored_byte :: "char \<Rightarrow> ret \<Rightarrow> char" where
  "stored_byte old r = (case r_bytes r of [] \<Rightarrow> old | b # bs \<Rightarrow> b)"

fun read_image :: "nat \<Rightarrow> cbuf \<Rightarrow> fw \<Rightarrow> cbuf \<times> fw" where
  "read_image i [] s = ([], s)"
| "read_image i (b # bs) s =
     (let (r, s) = sdk (Uflash_read i 1) s in
      if r_int r < 0 then (stored_byte b r # bs, s)
      else let (bs, s) = read_image (Suc i) bs s in (stored_byte b r # bs, s))"

definition user_read_configure :: "fw \<Rightarrow> (bool \<times> fw) option" where
  "user_read_configure s =
     (let flg = hd (stack_junk 1 s);
          (r, s) = sdk (Uflash_read 0 1) s;
          flg = stored_byte flg r in
      if r_int r > 0 \<and> flg = CHR 0x01 then do {
        c \<leftarrow> hass_config_at (g_hass_config s) s;
        let (c, s) = read_image 1 c s;
        Some (True, store (g_hass_config s) (HassConfigObj c) s)
      }
      else Some (False, s))"

subsection \<open>Initialisation\<close>

definition user_power_meter_init :: "pm_run_mode_e \<Rightarrow> fw \<Rightarrow> fw" where
  "user_power_meter_init run_mode s = powermeter_init GPIO7 GPIO12 GPIO4 run_mode s"

definition get_mac :: "fw \<Rightarrow> fw option" where
  "get_mac s =
     (let (r, s) = sdk Get_mac_address s in
      if length (r_bytes r) \<le> length (g_mac s)
      then Some (s\<lparr>g_mac := r_bytes r @ drop (length (r_bytes r)) (g_mac s)\<rparr>) else None)"

text \<open>Up to the reading of the configuration.\<close>

definition hardware_init :: "fw \<Rightarrow> fw option" where
  "hardware_init s =
     do {
       s \<leftarrow> get_mac s;
       let (p, s) = hfmem_malloc ''hass_config_t'' (\<lambda>p. HassConfigObj (junk s p 0 hass_config_size)) s;
       Some (user_relay_init (user_led_init (user_key_init (s\<lparr>g_hass_config := p\<rparr>))))
     }"

text \<open>With a configuration: the power meter and MQTT.\<close>

definition configured_init :: "fw \<Rightarrow> fw option" where
  "configured_init s =
     do {
       c \<leftarrow> hass_config_at (g_hass_config s) s;
       let s = user_power_meter_init (config_mode c) s;
       mac \<leftarrow> cstr (g_mac s);
       ip \<leftarrow> cstr (g_ip s);
       address \<leftarrow> cstr (field ADDRESS 100 c);
       username \<leftarrow> cstr (field USERNAME 100 c);
       password \<leftarrow> cstr (field PASSWORD 100 c);
       prefix \<leftarrow> cstr (field PREFIX 100 c);
       user_mqtt_init mac ip address (config_port c) username password prefix s
     }"

definition user_init :: "fw \<Rightarrow> fw option" where
  "user_init s =
     do {
       s \<leftarrow> hardware_init s;
       (configured, s) \<leftarrow> user_read_configure s;
       s \<leftarrow> (if configured then configured_init s else Some s);
       Some (hfmem_free (g_hass_config s) s)
     }"

subsection \<open>Fields of the image\<close>

lemma length_set_field [simp]: "off + length b \<le> length img \<Longrightarrow> length (set_field off b img) = length img"
  by (simp add: set_field_def)

lemma field_set_same: "off + length b \<le> length img \<Longrightarrow> n = length b \<Longrightarrow> field off n (set_field off b img) = b"
  by (simp add: set_field_def field_def)

lemma field_set_other:
  assumes "off + length b \<le> length img" "k + n \<le> off \<or> off + length b \<le> k"
  shows "field k n (set_field off b img) = field k n img"
proof (cases "k + n \<le> off")
  case True
  then have "take (n + k) (set_field off b img) = take (n + k) img"
    using assms(1) by (simp add: set_field_def add.commute)
  then show ?thesis unfolding field_def take_drop by simp
next
  case False
  then obtain j where k: "k = off + length b + j" using assms(2) le_Suc_ex by blast
  have "drop k (set_field off b img) = drop k img"
    using assms(1) unfolding set_field_def k by (simp add: ac_simps)
  then show ?thesis by (simp add: field_def)
qed

lemma nth_field: "off < length img \<Longrightarrow> img ! off = hd (field off 1 img)"
  by (simp add: field_def hd_drop_conv_nth)

lemma length_field [simp]: "off + n \<le> length img \<Longrightarrow> length (field off n img) = n"
  by (simp add: field_def)


lemma u16_of_bytes [simp]: "u16_of (u16_bytes w) = w"
proof -
  have "unat w div 256 < 256" using unat_u16_less [of w] by (simp add: less_mult_imp_div_less)
  then show ?thesis by (simp add: u16_of_def u16_bytes_def)
qed

lemma length_u16_bytes [simp]: "length (u16_bytes w) = 2"
  by (simp add: u16_bytes_def)

text \<open>What an image says.\<close>

definition config_holds ::
  "string \<Rightarrow> u16 \<Rightarrow> string \<Rightarrow> string \<Rightarrow> pm_run_mode_e \<Rightarrow> string \<Rightarrow> cbuf \<Rightarrow> bool" where
  "config_holds address port username password mode prefix img \<longleftrightarrow>
     length img = hass_config_size \<and>
     cstr (field ADDRESS 100 img) = Some address \<and> config_port img = port \<and>
     cstr (field USERNAME 100 img) = Some username \<and> cstr (field PASSWORD 100 img) = Some password \<and>
     config_mode img = mode \<and> cstr (field PREFIX 100 img) = Some prefix"

lemma image_made:
  assumes "length b0 = 100" "length b1 = 100" "length b2 = 100" "length b3 = 100" "length img = hass_config_size"
    and "cstr b0 = Some address" "cstr b1 = Some username" "cstr b2 = Some password" "cstr b3 = Some prefix"
  shows "config_holds address port username password mode prefix
    (set_field PREFIX b3 (set_field MODE [char_of (unat mode)] (set_field PASSWORD b2
      (set_field USERNAME b1 (set_field PORT (u16_bytes port) (set_field ADDRESS b0 img))))))"
  using assms
  by (simp add: config_holds_def config_port_def config_mode_def nth_field hass_config_size_def
      field_set_same field_set_other)

subsection \<open>The flash\<close>

text \<open>
  The flash the SDK gives the application, as its header describes it: erasing sets the bytes of
  whole pages, writing clears bits. What is in it follows from the calls made, so it outlives the
  state of the program.
\<close>

abbreviation (input) PAGE_SIZE :: nat where "PAGE_SIZE \<equiv> 4096"

definition clear_bits :: "char \<Rightarrow> char \<Rightarrow> char" where
  "clear_bits old new = char_of ((of_char old :: nat) AND of_char new)"

fun flash_at :: "call list \<Rightarrow> nat \<Rightarrow> char" where
  "flash_at [] a = CHR 0xFF"
| "flash_at (Uflash_erase_page p n # cs) a =
     (if p \<le> a \<and> a < p + n * PAGE_SIZE then CHR 0xFF else flash_at cs a)"
| "flash_at (Uflash_write p b # cs) a =
     (if p \<le> a \<and> a < p + length b then clear_bits (flash_at cs a) (b ! (a - p)) else flash_at cs a)"
| "flash_at (c # cs) a = flash_at cs a"

definition flash_ok :: "fw \<Rightarrow> bool" where
  "flash_ok s \<longleftrightarrow>
     (\<forall>cs a n. r_int (sys s cs (Uflash_erase_page a n)) = HF_SUCCESS) \<and>
     (\<forall>cs a b. r_int (sys s cs (Uflash_write a b)) = int (length b)) \<and>
     (\<forall>cs a n. sys s cs (Uflash_read a n) = \<lparr>r_int = int n, r_bytes = map (flash_at cs) [a..<a + n]\<rparr>)"

lemma flash_okD:
  assumes "flash_ok s"
  shows "r_int (sys s cs (Uflash_erase_page a n)) = HF_SUCCESS"
    "r_int (sys s cs (Uflash_write a b)) = int (length b)"
    "sys s cs (Uflash_read a n) = \<lparr>r_int = int n, r_bytes = map (flash_at cs) [a..<a + n]\<rparr>"
  using assms by (simp_all add: flash_ok_def)

lemma clear_bits_erased [simp]: "clear_bits (CHR 0xFF) c = c"
proof -
  have "(255 :: nat) AND of_char c = of_char c AND mask 8" by (simp add: mask_eq_exp_minus_1 and.commute)
  also have "\<dots> = take_bit 8 (of_char c)" by (simp add: take_bit_eq_mask)
  also have "\<dots> = of_char c" by (simp add: take_bit_nat_eq_self)
  finally show ?thesis by (simp add: clear_bits_def)
qed

text \<open>Calls that leave the flash alone.\<close>

fun flash_quiet :: "call \<Rightarrow> bool" where
  "flash_quiet (Uflash_erase_page p n) = False"
| "flash_quiet (Uflash_write p b) = False"
| "flash_quiet c = True"

lemma flash_quiet_at [simp]: "flash_quiet c \<Longrightarrow> flash_at (c # cs) a = flash_at cs a"
  by (cases c) simp_all




subsection \<open>A saved configuration is read back\<close>






subsection \<open>The board comes up\<close>

text \<open>Making LED and relays only allocates: older objects and the flash stay.\<close>

lemma flash_ok_simps [simp]:
  "flash_ok (s\<lparr>calls := cs\<rparr>) = flash_ok s" "flash_ok (s\<lparr>heap := h\<rparr>) = flash_ok s"
  "flash_ok (store p x s) = flash_ok s"
  by (simp_all add: flash_ok_def store_def)

lemma malloc_flash:
  "hfmem_malloc n fresh s = (p, t) \<Longrightarrow> flash_at (calls t) a = flash_at (calls s) a"
  by (cases rule: malloc_cases [of n fresh s]) auto

lemma relay_init_loop_flash: "flash_at (calls (relay_init_loop is s)) a = flash_at (calls s) a"
proof (induction "is" arbitrary: s)
  case (Cons i "is")
  obtain p t where t: "hfmem_malloc ''relay_device_t'' (\<lambda>_. RelayObj \<lparr>relay_gpio_num = relays_gpio ! i,
      relay_trigger_level = GPIO_LOW, relay_status = RELAY_STATUS_CLOSE\<rparr>) s = (p, t)" by fastforce
  then show ?case using Cons.IH malloc_flash [OF t] by (simp add: relay_create_def)
qed simp

lemma board_init_keeps:
  assumes "heap_ok s" "malloc_ok s" "length (g_relays s) = 6"
  shows "p < brk s \<Longrightarrow> heap (user_relay_init (user_led_init s)) p = heap s p"
    "flash_at (calls (user_relay_init (user_led_init s))) a = flash_at (calls s) a"
    "malloc_ok (user_relay_init (user_led_init s))"
proof -
  let ?u = "user_led_init s"
  note u = user_led_init_wp [OF assms(1,2)]
  have made: "relays_made 0 (brk ?u) ?u" using assms(3) u by (simp add: relays_made_def)
  note loop = relay_init_loop_made [OF u(7,8) made]
  then show "malloc_ok (user_relay_init ?u)" by (simp add: user_relay_init_def Let_def)
  show "heap (user_relay_init ?u) p = heap s p" if "p < brk s"
    using loop that u(2,3) by (simp add: user_relay_init_def Let_def)
  have "flash_at (calls ?u) a = flash_at (calls s) a"
    using assms(2) by (simp add: user_led_init_def led_create_def malloc_ok_eq)
  then show "flash_at (calls (user_relay_init ?u)) a = flash_at (calls s) a"
    by (simp add: user_relay_init_def relay_init_loop_flash)
qed

text \<open>The address the network driver reports.\<close>

definition mac_is :: "string \<Rightarrow> fw \<Rightarrow> bool" where
  "mac_is mac s \<longleftrightarrow> length mac < 21 \<and> nul_free mac \<and> (\<forall>cs. r_bytes (sys s cs Get_mac_address) = mac @ [NUL])"

text \<open>The board as it comes up: what the rest of the initialisation relies on.\<close>

definition ready :: "string \<Rightarrow> string \<Rightarrow> call list \<Rightarrow> fw \<Rightarrow> bool" where
  "ready mac ip cs s \<longleftrightarrow>
     heap_ok s \<and> malloc_ok s \<and> flash_ok s \<and> board_inv s \<and>
     relay_bank s = replicate 6 (Some RELAY_STATUS_CLOSE) \<and> user_led_states_get s = Some LED_STATUS_OFF \<and>
     flash_at (calls s) = flash_at cs \<and>
     cstr (g_mac s) = Some mac \<and> cstr (g_ip s) = Some ip \<and>
     g_component_num s = 7 \<and> length (g_component_handle s) = 10 \<and>
     (\<exists>img. hass_config_at (g_hass_config s) s = Some img \<and> length img = hass_config_size)"

text \<open>Power-on: nothing allocated by the board yet, and no pin driven.\<close>

definition power_on :: "string \<Rightarrow> string \<Rightarrow> fw \<Rightarrow> bool" where
  "power_on mac ip s \<longleftrightarrow>
     heap_ok s \<and> malloc_ok s \<and> flash_ok s \<and> mac_is mac s \<and> length (g_mac s) = 21 \<and>
     cstr (g_ip s) = Some ip \<and> (\<forall>n. level_of n s = None) \<and> length (g_relays s) = 6 \<and>
     g_component_num s = 7 \<and> length (g_component_handle s) = 10"

lemma hardware_init_ready:
  assumes "power_on mac ip s"
  shows "wp (hardware_init s) (\<lambda>t. ready mac ip (calls s) t \<and> sys t = sys s)"
proof -
  note a = assms [unfolded power_on_def mac_is_def]
  let ?p = "brk s" and ?m = "mac @ NUL # drop (Suc (length mac)) (g_mac s)"
  define u where "u = s\<lparr>g_mac := ?m,
      heap := (heap s)(?p \<mapsto> HassConfigObj (junk (s\<lparr>g_mac := ?m, calls := Get_mac_address # calls s\<rparr>) ?p 0 hass_config_size)),
      brk := Suc ?p, g_hass_config := ?p,
      calls := Configure_fpin_interrupt (fid_of GPIO25) HFPIO_IT_EDGE P_interrupt_handler True #
        Malloc ''hass_config_t'' # Get_mac_address # calls s\<rparr>"
  let ?t = "user_relay_init (user_led_init u)"
  have "get_mac s = Some (s\<lparr>g_mac := ?m, calls := Get_mac_address # calls s\<rparr>)"
    using a by (simp add: get_mac_def sdk_def)
  moreover have "malloc_ok (s\<lparr>g_mac := ?m, calls := Get_mac_address # calls s\<rparr>)"
    using a by (simp add: malloc_ok_def)
  ultimately have h: "hardware_init s = Some ?t"
    by (simp add: hardware_init_def malloc_ok_eq user_key_init_def sdk_int_def u_def)
  have u: "heap_ok u" "malloc_ok u" "level_of n u = None" "length (g_relays u) = 6" "flash_ok u"
    "flash_at (calls u) = flash_at (calls s)" "sys u = sys s" for n
    using a by (auto simp: u_def heap_ok_def malloc_ok_def flash_ok_def)
  obtain cs h b l r where f: "?t = u\<lparr>calls := cs, heap := h, brk := b, g_led := l, g_relays := r\<rparr>"
    using board_init_frame [of u] by blast
  have g: "g_mac ?t = ?m" "g_ip ?t = g_ip s" "g_component_num ?t = 7" "length (g_component_handle ?t) = 10"
    "g_hass_config ?t = ?p" "sys ?t = sys s"
    unfolding f using a by (simp_all add: u_def)
  have fl: "flash_ok ?t" unfolding flash_ok_def g(6) using u(5,7) by (simp add: flash_ok_def)
  note k = board_init_keeps [OF u(1,2,4)]
  have "heap ?t ?p = heap u ?p" using k(1) [of ?p] by (simp add: u_def)
  then have c: "hass_config_at ?p ?t = Some (junk (s\<lparr>g_mac := ?m, calls := Get_mac_address # calls s\<rparr>) ?p 0 hass_config_size)"
    by (simp add: hass_config_at_iff) (simp add: u_def)
  have "cstr ?m = Some mac" using a by (simp add: cstr_append_NUL)
  moreover have "flash_at (calls ?t) = flash_at (calls s)" using k(2) u(6) by auto
  ultimately have "ready mac ip (calls s) ?t"
    unfolding ready_def g c using board_init_heap [OF u(1,2,4)] k(3) fl board_init [OF u(1,2,3,4)] a by simp
  then show ?thesis unfolding h using g(6) by simp
qed

lemma pin_level_other_call:
  "(\<And>fl. c \<noteq> Configure_fpin f fl) \<Longrightarrow> pin_level sy (c # cs) f = pin_level sy cs f"
  by auto

lemma pin_level_append:
  "(\<And>c fl. c \<in> set ds \<Longrightarrow> c \<noteq> Configure_fpin f fl) \<Longrightarrow> pin_level sy (ds @ cs) f = pin_level sy cs f"
proof (induction ds)
  case (Cons d ds)
  then have "d \<noteq> Configure_fpin f fl" for fl by simp
  with Cons show ?case by simp
qed simp



lemma board_obj:
  assumes "heap s p = Some (HassConfigObj x)" "y = None \<or> (\<exists>z. y = Some (HassConfigObj z))"
    and "list_all (\<lambda>c. \<forall>f fl. c \<noteq> Configure_fpin f fl) ds"
  shows "board_inv (s\<lparr>heap := (heap s)(p := y), calls := ds @ calls s\<rparr>) = board_inv s"
    "relay_bank (s\<lparr>heap := (heap s)(p := y), calls := ds @ calls s\<rparr>) = relay_bank s"
    "link_ok k prefix ids (s\<lparr>heap := (heap s)(p := y), calls := ds @ calls s\<rparr>) = link_ok k prefix ids s"
    "user_led_states_get (s\<lparr>heap := (heap s)(p := y), calls := ds @ calls s\<rparr>) = user_led_states_get s"
proof -
  let ?t = "s\<lparr>heap := (heap s)(p := y), calls := ds @ calls s\<rparr>"
  have at: "led_at q ?t = led_at q s" "relay_at q ?t = relay_at q s" "mqtt_at q ?t = mqtt_at q s"
    "mqtt_config_at q ?t = mqtt_config_at q s" "discovery_at q ?t = discovery_at q s"
    "device_at q ?t = device_at q s" "component_at q ?t = component_at q s" for q
    using assms(1,2) by (auto simp: at_defs)
  have lv: "level_of n ?t = level_of n s" for n
    using assms(3) pin_level_append [of ds "fid_of n" "sys s" "calls s"] by (auto simp: list_all_iff)
  show "board_inv ?t = board_inv s" "relay_bank ?t = relay_bank s"
    by (rule board_cong; use at lv in simp)+
  show "link_ok k prefix ids ?t = link_ok k prefix ids s"
    by (rule link_ok_cong) (use at in simp_all)
  show "user_led_states_get ?t = user_led_states_get s" by (simp add: user_led_states_get_def led_states_get_def at)
qed



text \<open>Freeing the configuration.\<close>

lemma free_config:
  assumes "hass_config_at (g_hass_config s) s = Some c"
  shows "board_inv (hfmem_free (g_hass_config s) s) = board_inv s"
    "relay_bank (hfmem_free (g_hass_config s) s) = relay_bank s"
    "link_ok k prefix ids (hfmem_free (g_hass_config s) s) = link_ok k prefix ids s"
    "user_led_states_get (hfmem_free (g_hass_config s) s) = user_led_states_get s"
proof -
  have p: "heap s (g_hass_config s) = Some (HassConfigObj c)" using assms by (simp add: hass_config_at_iff)
  have "hfmem_free (g_hass_config s) s =
      s\<lparr>heap := (heap s)(g_hass_config s := None), calls := [Free (g_hass_config s)] @ calls s\<rparr>"
    by (simp add: hfmem_free_def sdk_int_def)
  then show "board_inv (hfmem_free (g_hass_config s) s) = board_inv s"
    "relay_bank (hfmem_free (g_hass_config s) s) = relay_bank s"
    "link_ok k prefix ids (hfmem_free (g_hass_config s) s) = link_ok k prefix ids s"
    "user_led_states_get (hfmem_free (g_hass_config s) s) = user_led_states_get s"
    using board_obj [OF p, of None "[Free (g_hass_config s)]"] by simp_all
qed

lemma free_config_any:
  "hass_config_at (g_hass_config (hfmem_free (g_hass_config s) s)) (hfmem_free (g_hass_config s) s) = None"
  by (simp add: hfmem_free_def sdk_int_def at_defs)

subsection \<open>The configuration stays where it is\<close>

text \<open>Nothing \<open>user_mqtt_init\<close> does touches the configuration, which \<open>user_init\<close> frees after it.\<close>

definition config_kept :: "ptr \<Rightarrow> hass_config_t \<Rightarrow> fw \<Rightarrow> bool" where
  "config_kept p x s \<longleftrightarrow> heap_ok s \<and> heap s p = Some (HassConfigObj x) \<and> g_hass_config s = p"

lemma config_kept_simps [simp]:
  "config_kept p x (s\<lparr>calls := cs\<rparr>) = config_kept p x s"
  "config_kept p x (s\<lparr>g_device_handle := q\<rparr>) = config_kept p x s"
  "config_kept p x (s\<lparr>g_mqtt_discovery_handle := q\<rparr>) = config_kept p x s"
  "config_kept p x (s\<lparr>g_mqtt_clien := q\<rparr>) = config_kept p x s"
  "config_kept p x (set_component i q s) = config_kept p x s"
  by (simp_all add: config_kept_def heap_ok_def set_component_def)














subsection \<open>An environment for the witnesses\<close>

text \<open>The simulated SDK, with a flash that works and a hardware address.\<close>

definition flash_sdk :: "call list \<Rightarrow> call \<Rightarrow> ret" where
  "flash_sdk cs c =
     (case c of
        Uflash_read a n \<Rightarrow> \<lparr>r_int = int n, r_bytes = map (flash_at cs) [a..<a + n]\<rparr>
      | Uflash_write a b \<Rightarrow> \<lparr>r_int = int (length b), r_bytes = []\<rparr>
      | Get_mac_address \<Rightarrow> \<lparr>r_int = HF_SUCCESS, r_bytes = ''m'' @ [NUL]\<rparr>
      | _ \<Rightarrow> sim_sdk (\<lambda>_. 0) cs c)"

definition pad :: "string \<Rightarrow> cbuf" where
  "pad str = str @ replicate (100 - length str) NUL"

definition sim_image :: cbuf where
  "sim_image = set_field PREFIX (pad ''ha'') (set_field MODE [char_of (0 :: nat)] (set_field PASSWORD (pad ''p'')
     (set_field USERNAME (pad ''u'') (set_field PORT (u16_bytes 1883) (set_field ADDRESS (pad ''b'')
       (replicate hass_config_size NUL))))))"

text \<open>Power-on with that configuration in flash.\<close>

definition sim_power_on :: fw where
  "sim_power_on = (boot_state flash_sdk (\<lambda>_ _. NUL))\<lparr>calls := [Uflash_write 0 (CHR 0x01 # sim_image)]\<rparr>"

lemma pad_facts: "length str < 100 \<Longrightarrow> length (pad str) = 100"
  "length str < 100 \<Longrightarrow> nul_free str \<Longrightarrow> cstr (pad str) = Some str"
proof -
  assume l: "length str < 100"
  then show "length (pad str) = 100" by (simp add: pad_def)
  obtain n where "100 - length str = Suc n" using l by (cases "100 - length str") auto
  then show "cstr (pad str) = Some str" if "nul_free str" using that by (simp add: pad_def cstr_append_NUL)
qed

lemma sim_image: "config_holds ''b'' 1883 ''u'' ''p'' PM_RUN_MODE_1 ''ha'' sim_image"
  using image_made [of "pad ''b''" "pad ''u''" "pad ''p''" "pad ''ha''" "replicate hass_config_size NUL"
      "''b''" "''u''" "''p''" "''ha''" 1883 PM_RUN_MODE_1]
  by (simp add: sim_image_def pad_facts)

lemma flash_sdk: "sys s = flash_sdk \<Longrightarrow> flash_ok s" "sys s = flash_sdk \<Longrightarrow> malloc_ok s"
  by (simp_all add: flash_ok_def malloc_ok_def flash_sdk_def sim_sdk_def)


definition sim_unset :: fw where
  "sim_unset = boot_state flash_sdk (\<lambda>_ _. NUL)"

lemma sim_power_on: "power_on ''m'' [] sim_power_on" "power_on ''m'' [] sim_unset"
proof -
  have "flash_ok sim_power_on" "malloc_ok sim_power_on" "flash_ok sim_unset" "malloc_ok sim_unset"
    by (rule flash_sdk; simp add: sim_power_on_def sim_unset_def boot_state_def)+
  then show "power_on ''m'' [] sim_power_on" "power_on ''m'' [] sim_unset"
    by (simp_all add: power_on_def mac_is_def)
      (simp_all add: sim_power_on_def sim_unset_def boot_state_def heap_ok_def flash_sdk_def)
qed

lemma unconfigured_boots:
  assumes "power_on mac ip s" "flash_at (calls s) 0 \<noteq> CHR 0x01"
  shows "wp (user_init s) (\<lambda>t. board_inv t \<and> relay_bank t = replicate 6 (Some RELAY_STATUS_CLOSE))"
proof -
  obtain s1 where s1: "hardware_init s = Some s1" "ready mac ip (calls s) s1"
    using hardware_init_ready [OF assms(1)] by (auto simp: wp_Some_iff)
  note r = s1(2) [unfolded ready_def]
  obtain img where img: "hass_config_at (g_hass_config s1) s1 = Some img" using r by blast
  let ?t = "called (Uflash_read 0 1) s1"
  have "sdk (Uflash_read 0 1) s1 = (\<lparr>r_int = 1, r_bytes = [flash_at (calls s) 0]\<rparr>, ?t)"
    using r flash_okD(3) [of s1] by (simp add: sdk_def)
  then have "user_init s = Some (hfmem_free (g_hass_config ?t) ?t)"
    using s1(1) assms(2) by (simp add: user_init_def user_read_configure_def stored_byte_def)
  moreover have "hass_config_at (g_hass_config ?t) ?t = Some img" using img by (simp add: at_defs)
  ultimately show ?thesis using free_config [of ?t img] r by simp
qed

subsection \<open>Properties\<close>





text \<open>Once initialisation has returned, the command that saves a configuration uses freed memory: with any
  number of arguments it accepts, its first \<open>strcpy\<close> goes through \<open>hass_config\<close>, which
  \<open>user_init\<close> has freed.\<close>

lemma command_after_init:
  assumes "user_init s = Some t" "4 \<le> length argv" "length argv \<le> 6"
  shows "user_hass_mqtt_cmd_cb argv t = None"
proof -
  obtain u where "t = hfmem_free (g_hass_config u) u"
    using assms(1) by (auto simp: user_init_def bind_Some_conv)
  then have "hass_config_at (g_hass_config t) t = None" using free_config_any by simp
  with assms(2,3) show ?thesis by (simp add: user_hass_mqtt_cmd_cb_def)
qed

lemma command_after_init_witness:
  "user_hass_mqtt_cmd_cb [''b'', ''1883'', ''u'', ''p''] (the (user_init sim_unset)) = None"
proof -
  have "flash_at (calls sim_unset) 0 \<noteq> CHR 0x01" by (simp add: sim_unset_def boot_state_def)
  from unconfigured_boots [OF sim_power_on(2) this] obtain t where "user_init sim_unset = Some t"
    by (auto simp: wp_Some_iff)
  then show ?thesis using command_after_init [of sim_unset t "[''b'', ''1883'', ''u'', ''p'']"] by simp
qed

end
