(* ===== verification/AppMain.thy ===== *)
theory AppMain
  imports UserInit
begin

text \<open>
  \<open>src/app_main.c\<close>: the table of pins, the type the device reports for pairing, the AT commands,
  the callback for events of the system, and the main function.
\<close>

subsection \<open>The pins\<close>

text \<open>\<open>hfgpio.h\<close>: a pin is its number with flags for what it can do.\<close>

abbreviation (input) F_GPIO :: u32 where "F_GPIO \<equiv> 0x00030000"
abbreviation (input) F_IT :: u32 where "F_IT \<equiv> 0x00810000"
abbreviation (input) F_PWM :: u32 where "F_PWM \<equiv> 0x01000000"
abbreviation (input) F_ADC :: u32 where "F_ADC \<equiv> 0x02000000"
abbreviation (input) HFM_NOPIN :: u32 where "HFM_NOPIN \<equiv> 0"
abbreviation (input) HFM_PIN_NUMBER :: nat where "HFM_PIN_NUMBER \<equiv> 41"
abbreviation (input) HFM_MAX_FUNC_CODE :: nat where "HFM_MAX_FUNC_CODE \<equiv> HFM_PIN_NUMBER * 3"
abbreviation (input) HFM_TYPE_LPT230 :: int where "HFM_TYPE_LPT230 \<equiv> 1"

definition HFM_PIN :: "u32 \<Rightarrow> u32 \<Rightarrow> u32" where
  "HFM_PIN flags n = (F_GPIO OR F_IT) OR (flags OR n)"

fun LPx30 :: "gpio_number_e \<Rightarrow> u32" where
  "LPx30 GPIO25 = HFM_PIN F_PWM 31"
| "LPx30 GPIO5 = HFM_PIN 0 14"
| "LPx30 GPIO22 = HFM_PIN F_PWM 34"
| "LPx30 GPIO24 = HFM_PIN F_PWM 32"
| "LPx30 GPIO8 = HFM_PIN F_ADC 13"
| "LPx30 GPIO23 = HFM_PIN F_PWM 33"
| "LPx30 GPADC0 = HFM_PIN F_ADC 11"
| "LPx30 GPIO3 = HFM_PIN F_PWM 23"
| "LPx30 GPIO7 = HFM_PIN 0 12"
| "LPx30 GPIO12 = HFM_PIN 0 30"
| "LPx30 GPIO4 = HFM_PIN 0 15"

definition LPx30_GPIO1 :: u32 where "LPx30_GPIO1 = HFM_PIN 0 21"
definition LPx30_GPIO2 :: u32 where "LPx30_GPIO2 = HFM_PIN 0 22"

text \<open>The table, by function id; C fills the rest of the array with zeros.\<close>

definition hf_gpio_fid_to_pid_map_table :: "u32 list" where
  "hf_gpio_fid_to_pid_map_table =
     replicate 6 HFM_NOPIN @ [LPx30_GPIO2, HFM_NOPIN, LPx30_GPIO1, HFM_NOPIN] @
     replicate 4 HFM_NOPIN @ replicate 4 HFM_NOPIN @ replicate 5 HFM_NOPIN @ replicate 6 HFM_NOPIN @
     map LPx30 [GPIO25, GPIO5, GPIO22, GPIO24, GPIO8, GPIO23, GPADC0, GPIO3, GPIO7, GPIO12, GPIO4] @
     replicate (HFM_MAX_FUNC_CODE - 40) HFM_NOPIN"

definition g_module_id :: int where "g_module_id = HFM_TYPE_LPT230"

subsection \<open>The type of the device\<close>

text \<open>The 21 bytes kept in the user binary area: a mark, a checksum, the type.\<close>

definition checksum :: "string \<Rightarrow> u8" where
  "checksum t = sum_list (map of_char t)"

definition overlay :: "cbuf \<Rightarrow> cbuf \<Rightarrow> cbuf" where
  "overlay b old = take (length old) b @ drop (length b) old"

definition dev_param_read :: "cbuf \<Rightarrow> fw \<Rightarrow> ((int \<times> cbuf) \<times> fw) option" where
  "dev_param_read wechat_type s =
     (let type = stack_junk 21 s;
          (r, s) = sdk (Userbin_read 0 21) s;
          type = overlay (r_bytes r) type
      in if type ! 0 = CHR 0x5A then do {
           p \<leftarrow> cstr (drop 2 type);
           if length p > 18 then Some ((-1, wechat_type), s)
           else if of_char (type ! 1) = checksum p then do {
             wechat_type \<leftarrow> strcpy wechat_type p;
             Some ((HF_SUCCESS, wechat_type), s)
           }
           else Some ((-1, wechat_type), s)
         }
         else Some ((-1, wechat_type), s))"

definition dev_param_write :: "string \<Rightarrow> fw \<Rightarrow> (int \<times> fw) option" where
  "dev_param_write wechat_type s =
     do {
       let type = stack_junk 21 s;
       b \<leftarrow> strcpy (drop 2 type) wechat_type;
       let type = CHR 0x5A # char_of (unat (checksum wechat_type)) # b;
       let (r, s) = sdk (Userbin_write 0 type) s;
       Some (HF_SUCCESS, s)
     }"

subsection \<open>AT commands\<close>

text \<open>A command gets its arguments and a buffer for the answer.\<close>

definition sprintf :: "cbuf \<Rightarrow> string \<Rightarrow> cbuf option" where
  "sprintf rsp str = strcpy rsp str"

text \<open>\<open>__DATE__\<close> and \<open>__TIME__\<close> are whatever the compiler put there.\<close>

definition hf_cmd_get_version :: "string \<Rightarrow> string \<Rightarrow> string list \<Rightarrow> cbuf \<Rightarrow> fw \<Rightarrow> (int \<times> cbuf \<times> fw) option" where
  "hf_cmd_get_version date time argv rsp s =
     (if length argv = 0 then do {
        rsp \<leftarrow> sprintf rsp (''='' @ ''Airkiss 2'' @ ''('' @ date @ '' '' @ time @ '')'');
        Some (0, rsp, s)
      }
      else Some (-3, rsp, s))"

definition hf_atcmd_set_type :: "string list \<Rightarrow> cbuf \<Rightarrow> fw \<Rightarrow> (int \<times> cbuf \<times> fw) option" where
  "hf_atcmd_set_type argv rsp s =
     (if length argv = 0 then do {
        ((r, type), s) \<leftarrow> dev_param_read (stack_junk 21 s) s;
        rsp \<leftarrow> (if r = HF_SUCCESS then do { t \<leftarrow> cstr type; sprintf rsp (''='' @ t) } else sprintf rsp ''='');
        Some (0, rsp, s)
      }
      else if length argv = 1 then
        if length (argv ! 0) < 18 then do {
          (r, s) \<leftarrow> dev_param_write (argv ! 0) s;
          Some (if r = HF_SUCCESS then 0 else -5, rsp, s)
        }
        else Some (-4, rsp, s)
      else Some (-3, rsp, s))"

definition atcmd_hass_mqtt :: "string list \<Rightarrow> cbuf \<Rightarrow> fw \<Rightarrow> (int \<times> cbuf \<times> fw) option" where
  "atcmd_hass_mqtt argv rsp s =
     do { (r, s) \<leftarrow> user_hass_mqtt_cmd_cb argv s; Some (r, rsp, s) }"

definition atcmd_power_cf :: "string list \<Rightarrow> cbuf \<Rightarrow> fw \<Rightarrow> (int \<times> cbuf \<times> fw) option" where
  "atcmd_power_cf argv rsp s =
     (if length argv \<noteq> 1 then Some (-1, rsp, s)
      else do {
        n \<leftarrow> atoi (argv ! 0 @ [NUL]);
        Some (0, rsp, set_power_multiplier (fl32 (of_int n)) s)
      })"

definition user_define_at_cmds_table ::
  "string \<Rightarrow> string \<Rightarrow> (string \<times> (string list \<Rightarrow> cbuf \<Rightarrow> fw \<Rightarrow> (int \<times> cbuf \<times> fw) option)) list" where
  "user_define_at_cmds_table date time =
     [(''HASSMQTT'', atcmd_hass_mqtt), (''POWERCF'', atcmd_power_cf), (''TYPE'', hf_atcmd_set_type),
      (''APPVER'', hf_cmd_get_version date time)]"

subsection \<open>Events of the system\<close>

datatype hfsys_event =
  HFE_WIFI_STA_CONNECTED | HFE_WIFI_STA_DISCONNECTED | HFE_CONFIG_RELOAD | HFE_DHCP_OK | HFE_SMTLK_OK | HFE_WPS_OK

text \<open>What \<open>param\<close> points at.\<close>

datatype event_param = Null | Address u32 | Text cbuf

text \<open>Dotted decimals of the bytes in memory order; the ARM keeps the lowest first.\<close>

definition inet_ntoa :: "u32 \<Rightarrow> string" where
  "inet_ntoa a = dec (unat a mod 256) @ ''.'' @ dec (unat a div 256 mod 256) @ ''.'' @
     dec (unat a div 65536 mod 256) @ ''.'' @ dec (unat a div 16777216)"

text \<open>What follows the first escape byte: none of it if there is no such byte.\<close>

definition user_info :: "string \<Rightarrow> string" where
  "user_info pwd = tl (dropWhile (\<lambda>c. c \<noteq> CHR 0x1B) pwd)"

definition sys_event_callback :: "hfsys_event \<Rightarrow> event_param \<Rightarrow> fw \<Rightarrow> (int \<times> fw) option" where
  "sys_event_callback event_id param s =
     (case event_id of
        HFE_DHCP_OK \<Rightarrow>
          (case param of
             Address p_ip \<Rightarrow> do { s \<leftarrow> user_ip_set (inet_ntoa p_ip) s; Some (0, s) }
           | _ \<Rightarrow> None)
      | HFE_SMTLK_OK \<Rightarrow>
          do {
            s \<leftarrow> (case param of
                Null \<Rightarrow> Some s
              | Text pwd \<Rightarrow> do { t \<leftarrow> cstr pwd; Some (fold (\<lambda>c s. snd (sdk (Print_byte c) s)) (user_info t) s) }
              | Address a \<Rightarrow> None);
            Some (1, snd (sdk (Msleep 100) s))
          }
      | HFE_WPS_OK \<Rightarrow> (case param of Text t \<Rightarrow> do { _ \<leftarrow> cstr t; Some (0, s) } | _ \<Rightarrow> None)
      | _ \<Rightarrow> Some (0, s))"

definition uart_recv_callback :: "cbuf \<Rightarrow> u32 \<Rightarrow> u32 \<Rightarrow> u32" where
  "uart_recv_callback data len buf_len = len"

definition show_reset_reason :: "fw \<Rightarrow> fw" where
  "show_reset_reason s = snd (sdk Get_reset_reason s)"

subsection \<open>The main function\<close>

text \<open>
  Its loops wait for the SDK and may run forever, so each gets the number of rounds it may take:
  \<open>Running\<close> is the state when they are used up, \<open>Returned\<close> a return. \<open>None\<close> stays undefined
  behaviour.
\<close>

datatype outcome = Running fw | Returned int fw

fun fmap_error :: "nat \<Rightarrow> fw \<Rightarrow> fw" where
  "fmap_error 0 s = s"
| "fmap_error (Suc n) s = fmap_error n (snd (sdk (Msleep 1000) s))"

text \<open>\<open>while (go (...)) { user_led_blink(); msleep(ms); }\<close>\<close>

fun blink_while :: "call \<Rightarrow> (int \<Rightarrow> bool) \<Rightarrow> nat \<Rightarrow> nat \<Rightarrow> fw \<Rightarrow> (bool \<times> fw) option" where
  "blink_while c go ms 0 s = Some (False, s)"
| "blink_while c go ms (Suc n) s =
     (let (r, s) = sdk_int c s in
      if go r then do {
        s \<leftarrow> user_led_blink s;
        blink_while c go ms n (snd (sdk (Msleep ms) s))
      }
      else Some (True, s))"

definition start_services :: "fw \<Rightarrow> (int \<times> fw) option" where
  "start_services s =
     (let (r, s) = sdk_int (Start_assis 48899) s;
          (r, s) = sdk_int Start_httpd s
      in do {
        ((r, wechat_type), s) \<leftarrow> dev_param_read (replicate 21 NUL) s;
        s \<leftarrow> (if r = HF_SUCCESS then do {
            let (r, s) = sdk Get_mac_address s;
            wechat_id \<leftarrow> (if length (r_bytes r) \<le> 21 then Some (overlay (r_bytes r) (replicate 21 NUL)) else None);
            t \<leftarrow> cstr wechat_type;
            i \<leftarrow> cstr wechat_id;
            Some (snd (sdk (Start_airlink t i) s))
          } else Some s);
        Some (1, s)
      })"

definition app_main :: "nat \<Rightarrow> fw \<Rightarrow> outcome option" where
  "app_main fuel s =
     (let (r, s) = sdk_int (Fmap_check g_module_id) s in
      if r \<noteq> 0 then Some (Running (fmap_error fuel s))
      else
        let (_, s) = sdk (Register_system_event P_sys_event_callback) s;
            s = show_reset_reason s
        in do {
          (left, s) \<leftarrow> blink_while Smtlk_is_start (\<lambda>r. r \<noteq> 0) 100 fuel s;
          if \<not> left then Some (Running s)
          else do {
            let (r, s) = sdk_int (Start_uart P_uart_recv_callback) s;
            (left, s) \<leftarrow> blink_while Wifi_is_active (\<lambda>r. r = 0) 500 fuel s;
            if \<not> left then Some (Running s)
            else do {
              s \<leftarrow> user_relay_aLL_set RELAY_STATUS_OPEN s;
              s \<leftarrow> user_led_on s;
              s \<leftarrow> user_init s;
              (r, s) \<leftarrow> start_services s;
              Some (Returned r s)
            }
          }
        })"

definition hfwifi_wps_main :: int where "hfwifi_wps_main = 0"

subsection \<open>The table of pins\<close>

lemma fid_table: "hf_gpio_fid_to_pid_map_table ! fid_of n = LPx30 n" "length hf_gpio_fid_to_pid_map_table = HFM_MAX_FUNC_CODE"
  by (cases n; simp add: hf_gpio_fid_to_pid_map_table_def nth_append eval_nat_numeral)
    (simp add: hf_gpio_fid_to_pid_map_table_def)

subsection \<open>The stored type\<close>

lemma of_char_unat [simp]: "(of_char (char_of (unat (w :: u8))) :: u8) = w"
proof -
  have "(of_char (char_of (unat w)) :: u8) = of_nat (of_char (char_of (unat w)))"
    by (rule of_nat_of_char [symmetric])
  then show ?thesis by simp
qed

text \<open>The user binary area as its header describes it: a write is there to read.\<close>

fun userbin_at :: "call list \<Rightarrow> nat \<Rightarrow> char" where
  "userbin_at [] a = CHR 0xFF"
| "userbin_at (Userbin_write p b # cs) a = (if p \<le> a \<and> a < p + length b then b ! (a - p) else userbin_at cs a)"
| "userbin_at (c # cs) a = userbin_at cs a"

definition userbin_ok :: "fw \<Rightarrow> bool" where
  "userbin_ok s \<longleftrightarrow> (\<forall>cs a n. r_bytes (sys s cs (Userbin_read a n)) = map (userbin_at cs) [a..<a + n])"

fun userbin_quiet :: "call \<Rightarrow> bool" where
  "userbin_quiet (Userbin_write p b) = False"
| "userbin_quiet c = True"

lemma userbin_quiet_at: "list_all userbin_quiet ds \<Longrightarrow> userbin_at (ds @ cs) a = userbin_at cs a"
proof (induction ds)
  case (Cons d ds)
  then show ?case by (cases d) simp_all
qed simp

text \<open>The block a type is stored as.\<close>

definition type_block :: "string \<Rightarrow> cbuf \<Rightarrow> bool" where
  "type_block t b \<longleftrightarrow> length b = 21 \<and> b ! 0 = CHR 0x5A \<and> b ! 1 = char_of (unat (checksum t)) \<and>
     (\<exists>r. drop 2 b = t @ NUL # r)"

lemma dev_param_write_block:
  assumes "length t < 19"
  shows "\<exists>b. dev_param_write t s = Some (HF_SUCCESS, s\<lparr>calls := Userbin_write 0 b # calls s\<rparr>) \<and> type_block t b"
proof -
  let ?b = "t @ NUL # drop (Suc (length t)) (drop 2 (stack_junk 21 s))"
  have l: "length (stack_junk 21 s) = 21" by (simp add: stack_junk_def)
  then have "strcpy (drop 2 (stack_junk 21 s)) t = Some ?b" using assms by (simp add: strcpy_def)
  then have "dev_param_write t s =
      Some (HF_SUCCESS, s\<lparr>calls := Userbin_write 0 (CHR 0x5A # char_of (unat (checksum t)) # ?b) # calls s\<rparr>)"
    by (simp add: dev_param_write_def sdk_def)
  moreover have "type_block t (CHR 0x5A # char_of (unat (checksum t)) # ?b)"
    using assms l by (auto simp: type_block_def)
  ultimately show ?thesis by blast
qed

lemma dev_param_read_block:
  assumes "r_bytes (sys s (calls s) (Userbin_read 0 21)) = b" "length b = 21" "b ! 0 = CHR 0x5A"
    and "cstr (drop 2 b) = Some p" "length p \<le> 18" "length p < length dst"
  shows "dev_param_read dst s = Some (if of_char (b ! 1) = checksum p
    then (HF_SUCCESS, p @ NUL # drop (Suc (length p)) dst) else (-1, dst), s\<lparr>calls := Userbin_read 0 21 # calls s\<rparr>)"
proof -
  have "overlay b (stack_junk 21 s) = b" using assms(2) by (simp add: overlay_def stack_junk_def)
  then show ?thesis using assms by (simp add: dev_param_read_def sdk_def strcpy_def)
qed

text \<open>One changed byte of the text changes the checksum.\<close>

lemma checksum_append: "checksum (a @ b) = checksum a + checksum b"
  by (simp add: checksum_def)

lemma of_char_u8_inj: "(of_char c :: u8) = of_char d \<Longrightarrow> c = d"
proof -
  assume "(of_char c :: u8) = of_char d"
  then have "(of_nat (of_char c) :: u8) = of_nat (of_char d)" by (simp add: of_nat_of_char)
  then have "unat (of_nat (of_char c) :: u8) = unat (of_nat (of_char d) :: u8)" by simp
  then have "(of_char c :: nat) = of_char d" by (simp add: unat_of_nat take_bit_nat_eq_self)
  then show "c = d" by simp
qed

lemma checksum_changed: "c \<noteq> d \<Longrightarrow> checksum (a @ c # b) \<noteq> checksum (a @ d # b)"
  using of_char_u8_inj [of c d] by (auto simp: checksum_append) (auto simp: checksum_def)

text \<open>Before the board is made there is nothing to switch.\<close>

lemma user_led_blink_boot: "heap s = Map.empty \<Longrightarrow> user_led_blink s = None"
  by (simp add: user_led_blink_def led_blink_set_def led_states_get_def at_defs)

lemma user_relay_all_boot:
  assumes "heap s = Map.empty" "g_relays s = replicate 6 0"
  shows "user_relay_aLL_set x s = None"
  using assms by (simp add: user_relay_aLL_set_def relays_nth_def relay_states_set_def at_defs upt_conv_Cons)

lemma blink_while_boot:
  assumes "heap s = Map.empty" "0 < n"
  shows "blink_while c go ms n s = (if go (r_int (sys s (calls s) c)) then None else Some (True, called c s))"
  using assms user_led_blink_boot [of "called c s"] by (cases n) (auto simp: sdk_int_def)

subsection \<open>Properties\<close>

text \<open>
  The table of pins gives each pin of the board the chip pin of its name at its function id, no two
  the same, all valid and able to do what the driver asks: general input and output, and
  interrupts.\<close>

lemma pins_mapped:
  "(\<forall>n. hf_gpio_fid_to_pid_map_table ! fid_of n = LPx30 n \<and> fid_of n < HFM_MAX_FUNC_CODE) \<and>
   length hf_gpio_fid_to_pid_map_table = HFM_MAX_FUNC_CODE \<and>
   inj LPx30 \<and> (\<forall>n. 0 < LPx30 n AND 0xFF \<and> LPx30 n AND 0xFF \<le> of_nat HFM_PIN_NUMBER) \<and>
   (\<forall>n. LPx30 n AND (F_GPIO OR F_IT) = (F_GPIO OR F_IT))"
proof -
  have "fid_of n < HFM_MAX_FUNC_CODE" for n by (cases n) simp_all
  moreover have "inj LPx30"
  proof (rule injI)
    fix a b
    assume "LPx30 a = LPx30 b"
    then show "a = b" by (cases a; cases b) (simp_all add: HFM_PIN_def)
  qed
  moreover have "0 < LPx30 n AND 0xFF \<and> LPx30 n AND 0xFF \<le> of_nat HFM_PIN_NUMBER" for n
    by (cases n) (simp_all add: HFM_PIN_def)
  moreover have "LPx30 n AND (F_GPIO OR F_IT) = (F_GPIO OR F_IT)" for n
    by (cases n) (simp_all add: HFM_PIN_def)
  ultimately show ?thesis using fid_table by blast
qed

text \<open>C23: \<open>AT+TYPE\<close> stores a type of up to 17 bytes, none of them NUL, when the flash area reads back what was
  written to it (the code does not look at the length a write returns, so a write that fails would go
  unnoticed) and the buffer for the answer has at least 20 bytes: whatever happens later but another such
  write, asking for it answers \<open>=\<close> and the type. A block read whose text differs from the stored one in a
  single byte is refused.\<close>

theorem type_round_trip:
  assumes "userbin_ok s" "length t < 18" "nul_free t" "20 \<le> length rsp"
  shows "wp (hf_atcmd_set_type [t] rsp s) (\<lambda>(r, _, u). r = 0 \<and>
    (\<forall>v ds. sys v = sys s \<and> calls v = ds @ calls u \<and> list_all userbin_quiet ds \<longrightarrow>
       wp (hf_atcmd_set_type [] rsp v) (\<lambda>(r, a, _). r = 0 \<and> cstr a = Some (''='' @ t))) \<and>
    (\<forall>v b p c d q z. r_bytes (sys v (calls v) (Userbin_read 0 21)) = b \<and> t = p @ c # q \<and> d \<noteq> c \<and> d \<noteq> NUL \<and>
         b = take 2 (map (userbin_at (calls u)) [0..<21]) @ (p @ d # q) @ NUL # z \<and> length b = 21 \<longrightarrow>
       wp (dev_param_read rsp v) (\<lambda>((r, a), _). r = -1 \<and> a = rsp)))"
proof -
  obtain b where b: "dev_param_write t s = Some (HF_SUCCESS, s\<lparr>calls := Userbin_write 0 b # calls s\<rparr>)" "type_block t b"
    using dev_param_write_block [of t s, OF less_trans [OF assms(2)]] by auto
  note k = b(2) [unfolded type_block_def]
  have p: "cstr (drop 2 b) = Some t" using k assms(3) by (auto simp: cstr_append_NUL)
  have u: "map (userbin_at (Userbin_write 0 b # calls s)) [0..<21] = b"
    using k by (intro nth_equalityI) (simp_all del: upt_rec_numeral)
  have read: "wp (hf_atcmd_set_type [] rsp v) (\<lambda>(r, a, _). r = 0 \<and> cstr a = Some (''='' @ t))"
    if v: "sys v = sys s" "calls v = ds @ Userbin_write 0 b # calls s" "list_all userbin_quiet ds" for v ds
  proof -
    have at: "userbin_at (calls v) = userbin_at (Userbin_write 0 b # calls s)"
      by (rule ext) (simp only: v(2) userbin_quiet_at [OF v(3)])
    have "r_bytes (sys v (calls v) (Userbin_read 0 21)) = map (userbin_at (calls v)) [0..<0 + 21]"
      using assms(1) unfolding v(1) userbin_ok_def by blast
    then have "r_bytes (sys v (calls v) (Userbin_read 0 21)) = b" unfolding at add_0 u .
    moreover have "length (stack_junk 21 v) = 21" by (simp add: stack_junk_def)
    ultimately have "dev_param_read (stack_junk 21 v) v = Some ((HF_SUCCESS,
        t @ NUL # drop (Suc (length t)) (stack_junk 21 v)), v\<lparr>calls := Userbin_read 0 21 # calls v\<rparr>)"
      using dev_param_read_block [of v b t "stack_junk 21 v"] k p assms(2) by simp
    then show ?thesis using assms(2-4)
      by (simp add: hf_atcmd_set_type_def sprintf_def strcpy_def cstr_append_NUL)
  qed
  have refuse: "wp (dev_param_read rsp v) (\<lambda>((r, a), _). r = -1 \<and> a = rsp)"
    if "r_bytes (sys v (calls v) (Userbin_read 0 21)) = w" "t = p @ c # q" "d \<noteq> c" "d \<noteq> NUL"
      "w = take 2 b @ (p @ d # q) @ NUL # z" "length w = 21" for v w p c d q z
  proof -
    have l: "length (take 2 b) = 2" using k by simp
    have "w ! 0 = b ! 0" "w ! 1 = b ! 1" using that(5) k by (simp_all add: nth_append)
    moreover have "cstr (drop 2 w) = Some (p @ d # q)"
      using that(2,4,5) assms(3) l cstr_append_NUL [of "p @ d # q" z] by auto
    moreover have "checksum (p @ c # q) \<noteq> checksum (p @ d # q)" by (rule checksum_changed) (use that(3) in simp)
    ultimately show ?thesis
      using dev_param_read_block [of v w "p @ d # q" rsp] that(1,2,6) k assms(2,4) by simp
  qed
  have e: "hf_atcmd_set_type [t] rsp s = Some (0, rsp, s\<lparr>calls := Userbin_write 0 b # calls s\<rparr>)"
    using assms(2) b(1) by (simp add: hf_atcmd_set_type_def)
  have c: "calls (s\<lparr>calls := Userbin_write 0 b # calls s\<rparr>) = Userbin_write 0 b # calls s" by simp
  show ?thesis unfolding e wp_simps prod.case c u
    by (intro conjI refl allI impI; elim conjE; rule read refuse; assumption)
qed

text \<open>The simulated SDK with a user binary area that works.\<close>

definition app_sdk :: "call list \<Rightarrow> call \<Rightarrow> ret" where
  "app_sdk cs c =
     (case c of
        Userbin_read a n \<Rightarrow> \<lparr>r_int = int n, r_bytes = map (userbin_at cs) [a..<a + n]\<rparr>
      | _ \<Rightarrow> flash_sdk cs c)"

lemma type_round_trip_witness:
  "wp (hf_atcmd_set_type [''plug''] (replicate 64 NUL) (boot_state app_sdk (\<lambda>_ _. NUL))) (\<lambda>(r, _, u).
     wp (hf_atcmd_set_type [] (replicate 64 NUL) u) (\<lambda>(r, a, _). cstr a = Some ''=plug''))"
proof -
  let ?s = "boot_state app_sdk (\<lambda>_ _. NUL)" and ?rsp = "replicate 64 NUL"
  have "userbin_ok ?s" by (simp add: userbin_ok_def boot_state_def app_sdk_def)
  from type_round_trip [OF this, of "''plug''" ?rsp] obtain r a u where
    e: "hf_atcmd_set_type [''plug''] ?rsp ?s = Some (r, a, u)"
    and read: "sys v = sys ?s \<Longrightarrow> calls v = calls u \<Longrightarrow>
      wp (hf_atcmd_set_type [] ?rsp v) (\<lambda>(r, a, _). r = 0 \<and> cstr a = Some ''=plug'')" for v
    by (auto simp: wp_Some_iff)
  have "sys u = sys ?s" using e by (auto simp: hf_atcmd_set_type_def dev_param_write_def sdk_def bind_Some_conv Let_def)
  from read [OF this refl] show ?thesis unfolding e wp_simps prod.case by (rule wp_mono) auto
qed

text \<open>
  An address from DHCP: the text of at most 10 characters is stored, a longer one overflows the
  array \<open>ip\<close>. The text of an address has 7 to 15 characters, and one whose bytes all have two digits
  or more overflows, as \<open>192.168.10.10\<close> does.\<close>

lemma dhcp_address:
  assumes "length (g_ip s) = 11"
  shows "sys_event_callback HFE_DHCP_OK (Address a) s =
      (if length (inet_ntoa a) \<le> 10
       then Some (0, s\<lparr>g_ip := inet_ntoa a @ NUL # drop (Suc (length (inet_ntoa a))) (g_ip s)\<rparr>) else None) \<and>
    7 \<le> length (inet_ntoa a) \<and> length (inet_ntoa a) \<le> 15 \<and>
    ((\<forall>i<4. 10 \<le> unat a div 256 ^ i mod 256) \<longrightarrow> sys_event_callback HFE_DHCP_OK (Address a) s = None)"
proof -
  have one: "1 \<le> length (dec n)" for n using dec_nonempty [of n] by (cases "dec n") auto
  have three: "length (dec n) \<le> 3" if "n < 256" for n using length_dec_le [of n 3] that by simp
  have two: "2 \<le> length (dec n)" if "10 \<le> n" for n
    using that one [of "n div 10"] by (subst dec.simps) simp
  let ?b = "\<lambda>i. unat a div 256 ^ i mod 256"
  let ?l = "\<lambda>i. length (dec (?b i))"
  have top: "unat a div 16777216 < 256" using unat_u32_less [of a] by (simp add: less_mult_imp_div_less)
  have i: "inet_ntoa a = dec (?b 0) @ ''.'' @ dec (?b 1) @ ''.'' @ dec (?b 2) @ ''.'' @ dec (?b 3)"
    using top by (simp add: inet_ntoa_def)
  have "length (inet_ntoa a) = length (dec (?b 0)) + length (dec (?b 1)) + length (dec (?b 2)) + length (dec (?b 3)) + 3"
    unfolding i by (simp del: power.simps div_by_1)
  then have sum: "length (inet_ntoa a) = ?l 0 + ?l 1 + ?l 2 + ?l 3 + 3" .
  have b: "1 \<le> ?l i" "?l i \<le> 3" for i using one three by simp_all
  have "7 \<le> length (inet_ntoa a)" "length (inet_ntoa a) \<le> 15"
    unfolding sum using b [of 0] b [of 1] b [of 2] b [of 3] by linarith+
  moreover have long: "11 \<le> length (inet_ntoa a)" if "\<forall>i<4. 2 \<le> ?l i"
  proof -
    have "2 \<le> ?l 0" "2 \<le> ?l 1" "2 \<le> ?l 2" "2 \<le> ?l 3" using that [rule_format, of 0] that [rule_format, of 1]
        that [rule_format, of 2] that [rule_format, of 3] by simp_all
    then show ?thesis unfolding sum by linarith
  qed
  moreover have cb: "sys_event_callback HFE_DHCP_OK (Address a) s =
      (if length (inet_ntoa a) \<le> 10
       then Some (0, s\<lparr>g_ip := inet_ntoa a @ NUL # drop (Suc (length (inet_ntoa a))) (g_ip s)\<rparr>) else None)"
    using assms by (simp add: sys_event_callback_def user_ip_set_def strcpy_def)
  moreover have "sys_event_callback HFE_DHCP_OK (Address a) s = None" if "\<forall>i<4. 10 \<le> ?b i"
  proof -
    have "11 \<le> length (inet_ntoa a)" using long two that by blast
    then show ?thesis unfolding cb by simp
  qed
  ultimately show ?thesis by blast
qed

lemma dhcp_address_witness:
  "sys_event_callback HFE_DHCP_OK (Address 0x0A0AA8C0) (boot_state app_sdk (\<lambda>_ _. NUL)) = None"
proof -
  have "\<forall>i<4. 10 \<le> unat (0x0A0AA8C0 :: u32) div 256 ^ i mod 256"
  proof (intro allI impI)
    fix i :: nat
    assume "i < 4"
    then consider "i = 0" | "i = 1" | "i = 2" | "i = 3" by linarith
    then show "10 \<le> unat (0x0A0AA8C0 :: u32) div 256 ^ i mod 256" by cases simp_all
  qed
  moreover have "length (g_ip (boot_state app_sdk (\<lambda>_ _. NUL))) = 11" by (simp add: boot_state_def)
  ultimately show ?thesis using dhcp_address [of "boot_state app_sdk (\<lambda>_ _. NUL)" "0x0A0AA8C0"] by blast
qed

text \<open>C24: The main function uses the board before it is made: from power-on it never returns. With a good pin
  table, and as soon as one round of its waiting loops is run, it blinks the LED or switches the
  relays through NULL, whatever the SDK answers, since only \<open>user_init\<close>, which comes after,
  creates them; with a bad table it waits forever.\<close>

theorem main_before_init:
  "(\<forall>r t. app_main fuel (boot_state sy ga) \<noteq> Some (Returned r t)) \<and>
   (r_int (sy [] (Fmap_check g_module_id)) = 0 \<and> 0 < fuel \<longrightarrow> app_main fuel (boot_state sy ga) = None) \<and>
   (r_int (sy [] (Fmap_check g_module_id)) \<noteq> 0 \<longrightarrow> (\<exists>t. app_main fuel (boot_state sy ga) = Some (Running t) \<and>
      length (calls t) = Suc fuel))"
proof -
  let ?b = "boot_state sy ga"
  have err: "length (calls (fmap_error n s)) = n + length (calls s)" for n s
    by (induction n arbitrary: s) (simp_all add: sdk_def)
  have h: "heap (?b\<lparr>calls := cs\<rparr>) = Map.empty" "g_relays (?b\<lparr>calls := cs\<rparr>) = replicate 6 0" for cs
    by (simp_all add: boot_state_def)
  have none: "app_main fuel ?b = None" if "r_int (sy [] (Fmap_check g_module_id)) = 0" "0 < fuel"
    using that h by (simp add: app_main_def sdk_int_def sdk_def show_reset_reason_def blink_while_boot
        user_relay_all_boot boot_state_def)
  have zero: "\<exists>t. app_main 0 ?b = Some (Running t)" if "r_int (sy [] (Fmap_check g_module_id)) = 0"
    using that by (simp add: app_main_def sdk_int_def sdk_def show_reset_reason_def boot_state_def)
  have bad: "\<exists>t. app_main fuel ?b = Some (Running t) \<and> length (calls t) = Suc fuel"
    if "r_int (sy [] (Fmap_check g_module_id)) \<noteq> 0"
    using that by (simp add: app_main_def sdk_int_def err boot_state_def)
  show ?thesis using none zero bad by (cases "fuel = 0") fastforce+
qed

lemma main_before_init_witness: "app_main 1 (boot_state app_sdk (\<lambda>_ _. NUL)) = None"
  using main_before_init [of 1 app_sdk "\<lambda>_ _. NUL"] by (simp add: app_sdk_def flash_sdk_def sim_sdk_def)

end
