(* ===== verification/MqttPacket.thy ===== *)
theory MqttPacket
  imports Prelude
begin

text \<open>
  \<open>Linkkit/src/protocol/mqtt/MQTTPacket\<close>: the packets of MQTT, from and to bytes. A write goes
  through a pointer into a buffer, here the buffer and a position in it, and is undefined outside;
  so is a read. A function that returns how far it went returns the new position instead.
  Lengths the callers compute from strings are natural numbers.
\<close>

type_synonym bytes = "u8 list"

abbreviation (input) MQTTPACKET_BUFFER_TOO_SHORT :: int where "MQTTPACKET_BUFFER_TOO_SHORT \<equiv> - 2"
abbreviation (input) MQTTPACKET_READ_ERROR :: int where "MQTTPACKET_READ_ERROR \<equiv> - 1"

abbreviation (input) CONNECT :: u8 where "CONNECT \<equiv> 1"
abbreviation (input) CONNACK :: u8 where "CONNACK \<equiv> 2"
abbreviation (input) PUBLISH :: u8 where "PUBLISH \<equiv> 3"
abbreviation (input) PUBREL :: u8 where "PUBREL \<equiv> 6"
abbreviation (input) PUBCOMP :: u8 where "PUBCOMP \<equiv> 7"
abbreviation (input) SUBSCRIBE :: u8 where "SUBSCRIBE \<equiv> 8"
abbreviation (input) SUBACK :: u8 where "SUBACK \<equiv> 9"
abbreviation (input) UNSUBSCRIBE :: u8 where "UNSUBSCRIBE \<equiv> 10"
abbreviation (input) UNSUBACK :: u8 where "UNSUBACK \<equiv> 11"
abbreviation (input) PINGREQ :: u8 where "PINGREQ \<equiv> 12"
abbreviation (input) DISCONNECT :: u8 where "DISCONNECT \<equiv> 14"

subsection \<open>The header byte\<close>

definition MQTTHeader :: "u8 \<Rightarrow> u8 \<Rightarrow> u8 \<Rightarrow> u8 \<Rightarrow> u8" where
  "MQTTHeader type dup qos retain =
     push_bit 4 (type AND 15) OR push_bit 3 (dup AND 1) OR push_bit 1 (qos AND 3) OR (retain AND 1)"

definition bits_type :: "u8 \<Rightarrow> u8" where "bits_type b = drop_bit 4 b"
definition bits_dup :: "u8 \<Rightarrow> u8" where "bits_dup b = drop_bit 3 b AND 1"
definition bits_qos :: "u8 \<Rightarrow> u8" where "bits_qos b = drop_bit 1 b AND 3"
definition bits_retain :: "u8 \<Rightarrow> u8" where "bits_retain b = b AND 1"

subsection \<open>Writing\<close>

type_synonym out = "bytes \<times> nat"

text \<open>\<open>memcpy(ptr, bs, n); ptr += n\<close>.\<close>

definition write_bytes :: "bytes \<Rightarrow> out \<Rightarrow> out option" where
  "write_bytes bs w =
     (let (b, i) = w in
      if i + length bs \<le> length b then Some (take i b @ bs @ drop (i + length bs) b, i + length bs) else None)"

definition writeChar :: "u8 \<Rightarrow> out \<Rightarrow> out option" where
  "writeChar c w = (let (b, i) = w in if i < length b then Some (b[i := c], Suc i) else None)"

definition writeInt :: "nat \<Rightarrow> out \<Rightarrow> out option" where
  "writeInt anInt w =
     do {
       w \<leftarrow> writeChar (of_nat (anInt div 256)) w;
       writeChar (of_nat (anInt mod 256)) w
     }"

function MQTTPacket_encode :: "nat \<Rightarrow> out \<Rightarrow> out option" where
  "MQTTPacket_encode n w =
     (let d = of_nat (n mod 128); n' = n div 128; d = (if n' > 0 then d OR 0x80 else d) in
      do {
        w \<leftarrow> writeChar d w;
        if n' > 0 then MQTTPacket_encode n' w else Some w
      })"
  by auto
termination by (relation "measure fst") auto

declare MQTTPacket_encode.simps [simp del]

definition MQTTPacket_len :: "nat \<Rightarrow> nat" where
  "MQTTPacket_len rem_len =
     (let rem_len = rem_len + 1 in
      if rem_len < 128 then rem_len + 1
      else if rem_len < 16384 then rem_len + 2
      else if rem_len < 2097151 then rem_len + 3
      else rem_len + 4)"

text \<open>A string: as a C string, without its NUL, or as a length with data.\<close>

record MQTTString =
  ms_cstring :: "bytes option"
  ms_len :: nat
  ms_data :: "bytes option"

definition MQTTString_initializer :: MQTTString where
  "MQTTString_initializer = \<lparr>ms_cstring = None, ms_len = 0, ms_data = None\<rparr>"

definition MQTTstrlen :: "MQTTString \<Rightarrow> nat" where
  "MQTTstrlen m = (case ms_cstring m of Some c \<Rightarrow> length c | None \<Rightarrow> ms_len m)"

definition writeCString :: "bytes \<Rightarrow> out \<Rightarrow> out option" where
  "writeCString str w = do { w \<leftarrow> writeInt (length str) w; write_bytes str w }"

definition writeMQTTString :: "MQTTString \<Rightarrow> out \<Rightarrow> out option" where
  "writeMQTTString m w =
     (if ms_len m > 0 then do {
        w \<leftarrow> writeInt (ms_len m) w;
        data \<leftarrow> ms_data m;
        if ms_len m \<le> length data then write_bytes (take (ms_len m) data) w else None
      }
      else case ms_cstring m of
             Some c \<Rightarrow> writeCString c w
           | None \<Rightarrow> writeInt 0 w)"

text \<open>What a serialiser returns: \<open>ptr - buf\<close>, and the buffer.\<close>

definition finish :: "out \<Rightarrow> int \<times> bytes" where
  "finish w = (int (snd w), fst w)"

subsection \<open>Serialisers\<close>

definition MQTTSerialize_publishLength :: "nat \<Rightarrow> MQTTString \<Rightarrow> nat \<Rightarrow> nat" where
  "MQTTSerialize_publishLength qos topicName payloadlen =
     2 + MQTTstrlen topicName + payloadlen + (if qos > 0 then 2 else 0)"

definition MQTTSerialize_publish ::
  "bytes \<Rightarrow> nat \<Rightarrow> u8 \<Rightarrow> nat \<Rightarrow> u8 \<Rightarrow> u16 \<Rightarrow> MQTTString \<Rightarrow> bytes \<Rightarrow> (int \<times> bytes) option" where
  "MQTTSerialize_publish buf buflen dup qos retained packetid topicName payload =
     (let rem_len = MQTTSerialize_publishLength qos topicName (length payload) in
      if MQTTPacket_len rem_len > buflen then Some (MQTTPACKET_BUFFER_TOO_SHORT, buf)
      else do {
        w \<leftarrow> writeChar (MQTTHeader PUBLISH dup (of_nat qos) retained) (buf, 0);
        w \<leftarrow> MQTTPacket_encode rem_len w;
        w \<leftarrow> writeMQTTString topicName w;
        w \<leftarrow> (if qos > 0 then writeInt (unat packetid) w else Some w);
        w \<leftarrow> write_bytes payload w;
        Some (finish w)
      })"

definition MQTTSerialize_ack :: "bytes \<Rightarrow> nat \<Rightarrow> u8 \<Rightarrow> u8 \<Rightarrow> u16 \<Rightarrow> (int \<times> bytes) option" where
  "MQTTSerialize_ack buf buflen packettype dup packetid =
     (if buflen < 4 then Some (MQTTPACKET_BUFFER_TOO_SHORT, buf)
      else do {
        w \<leftarrow> writeChar (MQTTHeader packettype dup (if packettype = PUBREL then 1 else 0) 0) (buf, 0);
        w \<leftarrow> MQTTPacket_encode 2 w;
        w \<leftarrow> writeInt (unat packetid) w;
        Some (finish w)
      })"

definition MQTTSerialize_pubrel :: "bytes \<Rightarrow> nat \<Rightarrow> u8 \<Rightarrow> u16 \<Rightarrow> (int \<times> bytes) option" where
  "MQTTSerialize_pubrel buf buflen dup packetid = MQTTSerialize_ack buf buflen PUBREL dup packetid"

definition MQTTSerialize_pubcomp :: "bytes \<Rightarrow> nat \<Rightarrow> u16 \<Rightarrow> (int \<times> bytes) option" where
  "MQTTSerialize_pubcomp buf buflen packetid = MQTTSerialize_ack buf buflen PUBCOMP 0 packetid"

text \<open>Filters with the quality of service asked for each.\<close>

definition MQTTSerialize_subscribeLength :: "MQTTString list \<Rightarrow> nat" where
  "MQTTSerialize_subscribeLength topicFilters = fold (\<lambda>f len. len + (2 + MQTTstrlen f + 1)) topicFilters 2"

definition MQTTSerialize_subscribe ::
  "bytes \<Rightarrow> nat \<Rightarrow> u8 \<Rightarrow> u16 \<Rightarrow> (MQTTString \<times> u8) list \<Rightarrow> (int \<times> bytes) option" where
  "MQTTSerialize_subscribe buf buflen dup packetid topicFilters =
     (let rem_len = MQTTSerialize_subscribeLength (map fst topicFilters) in
      if MQTTPacket_len rem_len > buflen then Some (MQTTPACKET_BUFFER_TOO_SHORT, buf)
      else do {
        w \<leftarrow> writeChar (MQTTHeader SUBSCRIBE dup 1 0) (buf, 0);
        w \<leftarrow> MQTTPacket_encode rem_len w;
        w \<leftarrow> writeInt (unat packetid) w;
        w \<leftarrow> for_each topicFilters (\<lambda>(f, q) w. do { w \<leftarrow> writeMQTTString f w; writeChar q w }) w;
        Some (finish w)
      })"

definition MQTTSerialize_unsubscribeLength :: "MQTTString list \<Rightarrow> nat" where
  "MQTTSerialize_unsubscribeLength topicFilters = fold (\<lambda>f len. len + (2 + MQTTstrlen f)) topicFilters 2"

definition MQTTSerialize_unsubscribe ::
  "bytes \<Rightarrow> nat \<Rightarrow> u8 \<Rightarrow> u16 \<Rightarrow> MQTTString list \<Rightarrow> (int \<times> bytes) option" where
  "MQTTSerialize_unsubscribe buf buflen dup packetid topicFilters =
     (let rem_len = MQTTSerialize_unsubscribeLength topicFilters in
      if MQTTPacket_len rem_len > buflen then Some (MQTTPACKET_BUFFER_TOO_SHORT, buf)
      else do {
        w \<leftarrow> writeChar (MQTTHeader UNSUBSCRIBE dup 1 0) (buf, 0);
        w \<leftarrow> MQTTPacket_encode rem_len w;
        w \<leftarrow> writeInt (unat packetid) w;
        w \<leftarrow> for_each topicFilters writeMQTTString w;
        Some (finish w)
      })"

record MQTTPacket_willOptions =
  wo_topicName :: MQTTString
  wo_message :: MQTTString
  wo_retained :: u8
  wo_qos :: u8

record MQTTPacket_connectData =
  cd_MQTTVersion :: u8
  cd_clientID :: MQTTString
  cd_keepAliveInterval :: u16
  cd_cleansession :: u8
  cd_willFlag :: u8
  cd_will :: MQTTPacket_willOptions
  cd_username :: MQTTString
  cd_password :: MQTTString

definition MQTTPacket_connectData_initializer :: MQTTPacket_connectData where
  "MQTTPacket_connectData_initializer =
     \<lparr> cd_MQTTVersion = 4, cd_clientID = MQTTString_initializer, cd_keepAliveInterval = 60, cd_cleansession = 1,
       cd_willFlag = 0,
       cd_will = \<lparr>wo_topicName = MQTTString_initializer, wo_message = MQTTString_initializer, wo_retained = 0, wo_qos = 0\<rparr>,
       cd_username = MQTTString_initializer, cd_password = MQTTString_initializer \<rparr>"

text \<open>\<open>s.cstring || s.lenstring.data\<close>\<close>

definition present :: "MQTTString \<Rightarrow> bool" where
  "present m \<longleftrightarrow> ms_cstring m \<noteq> None \<or> ms_data m \<noteq> None"

definition MQTTSerialize_connectLength :: "MQTTPacket_connectData \<Rightarrow> nat" where
  "MQTTSerialize_connectLength options =
     (let len = (if cd_MQTTVersion options = 3 then 12 else if cd_MQTTVersion options = 4 then 10 else 0);
          len = len + (MQTTstrlen (cd_clientID options) + 2);
          len = (if cd_willFlag options \<noteq> 0
                 then len + (MQTTstrlen (wo_topicName (cd_will options)) + 2 +
                             MQTTstrlen (wo_message (cd_will options)) + 2) else len);
          len = (if present (cd_username options) then len + (MQTTstrlen (cd_username options) + 2) else len)
      in if present (cd_password options) then len + (MQTTstrlen (cd_password options) + 2) else len)"

definition MQTTConnectFlags :: "MQTTPacket_connectData \<Rightarrow> u8" where
  "MQTTConnectFlags options =
     push_bit 1 (cd_cleansession options AND 1) OR
     (if cd_willFlag options \<noteq> 0
      then push_bit 2 1 OR push_bit 3 (wo_qos (cd_will options) AND 3) OR
           push_bit 5 (wo_retained (cd_will options) AND 1) else 0) OR
     (if present (cd_password options) then push_bit 6 1 else 0) OR
     (if present (cd_username options) then push_bit 7 1 else 0)"

definition ascii :: "string \<Rightarrow> bytes" where
  "ascii str = map of_char str"

definition MQTTSerialize_connect :: "bytes \<Rightarrow> nat \<Rightarrow> MQTTPacket_connectData \<Rightarrow> (int \<times> bytes) option" where
  "MQTTSerialize_connect buf buflen options =
     (let len = MQTTSerialize_connectLength options in
      if MQTTPacket_len len > buflen then Some (MQTTPACKET_BUFFER_TOO_SHORT, buf)
      else do {
        w \<leftarrow> writeChar (MQTTHeader CONNECT 0 0 0) (buf, 0);
        w \<leftarrow> MQTTPacket_encode len w;
        w \<leftarrow> (if cd_MQTTVersion options = 4
              then do { w \<leftarrow> writeCString (ascii ''MQTT'') w; writeChar 4 w }
              else do { w \<leftarrow> writeCString (ascii ''MQIsdp'') w; writeChar 3 w });
        w \<leftarrow> writeChar (MQTTConnectFlags options) w;
        w \<leftarrow> writeInt (unat (cd_keepAliveInterval options)) w;
        w \<leftarrow> writeMQTTString (cd_clientID options) w;
        w \<leftarrow> (if cd_willFlag options \<noteq> 0 then do {
               w \<leftarrow> writeMQTTString (wo_topicName (cd_will options)) w;
               writeMQTTString (wo_message (cd_will options)) w
             } else Some w);
        w \<leftarrow> (if present (cd_username options) then writeMQTTString (cd_username options) w else Some w);
        w \<leftarrow> (if present (cd_password options) then writeMQTTString (cd_password options) w else Some w);
        Some (finish w)
      })"

definition MQTTSerialize_zero :: "bytes \<Rightarrow> nat \<Rightarrow> u8 \<Rightarrow> (int \<times> bytes) option" where
  "MQTTSerialize_zero buf buflen packettype =
     (if buflen < 2 then Some (MQTTPACKET_BUFFER_TOO_SHORT, buf)
      else do {
        w \<leftarrow> writeChar (MQTTHeader packettype 0 0 0) (buf, 0);
        w \<leftarrow> MQTTPacket_encode 0 w;
        Some (finish w)
      })"

definition MQTTSerialize_disconnect :: "bytes \<Rightarrow> nat \<Rightarrow> (int \<times> bytes) option" where
  "MQTTSerialize_disconnect buf buflen = MQTTSerialize_zero buf buflen DISCONNECT"

definition MQTTSerialize_pingreq :: "bytes \<Rightarrow> nat \<Rightarrow> (int \<times> bytes) option" where
  "MQTTSerialize_pingreq buf buflen = MQTTSerialize_zero buf buflen PINGREQ"

subsection \<open>Reading\<close>

text \<open>A position in a buffer: readers may not look past the end of the memory.\<close>

type_synonym inp = "bytes \<times> nat"

definition readChar :: "inp \<Rightarrow> (u8 \<times> inp) option" where
  "readChar p = (let (b, i) = p in if i < length b then Some (b ! i, (b, Suc i)) else None)"

definition readInt :: "inp \<Rightarrow> (nat \<times> inp) option" where
  "readInt p = do { (h, p) \<leftarrow> readChar p; (l, p) \<leftarrow> readChar p; Some (256 * unat h + unat l, p) }"

text \<open>
  The loop of \<open>MQTTPacket_decode\<close>, with the function that gets a byte as its parameter: it returns
  one byte, or none, in which case the loop ends. The result is the number of bytes, or 5 after
  four bytes that all ask for another, and the value so far.
\<close>

function decode_loop :: "('s \<Rightarrow> (u8 option \<times> 's) option) \<Rightarrow> nat \<Rightarrow> nat \<Rightarrow> nat \<Rightarrow> 's \<Rightarrow> ((nat \<times> nat) \<times> 's) option" where
  "decode_loop getcharfn len multiplier value s =
     (if Suc len > 4 then Some ((Suc len, value), s)
      else do {
        (c, s) \<leftarrow> getcharfn s;
        case c of
          None \<Rightarrow> Some ((Suc len, value), s)
        | Some c \<Rightarrow>
            let value = value + unat (c AND 127) * multiplier in
            if c AND 128 \<noteq> 0 then decode_loop getcharfn (Suc len) (multiplier * 128) value s
            else Some ((Suc len, value), s)
      })"
  by auto
termination by (relation "measure (\<lambda>(g, len, m, v, s). 5 - len)") auto

declare decode_loop.simps [simp del]

definition MQTTPacket_decode :: "('s \<Rightarrow> (u8 option \<times> 's) option) \<Rightarrow> 's \<Rightarrow> ((nat \<times> nat) \<times> 's) option" where
  "MQTTPacket_decode getcharfn s = decode_loop getcharfn 0 1 0 s"

definition bufchar :: "inp \<Rightarrow> (u8 option \<times> inp) option" where
  "bufchar p = do { (c, p) \<leftarrow> readChar p; Some (Some c, p) }"

text \<open>\<open>curdata += (rc = MQTTPacket_decodeBuf(curdata, &mylen))\<close>: the position moves by the result.\<close>

definition MQTTPacket_decodeBuf :: "inp \<Rightarrow> ((nat \<times> nat) \<times> inp) option" where
  "MQTTPacket_decodeBuf p =
     do { ((rc, mylen), _) \<leftarrow> MQTTPacket_decode bufchar p; Some ((rc, mylen), (fst p, snd p + rc)) }"

text \<open>The data of a string read is a pointer into the buffer.\<close>

definition readMQTTLenString :: "MQTTString \<Rightarrow> inp \<Rightarrow> nat \<Rightarrow> ((bool \<times> MQTTString) \<times> inp) option" where
  "readMQTTLenString m p enddata =
     (if int enddata - int (snd p) > 1 then do {
        (len, p) \<leftarrow> readInt p;
        let m = m\<lparr>ms_len := len, ms_cstring := None\<rparr>;
        Some (if snd p + len \<le> enddata
              then ((True, m\<lparr>ms_data := Some (drop (snd p) (fst p))\<rparr>), (fst p, snd p + len))
              else ((False, m), p))
      }
      else Some ((False, m\<lparr>ms_cstring := None\<rparr>), p))"

definition getLenStringLen :: "bytes \<Rightarrow> nat option" where
  "getLenStringLen ptr = map_option fst (readInt (ptr, 0))"

text \<open>With \<open>WITH_MQTT_ZIP_TOPIC\<close> off, as the build leaves it. \<open>bptr\<close> is a C string.\<close>

definition MQTTPacket_equals :: "MQTTString \<Rightarrow> bytes \<Rightarrow> bool option" where
  "MQTTPacket_equals a bptr =
     (let alen = MQTTstrlen a;
          aptr = (case ms_cstring a of Some c \<Rightarrow> Some c | None \<Rightarrow> ms_data a)
      in if alen \<noteq> length bptr then Some False
         else if alen = 0 then Some True
         else do {
           d \<leftarrow> aptr;
           if alen \<le> length d then Some (take alen d = bptr) else None
         })"

subsection \<open>Deserialisers\<close>

text \<open>
  What a deserialiser stores through its pointers: \<open>None\<close> where it has stored nothing. The end of
  the data is computed from the packet, not from \<open>buflen\<close>.
\<close>

record publish_out =
  po_dup :: "u8 option"
  po_qos :: "u8 option"
  po_retained :: "u8 option"
  po_packetid :: "u16 option"
  po_topicName :: MQTTString
  po_payload :: "nat option"
  po_payloadlen :: "int option"

definition MQTTDeserialize_publish :: "MQTTString \<Rightarrow> bytes \<Rightarrow> (int \<times> publish_out) option" where
  "MQTTDeserialize_publish topicName buf =
     (let r = \<lparr>po_dup = None, po_qos = None, po_retained = None, po_packetid = None, po_topicName = topicName,
               po_payload = None, po_payloadlen = None\<rparr> in
      do {
        (header, p) \<leftarrow> readChar (buf, 0);
        if bits_type header \<noteq> PUBLISH then Some (0, r)
        else do {
          let r = r\<lparr>po_dup := Some (bits_dup header), po_qos := Some (bits_qos header),
                    po_retained := Some (bits_retain header)\<rparr>;
          ((rc, mylen), p) \<leftarrow> MQTTPacket_decodeBuf p;
          let enddata = snd p + mylen;
          ((ok, t), p) \<leftarrow> readMQTTLenString topicName p enddata;
          let r = r\<lparr>po_topicName := t\<rparr>;
          if \<not> ok \<or> int enddata - int (snd p) < 0 then Some (int rc, r)
          else do {
            (r, p) \<leftarrow> (if bits_qos header > 0 then do {
                 (i, p) \<leftarrow> readInt p;
                 Some (r\<lparr>po_packetid := Some (of_nat i)\<rparr>, p)
               } else Some (r, p));
            Some (1, r\<lparr>po_payloadlen := Some (int enddata - int (snd p)), po_payload := Some (snd p)\<rparr>)
          }
        }
      })"

record ack_out =
  ao_packettype :: u8
  ao_dup :: u8
  ao_packetid :: "u16 option"

definition MQTTDeserialize_ack :: "bytes \<Rightarrow> (int \<times> ack_out) option" where
  "MQTTDeserialize_ack buf =
     do {
       (header, p) \<leftarrow> readChar (buf, 0);
       let r = \<lparr>ao_packettype = bits_type header, ao_dup = bits_dup header, ao_packetid = None\<rparr>;
       ((rc, mylen), p) \<leftarrow> MQTTPacket_decodeBuf p;
       if mylen < 2 then Some (int rc, r)
       else do {
         (i, p) \<leftarrow> readInt p;
         Some (1, r\<lparr>ao_packetid := Some (of_nat i)\<rparr>)
       }
     }"

text \<open>\<open>bits.sessionpresent\<close> stands behind seven unused bits, so it is the top bit on this machine.\<close>

definition MQTTConnackFlags_sessionpresent :: "u8 \<Rightarrow> u8" where
  "MQTTConnackFlags_sessionpresent b = drop_bit 7 b"

definition MQTTDeserialize_connack :: "bytes \<Rightarrow> (int \<times> (u8 \<times> u8) option) option" where
  "MQTTDeserialize_connack buf =
     do {
       (header, p) \<leftarrow> readChar (buf, 0);
       if bits_type header \<noteq> CONNACK then Some (0, None)
       else do {
         ((rc, mylen), p) \<leftarrow> MQTTPacket_decodeBuf p;
         if mylen < 2 then Some (int rc, None)
         else do {
           (flags, p) \<leftarrow> readChar p;
           (connack_rc, p) \<leftarrow> readChar p;
           Some (1, Some (MQTTConnackFlags_sessionpresent flags, connack_rc))
         }
       }
     }"

text \<open>\<open>while (curdata < enddata)\<close>; the array \<open>grantedQoSs\<close> has \<open>maxcount\<close> elements.\<close>

function suback_loop :: "nat \<Rightarrow> nat \<Rightarrow> nat \<Rightarrow> u8 list \<Rightarrow> inp \<Rightarrow> (int \<times> nat \<times> u8 list) option" where
  "suback_loop maxcount enddata count grantedQoSs p =
     (if snd p < enddata then
        if count > maxcount then Some (-1, count, grantedQoSs)
        else do {
          (c, p') \<leftarrow> readChar p;
          if count < length grantedQoSs \<and> snd p < snd p'
          then suback_loop maxcount enddata (Suc count) (grantedQoSs[count := c]) p'
          else None
        }
      else Some (1, count, grantedQoSs))"
  by auto
termination by (relation "measure (\<lambda>(m, e, c, g, p). e - snd p)") auto

declare suback_loop.simps [simp del]

definition MQTTDeserialize_suback ::
  "nat \<Rightarrow> u8 list \<Rightarrow> bytes \<Rightarrow> (int \<times> u16 option \<times> (nat \<times> u8 list) option) option" where
  "MQTTDeserialize_suback maxcount grantedQoSs buf =
     do {
       (header, p) \<leftarrow> readChar (buf, 0);
       if bits_type header \<noteq> SUBACK then Some (0, None, None)
       else do {
         ((rc, mylen), p) \<leftarrow> MQTTPacket_decodeBuf p;
         let enddata = snd p + mylen;
         if mylen < 2 then Some (int rc, None, None)
         else do {
           (i, p) \<leftarrow> readInt p;
           (rc, count, g) \<leftarrow> suback_loop maxcount enddata 0 grantedQoSs p;
           Some (rc, Some (of_nat i), Some (count, g))
         }
       }
     }"

definition MQTTDeserialize_unsuback :: "bytes \<Rightarrow> (int \<times> u16 option) option" where
  "MQTTDeserialize_unsuback buf =
     do {
       (rc, r) \<leftarrow> MQTTDeserialize_ack buf;
       Some (if ao_packettype r = UNSUBACK then 1 else rc, ao_packetid r)
     }"

subsection \<open>What is written\<close>

lemma writeChar_eq: "writeChar c w = write_bytes [c] w"
  by (cases w) (auto simp: writeChar_def write_bytes_def upd_conv_take_nth_drop)

lemma write_append: "write_bytes (a @ b) w = do { w \<leftarrow> write_bytes a w; write_bytes b w }"
proof (cases w)
  case (Pair buf i)
  show ?thesis
  proof (cases "i + length a \<le> length buf")
    case True
    have "drop (length a + (length b + i)) buf = drop (length b) (drop (i + length a) buf)" by (simp add: ac_simps)
    then show ?thesis using True by (simp add: Pair write_bytes_def ac_simps)
  next
    case False
    then show ?thesis by (simp add: Pair write_bytes_def)
  qed
qed

lemma write_Nil: "snd w \<le> length (fst w) \<Longrightarrow> write_bytes [] w = Some w"
  by (cases w) (simp add: write_bytes_def)

definition int_bytes :: "nat \<Rightarrow> bytes" where
  "int_bytes n = [of_nat (n div 256), of_nat (n mod 256)]"

lemma writeInt_eq: "writeInt n w = write_bytes (int_bytes n) w"
  using write_append [of "[of_nat (n div 256)]" "[of_nat (n mod 256)]" w]
  by (simp add: writeInt_def int_bytes_def writeChar_eq)

text \<open>The remaining length as MQTT writes it: seven bits a byte, the top bit on all but the last.\<close>

fun remaining_length :: "nat \<Rightarrow> bytes" where
  "remaining_length n =
     (if n < 128 then [of_nat n] else (of_nat (n mod 128) OR 0x80) # remaining_length (n div 128))"

declare remaining_length.simps [simp del]

lemma MQTTPacket_encode_eq: "MQTTPacket_encode n w = write_bytes (remaining_length n) w"
proof (induction n w rule: MQTTPacket_encode.induct)
  case (1 n w)
  show ?case
  proof (cases "n < 128")
    case True
    then show ?thesis
      by (subst MQTTPacket_encode.simps, subst remaining_length.simps) (simp add: writeChar_eq)
  next
    case False
    then have "n div 128 > 0" by (simp add: div_greater_zero_iff)
    then show ?thesis using False 1
        write_append [of "[of_nat (n mod 128) OR 0x80]" "remaining_length (n div 128)" w]
      by (subst MQTTPacket_encode.simps, subst remaining_length.simps)
        (simp add: writeChar_eq Let_def cong: Option.bind_cong)
  qed
qed

lemma length_remaining_length:
  "n < 268435456 \<Longrightarrow> length (remaining_length n) =
     (if n < 128 then 1 else if n < 16384 then 2 else if n < 2097152 then 3 else 4)"
  by (subst remaining_length.simps, subst remaining_length.simps, subst remaining_length.simps,
      subst remaining_length.simps) (auto simp: div_less_iff_less_mult div_mult2_eq [symmetric])

text \<open>The bound the serialisers check is safe, and never more than a byte too careful.\<close>

lemma MQTTPacket_len_bounds:
  assumes "n < 268435456"
  shows "1 + length (remaining_length n) + n \<le> MQTTPacket_len n"
    "MQTTPacket_len n \<le> 2 + length (remaining_length n) + n"
  using assms by (auto simp: MQTTPacket_len_def length_remaining_length)

lemma MQTTPacket_len_ge: "n + 2 \<le> MQTTPacket_len n"
  by (simp add: MQTTPacket_len_def Let_def)

text \<open>A string in one of its two forms, and what is written for it.\<close>

definition denotes :: "MQTTString \<Rightarrow> bytes \<Rightarrow> bool" where
  "denotes m s \<longleftrightarrow>
     (case ms_cstring m of
        Some c \<Rightarrow> c = s \<and> ms_len m = 0
      | None \<Rightarrow> ms_len m = length s \<and> (s = [] \<or> (\<exists>d. ms_data m = Some d \<and> length s \<le> length d \<and> take (length s) d = s)))"

definition string_bytes :: "bytes \<Rightarrow> bytes" where
  "string_bytes s = int_bytes (length s) @ s"

lemma denotes_strlen: "denotes m s \<Longrightarrow> MQTTstrlen m = length s"
  by (auto simp: denotes_def MQTTstrlen_def split: option.splits)

lemma writeCString_eq: "writeCString s w = write_bytes (string_bytes s) w"
  by (simp add: writeCString_def writeInt_eq string_bytes_def write_append)

lemma writeMQTTString_eq:
  assumes "denotes m s"
  shows "writeMQTTString m w = write_bytes (string_bytes s) w"
proof (cases "s = []")
  case True
  then have "string_bytes s = int_bytes 0" by (simp add: string_bytes_def)
  then show ?thesis using assms True
    by (auto simp: denotes_def writeMQTTString_def writeCString_eq writeInt_eq split: option.splits)
next
  case False
  then show ?thesis using assms
    by (auto simp: denotes_def writeMQTTString_def writeCString_eq writeInt_eq string_bytes_def write_append
        split: option.splits)
qed

lemma write_bytes_position: "write_bytes bs w = Some v \<Longrightarrow> snd v \<le> length (fst v)"
  by (cases w) (auto simp: write_bytes_def split: if_splits)

lemma length_string_bytes [simp]: "length (string_bytes s) = 2 + length s"
  by (simp add: string_bytes_def int_bytes_def)

text \<open>A packet: header byte, remaining length, body.\<close>

definition packet :: "u8 \<Rightarrow> bytes \<Rightarrow> bytes" where
  "packet h body = h # remaining_length (length body) @ body"

text \<open>A serialiser that passes its check writes its packet at the start of the buffer.\<close>

lemma packet_written:
  assumes "MQTTPacket_len (length body) \<le> buflen" "buflen \<le> length buf" "buflen < 268435456"
  shows "write_bytes (packet h body) (buf, 0) =
      Some (packet h body @ drop (length (packet h body)) buf, length (packet h body))"
    and "length (packet h body) \<le> buflen"
proof -
  have "length body < 268435456" using assms MQTTPacket_len_ge [of "length body"] by simp
  from MQTTPacket_len_bounds(1) [OF this] show l: "length (packet h body) \<le> buflen"
    using assms(1) by (simp add: packet_def)
  then show "write_bytes (packet h body) (buf, 0) =
      Some (packet h body @ drop (length (packet h body)) buf, length (packet h body))"
    using assms(2) by (simp add: write_bytes_def)
qed

lemma packet_start:
  "write_bytes (packet h body) w =
     do { w \<leftarrow> writeChar h w; w \<leftarrow> MQTTPacket_encode (length body) w; write_bytes body w }"
  unfolding packet_def writeChar_eq MQTTPacket_encode_eq
  using write_append [of "[h]" "remaining_length (length body) @ body" w] by (simp add: write_append)

lemmas writes = write_append writeInt_eq writeMQTTString_eq writeCString_eq writeChar_eq

text \<open>The bodies.\<close>

definition publish_body :: "nat \<Rightarrow> u16 \<Rightarrow> bytes \<Rightarrow> bytes \<Rightarrow> bytes" where
  "publish_body qos packetid t payload =
     string_bytes t @ (if qos > 0 then int_bytes (unat packetid) else []) @ payload"

text \<open>A serialiser of a packet: it checks the buffer against the bound, then writes.\<close>

definition serialises :: "(bytes \<Rightarrow> nat \<Rightarrow> (int \<times> bytes) option) \<Rightarrow> u8 \<Rightarrow> bytes \<Rightarrow> bool" where
  "serialises ser h body \<longleftrightarrow>
     (\<forall>buf buflen. ser buf buflen =
        (if MQTTPacket_len (length body) > buflen then Some (MQTTPACKET_BUFFER_TOO_SHORT, buf)
         else do { w \<leftarrow> write_bytes (packet h body) (buf, 0); Some (finish w) }))"

lemma serialises_written:
  assumes "serialises ser h body" "buflen \<le> length buf" "buflen < 268435456"
  shows "ser buf buflen =
    (let p = packet h body in
     if MQTTPacket_len (length body) > buflen then Some (MQTTPACKET_BUFFER_TOO_SHORT, buf)
     else Some (int (length p), p @ drop (length p) buf))"
    and "MQTTPacket_len (length body) \<le> buflen \<Longrightarrow> length (packet h body) \<le> buflen"
  using assms packet_written [of body buflen buf h] by (auto simp: serialises_def Let_def finish_def)

lemma MQTTPacket_len_zero [simp]: "MQTTPacket_len 0 = 2" "MQTTPacket_len 2 = 4"
  by (simp_all add: MQTTPacket_len_def)

lemma publish_serialises:
  assumes "denotes topic t"
  shows "serialises (\<lambda>buf n. MQTTSerialize_publish buf n dup qos retained packetid topic payload)
    (MQTTHeader PUBLISH dup (of_nat qos) retained) (publish_body qos packetid t payload)"
proof -
  have "MQTTSerialize_publishLength qos topic (length payload) = length (publish_body qos packetid t payload)"
    by (simp add: MQTTSerialize_publishLength_def denotes_strlen [OF assms] publish_body_def int_bytes_def)
  then show ?thesis
    by (cases "qos > 0") (simp_all add: serialises_def MQTTSerialize_publish_def Let_def packet_start
      writeMQTTString_eq [OF assms] writeInt_eq publish_body_def write_append)
qed

lemma ack_serialises:
  "serialises (\<lambda>buf n. MQTTSerialize_ack buf n type dup packetid)
    (MQTTHeader type dup (if type = PUBREL then 1 else 0) 0) (int_bytes (unat packetid))"
proof -
  have "length (int_bytes (unat packetid)) = 2" by (simp add: int_bytes_def)
  then show ?thesis by (simp add: serialises_def MQTTSerialize_ack_def packet_start writeInt_eq)
qed

lemma zero_serialises: "serialises (\<lambda>buf n. MQTTSerialize_zero buf n type) (MQTTHeader type 0 0 0) []"
proof -
  have "write_bytes [] w = Some w" if "MQTTPacket_encode 0 v = Some w" for v w
    using that unfolding MQTTPacket_encode_eq by (rule write_Nil [OF write_bytes_position])
  then have e: "do { w \<leftarrow> MQTTPacket_encode 0 v; w \<leftarrow> write_bytes [] w; f w } = do { w \<leftarrow> MQTTPacket_encode 0 v; f w }" for v f
    by (cases "MQTTPacket_encode 0 v") simp_all
  show ?thesis by (simp add: serialises_def MQTTSerialize_zero_def packet_start e)
qed

text \<open>Filters, each with what follows it.\<close>

lemma write_filters:
  assumes "list_all2 (\<lambda>f s. denotes f s) fs ss" "snd w \<le> length (fst w)"
  shows "for_each fs writeMQTTString w = write_bytes (concat (map string_bytes ss)) w"
  using assms
proof (induction fs ss arbitrary: w rule: list_all2_induct)
  case (Cons f fs s ss)
  have "for_each fs writeMQTTString v = write_bytes (concat (map string_bytes ss)) v"
    if "write_bytes (string_bytes s) w = Some v" for v
    using Cons.IH [OF write_bytes_position [OF that]] .
  then show ?case using Cons.hyps(1)
    by (cases "write_bytes (string_bytes s) w") (simp_all add: writeMQTTString_eq write_append)
qed (simp add: write_Nil)

lemma write_filters_qos:
  assumes "list_all2 (\<lambda>f s. denotes (fst f) s) fs ss" "snd w \<le> length (fst w)"
  shows "for_each fs (\<lambda>(f, q) w. do { w \<leftarrow> writeMQTTString f w; writeChar q w }) w =
    write_bytes (concat (map (\<lambda>(s, q). string_bytes s @ [q]) (zip ss (map snd fs)))) w"
  using assms
proof (induction fs ss arbitrary: w rule: list_all2_induct)
  case (Cons f fs s ss)
  obtain g q where f: "f = (g, q)" by fastforce
  let ?rest = "concat (map (\<lambda>(s, q). string_bytes s @ [q]) (zip ss (map snd fs)))"
  have "for_each fs (\<lambda>(f, q) w. do { w \<leftarrow> writeMQTTString f w; writeChar q w }) v = write_bytes ?rest v"
    if "write_bytes (string_bytes s @ [q]) w = Some v" for v
    using Cons.IH [OF write_bytes_position [OF that]] .
  moreover have "do { w \<leftarrow> writeMQTTString g w; writeChar q w } = write_bytes (string_bytes s @ [q]) w"
    using Cons.hyps(1) by (simp add: f writeMQTTString_eq writeChar_eq write_append)
  ultimately show ?case
    using write_append [of "string_bytes s @ [q]" ?rest w]
    by (cases "write_bytes (string_bytes s @ [q]) w") (simp_all add: f)
qed (simp add: write_Nil)

definition subscribe_body :: "u16 \<Rightarrow> bytes list \<Rightarrow> u8 list \<Rightarrow> bytes" where
  "subscribe_body packetid ss qs =
     int_bytes (unat packetid) @ concat (map (\<lambda>(s, q). string_bytes s @ [q]) (zip ss qs))"

definition unsubscribe_body :: "u16 \<Rightarrow> bytes list \<Rightarrow> bytes" where
  "unsubscribe_body packetid ss = int_bytes (unat packetid) @ concat (map string_bytes ss)"

lemma fold_add: "fold (\<lambda>f len. len + g f) fs n = n + sum_list (map g fs)" for n :: nat
  by (induction fs arbitrary: n) simp_all

lemma length_int_bytes [simp]: "length (int_bytes n) = 2"
  by (simp add: int_bytes_def)

lemma subscribe_length:
  "list_all2 (\<lambda>f s. denotes (fst f) s) fs ss \<Longrightarrow>
     MQTTSerialize_subscribeLength (map fst fs) = length (subscribe_body packetid ss (map snd fs))"
proof -
  assume "list_all2 (\<lambda>f s. denotes (fst f) s) fs ss"
  then have "sum_list (map (\<lambda>f. 2 + MQTTstrlen f + 1) (map fst fs)) =
      length (concat (map (\<lambda>(s, q). string_bytes s @ [q]) (zip ss (map snd fs))))"
    by (induction rule: list_all2_induct) (simp_all add: denotes_strlen)
  then show ?thesis
    using fold_add [of "\<lambda>f. 2 + MQTTstrlen f + 1" "map fst fs" 2]
    by (simp add: MQTTSerialize_subscribeLength_def subscribe_body_def)
qed

lemma unsubscribe_length:
  "list_all2 (\<lambda>f s. denotes f s) fs ss \<Longrightarrow>
     MQTTSerialize_unsubscribeLength fs = length (unsubscribe_body packetid ss)"
proof -
  assume "list_all2 (\<lambda>f s. denotes f s) fs ss"
  then have "sum_list (map (\<lambda>f. 2 + MQTTstrlen f) fs) = length (concat (map string_bytes ss))"
    by (induction rule: list_all2_induct) (simp_all add: denotes_strlen)
  then show ?thesis
    using fold_add [of "\<lambda>f. 2 + MQTTstrlen f" fs 2]
    by (simp add: MQTTSerialize_unsubscribeLength_def unsubscribe_body_def)
qed

lemma bind_write_cong:
  "(\<And>v. snd v \<le> length (fst v) \<Longrightarrow> f v = g v) \<Longrightarrow>
    do { w \<leftarrow> write_bytes bs w; f w } = do { w \<leftarrow> write_bytes bs w; g w }"
  by (cases "write_bytes bs w") (auto dest: write_bytes_position)

lemma subscribe_serialises:
  assumes "list_all2 (\<lambda>f s. denotes (fst f) s) fs ss"
  shows "serialises (\<lambda>buf n. MQTTSerialize_subscribe buf n dup packetid fs)
    (MQTTHeader SUBSCRIBE dup 1 0) (subscribe_body packetid ss (map snd fs))"
proof -
  let ?rest = "concat (map (\<lambda>(s, q). string_bytes s @ [q]) (zip ss (map snd fs)))"
  have "do { w \<leftarrow> write_bytes (int_bytes (unat packetid)) w;
          w \<leftarrow> for_each fs (\<lambda>(f, q) w. do { w \<leftarrow> writeMQTTString f w; writeChar q w }) w; Some (finish w) } =
      do { w \<leftarrow> write_bytes (int_bytes (unat packetid)) w; w \<leftarrow> write_bytes ?rest w; Some (finish w) }" for w
    by (rule bind_write_cong) (simp add: write_filters_qos [OF assms])
  then show ?thesis
    by (simp add: serialises_def MQTTSerialize_subscribe_def subscribe_length [OF assms, of packetid] packet_start
        writeInt_eq Let_def subscribe_body_def write_append)
qed

lemma unsubscribe_serialises:
  assumes "list_all2 (\<lambda>f s. denotes f s) fs ss"
  shows "serialises (\<lambda>buf n. MQTTSerialize_unsubscribe buf n dup packetid fs)
    (MQTTHeader UNSUBSCRIBE dup 1 0) (unsubscribe_body packetid ss)"
proof -
  have "do { w \<leftarrow> write_bytes (int_bytes (unat packetid)) w; w \<leftarrow> for_each fs writeMQTTString w; Some (finish w) } =
      do { w \<leftarrow> write_bytes (int_bytes (unat packetid)) w; w \<leftarrow> write_bytes (concat (map string_bytes ss)) w; Some (finish w) }" for w
    by (rule bind_write_cong) (simp add: write_filters [OF assms])
  then show ?thesis
    by (simp add: serialises_def MQTTSerialize_unsubscribe_def unsubscribe_length [OF assms, of packetid] packet_start
        writeInt_eq Let_def unsubscribe_body_def write_append)
qed

text \<open>
  A connection request of the protocol, versions 3.1 and 3.1.1: the will has topic, message, quality of service
  and whether it is retained. Its variable header and payload, the bits of the flags as MQTT 3.1.1 numbers them
  (section 3.1.2.3), and the options that ask for it.\<close>

record connect_request =
  cr_level :: nat
  cr_clean :: bool
  cr_keepalive :: nat
  cr_client :: bytes
  cr_will :: "(bytes \<times> bytes \<times> nat \<times> bool) option"
  cr_user :: "bytes option"
  cr_password :: "bytes option"

definition connect_flag_bits :: "connect_request \<Rightarrow> nat \<Rightarrow> bool" where
  "connect_flag_bits r k =
     (if k = 1 then cr_clean r
      else if k = 2 then cr_will r \<noteq> None
      else if k = 3 then (case cr_will r of None \<Rightarrow> False | Some (t, m, q, h) \<Rightarrow> q = 1)
      else if k = 4 then (case cr_will r of None \<Rightarrow> False | Some (t, m, q, h) \<Rightarrow> q = 2)
      else if k = 5 then (case cr_will r of None \<Rightarrow> False | Some (t, m, q, h) \<Rightarrow> h)
      else if k = 6 then cr_password r \<noteq> None
      else if k = 7 then cr_user r \<noteq> None
      else False)"

definition connect_flags :: "connect_request \<Rightarrow> u8" where
  "connect_flags r = of_nat (\<Sum>k<8. if connect_flag_bits r k then 2 ^ k else 0)"

definition connect_body :: "connect_request \<Rightarrow> bytes" where
  "connect_body r =
     (if cr_level r = 4 then string_bytes (ascii ''MQTT'') @ [4] else string_bytes (ascii ''MQIsdp'') @ [3]) @
     [connect_flags r] @ int_bytes (cr_keepalive r) @ string_bytes (cr_client r) @
     (case cr_will r of None \<Rightarrow> [] | Some (t, m, q, h) \<Rightarrow> string_bytes t @ string_bytes m) @
     (case cr_user r of None \<Rightarrow> [] | Some u \<Rightarrow> string_bytes u) @
     (case cr_password r of None \<Rightarrow> [] | Some p \<Rightarrow> string_bytes p)"

definition string_says :: "MQTTString \<Rightarrow> bytes \<Rightarrow> bool" where
  "string_says m s \<longleftrightarrow> denotes m s \<and> length s < 65536"

definition options_say :: "MQTTPacket_connectData \<Rightarrow> connect_request \<Rightarrow> bool" where
  "options_say options r \<longleftrightarrow>
     (cd_MQTTVersion options = 3 \<or> cd_MQTTVersion options = 4) \<and> cr_level r = unat (cd_MQTTVersion options) \<and>
     cd_cleansession options = (if cr_clean r then 1 else 0) \<and> cr_keepalive r = unat (cd_keepAliveInterval options) \<and>
     string_says (cd_clientID options) (cr_client r) \<and>
     (case cr_will r of None \<Rightarrow> cd_willFlag options = 0
      | Some (t, m, q, h) \<Rightarrow> cd_willFlag options \<noteq> 0 \<and> string_says (wo_topicName (cd_will options)) t \<and>
          string_says (wo_message (cd_will options)) m \<and> q \<le> 2 \<and> wo_qos (cd_will options) = of_nat q \<and>
          wo_retained (cd_will options) = (if h then 1 else 0)) \<and>
     (case cr_user r of None \<Rightarrow> \<not> present (cd_username options)
      | Some u \<Rightarrow> present (cd_username options) \<and> string_says (cd_username options) u) \<and>
     (case cr_password r of None \<Rightarrow> \<not> present (cd_password options)
      | Some p \<Rightarrow> present (cd_password options) \<and> string_says (cd_password options) p)"

lemma lessThan_8: "{..<8} = {0, 1, 2, 3, 4, 5, 6, 7 :: nat}"
  by auto

lemma connect_flags_eq: "options_say options r \<Longrightarrow> MQTTConnectFlags options = connect_flags r"
proof -
  assume a: "options_say options r"
  have f: "connect_flags r = of_nat ((if cr_clean r then 2 else 0) + (if cr_will r \<noteq> None then 4 else 0) +
      (case cr_will r of None \<Rightarrow> 0 | Some (t, m, q, h) \<Rightarrow> (if q = 1 then 8 else 0) + (if q = 2 then 16 else 0) + (if h then 32 else 0)) +
      (if cr_password r \<noteq> None then 64 else 0) + (if cr_user r \<noteq> None then 128 else 0))"
    by (simp add: connect_flags_def lessThan_8 connect_flag_bits_def split: option.split prod.split)
  show ?thesis
  proof (cases "cr_will r")
    case None
    then show ?thesis using a unfolding f
      by (cases "cr_clean r"; cases "cr_user r"; cases "cr_password r") (simp_all add: options_say_def MQTTConnectFlags_def)
  next
    case (Some w)
    obtain x m q h where w: "w = (x, m, q, h)" by (cases w)
    then have "q = 0 \<or> q = 1 \<or> q = 2" using a Some by (auto simp: options_say_def)
    then show ?thesis using a Some w unfolding f
      by (cases "cr_clean r"; cases "cr_user r"; cases "cr_password r"; cases h)
        (auto simp: options_say_def MQTTConnectFlags_def)
  qed
qed

lemma connect_serialises:
  assumes "options_say options r"
  shows "serialises (\<lambda>buf n. MQTTSerialize_connect buf n options) (MQTTHeader CONNECT 0 0 0) (connect_body r)"
proof -
  note a = assms [unfolded options_say_def string_says_def]
  have v: "cr_level r = 4 \<longleftrightarrow> cd_MQTTVersion options = 4" using a by auto
  have l: "MQTTSerialize_connectLength options = length (connect_body r)"
    using a by (auto simp: MQTTSerialize_connectLength_def connect_body_def Let_def denotes_strlen ascii_def
        split: option.splits prod.splits)
  have f: "MQTTConnectFlags options = connect_flags r" by (rule connect_flags_eq [OF assms])
  show ?thesis using a v
    by (cases "cr_will r"; cases "cr_user r"; cases "cr_password r")
      (auto simp: serialises_def MQTTSerialize_connect_def l f packet_start Let_def connect_body_def
        writeInt_eq writeChar_eq writeCString_eq writeMQTTString_eq write_append
        simp del: append_Cons append.simps(2))
qed

text \<open>The bits of a byte of the length.\<close>

lemma masks: "(127 :: u8) = mask 7" "(128 :: u8) = push_bit 7 1"
  by (simp_all add: mask_eq_exp_minus_1)

lemma bit_128: "bit (128 :: u8) k \<longleftrightarrow> k = 7" "bit (128 :: int) k \<longleftrightarrow> k = 7" "bit (128 :: nat) k \<longleftrightarrow> k = 7"
  using bit_exp_iff [of 7 k, where ?'a = u8] bit_exp_iff [of 7 k, where ?'a = int]
    bit_exp_iff [of 7 k, where ?'a = nat] by (auto simp: possible_bit_def)

lemma seven_bits: "n < 128 \<Longrightarrow> (of_nat n :: u8) = take_bit 7 (of_nat n)"
  by (simp add: take_bit_of_nat take_bit_nat_eq_self)

lemma low_bits: 
  assumes "n < 128" shows "unat (of_nat n AND 127 :: u8) = n" "(of_nat n AND 128 :: u8) = 0"
proof -
  have "of_nat n AND 127 = (of_nat n :: u8)"
    unfolding masks take_bit_eq_mask [symmetric] by (rule seven_bits [OF assms, symmetric])
  then show "unat (of_nat n AND 127 :: u8) = n" using assms by (simp add: unat_of_nat)
  show "(of_nat n AND 128 :: u8) = 0"
    unfolding masks by (subst seven_bits [OF assms]) (rule bit_word_eqI, auto simp: bit_simps bit_128)
qed

lemma high_bits:
  assumes "n < 128" shows "unat ((of_nat n OR 128) AND 127 :: u8) = n" "(of_nat n OR 128) AND 128 \<noteq> (0 :: u8)"
proof -
  have "(of_nat n OR 128) AND 127 = (of_nat n AND 127 :: u8)"
    unfolding masks by (rule bit_word_eqI) (auto simp: bit_simps bit_128)
  then show "unat ((of_nat n OR 128) AND 127 :: u8) = n" using low_bits(1) [OF assms] by simp
  have "bit ((of_nat n OR 128) AND 128 :: u8) 7" unfolding masks by (simp add: bit_simps)
  then show "(of_nat n OR 128) AND 128 \<noteq> (0 :: u8)" by auto
qed

subsection \<open>What is read\<close>

text \<open>A source of bytes: what is left of it, and a function that takes the first.\<close>

locale byte_source =
  fixes getc :: "'s \<Rightarrow> (u8 option \<times> 's) option"
    and left :: "'s \<Rightarrow> bytes"
  assumes getc_left: "left s = c # cs \<Longrightarrow> \<exists>t. getc s = Some (Some c, t) \<and> left t = cs"
begin

lemma decode_loop_ok:
  assumes "left s = remaining_length n @ r" "n < 128 ^ (4 - len)" "len < 4"
  shows "\<exists>t. decode_loop getc len m v s = Some ((len + length (remaining_length n), v + n * m), t) \<and> left t = r"
  using assms
proof (induction n arbitrary: s len m v rule: remaining_length.induct)
  case (1 n)
  show ?case
  proof (cases "n < 128")
    case True
    then have "remaining_length n = [of_nat n]" by (subst remaining_length.simps) simp
    moreover have "unat (of_nat n AND 127 :: u8) = n" "(of_nat n AND 128 :: u8) = 0" using True low_bits [of n] by simp_all
    moreover obtain t where "getc s = Some (Some (of_nat n), t)" "left t = r"
      using getc_left [of s "of_nat n" r] 1(2) calculation(1) by auto
    ultimately show ?thesis using 1(4) by (subst decode_loop.simps) simp
  next
    case False
    let ?c = "of_nat (n mod 128) OR 0x80 :: u8"
    have rl: "remaining_length n = ?c # remaining_length (n div 128)"
      using False by (subst remaining_length.simps) simp
    have c: "unat (?c AND 127) = n mod 128" "?c AND 128 \<noteq> 0" using high_bits [of "n mod 128"] by simp_all
    obtain s1 where s1: "getc s = Some (Some ?c, s1)" "left s1 = remaining_length (n div 128) @ r"
      using getc_left [of s ?c] 1(2) rl by auto
    have len: "Suc len < 4"
    proof (rule ccontr)
      assume "\<not> Suc len < 4"
      then have "len = 3" using 1(4) by simp
      then show False using 1(3) False by simp
    qed
    then have "4 - len = Suc (4 - Suc len)" by simp
    then have "n div 128 < 128 ^ (4 - Suc len)" using 1(3) by (simp add: less_mult_imp_div_less mult.commute)
    from 1(1) [OF False s1(2) this len, of "m * 128" "v + n mod 128 * m"]
    obtain t where t: "decode_loop getc (Suc len) (m * 128) (v + n mod 128 * m) s1 =
        Some ((Suc len + length (remaining_length (n div 128)), v + n mod 128 * m + n div 128 * (m * 128)), t)" "left t = r"
      by blast
    have "n mod 128 * m + n div 128 * (m * 128) = n * m"
      using mod_mult_div_eq [of n 128] by (metis add_mult_distrib mult.assoc mult.commute)
    then have "v + n mod 128 * m + n div 128 * (m * 128) = v + n * m" by simp
    with t s1(1) c len rl show ?thesis
      by (subst decode_loop.simps) (simp add: Let_def)
  qed
qed

lemma decode_ok:
  assumes "left s = remaining_length n @ r" "n < 268435456"
  shows "\<exists>t. MQTTPacket_decode getc s = Some ((length (remaining_length n), n), t) \<and> left t = r"
  using decode_loop_ok [OF assms(1), of 0 1 0] assms(2) by (simp add: MQTTPacket_decode_def)

end

interpretation buffer: byte_source bufchar "\<lambda>p. drop (snd p) (fst p)"
proof
  fix s :: inp and c cs
  assume "drop (snd s) (fst s) = c # cs"
  then have "snd s < length (fst s)" "fst s ! snd s = c" "drop (Suc (snd s)) (fst s) = cs"
    by (metis drop_all leI list.discI) (metis \<open>drop (snd s) (fst s) = c # cs\<close> hd_drop_conv_nth drop_all leI list.discI list.sel(1),
      metis \<open>drop (snd s) (fst s) = c # cs\<close> drop_Suc tl_drop list.sel(3))
  then show "\<exists>t. bufchar s = Some (Some c, t) \<and> drop (snd t) (fst t) = cs"
    by (cases s) (simp add: bufchar_def readChar_def)
qed

lemma decodeBuf_ok:
  assumes "drop i b = remaining_length n @ r" "n < 268435456"
  shows "MQTTPacket_decodeBuf (b, i) = Some ((length (remaining_length n), n), (b, i + length (remaining_length n)))"
  using buffer.decode_ok [of "(b, i)" n r] assms by (auto simp: MQTTPacket_decodeBuf_def)

text \<open>The header byte gives back what fits its fields.\<close>

lemma header_bits:
  "bits_type (MQTTHeader t d q r) = t AND 15" "bits_dup (MQTTHeader t d q r) = d AND 1"
  "bits_qos (MQTTHeader t d q r) = q AND 3" "bits_retain (MQTTHeader t d q r) = r AND 1"
proof -
  have m: "(15 :: u8) = mask 4" "(3 :: u8) = mask 2" "(1 :: u8) = mask 1" by (simp_all add: mask_eq_exp_minus_1)
  show "bits_type (MQTTHeader t d q r) = t AND 15" "bits_dup (MQTTHeader t d q r) = d AND 1"
    "bits_qos (MQTTHeader t d q r) = q AND 3" "bits_retain (MQTTHeader t d q r) = r AND 1"
    unfolding MQTTHeader_def bits_type_def bits_dup_def bits_qos_def bits_retain_def m
    by ((rule bit_word_eqI, auto simp: bit_simps simp del: push_bit_Suc One_nat_def)[1])+
qed

lemma bit_flag: "(w :: u8) \<le> 1 \<Longrightarrow> w = 0 \<or> w = 1"
  by (metis One_nat_def le_Suc_eq le_zero_eq unat_1 unat_eq_0 word_le_nat_alt word_unat_eq_iff)

lemma readInt_ok:
  assumes "drop i b = int_bytes n @ r" "n < 65536"
  shows "readInt (b, i) = Some (n, (b, i + 2))"
proof -
  have l: "Suc i < length b" using arg_cong [OF assms(1), of length] by simp
  then have "drop i b = b ! i # b ! Suc i # drop (Suc (Suc i)) b" by (metis Cons_nth_drop_Suc Suc_lessD)
  then have "b ! i = of_nat (n div 256)" "b ! Suc i = of_nat (n mod 256)" using assms(1) by (simp_all add: int_bytes_def)
  moreover have "n div 256 < 256" using assms(2) by (simp add: less_mult_imp_div_less)
  ultimately show ?thesis using l by (simp add: readInt_def readChar_def unat_of_nat)
qed

lemma readMQTTLenString_ok:
  assumes "drop i b = string_bytes s @ r" "length s < 65536" "i + 2 + length s \<le> e"
  shows "\<exists>d. readMQTTLenString m (b, i) e =
      Some ((True, m\<lparr>ms_len := length s, ms_cstring := None, ms_data := Some d\<rparr>), (b, i + 2 + length s)) \<and> d = s @ r"
proof -
  have d: "drop (i + 2) b = s @ r"
    using arg_cong [OF assms(1), of "drop 2"] by (simp add: string_bytes_def int_bytes_def add.commute)
  have "readInt (b, i) = Some (length s, (b, i + 2))"
    using readInt_ok [of i b "length s" "s @ r"] assms(1,2) by (simp add: string_bytes_def)
  then show ?thesis using assms(3) d by (simp add: readMQTTLenString_def)
qed

text \<open>A packet at the start of a buffer, read up to its body.\<close>

lemma packet_read:
  assumes "buf = packet h body @ r" "length body < 268435456"
  defines "k \<equiv> Suc (length (remaining_length (length body)))"
  shows "readChar (buf, 0) = Some (h, (buf, 1))"
    "MQTTPacket_decodeBuf (buf, 1) = Some ((k - 1, length body), (buf, k))"
    "drop k buf = body @ r"
proof -
  show "readChar (buf, 0) = Some (h, (buf, 1))" using assms(1) by (simp add: readChar_def packet_def)
  have "drop 1 buf = remaining_length (length body) @ body @ r" using assms(1) by (simp add: packet_def)
  from decodeBuf_ok [OF this assms(2)]
  show "MQTTPacket_decodeBuf (buf, 1) = Some ((k - 1, length body), (buf, k))" by (simp add: k_def)
  show "drop k buf = body @ r" using assms(1) by (simp add: packet_def k_def)
qed

lemma publish_read:
  assumes "buf = packet (MQTTHeader PUBLISH dup (of_nat qos) retained) (publish_body qos packetid t payload) @ r"
    and "length (publish_body qos packetid t payload) < 268435456" "length t < 65536"
    and "dup \<le> 1" "retained \<le> 1" "qos < 4"
  shows "\<exists>k d. MQTTDeserialize_publish m buf = Some (1,
    \<lparr>po_dup = Some dup, po_qos = Some (of_nat qos), po_retained = Some retained,
     po_packetid = (if qos > 0 then Some packetid else None),
     po_topicName = m\<lparr>ms_len := length t, ms_cstring := None, ms_data := Some (t @ d)\<rparr>,
     po_payload = Some k, po_payloadlen = Some (int (length payload))\<rparr>) \<and> drop k buf = payload @ r"
proof -
  let ?body = "publish_body qos packetid t payload" and ?h = "MQTTHeader PUBLISH dup (of_nat qos) retained"
  define k where "k = Suc (length (remaining_length (length ?body)))"
  note p = packet_read [OF assms(1,2), folded k_def]
  have m: "(15 :: u8) = mask 4" "(3 :: u8) = mask 2" by (simp_all add: mask_eq_exp_minus_1)
  have "dup = 0 \<or> dup = 1" "retained = 0 \<or> retained = 1"
    using assms(4,5) bit_flag by blast+
  then have h: "bits_type ?h = 3" "bits_dup ?h = dup" "bits_qos ?h = of_nat qos" "bits_retain ?h = retained"
    using assms(6) by (auto simp: header_bits) (auto simp: m take_bit_eq_mask [symmetric] take_bit_of_nat take_bit_nat_eq_self)
  have q: "(of_nat qos > (0 :: u8)) = (qos > 0)"
    using assms(6) by (auto simp: word_less_nat_alt unat_of_nat)
  let ?rest = "(if qos > 0 then int_bytes (unat packetid) else []) @ payload @ r"
  have b: "drop k buf = string_bytes t @ ?rest" using p(3) by (simp add: publish_body_def)
  have e: "k + 2 + length t \<le> k + length ?body" by (simp add: publish_body_def)
  obtain d where s: "readMQTTLenString m (buf, k) (k + length ?body) =
      Some ((True, m\<lparr>ms_len := length t, ms_cstring := None, ms_data := Some (t @ d)\<rparr>), (buf, k + 2 + length t))"
    using readMQTTLenString_ok [OF b assms(3) e] by blast
  have r: "drop (k + 2 + length t) buf = ?rest"
    using arg_cong [OF b, of "drop (2 + length t)"] by (simp add: string_bytes_def int_bytes_def add.commute add.left_commute)
  show ?thesis
  proof (cases "qos > 0")
    case True
    have "readInt (buf, k + 2 + length t) = Some (unat packetid, (buf, k + 2 + length t + 2))"
      using readInt_ok [of "k + 2 + length t" buf "unat packetid" "payload @ r"] r True by simp
    moreover have "drop (k + 2 + length t + 2) buf = payload @ r"
      using arg_cong [OF r, of "drop 2"] True by (simp add: int_bytes_def add.commute)
    ultimately show ?thesis using p h q s True
      by (intro exI [of _ "k + 2 + length t + 2"] exI [of _ d]) (simp add: MQTTDeserialize_publish_def publish_body_def)
  next
    case False
    then show ?thesis using p h q s r
      by (intro exI [of _ "k + 2 + length t"] exI [of _ d]) (simp add: MQTTDeserialize_publish_def publish_body_def)
  qed
qed

text \<open>The codes of a suback, one by one.\<close>

lemma suback_loop_ok:
  assumes "drop i b = qs @ r" "count + length qs \<le> length g" "length g \<le> maxcount" "e = i + length qs"
  shows "suback_loop maxcount e count g (b, i) = Some (1, count + length qs,
    take count g @ qs @ drop (count + length qs) g)"
  using assms
proof (induction qs arbitrary: i count g)
  case Nil
  then show ?case by (subst suback_loop.simps) simp
next
  case (Cons q qs)
  have i: "i < length b" "b ! i = q" "drop (Suc i) b = qs @ r"
    using Cons.prems(1) by (metis append_Cons drop_all leI list.discI)
      (metis Cons.prems(1) append_Cons hd_drop_conv_nth drop_all leI list.discI list.sel(1),
       metis Cons.prems(1) append_Cons drop_Suc tl_drop list.sel(3))
  have c: "count < length g" using Cons.prems(2) by simp
  have "suback_loop maxcount e (Suc count) (g[count := q]) (b, Suc i) = Some (1, Suc count + length qs,
      take (Suc count) (g[count := q]) @ qs @ drop (Suc count + length qs) (g[count := q]))"
    by (rule Cons.IH [OF i(3)]) (use Cons.prems in auto)
  moreover have "take (Suc count) (g[count := q]) = take count g @ [q]" using c by (simp add: take_Suc_conv_app_nth)
  ultimately show ?case using i c Cons.prems(3,4)
    by (subst suback_loop.simps) (simp add: readChar_def)
qed

lemma suback_loop_overflow:
  assumes "drop i b = qs @ r" "count \<le> length g" "length g < count + length qs" "length g = maxcount" "e = i + length qs"
  shows "suback_loop maxcount e count g (b, i) = None"
  using assms
proof (induction qs arbitrary: i count g)
  case (Cons q qs)
  have i: "i < length b" "b ! i = q" "drop (Suc i) b = qs @ r"
    using Cons.prems(1) by (metis append_Cons drop_all leI list.discI)
      (metis Cons.prems(1) append_Cons hd_drop_conv_nth drop_all leI list.discI list.sel(1),
       metis Cons.prems(1) append_Cons drop_Suc tl_drop list.sel(3))
  show ?case
  proof (cases "count < length g")
    case True
    have "suback_loop maxcount e (Suc count) (g[count := q]) (b, Suc i) = None"
      by (rule Cons.IH [OF i(3)]) (use Cons.prems True in auto)
    then show ?thesis using i True Cons.prems by (subst suback_loop.simps) (simp add: readChar_def)
  next
    case False
    then show ?thesis using i Cons.prems by (subst suback_loop.simps) (simp add: readChar_def)
  qed
qed simp

subsection \<open>Properties\<close>

text \<open>C25: A published message is read back: when the buffer is large enough for the bound the code checks, the
  packet is written inside it and reading it gives the same flags, quality of service,
  identifier, topic and payload; otherwise the buffer is left as it was and the error returned.\<close>

theorem publish_round_trip:
  assumes "denotes topic t" "buflen \<le> length buf" "buflen < 268435456" "length t < 65536"
    and "dup \<le> 1" "retained \<le> 1" "qos < 4"
  shows "wp (MQTTSerialize_publish buf buflen dup qos retained packetid topic payload) (\<lambda>(rc, b).
    if MQTTPacket_len (MQTTSerialize_publishLength qos topic (length payload)) > buflen
    then rc = MQTTPACKET_BUFFER_TOO_SHORT \<and> b = buf
    else 0 < rc \<and> rc \<le> int buflen \<and> length b = length buf \<and> drop (nat rc) b = drop (nat rc) buf \<and>
      wp (MQTTDeserialize_publish m b) (\<lambda>(r, out). r = 1 \<and>
        po_dup out = Some dup \<and> po_qos out = Some (of_nat qos) \<and> po_retained out = Some retained \<and>
        po_packetid out = (if qos > 0 then Some packetid else None) \<and>
        ms_cstring (po_topicName out) = None \<and> ms_len (po_topicName out) = length t \<and>
        (\<exists>d. ms_data (po_topicName out) = Some (t @ d)) \<and>
        po_payloadlen out = Some (int (length payload)) \<and>
        (\<exists>k r. po_payload out = Some k \<and> drop k b = payload @ r)))"
proof -
  let ?body = "publish_body qos packetid t payload" and ?h = "MQTTHeader PUBLISH dup (of_nat qos) retained"
  let ?p = "packet ?h ?body"
  have l: "MQTTSerialize_publishLength qos topic (length payload) = length ?body"
    by (simp add: MQTTSerialize_publishLength_def denotes_strlen [OF assms(1)] publish_body_def)
  note w = serialises_written [OF publish_serialises [OF assms(1)] assms(2,3), where dup1 = dup and qos1 = qos
      and retained1 = retained and packetid1 = packetid and payload1 = payload]
  show ?thesis
  proof (cases "MQTTPacket_len (length ?body) > buflen")
    case True
    then show ?thesis using w(1) by (simp add: l Let_def)
  next
    case False
    then have p: "length ?p \<le> buflen" using w(2) by simp
    have lb: "length ?body < 268435456" using False assms(3) MQTTPacket_len_ge [of "length ?body"] by simp
    have pos: "0 < length ?p" by (simp add: packet_def)
    from publish_read [OF refl lb assms(4-7), where r = "drop (length ?p) buf" and m = m]
    show ?thesis using False p pos w(1) assms(2)
      by (auto simp: l Let_def wp_Some_iff)
  qed
qed

definition cstring :: "bytes \<Rightarrow> MQTTString" where
  "cstring s = \<lparr>ms_cstring = Some s, ms_len = 0, ms_data = None\<rparr>"

lemma cstring_denotes [simp]: "denotes (cstring s) s"
  by (simp add: cstring_def denotes_def)

lemma publish_round_trip_witness:
  "wp (MQTTSerialize_publish (replicate 32 0) 32 0 1 0 7 (cstring (ascii ''a/b'')) (ascii ''ON'')) (\<lambda>(rc, b).
     wp (MQTTDeserialize_publish MQTTString_initializer b) (\<lambda>(r, out). r = 1 \<and> po_packetid out = Some 7))"
proof -
  have "\<not> MQTTPacket_len (MQTTSerialize_publishLength 1 (cstring (ascii ''a/b'')) (length (ascii ''ON''))) > 32"
    by (simp add: MQTTSerialize_publishLength_def cstring_def MQTTstrlen_def ascii_def MQTTPacket_len_def)
  then show ?thesis
    using publish_round_trip [of "cstring (ascii ''a/b'')" "ascii ''a/b''" 32 "replicate 32 0" 0 0 1 7 "ascii ''ON''"
        MQTTString_initializer]
    by (auto simp: wp_Some_iff ascii_def)
qed

text \<open>C26: A connection request: for the two versions of the protocol, with strings below 64 kB given in one form and a
  will of quality 0 to 2, in a buffer below 256 MB, the code writes exactly the packet of the protocol (name and
  level, each bit of the flags, keep-alive, client, will, user name and password in order), inside the buffer and
  no byte behind the length it returns. It refuses only a buffer that is too short or has not a byte to spare, and
  leaves that one as it was.\<close>

theorem connect_written:
  assumes "options_say options r" "buflen \<le> length buf" "buflen < 268435456"
  shows "let p = packet 0x10 (connect_body r) in
    if MQTTPacket_len (length (connect_body r)) > buflen
    then MQTTSerialize_connect buf buflen options = Some (MQTTPACKET_BUFFER_TOO_SHORT, buf) \<and> buflen \<le> length p
    else MQTTSerialize_connect buf buflen options = Some (int (length p), p @ drop (length p) buf) \<and> length p \<le> buflen"
proof -
  note w = serialises_written [OF connect_serialises [OF assms(1)] assms(2,3)]
  let ?n = "length (connect_body r)"
  have "buflen \<le> length (packet 0x10 (connect_body r))" if "MQTTPacket_len ?n > buflen"
  proof (cases "?n < 268435456")
    case True
    then show ?thesis using that MQTTPacket_len_bounds(2) [OF True] by (simp add: packet_def)
  next
    case False
    then show ?thesis using assms(3) by (simp add: packet_def)
  qed
  then show ?thesis using w by (simp add: Let_def MQTTHeader_def)
qed

lemma connect_written_witness:
  "MQTTSerialize_connect (replicate 20 0) 20 (MQTTPacket_connectData_initializer\<lparr>cd_clientID := cstring (ascii ''tc1'')\<rparr>) =
     Some (17, [0x10, 15, 0, 4] @ ascii ''MQTT'' @ [4, 2, 0, 60, 0, 3] @ ascii ''tc1'' @ [0, 0, 0])"
proof -
  let ?o = "MQTTPacket_connectData_initializer\<lparr>cd_clientID := cstring (ascii ''tc1'')\<rparr>"
  let ?r = "\<lparr>cr_level = 4, cr_clean = True, cr_keepalive = 60, cr_client = ascii ''tc1'', cr_will = None, cr_user = None, cr_password = None\<rparr>"
  have o: "options_say ?o ?r"
    by (simp add: options_say_def string_says_def MQTTPacket_connectData_initializer_def present_def MQTTString_initializer_def ascii_def)
  have b: "connect_body ?r = [0, 4] @ ascii ''MQTT'' @ [4, 2, 0, 60, 0, 3] @ ascii ''tc1''"
    by (simp add: connect_body_def connect_flags_def lessThan_8 connect_flag_bits_def string_bytes_def int_bytes_def ascii_def)
  have r: "remaining_length (length ([0, 4] @ ascii ''MQTT'' @ [4, 2, 0, 60, 0, 3] @ ascii ''tc1'')) = [15]"
    by (subst remaining_length.simps) (simp add: ascii_def)
  show ?thesis
    using connect_written [OF o, of 20 "replicate 20 0", unfolded b Let_def packet_def r]
    by (simp add: ascii_def MQTTPacket_len_def numeral_3_eq_3)
qed

text \<open>The answer to a subscription: codes that fit the array are stored in order with their number, but one
  code more than the array holds is written behind its end, since the count is compared with
  \<open>>\<close>.\<close>

lemma suback_codes:
  assumes "bits_type h = SUBACK" "length qs < 268435454" "length g = maxcount"
  shows "MQTTDeserialize_suback maxcount g (packet h (int_bytes (unat packetid) @ qs) @ r) =
    (if length qs \<le> maxcount
     then Some (1, Some packetid, Some (length qs, qs @ drop (length qs) g)) else None)"
proof -
  let ?body = "int_bytes (unat packetid) @ qs"
  define k where "k = Suc (length (remaining_length (length ?body)))"
  have "length ?body < 268435456" using assms(2) by simp
  note p = packet_read [OF refl this, of h r, folded k_def]
  let ?buf = "packet h ?body @ r"
  have i: "readInt (?buf, k) = Some (unat packetid, (?buf, k + 2))"
    using readInt_ok [of k ?buf "unat packetid" "qs @ r"] p(3) by simp
  have "drop (k + 2) ?buf = drop 2 (drop k ?buf)" by (simp only: drop_drop add.commute)
  then have d: "drop (k + 2) ?buf = qs @ r" unfolding p(3) by (simp add: int_bytes_def)
  have "suback_loop maxcount (k + length ?body) 0 g (?buf, k + 2) =
      (if length qs \<le> maxcount then Some (1, length qs, qs @ drop (length qs) g) else None)"
    using suback_loop_ok [OF d, of 0 g maxcount "k + length ?body"]
      suback_loop_overflow [OF d, of 0 g maxcount "k + length ?body"] assms(3) by auto
  then show ?thesis using assms(1) p(1,2) i
    by (simp add: MQTTDeserialize_suback_def)
qed

lemma suback_codes_witness:
  "MQTTDeserialize_suback 1 [0x80] (packet 0x90 (int_bytes (unat (5 :: u16)) @ [0]) @ []) = Some (1, Some 5, Some (1, [0])) \<and>
   MQTTDeserialize_suback 1 [0x80] (packet 0x90 (int_bytes (unat (5 :: u16)) @ [0, 1]) @ []) = None"
proof -
  have "bits_type 0x90 = SUBACK" by (simp add: bits_type_def)
  then show ?thesis
    using suback_codes [of "0x90" "[0]" "[0x80]" 1 5 "[]"] suback_codes [of "0x90" "[0, 1]" "[0x80]" 1 5 "[]"] by simp
qed

text \<open>
  A packet too short for what it should hold is not refused: the deserialisers then return what they
  returned last, the number of bytes of the remaining length, which is 1 for any packet below 128
  bytes, and 1 is their result for success, though nothing has been stored.\<close>

lemma short_packet_accepted:
  assumes "length body < 2"
  shows "(bits_type h = CONNACK \<longrightarrow> MQTTDeserialize_connack (packet h body @ r) = Some (1, None)) \<and>
    (bits_type h = SUBACK \<longrightarrow> MQTTDeserialize_suback maxcount g (packet h body @ r) = Some (1, None, None)) \<and>
    (\<exists>out. MQTTDeserialize_ack (packet h body @ r) = Some (1, out) \<and> ao_packetid out = None) \<and>
    (bits_type h = PUBLISH \<longrightarrow> (\<exists>out. MQTTDeserialize_publish m (packet h body @ r) = Some (1, out) \<and>
       po_payload out = None \<and> ms_data (po_topicName out) = ms_data m))"
proof -
  have l: "length body < 268435456" "length (remaining_length (length body)) = 1"
    using assms by (simp_all add: length_remaining_length)
  note p = packet_read [OF refl l(1), of h r]
  show ?thesis using assms p l(2)
    by (auto simp: MQTTDeserialize_connack_def MQTTDeserialize_suback_def MQTTDeserialize_ack_def
        MQTTDeserialize_publish_def readMQTTLenString_def Let_def)
qed

lemma short_packet_accepted_witness:
  "MQTTDeserialize_connack (packet 0x20 [] @ []) = Some (1, None)"
proof -
  have "bits_type 0x20 = CONNACK" by (simp add: bits_type_def)
  then show ?thesis using short_packet_accepted [of "[]" "0x20" "[]"] by simp
qed

text \<open>The answer to a connection request: its return code is passed on, but the flag for a session the
  broker kept is read from the wrong end of its byte, so that it is 0 for every flags byte the
  protocol allows.\<close>

lemma connack_read:
  assumes "bits_type h = CONNACK" "flags \<le> 1"
  shows "MQTTDeserialize_connack (packet h [flags, code] @ r) = Some (1, Some (0, code))"
proof -
  have l: "length [flags, code] < 268435456" "length (remaining_length (length [flags, code])) = 1"
    by (simp_all add: length_remaining_length)
  note p = packet_read [OF refl l(1), of h r]
  let ?buf = "packet h [flags, code] @ r"
  have b: "drop 2 ?buf = flags # code # r" using p(3) l(2) by (simp add: numeral_2_eq_2)
  then have "2 < length ?buf" "3 < length ?buf" "?buf ! 2 = flags" "?buf ! 3 = code"
    using l(2) by (simp_all add: packet_def nth_append)
  moreover have "drop_bit 7 flags = 0" using bit_flag [OF assms(2)] by auto
  ultimately show ?thesis using assms(1) p(1,2) l(2)
    by (simp add: MQTTDeserialize_connack_def MQTTConnackFlags_sessionpresent_def readChar_def numeral_eq_Suc)
qed

lemma connack_read_witness:
  "MQTTDeserialize_connack (packet 0x20 [1, 0] @ []) = Some (1, Some (0, 0))"
proof -
  have "bits_type 0x20 = CONNACK" by (simp add: bits_type_def)
  then show ?thesis using connack_read [of "0x20" 1 0 "[]"] by simp
qed

end
