(* ===== verification/HashConstants.thy ===== *)
theory HashConstants
  imports Complex_Main Prelude
begin

text \<open>
  The numbers the standards of the digests are built from: the first bits of the fractional parts of
  roots of primes (FIPS 180-4), the integer parts of sines (RFC 1321), and integers as bytes. They
  are defined on real numbers, with no table; the tables of the code are compared with them through
  integer bounds.
\<close>

subsection \<open>Bytes of integers\<close>

definition big_endian :: "nat \<Rightarrow> nat \<Rightarrow> u8 list" where
  "big_endian k n = map (\<lambda>i. of_nat (n div 256 ^ (k - 1 - i))) [0..<k]"

definition little_endian :: "nat \<Rightarrow> nat \<Rightarrow> u8 list" where
  "little_endian k n = map (\<lambda>i. of_nat (n div 256 ^ i)) [0..<k]"

definition be_value :: "u8 list \<Rightarrow> nat" where
  "be_value = foldl (\<lambda>n b. 256 * n + unat b) 0"

text \<open>The word \<open>t\<close> of a block of 32-bit words, in either byte order.\<close>

definition be_word :: "u8 list \<Rightarrow> nat \<Rightarrow> u32" where
  "be_word b t = of_nat (be_value (map (\<lambda>i. b ! (4 * t + i)) [0..<4]))"

definition le_word :: "u8 list \<Rightarrow> nat \<Rightarrow> u32" where
  "le_word b t = of_nat (be_value (rev (map (\<lambda>i. b ! (4 * t + i)) [0..<4])))"

lemma length_endian [simp]: "length (big_endian k n) = k" "length (little_endian k n) = k"
  by (simp_all add: big_endian_def little_endian_def)

subsection \<open>Roots of primes\<close>

definition first_primes :: "nat list" where
  "first_primes = filter (\<lambda>p. \<forall>d \<in> {2..<p}. \<not> d dvd p) [2..<312]"

definition frac_word :: "real \<Rightarrow> u32" where
  "frac_word x = of_int \<lfloor>frac x * 2 ^ 32\<rfloor>"

definition cube_word :: "nat \<Rightarrow> u32" where
  "cube_word t = frac_word (root 3 (first_primes ! t))"

definition square_word :: "nat \<Rightarrow> u32" where
  "square_word t = frac_word (sqrt (first_primes ! t))"

lemma prime_divisors:
  assumes "2 \<le> p" "p < 324"
  shows "(\<forall>d \<in> {2..<p}. \<not> d dvd p) \<longleftrightarrow> list_all (\<lambda>d. p mod d \<noteq> 0 \<or> p = d) [2, 3, 5, 7, 11, 13, 17 :: nat]"
    (is "?l = ?r")
proof
  assume l: ?l
  show ?r
    unfolding list_all_iff
  proof
    fix d assume "d \<in> set [2, 3, 5, 7, 11, 13, 17 :: nat]"
    then have "2 \<le> d" by auto
    then show "p mod d \<noteq> 0 \<or> p = d" using l assms dvd_imp_le [of d p] by (auto simp: dvd_eq_mod_eq_0 [symmetric])
  qed
next
  assume r: ?r
  show ?l
  proof (rule ballI, rule notI)
    fix d assume d: "d \<in> {2..<p}" "d dvd p"
    then obtain e where e: "p = d * e" by auto
    then have "1 < e" using d assms by (cases "e = 0 \<or> e = 1") auto
    define m where "m = min d e"
    have m: "2 \<le> m" "m dvd p" "m < p" using d e \<open>1 < e\<close> by (auto simp: m_def min_def)
    have "m * m \<le> p" unfolding e m_def by (intro mult_le_mono) simp_all
    then have "m * m < 18 * 18" using assms by simp
    then have "m < 18" by (meson mult_le_mono not_less)
    then have "m \<in> {2, 3, 4, 5, 6, 7, 8, 9, 10, 11, 12, 13, 14, 15, 16, 17}"
      using m(1) unfolding insert_iff empty_iff by presburger
    then have "\<exists>q \<in> {2, 3, 5, 7, 11, 13, 17}. q dvd m" by (elim insertE emptyE; simp)
    then obtain q where q: "q \<in> {2, 3, 5, 7, 11, 13, 17}" "q dvd m" by blast
    then have "q dvd p" "q < p" using m dvd_trans [of q m p] dvd_imp_le [of q m] by auto
    then have "p mod q = 0" "p \<noteq> q" by auto
    then show False using r q(1) by (auto simp: list_all_iff)
  qed
qed

lemma first_primes_eq:
  "first_primes = [2, 3, 5, 7, 11, 13, 17, 19, 23, 29, 31, 37, 41, 43, 47, 53, 59, 61, 67, 71, 73, 79, 83, 89, 97, 101,
     103, 107, 109, 113, 127, 131, 137, 139, 149, 151, 157, 163, 167, 173, 179, 181, 191, 193, 197, 199, 211, 223, 227,
     229, 233, 239, 241, 251, 257, 263, 269, 271, 277, 281, 283, 293, 307, 311]"
proof -
  have "first_primes = filter (\<lambda>p. list_all (\<lambda>d. p mod d \<noteq> 0 \<or> p = d) [2, 3, 5, 7, 11, 13, 17]) [2..<312]"
    unfolding first_primes_def 
    by (intro filter_cong refl prime_divisors) (simp_all del: upt_rec_numeral)
  then show ?thesis by (simp add: upt_rec_numeral)
qed

lemma frac_word_eq:
  assumes "real_of_int (a * 2 ^ 32 + uint w) \<le> x * 2 ^ 32" "x * 2 ^ 32 < real_of_int (a * 2 ^ 32 + uint w + 1)"
  shows "frac_word x = w"
proof -
  have w: "0 \<le> uint w" "uint w < 2 ^ 32" using uint_bounded [of w] by simp_all
  then have "uint w + 1 \<le> 4294967296" by simp
  then have wr: "0 \<le> real_of_int (uint w)" "real_of_int (uint w) + 1 \<le> 4294967296" using w(1) by linarith+
  have "\<lfloor>x\<rfloor> = a"
    using assms wr by (intro floor_unique) simp_all
  then have "frac x * 2 ^ 32 = x * 2 ^ 32 - real_of_int (a * 2 ^ 32)" by (simp add: frac_def algebra_simps)
  then have "\<lfloor>frac x * 2 ^ 32\<rfloor> = uint w" using assms by (intro floor_unique) simp_all
  then show ?thesis by (simp add: frac_word_def)
qed

text \<open>\<open>m\<close> is the root of \<open>p\<close> with 32 binary places when its power and its successor's enclose it.\<close>

lemma power_bounds:
  assumes "0 < n" "0 \<le> m" "(m :: int) ^ n \<le> p * (2 ^ 32) ^ n" "p * (2 ^ 32) ^ n < (m + 1) ^ n" "0 \<le> p"
  shows "real_of_int m \<le> root n p * 2 ^ 32" "root n p * 2 ^ 32 < real_of_int (m + 1)"
proof -
  let ?x = "root n (real_of_int p) * 2 ^ 32"
  have x: "?x ^ n = real_of_int (p * (2 ^ 32) ^ n)" "0 \<le> ?x"
    using assms(1,5) by (simp_all add: power_mult_distrib)
  have "real_of_int m ^ n \<le> ?x ^ n" unfolding x(1) using assms(3) by (metis of_int_le_iff of_int_power)
  then show "real_of_int m \<le> ?x" using assms(1) x(2) by (metis power_mono_iff assms(2) of_int_0_le_iff)
  have "?x ^ n < real_of_int (m + 1) ^ n" unfolding x(1) using assms(4) by (metis of_int_less_iff of_int_power)
  then show "?x < real_of_int (m + 1)" using assms(2) by (meson power_less_imp_less_base of_int_0_le_iff add_nonneg_nonneg zero_le_one)
qed

definition cube_near :: "int \<Rightarrow> int \<Rightarrow> bool" where
  "cube_near p m = (m * m * m \<le> p * 79228162514264337593543950336 \<and> p * 79228162514264337593543950336 < (m + 1) * (m + 1) * (m + 1))"

definition square_near :: "int \<Rightarrow> int \<Rightarrow> bool" where
  "square_near p m = (m * m \<le> p * 18446744073709551616 \<and> p * 18446744073709551616 < (m + 1) * (m + 1))"

definition whole_root :: "int \<Rightarrow> int \<Rightarrow> int" where
  "whole_root n p = (if p < 2 ^ nat n then 1 else if p < 3 ^ nat n then 2 else if p < 4 ^ nat n then 3
     else if p < 5 ^ nat n then 4 else if p < 6 ^ nat n then 5 else 6)"

lemma cube_near: "cube_near (int p) (a * 4294967296 + uint w) \<Longrightarrow> 0 \<le> a \<Longrightarrow> frac_word (root 3 (real p)) = w"
  using power_bounds [of 3 "a * 2 ^ 32 + uint w" "int p"]
  by (intro frac_word_eq [of a]) (simp_all add: cube_near_def power3_eq_cube)

lemma square_near: "square_near (int p) (a * 4294967296 + uint w) \<Longrightarrow> 0 \<le> a \<Longrightarrow> frac_word (sqrt (real p)) = w"
  using power_bounds [of 2 "a * 2 ^ 32 + uint w" "int p"]
  by (intro frac_word_eq [of a]) (simp_all add: square_near_def power2_eq_square sqrt_def)

definition cubes_near :: "nat list \<Rightarrow> u32 list \<Rightarrow> bool" where
  "cubes_near = list_all2 (\<lambda>p w. cube_near (int p) (whole_root 3 (int p) * 4294967296 + uint w))"

definition squares_near :: "nat list \<Rightarrow> u32 list \<Rightarrow> bool" where
  "squares_near = list_all2 (\<lambda>p w. square_near (int p) (whole_root 2 (int p) * 4294967296 + uint w))"

lemma whole_root_nonneg: "0 \<le> whole_root n p"
  by (simp add: whole_root_def)

lemma cube_words: "cubes_near (take n first_primes) ws \<Longrightarrow> ws = map cube_word [0..<length ws]"
proof (rule nth_equalityI)
  fix i
  assume "cubes_near (take n first_primes) ws" "i < length ws"
  then have "cube_near (int (first_primes ! i)) (whole_root 3 (int (first_primes ! i)) * 4294967296 + uint (ws ! i))"
    by (auto simp: cubes_near_def list_all2_conv_all_nth min_def split: if_splits)
  from cube_near [OF this whole_root_nonneg] show "ws ! i = map cube_word [0..<length ws] ! i"
    using \<open>i < length ws\<close> by (simp add: cube_word_def)
qed simp

lemma square_words: "squares_near (take n first_primes) ws \<Longrightarrow> ws = map square_word [0..<length ws]"
proof (rule nth_equalityI)
  fix i
  assume "squares_near (take n first_primes) ws" "i < length ws"
  then have "square_near (int (first_primes ! i)) (whole_root 2 (int (first_primes ! i)) * 4294967296 + uint (ws ! i))"
    by (auto simp: squares_near_def list_all2_conv_all_nth min_def split: if_splits)
  from square_near [OF this whole_root_nonneg] show "ws ! i = map square_word [0..<length ws] ! i"
    using \<open>i < length ws\<close> by (simp add: square_word_def)
qed simp

subsection \<open>Sines\<close>

definition sine_word :: "nat \<Rightarrow> u32" where
  "sine_word t = of_int \<lfloor>2 ^ 32 * \<bar>sin (real (t + 1))\<bar>\<rfloor>"

text \<open>\<open>sin 1\<close> and \<open>cos 1\<close> with 160 binary places, from the series; the others follow by addition of angles.\<close>

abbreviation (input) DD :: int where "DD \<equiv> 1461501637330902918203684832716283019655932542976"

definition sin_1 :: int where "sin_1 = 1229811222063188079455875033478504257159032017171"

definition cos_1 :: int where "cos_1 = 789652704679948512850133577617776009509005113993"

definition angle :: "nat \<Rightarrow> int \<Rightarrow> int \<Rightarrow> int \<Rightarrow> bool" where
  "angle n s c e \<longleftrightarrow> \<bar>DD * sin (real n) - s\<bar> \<le> e \<and> \<bar>DD * cos (real n) - c\<bar> \<le> e"

lemma scaled_near:
  assumes "0 < D" "\<bar>x - y\<bar> \<le> 1 / D" "\<bar>D * y - k\<bar> \<le> 1"
  shows "\<bar>D * x - k\<bar> \<le> (2 :: real)"
proof -
  have "\<bar>D * x - D * y\<bar> = D * \<bar>x - y\<bar>" using assms(1) by (simp add: abs_mult flip: right_diff_distrib)
  also have "\<dots> \<le> 1" using assms(1,2) by (simp add: field_simps)
  finally show ?thesis using assms(3) by linarith
qed

lemma sin_cos_1: "\<bar>DD * sin 1 - sin_1\<bar> \<le> 2" "\<bar>DD * cos 1 - cos_1\<bar> \<le> 2"
proof -
  have f: "inverse (fact 42) \<le> (1 / DD :: real)" by (simp add: fact_numeral)
  have "\<bar>sin 1 - (\<Sum>m<42. sin_coeff m * 1 ^ m)\<bar> \<le> inverse (fact 42) * \<bar>1\<bar> ^ 42"
    by (rule Maclaurin_sin_bound)
  then have "\<bar>sin 1 - (\<Sum>m<42. sin_coeff m)\<bar> \<le> (1 / DD :: real)" using f by simp
  moreover have "\<bar>DD * (\<Sum>m<42. sin_coeff m) - sin_1\<bar> \<le> 1"
    by (simp add: sin_coeff_def sin_1_def lessThan_nat_numeral lessThan_Suc fact_numeral)
  ultimately show "\<bar>DD * sin 1 - sin_1\<bar> \<le> 2" by (rule scaled_near [rotated]) simp
  obtain y where y: "cos 1 = (\<Sum>m<42. cos_coeff m * 1 ^ m) + (y / fact 42) * 1 ^ 42" "\<bar>y\<bar> \<le> (1 :: real)"
    using Maclaurin_cos_expansion [of 1 42] abs_cos_le_one by metis
  have "\<bar>cos 1 - (\<Sum>m<42. cos_coeff m)\<bar> = \<bar>y\<bar> * inverse (fact 42)"
    using y(1) by (simp add: abs_mult divide_inverse)
  also have "\<dots> \<le> 1 * inverse (fact 42)" using y(2) by (intro mult_right_mono) simp_all
  finally have "\<bar>cos 1 - (\<Sum>m<42. cos_coeff m)\<bar> \<le> (1 / DD :: real)" using f by simp
  moreover have "\<bar>DD * (\<Sum>m<42. cos_coeff m) - cos_1\<bar> \<le> 1"
    by (simp add: cos_coeff_def cos_1_def lessThan_nat_numeral lessThan_Suc fact_numeral)
  ultimately show "\<bar>DD * cos 1 - cos_1\<bar> \<le> 2" by (rule scaled_near [rotated]) simp
qed

lemma product_error:
  fixes D x y u v :: real
  assumes "0 < D" "\<bar>D * x - u\<bar> \<le> e" "\<bar>D * y - v\<bar> \<le> 2" "\<bar>x\<bar> \<le> 1" "\<bar>v\<bar> \<le> D"
  shows "\<bar>D * (x * y) - u * v / D\<bar> \<le> e + 2"
proof -
  have "D * (x * y) - u * v / D = (D * x - u) * (v / D) + x * (D * y - v)" using assms(1) by (simp add: field_simps)
  then have "\<bar>D * (x * y) - u * v / D\<bar> \<le> \<bar>D * x - u\<bar> * \<bar>v / D\<bar> + \<bar>x\<bar> * \<bar>D * y - v\<bar>"
    by (metis abs_mult abs_triangle_ineq)
  also have "\<dots> \<le> e * 1 + 1 * 2"
    using assms by (intro add_mono mult_mono) auto
  finally show ?thesis by simp
qed

lemma div_error: "\<bar>real_of_int n / real_of_int d - real_of_int (n div d)\<bar> \<le> 1"
proof -
  have "\<lfloor>real_of_int n / real_of_int d\<rfloor> = n div d" by (rule floor_divide_of_int_eq)
  then show ?thesis using floor_correct [of "real_of_int n / real_of_int d"] by (simp add: abs_le_iff)
qed

lemma sum_error:
  fixes a b u v k e :: real
  assumes "\<bar>a - u\<bar> \<le> e + 2" "\<bar>b - v\<bar> \<le> e + 2"
  shows "\<bar>(u + v) - k\<bar> \<le> 1 \<Longrightarrow> \<bar>(a + b) - k\<bar> \<le> 2 * e + 5" "\<bar>(u - v) - k\<bar> \<le> 1 \<Longrightarrow> \<bar>(a - b) - k\<bar> \<le> 2 * e + 5"
  using assms by linarith+

lemma angle_step:
  assumes "angle n s c e"
  shows "angle (Suc n) ((s * cos_1 + c * sin_1) div DD) ((c * cos_1 - s * sin_1) div DD) (2 * e + 5)"
proof -
  have k: "\<bar>real_of_int sin_1\<bar> \<le> DD" "\<bar>real_of_int cos_1\<bar> \<le> DD" by (simp_all add: sin_1_def cos_1_def)
  have a: "\<bar>DD * sin (real n) - s\<bar> \<le> real_of_int e" "\<bar>DD * cos (real n) - c\<bar> \<le> real_of_int e"
    using assms by (simp_all add: angle_def)
  have D: "(0 :: real) < DD" by simp
  note p = product_error [OF D a(1) sin_cos_1(1) abs_sin_le_one k(1)] product_error [OF D a(1) sin_cos_1(2) abs_sin_le_one k(2)]
    product_error [OF D a(2) sin_cos_1(1) abs_cos_le_one k(1)] product_error [OF D a(2) sin_cos_1(2) abs_cos_le_one k(2)]
  have s: "DD * sin (real (Suc n)) = DD * (sin (real n) * cos 1) + DD * (cos (real n) * sin 1)"
    "DD * cos (real (Suc n)) = DD * (cos (real n) * cos 1) - DD * (sin (real n) * sin 1)"
    by (simp_all add: sin_add cos_add algebra_simps)
  have d: "\<bar>(real_of_int s * cos_1 / DD + real_of_int c * sin_1 / DD) - real_of_int ((s * cos_1 + c * sin_1) div DD)\<bar> \<le> 1"
    "\<bar>(real_of_int c * cos_1 / DD - real_of_int s * sin_1 / DD) - real_of_int ((c * cos_1 - s * sin_1) div DD)\<bar> \<le> 1"
    using div_error [of "s * cos_1 + c * sin_1" DD] div_error [of "c * cos_1 - s * sin_1" DD]
    by (simp_all add: add_divide_distrib diff_divide_distrib)
  have e: "real_of_int (2 * e + 5) = 2 * real_of_int e + 5" by simp
  show ?thesis
    unfolding angle_def s e using sum_error(1) [OF p(2,3) d(1)] sum_error(2) [OF p(4,1) d(2)] by (rule conjI)
qed

text \<open>The rows of a table from the angle \<open>n\<close> on, compared with the approximations.\<close>

fun sines_near :: "int \<Rightarrow> int \<Rightarrow> int \<Rightarrow> u32 list \<Rightarrow> bool" where
  "sines_near s c e [] = True"
| "sines_near s c e (w # ws) =
     (uint w * 340282366920938463463374607431768211456 \<le> \<bar>s\<bar> - e \<and>
      \<bar>s\<bar> + e < (uint w + 1) * 340282366920938463463374607431768211456 \<and>
      sines_near ((s * cos_1 + c * sin_1) div DD) ((c * cos_1 - s * sin_1) div DD) (2 * e + 5) ws)"

lemma sine_word_near:
  assumes "angle (Suc t) s c e" "uint w * 340282366920938463463374607431768211456 \<le> \<bar>s\<bar> - e"
    "\<bar>s\<bar> + e < (uint w + 1) * 340282366920938463463374607431768211456"
  shows "sine_word t = w"
proof -
  let ?M = "340282366920938463463374607431768211456 :: real" and ?x = "\<bar>sin (real (t + 1))\<bar>"
  have x: "\<bar>DD * sin (real (t + 1))\<bar> = ?M * (2 ^ 32 * ?x)" by (simp add: abs_mult)
  have "\<bar>DD * sin (real (t + 1)) - s\<bar> \<le> real_of_int e" using assms(1) by (simp add: angle_def)
  then have b: "real_of_int (\<bar>s\<bar> - e) \<le> \<bar>DD * sin (real (t + 1))\<bar>" "\<bar>DD * sin (real (t + 1))\<bar> \<le> real_of_int (\<bar>s\<bar> + e)"
    by simp_all
  have "real_of_int (uint w * 340282366920938463463374607431768211456) \<le> real_of_int (\<bar>s\<bar> - e)"
    "real_of_int (\<bar>s\<bar> + e) < real_of_int ((uint w + 1) * 340282366920938463463374607431768211456)"
    using assms(2,3) by (simp_all only: of_int_le_iff of_int_less_iff)
  then have "real_of_int (uint w) * ?M \<le> real_of_int (\<bar>s\<bar> - e)" "real_of_int (\<bar>s\<bar> + e) < (real_of_int (uint w) + 1) * ?M"
    by simp_all
  then have "real_of_int (uint w) * ?M \<le> (2 ^ 32 * ?x) * ?M" "(2 ^ 32 * ?x) * ?M < (real_of_int (uint w) + 1) * ?M"
    using b unfolding x mult.commute [of ?M] by (blast intro: order_trans le_less_trans)+
  then have "real_of_int (uint w) \<le> 2 ^ 32 * ?x" "2 ^ 32 * ?x < real_of_int (uint w) + 1"
    by simp_all
  then have "\<lfloor>2 ^ 32 * ?x\<rfloor> = uint w" by (rule floor_unique)
  then show ?thesis unfolding sine_word_def by simp
qed

lemma sines_table:
  "angle (Suc t) s c e \<Longrightarrow> sines_near s c e ws \<Longrightarrow> ws = map sine_word [t..<t + length ws]"
proof (induction ws arbitrary: t s c e)
  case (Cons w ws)
  have "sine_word t = w" by (rule sine_word_near [OF Cons.prems(1)]) (use Cons.prems(2) in simp_all)
  moreover have "ws = map sine_word [Suc t..<Suc t + length ws]"
    by (rule Cons.IH [OF angle_step [OF Cons.prems(1)]]) (use Cons.prems(2) in simp)
  moreover have "[t..<t + length (w # ws)] = t # [Suc t..<Suc t + length ws]" by (simp add: upt_conv_Cons del: upt_Suc)
  ultimately show ?case by (simp only: list.map)
qed simp

lemma sine_words: "sines_near sin_1 cos_1 2 ws \<Longrightarrow> ws = map sine_word [0..<length ws]"
  using sines_table [of 0 sin_1 cos_1 2 ws] sin_cos_1 by (simp add: angle_def)

subsection \<open>Bytes, proved\<close>

lemma byte_of_unat: "(of_nat (unat (w :: 'a::len word) div 256 ^ i) :: u8) = ucast (drop_bit (8 * i) w)"
proof -
  have "(256 :: nat) ^ i = 2 ^ (8 * i)" by (simp add: power_mult)
  then have "unat w div 256 ^ i = unat (drop_bit (8 * i) w)" by (simp only: unat_drop_bit_eq) (simp add: drop_bit_eq_div)
  then show ?thesis by simp
qed

end
