(* ===== verification/Digest.thy ===== *)
theory Digest
  imports HashConstants
begin

text \<open>
  What the digests of \<open>Linkkit/src/infra/utils/digest\<close> share: words in memory, blocks of a message,
  the loop over them, a sixteen word ring for the message schedule, and the contract of a digest
  that takes its message in pieces.
\<close>

type_synonym u64 = "64 word"

subsection \<open>Words in memory\<close>

text \<open>The processor is a little endian one.\<close>

definition le32 :: "u32 \<Rightarrow> u8 list" where
  "le32 w = [ucast w, ucast (drop_bit 8 w), ucast (drop_bit 16 w), ucast (drop_bit 24 w)]"

definition be32 :: "u32 \<Rightarrow> u8 list" where
  "be32 w = [ucast (drop_bit 24 w), ucast (drop_bit 16 w), ucast (drop_bit 8 w), ucast w]"

definition le32_at :: "u8 list \<Rightarrow> nat \<Rightarrow> u32" where
  "le32_at b i = ucast (b ! i) OR push_bit 8 (ucast (b ! (i + 1)))
     OR push_bit 16 (ucast (b ! (i + 2))) OR push_bit 24 (ucast (b ! (i + 3)))"

definition be32_at :: "u8 list \<Rightarrow> nat \<Rightarrow> u32" where
  "be32_at b i = push_bit 24 (ucast (b ! i)) OR push_bit 16 (ucast (b ! (i + 1)))
     OR push_bit 8 (ucast (b ! (i + 2))) OR ucast (b ! (i + 3))"

definition le64 :: "u64 \<Rightarrow> u8 list" where
  "le64 w = le32 (ucast w) @ le32 (ucast (drop_bit 32 w))"

definition be64 :: "u64 \<Rightarrow> u8 list" where
  "be64 w = be32 (ucast (drop_bit 32 w)) @ be32 (ucast w)"

lemma length_word_bytes [simp]:
  "length (le32 w) = 4" "length (be32 w) = 4" "length (le64 v) = 8" "length (be64 v) = 8"
  by (simp_all add: le32_def be32_def le64_def be64_def)

lemma length_concat_words [simp]:
  "length (concat (map le32 ws)) = 4 * length ws" "length (concat (map be32 ws)) = 4 * length ws"
  by (induction ws) auto

lemma le32_at_append: "i + 3 < length b \<Longrightarrow> le32_at (b @ c) i = le32_at b i"
  by (simp add: le32_at_def nth_append)

lemma u8_bit_high [simp]: "8 \<le> n \<Longrightarrow> \<not> bit (w :: u8) n"
  using bit_imp_le_length [of w n] by auto

lemma u32_bit_high: "32 \<le> n \<Longrightarrow> \<not> bit (w :: u32) n"
  using bit_imp_le_length [of w n] by auto

lemma u64_bit_high: "64 \<le> n \<Longrightarrow> \<not> bit (w :: u64) n"
  using bit_imp_le_length [of w n] by auto

lemma below8: "n < 8 \<Longrightarrow> n \<in> {0,1,2,3,4,5,6,7::nat}"
  by auto

lemma upt32: "[0..<32] =
  [0,1,2,3,4,5,6,7,8,9,10,11,12,13,14,15,16,17,18,19,20,21,22,23,24,25,26,27,28,29,30,31::nat]"
  by code_simp

lemma below32: "n < 32 \<Longrightarrow> n \<in>
  {0,1,2,3,4,5,6,7,8,9,10,11,12,13,14,15,16,17,18,19,20,21,22,23,24,25,26,27,28,29,30,31::nat}"
proof -
  assume "n < 32"
  then have "n \<in> set [0..<32]" by simp
  then show ?thesis unfolding upt32 list.set .
qed

text \<open>Rotations, as the macros write them.\<close>

lemma rot_index: "i < (32 :: nat) \<Longrightarrow> n < 32 \<Longrightarrow> (i + 32 - n) mod 32 = (if n \<le> i then i - n else 32 + i - n)"
  by (auto simp: mod_if)

lemma rotl_or: "0 < n \<Longrightarrow> n < 32 \<Longrightarrow> push_bit n x OR drop_bit (32 - n) x = word_rotl n (x :: u32)"
  by (rule bit_word_eqI, auto simp: bit_word_rotl_iff bit_simps rot_index dest: bit_imp_le_length split: if_splits)

lemma rot_index_up: "i < (32 :: nat) \<Longrightarrow> n < 32 \<Longrightarrow> (i + n) mod 32 = (if i + n < 32 then i + n else i + n - 32)"
  by (auto simp: mod_if)

lemma rotr_or:
  assumes "0 < n" "n < 32"
  shows "drop_bit n x OR push_bit (32 - n) x = word_rotr n (x :: u32)"
proof (rule bit_word_eqI)
  fix i assume "i < LENGTH(32)"
  then have i: "i < 32" by simp
  then show "bit (drop_bit n x OR push_bit (32 - n) x) i = bit (word_rotr n x) i"
    using assms u32_bit_high [of "i + n" x]
    by (auto simp: bit_word_rotr_iff bit_simps rot_index_up [OF i assms(2)] add.commute [of n] dest: bit_imp_le_length)
qed

text \<open>The words and bytes of the code are those of the standards.\<close>

lemma upt_small: "[0..<4] = [0, 1, 2, 3 :: nat]" "[0..<8] = [0, 1, 2, 3, 4, 5, 6, 7 :: nat]"
  by code_simp+

lemma be32_bytes: "be32 w = big_endian 4 (unat w)" and le32_bytes: "le32 w = little_endian 4 (unat w)"
  using byte_of_unat [of w 0] byte_of_unat [of w 1]
  by (simp_all add: be32_def le32_def big_endian_def little_endian_def upt_small byte_of_unat)

lemma byte_of_half:
  "(ucast (drop_bit k (ucast v :: u32)) :: u8) = (if k \<le> 24 then ucast (drop_bit k (v :: u64)) else ucast (drop_bit k (ucast v :: u32)))"
  by (rule bit_word_eqI) (auto simp: bit_simps)

lemma be64_bytes: "be64 w = big_endian 8 (unat w)" and le64_bytes: "le64 w = little_endian 8 (unat w)"
  using byte_of_unat [of w 0] byte_of_unat [of w 1] byte_of_half [of 0 w] byte_of_half [of 0 "drop_bit 32 w"]
  by (simp_all add: be64_def le64_def be32_def le32_def big_endian_def little_endian_def upt_small byte_of_unat byte_of_half)

lemma join_bytes: "(push_bit 24 (ucast a) OR push_bit 16 (ucast b) OR push_bit 8 (ucast c) OR ucast d :: u32) =
    of_nat (256 * (256 * (256 * unat (a :: u8) + unat (b :: u8)) + unat (c :: u8)) + unat (d :: u8))"
proof -
  have o: "x OR y = x + y" if "x AND y = 0" for x y :: u32
    using that by (rule disjunctive_add_eq_or [symmetric])
  have 1: "push_bit 8 x OR ucast (b :: u8) = push_bit 8 x + ucast b" for x :: u32 and b
    by (intro o bit_word_eqI) (auto simp: bit_simps)
  have "push_bit 24 (ucast a) OR push_bit 16 (ucast b) OR push_bit 8 (ucast c) OR ucast d =
      push_bit 8 (push_bit 8 (push_bit 8 (ucast a) OR ucast b) OR ucast c) OR (ucast d :: u32)"
    by (rule bit_word_eqI) (auto simp: bit_simps)
  also have "\<dots> = of_nat (256 * (256 * (256 * unat a + unat b) + unat c) + unat d)"
    unfolding 1 by (simp add: push_bit_eq_mult algebra_simps)
  finally show ?thesis .
qed

lemma be32_at_word: "be32_at b (4 * t) = be_word b t" and le32_at_word: "le32_at b (4 * t) = le_word b t"
  using join_bytes [of "b ! (4 * t)" "b ! (4 * t + 1)" "b ! (4 * t + 2)" "b ! (4 * t + 3)"]
    join_bytes [of "b ! (4 * t + 3)" "b ! (4 * t + 2)" "b ! (4 * t + 1)" "b ! (4 * t)"]
  by (simp_all add: be32_at_def le32_at_def be_word_def le_word_def be_value_def upt_small or.assoc or.commute or.left_commute)

subsection \<open>Blocks\<close>

lemma append_take_drop [simp]: "take n xs @ drop n xs @ ys = xs @ ys"
  by (simp flip: append_assoc)

function chunks :: "u8 list \<Rightarrow> u8 list list" where
  "chunks bs = (if length bs < 64 then [] else take 64 bs # chunks (drop 64 bs))"
  by auto
termination by (relation "measure length") auto

declare chunks.simps [simp del]

lemma chunks_short [simp]: "length bs < 64 \<Longrightarrow> chunks bs = []"
  by (simp add: chunks.simps)

lemma chunks_step: "length b = 64 \<Longrightarrow> chunks (b @ bs) = b # chunks bs"
  by (subst chunks.simps) simp

lemma chunks_one: "length b = 64 \<Longrightarrow> chunks b = [b]"
  using chunks_step [of b "[]"] by simp

lemma length_chunks [simp]: "length (chunks bs) = length bs div 64"
proof (induction bs rule: chunks.induct)
  case (1 bs)
  then show ?case
    by (cases "length bs < 64") (simp_all add: chunks.simps [of bs] le_div_geq)
qed

definition rest :: "u8 list \<Rightarrow> u8 list" where
  "rest bs = drop (64 * (length bs div 64)) bs"

lemma length_rest [simp]: "length (rest bs) = length bs mod 64"
  by (simp add: rest_def minus_mult_div_eq_mod)

lemma rest_short [simp]: "length bs < 64 \<Longrightarrow> rest bs = bs"
  by (simp add: rest_def)

lemma rest_step: "length b = 64 \<Longrightarrow> rest (b @ bs) = rest bs"
  by (simp add: rest_def)

lemma chunks_append_rest: "chunks (m @ i) = chunks m @ chunks (rest m @ i)"
proof (induction m rule: chunks.induct)
  case (1 m)
  show ?case
  proof (cases "length m < 64")
    case False
    then have m: "m = take 64 m @ drop 64 m" "length (take 64 m) = 64" by simp_all
    have "chunks (m @ i) = take 64 m # chunks (drop 64 m @ i)"
      using chunks_step [OF m(2), of "drop 64 m @ i"] by simp
    also have "\<dots> = take 64 m # chunks (drop 64 m) @ chunks (rest (drop 64 m) @ i)" using 1 False by simp
    also have "rest (drop 64 m) = rest m" using rest_step [OF m(2), of "drop 64 m"] by simp
    finally show ?thesis using chunks_step [OF m(2), of "drop 64 m"] by simp
  qed simp
qed

lemma rest_append_rest: "rest (m @ i) = rest (rest m @ i)"
proof (induction m rule: chunks.induct)
  case (1 m)
  show ?case
  proof (cases "length m < 64")
    case False
    then have m: "length (take 64 m) = 64" by simp
    have "rest (m @ i) = rest (drop 64 m @ i)" using rest_step [OF m, of "drop 64 m @ i"] by simp
    also have "\<dots> = rest (rest (drop 64 m) @ i)" using 1 False by simp
    also have "rest (drop 64 m) = rest m" using rest_step [OF m, of "drop 64 m"] by simp
    finally show ?thesis .
  qed simp
qed

text \<open>\<open>while (ilen >= 64) { body; input += 64; ilen -= 64; }\<close>\<close>

function blocks_loop :: "(u8 list \<Rightarrow> 'c \<Rightarrow> 'c) \<Rightarrow> u8 list \<Rightarrow> 'c \<Rightarrow> u8 list \<times> 'c" where
  "blocks_loop body input c =
     (if length input \<ge> 64 then blocks_loop body (drop 64 input) (body (take 64 input) c) else (input, c))"
  by auto
termination by (relation "measure (\<lambda>(_, input, _). length input)") auto

declare blocks_loop.simps [simp del]

lemma blocks_loop_eq: "blocks_loop body input c = (rest input, fold body (chunks input) c)"
proof (induction body input c rule: blocks_loop.induct)
  case (1 body input c)
  show ?case
  proof (cases "length input < 64")
    case False
    then have m: "length (take 64 input) = 64" by simp
    show ?thesis
      using 1 False chunks_step [OF m, of "drop 64 input"] rest_step [OF m, of "drop 64 input"]
      by (simp add: blocks_loop.simps [of body input])
  qed (simp add: blocks_loop.simps)
qed

subsection \<open>A buffer of one block\<close>

text \<open>\<open>memcpy(buffer + i, bs, n)\<close> inside the buffer.\<close>

definition put :: "u8 list \<Rightarrow> nat \<Rightarrow> u8 list \<Rightarrow> u8 list" where
  "put b i bs = take i b @ bs @ drop (i + length bs) b"

lemma length_put [simp]: "i + length bs \<le> length b \<Longrightarrow> length (put b i bs) = length b"
  by (simp add: put_def)

lemma take_put: "i \<le> length b \<Longrightarrow> take (i + length bs) (put b i bs) = take i b @ bs"
  by (simp add: put_def)

lemma put_fill: "i + length bs = length b \<Longrightarrow> put b i bs = take i b @ bs"
  by (simp add: put_def)

lemma put_put: "i + length bs \<le> length b \<Longrightarrow> j = i + length bs \<Longrightarrow> put (put b i bs) j cs = put b i (bs @ cs)"
  by (simp add: put_def ac_simps)

lemma put_one: "i < length b \<Longrightarrow> b[i := x] = put b i [x]"
  by (simp add: put_def upd_conv_take_nth_drop)

lemma put_all: "length bs = length b \<Longrightarrow> put b 0 bs = bs"
  by (simp add: put_def)

text \<open>As the code does it: a copy or a store outside the buffer is undefined.\<close>

definition overwrite :: "u8 list \<Rightarrow> nat \<Rightarrow> u8 list \<Rightarrow> u8 list option" where
  "overwrite b i bs = (if i + length bs \<le> length b then Some (put b i bs) else None)"

lemma overwrite_eq [simp]: "i + length bs \<le> length b \<Longrightarrow> overwrite b i bs = Some (put b i bs)"
  by (simp add: overwrite_def)

text \<open>The chaining value, the buffer and the number of bytes of a message taken in so far.\<close>

definition buffered :: "('s \<Rightarrow> u8 list \<Rightarrow> 's) \<Rightarrow> 's \<Rightarrow> 's \<Rightarrow> u8 list \<Rightarrow> u8 list \<Rightarrow> bool" where
  "buffered f iv st b m \<longleftrightarrow>
     st = foldl f iv (chunks m) \<and> length b = 64 \<and> take (length m mod 64) b = rest m"

lemma buffered_append:
  assumes "buffered f iv st b m" and "st' = foldl f st (chunks (take (length m mod 64) b @ i))"
    and "length b' = 64" and "take (length (m @ i) mod 64) b' = rest (take (length m mod 64) b @ i)"
  shows "buffered f iv st' b' (m @ i)"
  using assms unfolding buffered_def
  by (simp add: chunks_append_rest [of m i] rest_append_rest [of m i])

subsection \<open>Padding\<close>

definition padded :: "(u64 \<Rightarrow> u8 list) \<Rightarrow> u8 list \<Rightarrow> u8 list" where
  "padded enc m =
     m @ 0x80 # replicate ((119 - length m mod 64) mod 64) 0 @ enc (of_nat (8 * length m))"

text \<open>The padding ends the block, or takes one more.\<close>

lemma chunks_padded:
  assumes "length (enc (of_nat (8 * length m))) = 8" "r = length m mod 64"
  shows "r < 56 \<Longrightarrow> chunks (padded enc m) =
      chunks m @ [rest m @ 0x80 # replicate (55 - r) 0 @ enc (of_nat (8 * length m))]"
    and "56 \<le> r \<Longrightarrow> chunks (padded enc m) =
      chunks m @ [rest m @ 0x80 # replicate (63 - r) 0, replicate 56 0 @ enc (of_nat (8 * length m))]"
proof -
  let ?e = "enc (of_nat (8 * length m))"
  let ?p = "0x80 # replicate ((119 - r) mod 64) 0 @ ?e"
  have m: "chunks (padded enc m) = chunks m @ chunks (rest m @ ?p)"
    unfolding padded_def assms(2) by (rule chunks_append_rest)
  have r: "length (rest m) = r" "r < 64" using assms(2) by simp_all
  show "r < 56 \<Longrightarrow> chunks (padded enc m) = chunks m @ [rest m @ 0x80 # replicate (55 - r) 0 @ ?e]"
  proof -
    assume "r < 56"
    then have "(119 - r) mod 64 = 55 - r" by (simp add: mod_if)
    with m \<open>r < 56\<close> show ?thesis using assms(1) r(1) by (simp add: chunks_one)
  qed
  show "56 \<le> r \<Longrightarrow> chunks (padded enc m) = chunks m @ [rest m @ 0x80 # replicate (63 - r) 0, replicate 56 0 @ ?e]"
  proof -
    assume a: "56 \<le> r"
    then have "(119 - r) mod 64 = (63 - r) + 56" using r(2) by simp
    then have p: "rest m @ ?p = (rest m @ 0x80 # replicate (63 - r) 0) @ replicate 56 0 @ ?e"
      by (simp only: replicate_add append_assoc append_Cons)
    have l: "length (rest m @ 0x80 # replicate (63 - r) 0) = 64" using a r by simp
    have e: "length (replicate 56 0 @ ?e) = 64" using assms(1) by simp
    show ?thesis unfolding m p chunks_step [OF l] chunks_one [OF e] ..
  qed
qed

subsection \<open>The message schedule in a ring\<close>

definition ring :: "u32 list \<Rightarrow> (nat \<Rightarrow> u32) \<Rightarrow> nat \<Rightarrow> bool" where
  "ring W f j \<longleftrightarrow> length W = 16 \<and> (\<forall>t. t < j \<and> j \<le> t + 16 \<longrightarrow> W ! (t mod 16) = f t)"

lemma and_15: "(n :: nat) AND 15 = n mod 16"
  using take_bit_eq_mask [of 4 n] by (simp add: take_bit_eq_mod mask_eq_exp_minus_1)

lemma ring_get: "ring W f j \<Longrightarrow> t < j \<Longrightarrow> j \<le> t + 16 \<Longrightarrow> n mod 16 = t mod 16 \<Longrightarrow> W ! (n mod 16) = f t"
  by (simp add: ring_def)

lemma ring_put:
  assumes "ring W f j" "v = f j"
  shows "ring (W[j mod 16 := v]) f (Suc j)"
  unfolding ring_def
proof (intro conjI allI impI)
  show "length (W[j mod 16 := v]) = 16" using assms by (simp add: ring_def)
  fix t assume t: "t < Suc j \<and> Suc j \<le> t + 16"
  show "W[j mod 16 := v] ! (t mod 16) = f t"
  proof (cases "t = j")
    case True
    then show ?thesis using assms by (simp add: ring_def)
  next
    case False
    have "j mod 16 \<noteq> t mod 16"
    proof
      assume "j mod 16 = t mod 16"
      then have "16 dvd j - t" using t by (metis less_Suc_eq_le mod_eq_dvd_iff_nat)
      then show False using t False by (auto dest: dvd_imp_le)
    qed
    then show ?thesis using assms t False by (auto simp: ring_def)
  qed
qed

subsection \<open>The contract of a digest\<close>

text \<open>
  A client starts a context, gives it the message in pieces and asks for the digest. \<open>absorbed c m\<close>
  says that the context has taken in \<open>m\<close>; a piece is shorter than an address space of 32 bits.
\<close>

locale streaming_hash =
  fixes init :: "'c \<Rightarrow> 'c" and starts :: "'c \<Rightarrow> 'c"
    and update :: "'c \<Rightarrow> u8 list option \<Rightarrow> nat \<Rightarrow> 'c option"
    and finish :: "'c \<Rightarrow> u8 list option \<Rightarrow> ('c \<times> u8 list option) option"
    and hash :: "u8 list \<Rightarrow> u8 list" and dsize :: nat and valid :: "'c \<Rightarrow> bool"
    and absorbed :: "'c \<Rightarrow> u8 list \<Rightarrow> bool"
  assumes starts_law: "valid c \<Longrightarrow> absorbed (starts (init c)) []"
    and update_law: "absorbed c m \<Longrightarrow> length i < 2 ^ 32 \<Longrightarrow>
      wp (update c (Some i) (length i)) (\<lambda>c. absorbed c (m @ i))"
    and finish_law: "absorbed c m \<Longrightarrow> length out = dsize \<Longrightarrow>
      wp (finish c (Some out)) (\<lambda>(c, out). valid c \<and> out = Some (hash m))"
    and hash_size: "length (hash m) = dsize"
begin

lemma updates:
  "absorbed c m \<Longrightarrow> (\<And>i. i \<in> set is \<Longrightarrow> length i < 2 ^ 32) \<Longrightarrow>
     wp (for_each is (\<lambda>i c. update c (Some i) (length i)) c) (\<lambda>c. absorbed c (m @ concat is))"
proof (induction "is" arbitrary: c m)
  case Nil
  then show ?case by simp
next
  case (Cons i "is")
  have "wp (update c (Some i) (length i)) (\<lambda>c. absorbed c (m @ i))"
    using Cons.prems by (intro update_law) simp_all
  then have "wp (update c (Some i) (length i))
    (\<lambda>c. wp (for_each is (\<lambda>i c. update c (Some i) (length i)) c) (\<lambda>c. absorbed c ((m @ i) @ concat is)))"
  proof (rule wp_mono)
    fix c assume "absorbed c (m @ i)"
    then show "wp (for_each is (\<lambda>i c. update c (Some i) (length i)) c) (\<lambda>c. absorbed c ((m @ i) @ concat is))"
      by (rule Cons.IH) (rule Cons.prems(2), simp)
  qed
  then show ?case by simp
qed

lemma digest:
  assumes "valid c" "length out = dsize" "\<And>i. i \<in> set ps \<Longrightarrow> length i < 2 ^ 32"
  shows "wp (do {
      c \<leftarrow> for_each ps (\<lambda>i c. update c (Some i) (length i)) (starts (init c));
      finish c (Some out)
    }) (\<lambda>(c, out). valid c \<and> out = Some (hash (concat ps)))"
proof -
  have "wp (for_each ps (\<lambda>i c. update c (Some i) (length i)) (starts (init c))) (\<lambda>c. absorbed c ([] @ concat ps))"
    by (intro updates starts_law assms)
  then show ?thesis using assms(2) by (auto elim!: wp_mono intro: finish_law)
qed

end

end
