(* ===== verification/Sha256.thy ===== *)
theory Sha256
  imports Digest
begin

text \<open>
  \<open>utils_sha256.c\<close>. The message schedule lives in the context's buffer, sixteen words written over
  in a ring, and the block to process may be that buffer. Contexts and buffers are pointers, \<open>None\<close>
  for NULL; a copy or a store outside the 64 bytes of the buffer is undefined. The processor reads words
  at any address. The definitions end with FIPS 180-4, on constants computed from roots of primes, which
  the functions are proved to compute.
\<close>

subsection \<open>Words\<close>

definition R :: "nat \<Rightarrow> u32 \<Rightarrow> u32" where "R b x = drop_bit b x"
definition S32 :: "nat \<Rightarrow> u32 \<Rightarrow> u32" where "S32 b x = drop_bit b x OR push_bit (32 - b) x"
definition Ch :: "u32 \<Rightarrow> u32 \<Rightarrow> u32 \<Rightarrow> u32" where "Ch x y z = (x AND y) XOR (NOT x AND z)"
definition Maj :: "u32 \<Rightarrow> u32 \<Rightarrow> u32 \<Rightarrow> u32" where "Maj x y z = (x AND y) XOR (x AND z) XOR (y AND z)"
definition Sigma0_256 :: "u32 \<Rightarrow> u32" where "Sigma0_256 x = S32 2 x XOR S32 13 x XOR S32 22 x"
definition Sigma1_256 :: "u32 \<Rightarrow> u32" where "Sigma1_256 x = S32 6 x XOR S32 11 x XOR S32 25 x"
definition sigma0_256 :: "u32 \<Rightarrow> u32" where "sigma0_256 x = S32 7 x XOR S32 18 x XOR R 3 x"
definition sigma1_256 :: "u32 \<Rightarrow> u32" where "sigma1_256 x = S32 17 x XOR S32 19 x XOR R 10 x"

text \<open>Sixteen rows, as the source lays them out.\<close>

definition K256 :: "u32 list" where
  "K256 = concat
     [[0x428a2f98, 0x71374491, 0xb5c0fbcf, 0xe9b5dba5],
      [0x3956c25b, 0x59f111f1, 0x923f82a4, 0xab1c5ed5],
      [0xd807aa98, 0x12835b01, 0x243185be, 0x550c7dc3],
      [0x72be5d74, 0x80deb1fe, 0x9bdc06a7, 0xc19bf174],
      [0xe49b69c1, 0xefbe4786, 0x0fc19dc6, 0x240ca1cc],
      [0x2de92c6f, 0x4a7484aa, 0x5cb0a9dc, 0x76f988da],
      [0x983e5152, 0xa831c66d, 0xb00327c8, 0xbf597fc7],
      [0xc6e00bf3, 0xd5a79147, 0x06ca6351, 0x14292967],
      [0x27b70a85, 0x2e1b2138, 0x4d2c6dfc, 0x53380d13],
      [0x650a7354, 0x766a0abb, 0x81c2c92e, 0x92722c85],
      [0xa2bfe8a1, 0xa81a664b, 0xc24b8b70, 0xc76c51a3],
      [0xd192e819, 0xd6990624, 0xf40e3585, 0x106aa070],
      [0x19a4c116, 0x1e376c08, 0x2748774c, 0x34b0bcb5],
      [0x391c0cb3, 0x4ed8aa4a, 0x5b9cca4f, 0x682e6ff3],
      [0x748f82ee, 0x78a5636f, 0x84c87814, 0x8cc70208],
      [0x90befffa, 0xa4506ceb, 0xbef9a3f7, 0xc67178f2]]"

definition sha256_initial_hash_value :: "u32 list" where
  "sha256_initial_hash_value =
    [0x6a09e667, 0xbb67ae85, 0x3c6ef372, 0xa54ff53a, 0x510e527f, 0x9b05688c, 0x1f83d9ab, 0x5be0cd19]"

subsection \<open>Byte order\<close>

definition is_little_endian :: u8 where "is_little_endian = le32 1 ! 0"

definition is_big_endian :: bool where "is_big_endian = (is_little_endian = 0)"

definition reverse_32bit :: "u32 \<Rightarrow> u32" where
  "reverse_32bit d =
     (let d = drop_bit 16 d OR push_bit 16 d
      in drop_bit 8 (d AND 0xff00ff00) OR push_bit 8 (d AND 0x00ff00ff))"

definition os_htobe32 :: "u32 \<Rightarrow> u32" where
  "os_htobe32 d = (if is_big_endian then d else reverse_32bit d)"

definition os_be32toh :: "u32 \<Rightarrow> u32" where
  "os_be32toh d = os_htobe32 d"

definition reverse_64bit :: "u64 \<Rightarrow> u64" where
  "reverse_64bit d =
     (let d = drop_bit 32 d OR push_bit 32 d;
          d = drop_bit 8 (d AND 0xff00ff00ff00ff00) OR push_bit 8 (d AND 0x00ff00ff00ff00ff)
      in drop_bit 16 (d AND 0xffff0000ffff0000) OR push_bit 16 (d AND 0x0000ffff0000ffff))"

definition os_htobe64 :: "u64 \<Rightarrow> u64" where
  "os_htobe64 d = (if is_big_endian then d else reverse_64bit d)"

subsection \<open>The context\<close>

record iot_sha256_context =
  sha256_state :: "u32 list"
  bitcount :: u64
  sha256_buffer :: "u8 list"

definition sha256_zero :: iot_sha256_context where
  "sha256_zero = \<lparr>sha256_state = replicate 8 0, bitcount = 0, sha256_buffer = replicate 64 0\<rparr>"

definition utils_sha256_init :: "iot_sha256_context option \<Rightarrow> iot_sha256_context option" where
  "utils_sha256_init ctx = map_option (\<lambda>_. sha256_zero) ctx"

definition utils_sha256_free :: "iot_sha256_context option \<Rightarrow> iot_sha256_context option" where
  "utils_sha256_free ctx = map_option (\<lambda>_. sha256_zero) ctx"

definition utils_sha256_clone :: "iot_sha256_context \<Rightarrow> iot_sha256_context \<Rightarrow> iot_sha256_context" where
  "utils_sha256_clone dst src = src"

definition utils_sha256_starts :: "iot_sha256_context option \<Rightarrow> iot_sha256_context option" where
  "utils_sha256_starts ctx = map_option (\<lambda>c.
     c\<lparr>sha256_state := sha256_initial_hash_value, sha256_buffer := replicate 64 0, bitcount := 0\<rparr>) ctx"

subsection \<open>One block\<close>

type_synonym sha256_regs = "u32 \<times> u32 \<times> u32 \<times> u32 \<times> u32 \<times> u32 \<times> u32 \<times> u32"

definition sha256_round :: "u32 \<Rightarrow> u32 \<Rightarrow> sha256_regs \<Rightarrow> sha256_regs" where
  "sha256_round k w r =
     (let (a, b, c, d, e, f, g, h) = r;
          T1 = h + Sigma1_256 e + Ch e f g + k + w;
          T2 = Sigma0_256 a + Maj a b c
      in (T1 + T2, a, b, c, d + T1, e, f, g))"

text \<open>Where \<open>data\<close> points: into the context's buffer, or to other memory.\<close>

datatype source = Own_buffer | Input "u8 list"

definition data_word :: "source \<Rightarrow> u32 list \<Rightarrow> nat \<Rightarrow> u32" where
  "data_word src W j = (case src of Own_buffer \<Rightarrow> W ! j | Input b \<Rightarrow> le32_at b (4 * j))"

definition sha256_first :: "source \<Rightarrow> nat \<Rightarrow> u32 list \<times> sha256_regs \<Rightarrow> u32 list \<times> sha256_regs" where
  "sha256_first src j s =
     (let (W, r) = s; W = W[j := os_htobe32 (data_word src W j)]
      in (W, sha256_round (K256 ! j) (W ! j) r))"

definition sha256_second :: "nat \<Rightarrow> u32 list \<times> sha256_regs \<Rightarrow> u32 list \<times> sha256_regs" where
  "sha256_second j s =
     (let (W, r) = s;
          s0 = sigma0_256 (W ! ((j + 1) AND 0x0f));
          s1 = sigma1_256 (W ! ((j + 14) AND 0x0f));
          W = W[j AND 0x0f := W ! (j AND 0x0f) + (s1 + W ! ((j + 9) AND 0x0f) + s0)]
      in (W, sha256_round (K256 ! j) (W ! (j AND 0x0f)) r))"

definition regs8 :: "u32 list \<Rightarrow> sha256_regs" where
  "regs8 st = (st ! 0, st ! 1, st ! 2, st ! 3, st ! 4, st ! 5, st ! 6, st ! 7)"

definition add8 :: "u32 list \<Rightarrow> sha256_regs \<Rightarrow> u32 list" where
  "add8 st r =
     (let (a, b, c, d, e, f, g, h) = r
      in [st ! 0 + a, st ! 1 + b, st ! 2 + c, st ! 3 + d, st ! 4 + e, st ! 5 + f, st ! 6 + g, st ! 7 + h])"

definition utils_sha256_process :: "iot_sha256_context \<Rightarrow> source \<Rightarrow> iot_sha256_context" where
  "utils_sha256_process ctx data =
     (let W256 = map (\<lambda>j. le32_at (sha256_buffer ctx) (4 * j)) [0..<16];
          s = fold (sha256_first data) [0..<16] (W256, regs8 (sha256_state ctx));
          (W256, r) = fold sha256_second [16..<64] s
      in ctx\<lparr>sha256_state := add8 (sha256_state ctx) r, sha256_buffer := concat (map le32 W256)\<rparr>)"

subsection \<open>A message\<close>

definition sha256_whole :: "u8 list \<Rightarrow> iot_sha256_context \<Rightarrow> iot_sha256_context" where
  "sha256_whole input ctx =
     (let ctx = utils_sha256_process ctx (Input input)
      in ctx\<lparr>bitcount := bitcount ctx + of_nat (64 * 8)\<rparr>)"

definition sha256_blocks :: "iot_sha256_context \<Rightarrow> u8 list \<Rightarrow> iot_sha256_context option" where
  "sha256_blocks ctx input =
     (let (input, ctx) = blocks_loop sha256_whole input ctx
      in if length input > 0 then do {
           b \<leftarrow> overwrite (sha256_buffer ctx) 0 input;
           Some (ctx\<lparr>sha256_buffer := b, bitcount := bitcount ctx + of_nat (length input * 8)\<rparr>)
         }
         else Some ctx)"

definition sha256_absorb :: "iot_sha256_context \<Rightarrow> u8 list \<Rightarrow> iot_sha256_context option" where
  "sha256_absorb ctx input =
     (let ilen = length input;
          usedspace = unat (drop_bit 3 (bitcount ctx)) mod 64;
          freespace = 64 - usedspace
      in if usedspace > 0 \<and> ilen < freespace then do {
           b \<leftarrow> overwrite (sha256_buffer ctx) usedspace input;
           Some (ctx\<lparr>sha256_buffer := b, bitcount := bitcount ctx + of_nat (ilen * 8)\<rparr>)
         }
         else if usedspace > 0 then do {
           b \<leftarrow> overwrite (sha256_buffer ctx) usedspace (take freespace input);
           sha256_blocks
             (utils_sha256_process
               (ctx\<lparr>sha256_buffer := b, bitcount := bitcount ctx + of_nat (freespace * 8)\<rparr>) Own_buffer)
             (drop freespace input)
         }
         else sha256_blocks ctx input)"

definition utils_sha256_update ::
  "iot_sha256_context option \<Rightarrow> u8 list option \<Rightarrow> nat \<Rightarrow> iot_sha256_context option option" where
  "utils_sha256_update ctx input ilen =
     (if ilen = 0 then Some ctx
      else case (ctx, input) of
             (Some c, Some bs) \<Rightarrow>
               if ilen \<le> length bs then do { c \<leftarrow> sha256_absorb c (take ilen bs); Some (Some c) } else None
           | _ \<Rightarrow> Some ctx)"

definition sha256_pad :: "iot_sha256_context \<Rightarrow> iot_sha256_context option" where
  "sha256_pad ctx =
     (let usedspace = unat (drop_bit 3 (bitcount ctx)) mod 64;
          ctx = ctx\<lparr>bitcount := os_htobe64 (bitcount ctx)\<rparr>
      in do {
        ctx \<leftarrow>
          (if usedspace > 0 then do {
             b \<leftarrow> overwrite (sha256_buffer ctx) usedspace [0x80];
             let usedspace = usedspace + 1;
             if usedspace \<le> 56 then do {
               b \<leftarrow> overwrite b usedspace (replicate (56 - usedspace) 0);
               Some (ctx\<lparr>sha256_buffer := b\<rparr>)
             }
             else do {
               b \<leftarrow> (if usedspace < 64 then overwrite b usedspace (replicate (64 - usedspace) 0) else Some b);
               let ctx = utils_sha256_process (ctx\<lparr>sha256_buffer := b\<rparr>) Own_buffer;
               b \<leftarrow> overwrite (sha256_buffer ctx) 0 (replicate 56 0);
               Some (ctx\<lparr>sha256_buffer := b\<rparr>)
             }
           }
           else do {
             b \<leftarrow> overwrite (sha256_buffer ctx) 0 (replicate 56 0);
             b \<leftarrow> overwrite b 0 [0x80];
             Some (ctx\<lparr>sha256_buffer := b\<rparr>)
           });
        b \<leftarrow> overwrite (sha256_buffer ctx) 56 (le64 (bitcount ctx));
        Some (utils_sha256_process (ctx\<lparr>sha256_buffer := b\<rparr>) Own_buffer)
      })"

definition utils_sha256_finish ::
  "iot_sha256_context option \<Rightarrow> u8 list option \<Rightarrow> (iot_sha256_context option \<times> u8 list option) option" where
  "utils_sha256_finish ctx output =
     (case ctx of
        None \<Rightarrow> Some (None, output)
      | Some c \<Rightarrow>
          (case output of
             None \<Rightarrow> Some (Some sha256_zero, None)
           | Some out \<Rightarrow> do {
               c \<leftarrow> sha256_pad c;
               let digest = map os_be32toh (sha256_state c);
               out \<leftarrow> overwrite out 0 (concat (map le32 digest));
               Some (Some sha256_zero, Some out)
             }))"

definition utils_sha256 :: "u8 list option \<Rightarrow> nat \<Rightarrow> u8 list option \<Rightarrow> u8 list option option" where
  "utils_sha256 input ilen output =
     (let ctx = utils_sha256_starts (utils_sha256_init (Some sha256_zero)) in do {
        ctx \<leftarrow> utils_sha256_update ctx input ilen;
        (ctx, output) \<leftarrow> utils_sha256_finish ctx output;
        let ctx = utils_sha256_free ctx;
        Some output
      })"

subsection \<open>FIPS 180-4\<close>

definition sigma0_spec :: "u32 \<Rightarrow> u32" where
  "sigma0_spec x = word_rotr 7 x XOR word_rotr 18 x XOR drop_bit 3 x"

definition sigma1_spec :: "u32 \<Rightarrow> u32" where
  "sigma1_spec x = word_rotr 17 x XOR word_rotr 19 x XOR drop_bit 10 x"

fun sha256_schedule :: "u8 list \<Rightarrow> nat \<Rightarrow> u32" where
  "sha256_schedule b t =
     (if t < 16 then be_word b t
      else sigma1_spec (sha256_schedule b (t - 2)) + sha256_schedule b (t - 7)
         + sigma0_spec (sha256_schedule b (t - 15)) + sha256_schedule b (t - 16))"

declare sha256_schedule.simps [simp del]

definition sha256_round_spec :: "u32 \<Rightarrow> u32 \<Rightarrow> sha256_regs \<Rightarrow> sha256_regs" where
  "sha256_round_spec k w r =
     (case r of (a, b, c, d, e, f, g, h) \<Rightarrow>
       let T1 = h + (word_rotr 6 e XOR word_rotr 11 e XOR word_rotr 25 e) + ((e AND f) XOR (NOT e AND g)) + k + w;
           T2 = (word_rotr 2 a XOR word_rotr 13 a XOR word_rotr 22 a) + ((a AND b) XOR (a AND c) XOR (b AND c))
       in (T1 + T2, a, b, c, d + T1, e, f, g))"

text \<open>The initial value and the constants are roots of the first primes, square and cube, and nothing else
  than words and bytes in the order of the standard is shared with the code.\<close>

definition sha256_iv :: "u32 list" where
  "sha256_iv = map square_word [0..<8]"

definition sha256_compress :: "u32 list \<Rightarrow> u8 list \<Rightarrow> u32 list" where
  "sha256_compress st m =
     (case fold (\<lambda>t. sha256_round_spec (cube_word t) (sha256_schedule m t)) [0..<64]
        (st ! 0, st ! 1, st ! 2, st ! 3, st ! 4, st ! 5, st ! 6, st ! 7) of
        (a, b, c, d, e, f, g, h) \<Rightarrow>
          [a + st ! 0, b + st ! 1, c + st ! 2, d + st ! 3, e + st ! 4, f + st ! 5, g + st ! 6, h + st ! 7])"

definition sha256_hash :: "u8 list \<Rightarrow> u8 list" where
  "sha256_hash m =
     concat (map (\<lambda>w. big_endian 4 (unat w))
       (foldl sha256_compress sha256_iv (chunks (padded (\<lambda>n. big_endian 8 (unat n)) m))))"

subsection \<open>Constants, proved\<close>

lemma length_K256: "length K256 = 64" "length sha256_initial_hash_value = 8"
  by (simp_all add: K256_def sha256_initial_hash_value_def)

lemma K256_nth: "t < 64 \<Longrightarrow> K256 ! t = cube_word t"
proof -
  assume "t < 64"
  have "cubes_near (take 64 first_primes) K256" unfolding first_primes_eq by code_simp
  then have "K256 ! t = map cube_word [0..<length K256] ! t" using cube_words by metis
  then show ?thesis using \<open>t < 64\<close> by (simp add: length_K256)
qed

lemma sha256_iv_eq: "sha256_iv = sha256_initial_hash_value"
proof -
  have "squares_near (take 8 first_primes) sha256_initial_hash_value" unfolding first_primes_eq by code_simp
  then show ?thesis unfolding sha256_iv_def using square_words length_K256(2) by metis
qed

subsection \<open>Byte order, proved\<close>

lemma host_order: "is_big_endian = False"
  by (simp add: is_big_endian_def is_little_endian_def le32_def)

lemma bit_reverse_32bit: "n < 32 \<Longrightarrow> bit (reverse_32bit d) n = bit d (24 - 8 * (n div 8) + n mod 8)"
  by (drule below32, elim insertE emptyE; simp add: reverse_32bit_def bit_simps u32_bit_high; simp add: eval_nat_numeral)

lemma htobe32_le32_at: "os_htobe32 (le32_at b i) = be32_at b i"
proof (rule bit_word_eqI)
  fix n assume "n < LENGTH(32)"
  then have n: "n < 32" by simp
  from below32 [OF n] show "bit (os_htobe32 (le32_at b i)) n = bit (be32_at b i) n"
    unfolding os_htobe32_def host_order if_False bit_reverse_32bit [OF n]
    by (elim insertE emptyE; simp add: bit_simps le32_at_def be32_at_def; simp add: eval_nat_numeral)
qed

lemma le32_htobe32: "le32 (os_htobe32 w) = be32 w"
  unfolding os_htobe32_def host_order if_False le32_def be32_def
  by (simp, intro conjI; rule bit_word_eqI; clarsimp simp: bit_simps bit_reverse_32bit;
      drule below8; elim insertE emptyE; simp)

lemma le64_htobe64: "le64 (os_htobe64 w) = be64 w"
  unfolding os_htobe64_def host_order if_False le64_def be64_def le32_def be32_def
  by (simp, intro conjI; rule bit_word_eqI; clarsimp simp: bit_simps;
      drule below8; elim insertE emptyE; simp add: reverse_64bit_def bit_simps u64_bit_high)

lemma S32_rotr: "0 < n \<Longrightarrow> n < 32 \<Longrightarrow> S32 n x = word_rotr n x"
  by (simp add: S32_def rotr_or)

lemma sha256_round_eq: "sha256_round = sha256_round_spec"
  by (simp add: fun_eq_iff sha256_round_def sha256_round_spec_def Sigma0_256_def Sigma1_256_def
      Ch_def Maj_def S32_rotr)

lemma sigma_eq: "sigma0_256 = sigma0_spec" "sigma1_256 = sigma1_spec"
  by (simp_all add: fun_eq_iff sigma0_256_def sigma1_256_def sigma0_spec_def sigma1_spec_def S32_rotr R_def)

subsection \<open>A block, proved\<close>

definition source_block :: "source \<Rightarrow> iot_sha256_context \<Rightarrow> u8 list" where
  "source_block src c = (case src of Own_buffer \<Rightarrow> sha256_buffer c | Input b \<Rightarrow> b)"

abbreviation sha256_rounds :: "u8 list \<Rightarrow> nat list \<Rightarrow> sha256_regs \<Rightarrow> sha256_regs" where
  "sha256_rounds b \<equiv> fold (\<lambda>t. sha256_round_spec (K256 ! t) (sha256_schedule b t))"

text \<open>The first loop reads each word of the block before it writes it, whether or not the block is
  the buffer.\<close>

lemma first_loop:
  assumes "j \<le> 16" "b = source_block src c" "W = map (\<lambda>j. le32_at (sha256_buffer c) (4 * j)) [0..<16]"
  shows "\<exists>V. fold (sha256_first src) [0..<j] (W, r) = (V, sha256_rounds b [0..<j] r) \<and> length V = 16 \<and>
    (\<forall>t<j. V ! t = sha256_schedule b t) \<and> (\<forall>t. j \<le> t \<and> t < 16 \<longrightarrow> V ! t = W ! t)"
  using assms(1)
proof (induction j)
  case 0
  then show ?case using assms(3) by simp
next
  case (Suc j)
  then obtain V where V: "fold (sha256_first src) [0..<j] (W, r) = (V, sha256_rounds b [0..<j] r)" "length V = 16"
    "\<forall>t<j. V ! t = sha256_schedule b t" "\<forall>t. j \<le> t \<and> t < 16 \<longrightarrow> V ! t = W ! t" by auto
  have "data_word src V j = le32_at b (4 * j)"
    using V(4) Suc.prems assms by (auto simp: data_word_def source_block_def split: source.splits)
  then have w: "os_htobe32 (data_word src V j) = sha256_schedule b j"
    using Suc.prems by (simp add: htobe32_le32_at sha256_schedule.simps be32_at_word)
  have "sha256_first src j (V, q) =
      (V[j := sha256_schedule b j], sha256_round_spec (K256 ! j) (sha256_schedule b j) q)" for q
    using V(2) Suc.prems by (simp add: sha256_first_def sha256_round_eq w)
  then show ?case using V Suc.prems by (auto simp: nth_list_update less_Suc_eq)
qed

lemma second_loop:
  assumes "16 \<le> j" "ring W (sha256_schedule b) 16"
  shows "\<exists>V. fold sha256_second [16..<j] (W, r) = (V, sha256_rounds b [16..<j] r) \<and> ring V (sha256_schedule b) j"
  using assms(1)
proof (induction j rule: dec_induct)
  case base
  then show ?case using assms(2) by simp
next
  case (step j)
  then obtain V where V: "fold sha256_second [16..<j] (W, r) = (V, sha256_rounds b [16..<j] r)"
    "ring V (sha256_schedule b) j" by auto
  have g: "V ! ((j + 1) AND 15) = sha256_schedule b (j - 15)" "V ! ((j + 14) AND 15) = sha256_schedule b (j - 2)"
    "V ! ((j + 9) AND 15) = sha256_schedule b (j - 7)" "V ! (j AND 15) = sha256_schedule b (j - 16)"
    unfolding and_15 using step.hyps V(2) by (auto intro!: ring_get [of V] simp: mod_nat_eqI mod_eq_dvd_iff_nat)
  have w: "V ! (j AND 15) + (sigma1_256 (V ! ((j + 14) AND 15)) + V ! ((j + 9) AND 15) + sigma0_256 (V ! ((j + 1) AND 15)))
    = sha256_schedule b j"
    unfolding g sigma_eq using step.hyps by (simp add: sha256_schedule.simps [of b j])
  have "length V = 16" using V(2) by (simp add: ring_def)
  then have "sha256_second j (V, q) =
      (V[j mod 16 := sha256_schedule b j], sha256_round_spec (K256 ! j) (sha256_schedule b j) q)" for q
    unfolding sha256_second_def sha256_round_eq Let_def prod.case w by (simp add: and_15)
  then show ?case using V step.hyps ring_put [OF V(2) refl] by simp
qed

lemma sha256_compress_rounds: "sha256_compress st b = add8 st (sha256_rounds b [0..<64] (regs8 st))"
proof -
  have "sha256_rounds b [0..<64] r = fold (\<lambda>t. sha256_round_spec (cube_word t) (sha256_schedule b t)) [0..<64] r" for r
    by (intro fold_cong) (simp_all add: K256_nth)
  then show ?thesis by (simp add: sha256_compress_def add8_def regs8_def add.commute split: prod.split del: fold_simps upt_rec_numeral)
qed

lemma sha256_hash_eq:
  "sha256_hash m = concat (map be32 (foldl sha256_compress sha256_initial_hash_value (chunks (padded be64 m))))"
proof -
  have "be64 = (\<lambda>n. big_endian 8 (unat n))" "be32 = (\<lambda>w. big_endian 4 (unat w))" by (simp_all add: fun_eq_iff be64_bytes be32_bytes)
  then show ?thesis unfolding sha256_hash_def sha256_iv_eq by simp
qed

lemma utils_sha256_process_eq:
  assumes "b = source_block src c"
  shows "\<exists>B. length B = 64 \<and> utils_sha256_process c src =
    c\<lparr>sha256_state := sha256_compress (sha256_state c) b, sha256_buffer := B\<rparr>"
proof -
  let ?W = "map (\<lambda>j. le32_at (sha256_buffer c) (4 * j)) [0..<16]" and ?r = "regs8 (sha256_state c)"
  obtain V where V: "fold (sha256_first src) [0..<16] (?W, ?r) = (V, sha256_rounds b [0..<16] ?r)" "length V = 16"
    "\<forall>t<16. V ! t = sha256_schedule b t" using first_loop [of 16, OF _ assms refl] by blast
  have "ring V (sha256_schedule b) 16" using V(2,3) by (simp add: ring_def)
  then obtain U where U: "fold sha256_second [16..<64] (V, sha256_rounds b [0..<16] ?r) =
      (U, sha256_rounds b [16..<64] (sha256_rounds b [0..<16] ?r))" "ring U (sha256_schedule b) 64"
    using second_loop [of 64 V b "sha256_rounds b [0..<16] ?r"] by auto
  have "sha256_rounds b [16..<64] (sha256_rounds b [0..<16] ?r) = sha256_rounds b ([0..<16] @ [16..<64]) ?r"
    by (simp only: fold_append o_apply)
  also have "[0..<16] @ [16..<64] = [0..<64]" using upt_add_eq_append [of 0 16 48] by simp
  finally show ?thesis
    using V(1) U unfolding utils_sha256_process_def sha256_compress_rounds ring_def
    by (intro exI [of _ "concat (map le32 U)"]) (simp del: fold_simps)
qed

subsection \<open>A message, proved\<close>

definition sha256_absorbed :: "iot_sha256_context \<Rightarrow> u8 list \<Rightarrow> bool" where
  "sha256_absorbed c m \<longleftrightarrow>
     buffered sha256_compress sha256_initial_hash_value (sha256_state c) (sha256_buffer c) m \<and>
     bitcount c = of_nat (8 * length m)"

lemma whole_blocks:
  "length (sha256_buffer c) = 64 \<Longrightarrow>
     \<exists>B. length B = 64 \<and> fold sha256_whole bs c =
       c\<lparr>sha256_state := foldl sha256_compress (sha256_state c) bs, sha256_buffer := B,
         bitcount := bitcount c + of_nat (512 * length bs)\<rparr>"
proof (induction bs arbitrary: c)
  case Nil
  then show ?case by (intro exI [of _ "sha256_buffer c"]) simp
next
  case (Cons b bs)
  obtain B where B: "length B = 64" "sha256_whole b c =
      c\<lparr>sha256_state := sha256_compress (sha256_state c) b, sha256_buffer := B, bitcount := bitcount c + 512\<rparr>"
    using utils_sha256_process_eq [of b "Input b" c] by (auto simp: sha256_whole_def source_block_def)
  then show ?case using Cons.IH [of "sha256_whole b c"] by (auto simp: algebra_simps)
qed

lemma sha256_blocks_eq:
  assumes "length (sha256_buffer c) = 64"
  shows "\<exists>B. length B = 64 \<and> take (length i mod 64) B = rest i \<and> sha256_blocks c i =
    Some (c\<lparr>sha256_state := foldl sha256_compress (sha256_state c) (chunks i), sha256_buffer := B,
      bitcount := bitcount c + of_nat (8 * length i)\<rparr>)"
proof -
  obtain B where B: "length B = 64" "fold sha256_whole (chunks i) c =
      c\<lparr>sha256_state := foldl sha256_compress (sha256_state c) (chunks i), sha256_buffer := B,
        bitcount := bitcount c + of_nat (512 * (length i div 64))\<rparr>"
    using whole_blocks [OF assms, of "chunks i"] by auto
  have n: "8 * length i = 512 * (length i div 64) + (length i mod 64) * 8"
    using mult_div_mod_eq [of 64 "length i"] by linarith
  show ?thesis
  proof (cases "rest i = []")
    case True
    then have "length i mod 64 = 0" using length_rest [of i] by simp
    then have n8: "512 * (length i div 64) = 8 * length i" using n by simp
    show ?thesis
      using B(1) B(2) [unfolded n8] True \<open>length i mod 64 = 0\<close>
      by (intro exI [of _ B]) (simp add: sha256_blocks_def blocks_loop_eq del: of_nat_mult)
  next
    case False
    have "length i mod 64 \<le> 64" by simp
    moreover have "bitcount c + of_nat (512 * (length i div 64)) + of_nat (length i mod 64 * 8) =
        bitcount c + of_nat (8 * length i)"
      unfolding add.assoc of_nat_add [symmetric] n [symmetric] ..
    ultimately show ?thesis
      using B False take_put [of 0 B "rest i"] length_put [of 0 "rest i" B]
      by (intro exI [of _ "put B 0 (rest i)"]) (simp add: sha256_blocks_def blocks_loop_eq)
  qed
qed

lemma usedspace_eq: "bitcount c = of_nat (8 * n) \<Longrightarrow> unat (drop_bit 3 (bitcount c)) mod 64 = n mod 64"
proof -
  assume b: "bitcount c = of_nat (8 * n)"
  have "unat (bitcount c) = 8 * n mod 2 ^ 64" unfolding b by (simp only: unat_of_nat) simp
  also have "\<dots> = 8 * (n mod 2 ^ 61)" using mult_mod_right [of 8 n "2 ^ 61"] by simp
  finally have "unat (drop_bit 3 (bitcount c)) = n mod 2 ^ 61" unfolding unat_drop_bit_eq by (simp add: drop_bit_eq_div)
  then show ?thesis using mod_mod_cancel [of 64 "2 ^ 61" n] by simp
qed

lemma sha256_absorb_cases:
  assumes "unat (drop_bit 3 (bitcount c)) mod 64 = r"
  shows "0 < r \<Longrightarrow> length i < 64 - r \<Longrightarrow> sha256_absorb c i = do {
      b \<leftarrow> overwrite (sha256_buffer c) r i;
      Some (c\<lparr>sha256_buffer := b, bitcount := bitcount c + of_nat (length i * 8)\<rparr>)
    }"
    and "0 < r \<Longrightarrow> 64 - r \<le> length i \<Longrightarrow> sha256_absorb c i = do {
      b \<leftarrow> overwrite (sha256_buffer c) r (take (64 - r) i);
      sha256_blocks
        (utils_sha256_process (c\<lparr>sha256_buffer := b, bitcount := bitcount c + of_nat ((64 - r) * 8)\<rparr>) Own_buffer)
        (drop (64 - r) i)
    }"
    and "r = 0 \<Longrightarrow> sha256_absorb c i = sha256_blocks c i"
  unfolding sha256_absorb_def Let_def assms by simp_all

lemma sha256_absorb_law:
  assumes "sha256_absorbed c m"
  shows "\<exists>c'. sha256_absorb c i = Some c' \<and> sha256_absorbed c' (m @ i)"
proof -
  define r where "r = length m mod 64"
  let ?b = "sha256_buffer c"
  have c: "buffered sha256_compress sha256_initial_hash_value (sha256_state c) ?b m"
      "bitcount c = of_nat (8 * length m)" "length ?b = 64" and r64: "r < 64"
    using assms by (auto simp: sha256_absorbed_def buffered_def r_def)
  note absorb = sha256_absorb_cases [OF usedspace_eq [OF c(2), folded r_def], of i]
  note append = buffered_append [OF c(1), folded r_def]
  have n: "length (m @ i) mod 64 = (r + length i) mod 64" by (simp add: r_def mod_add_left_eq)
  consider (part) "r > 0" "length i < 64 - r" | (fill) "r > 0" "length i \<ge> 64 - r" | (fresh) "r = 0"
    by linarith
  then show ?thesis
  proof cases
    case part
    have t: "length (take r ?b @ i) < 64" using part(2) c(3) by simp
    have "buffered sha256_compress sha256_initial_hash_value (sha256_state c) (put ?b r i) (m @ i)"
    proof (rule append)
      show "sha256_state c = foldl sha256_compress (sha256_state c) (chunks (take r ?b @ i))" using t by simp
      show "length (put ?b r i) = 64" using part(2) c(3) by simp
      show "take (length (m @ i) mod 64) (put ?b r i) = rest (take r ?b @ i)"
        unfolding n using part t r64 take_put [of r ?b i] c(3) by simp
    qed
    moreover have "r + length i \<le> length ?b" using part(2) c(3) by simp
    ultimately show ?thesis unfolding absorb(1) [OF part] sha256_absorbed_def by (simp add: c(2) algebra_simps)
  next
    case fill
    let ?f = "64 - r"
    let ?B = "take r ?b @ take ?f i"
    have B: "put ?b r (take ?f i) = ?B" "length ?B = 64" using fill r64 c(3) by (simp_all add: put_fill)
    let ?c = "c\<lparr>sha256_buffer := ?B, bitcount := bitcount c + of_nat (?f * 8)\<rparr>"
    obtain B' where B': "length B' = 64" "utils_sha256_process ?c Own_buffer =
        ?c\<lparr>sha256_state := sha256_compress (sha256_state c) ?B, sha256_buffer := B'\<rparr>"
      using utils_sha256_process_eq [of ?B Own_buffer ?c] by (auto simp: source_block_def)
    obtain C where C: "length C = 64" "take (length (drop ?f i) mod 64) C = rest (drop ?f i)"
      "sha256_blocks (utils_sha256_process ?c Own_buffer) (drop ?f i) =
        Some (c\<lparr>sha256_state := foldl sha256_compress (sha256_compress (sha256_state c) ?B) (chunks (drop ?f i)),
          sha256_buffer := C, bitcount := bitcount c + of_nat (?f * 8) + of_nat (8 * length (drop ?f i))\<rparr>)"
      using sha256_blocks_eq [of "utils_sha256_process ?c Own_buffer" "drop ?f i"] B' by auto
    have i: "take r ?b @ i = ?B @ drop ?f i" by simp
    have "r + length i = 64 + length (drop ?f i)" using fill r64 by simp
    then have n': "length (m @ i) mod 64 = length (drop ?f i) mod 64" unfolding n by (simp only: mod_add_self1)
    have "buffered sha256_compress sha256_initial_hash_value
        (foldl sha256_compress (sha256_compress (sha256_state c) ?B) (chunks (drop ?f i))) C (m @ i)"
    proof (rule append)
      show "foldl sha256_compress (sha256_compress (sha256_state c) ?B) (chunks (drop ?f i)) =
          foldl sha256_compress (sha256_state c) (chunks (take r ?b @ i))"
        unfolding i chunks_step [OF B(2)] by simp
      show "take (length (m @ i) mod 64) C = rest (take r ?b @ i)"
        unfolding i n' rest_step [OF B(2)] by (rule C(2))
    qed (rule C(1))
    moreover have "?f * 8 + 8 * length (drop ?f i) + 8 * length m = 8 * length (m @ i)" using fill(2) by simp
    then have "bitcount c + of_nat (?f * 8) + of_nat (8 * length (drop ?f i)) = of_nat (8 * length (m @ i))"
      unfolding c(2) of_nat_add [symmetric] by (simp only: ac_simps)
    moreover have "overwrite ?b r (take ?f i) = Some ?B" using fill r64 c(3) B(1) by simp
    ultimately show ?thesis
      unfolding absorb(2) [OF fill] sha256_absorbed_def by (simp add: C(3) del: of_nat_add of_nat_mult)
  next
    case fresh
    obtain C where C: "length C = 64" "take (length i mod 64) C = rest i" "sha256_blocks c i =
        Some (c\<lparr>sha256_state := foldl sha256_compress (sha256_state c) (chunks i), sha256_buffer := C,
          bitcount := bitcount c + of_nat (8 * length i)\<rparr>)"
      using sha256_blocks_eq [OF c(3), of i] by blast
    have "buffered sha256_compress sha256_initial_hash_value
        (foldl sha256_compress (sha256_state c) (chunks i)) C (m @ i)"
      by (rule append) (use C fresh n in simp_all)
    then show ?thesis unfolding absorb(3) [OF fresh] C(3) sha256_absorbed_def by (simp add: c(2) algebra_simps)
  qed
qed

lemma process_state: "sha256_state (utils_sha256_process c src) = sha256_compress (sha256_state c) (source_block src c)"
  and process_buffer: "length (sha256_buffer (utils_sha256_process c src)) = 64"
  and process_count: "bitcount (utils_sha256_process c src) = bitcount c"
  using utils_sha256_process_eq [of "source_block src c" src c] by auto

lemmas process_fields = process_state process_buffer process_count

lemma sha256_pad_law:
  assumes "sha256_absorbed c m"
  shows "\<exists>c'. sha256_pad c = Some c' \<and>
    sha256_state c' = foldl sha256_compress sha256_initial_hash_value (chunks (padded be64 m))"
proof -
  define r where "r = length m mod 64"
  let ?b = "sha256_buffer c" and ?n = "of_nat (8 * length m) :: u64"
  have c: "sha256_state c = foldl sha256_compress sha256_initial_hash_value (chunks m)"
      "take r ?b = rest m" "length ?b = 64" "bitcount c = ?n"
    using assms by (auto simp: sha256_absorbed_def buffered_def r_def)
  note u = usedspace_eq [OF c(4), folded r_def]
  have r: "r < 64" "length (rest m) = r" by (simp_all add: r_def)
  note chunks = chunks_padded [OF length_word_bytes(4), OF r_def]
  have len: "le64 (os_htobe64 ?n) = be64 ?n" by (rule le64_htobe64)
  consider (fresh) "r = 0" | (one) "0 < r" "r < 56" | (two) "56 \<le> r" by linarith
  then show ?thesis
  proof cases
    case fresh
    have "put (put (put ?b 0 (replicate 56 0)) 0 [0x80]) 56 (be64 ?n) =
        put (put (put (put ?b 0 [0]) 1 (replicate 55 0)) 0 [0x80]) 56 (be64 ?n)"
      using c(3) put_put [of 0 "[0]" ?b 1 "replicate 55 0"] replicate_Suc [of 55 "0 :: u8"] by (simp add: put_one)
    also have "\<dots> = 0x80 # replicate 55 0 @ be64 ?n" using c(3) by (simp add: put_def)
    finally have "put (put (put ?b 0 (replicate 56 0)) 0 [0x80]) 56 (be64 ?n) = 0x80 # replicate 55 0 @ be64 ?n" .
    moreover have "rest m = []" using r(2) fresh by (simp only: length_0_conv)
    ultimately show ?thesis
      using fresh u by (simp add: sha256_pad_def process_fields source_block_def len c chunks del: of_nat_mult)
  next
    case one
    have "put (put (put ?b r [0x80]) (r + 1) (replicate (56 - (r + 1)) 0)) 56 (be64 ?n) =
        take r ?b @ 0x80 # replicate (55 - r) 0 @ be64 ?n"
      using one c(3) by (simp add: put_one put_put, simp add: put_fill)
    then show ?thesis
      using one u by (simp add: sha256_pad_def process_fields source_block_def len c chunks del: replicate_Suc of_nat_mult)
  next
    case two
    have b: "(if r + 1 < 64 then put (put ?b r [0x80]) (r + 1) (replicate (64 - (r + 1)) 0) else put ?b r [0x80]) =
        take r ?b @ 0x80 # replicate (63 - r) 0"
      using two r(1) c(3) by (auto simp: put_one put_put not_less le_Suc_eq) (simp_all add: put_def)
    have p: "length B = 64 \<Longrightarrow> put (put B 0 (replicate 56 0)) 56 (be64 ?n) = replicate 56 0 @ be64 ?n" for B
      by (simp add: put_put put_all)
    show ?thesis
      using two r u b by (cases "r < 63") (simp_all add: sha256_pad_def process_fields source_block_def len p c chunks Let_def del: of_nat_mult)
  qed
qed

lemma sha256_compress_length: "length (sha256_compress st b) = 8"
  by (simp add: sha256_compress_def add8_def split: prod.splits)

lemma length_sha256_chain: "length st = 8 \<Longrightarrow> length (foldl sha256_compress st bs) = 8"
  by (induction bs arbitrary: st) (simp_all add: sha256_compress_length)

lemma sha256_hash_length: "length (sha256_hash m) = 32"
  by (simp add: sha256_hash_eq length_sha256_chain sha256_initial_hash_value_def)

lemma sha256_finish_law:
  assumes "sha256_absorbed c m" "length out = 32"
  shows "utils_sha256_finish (Some c) (Some out) = Some (Some sha256_zero, Some (sha256_hash m))"
proof -
  obtain c' where c': "sha256_pad c = Some c'"
    "sha256_state c' = foldl sha256_compress sha256_initial_hash_value (chunks (padded be64 m))"
    using sha256_pad_law [OF assms(1)] by blast
  then have "concat (map le32 (map os_be32toh (sha256_state c'))) = sha256_hash m"
    by (simp add: os_be32toh_def sha256_hash_eq comp_def le32_htobe32)
  then show ?thesis
    using assms(2) c'(1) by (simp add: utils_sha256_finish_def put_all sha256_hash_length)
qed

interpretation sha256: streaming_hash utils_sha256_init utils_sha256_starts utils_sha256_update
  utils_sha256_finish sha256_hash 32 "\<lambda>c. c \<noteq> None" "\<lambda>c m. \<exists>x. c = Some x \<and> sha256_absorbed x m"
proof
  show "\<exists>x. utils_sha256_starts (utils_sha256_init c) = Some x \<and> sha256_absorbed x []" if "c \<noteq> None" for c
    using that by (auto simp: utils_sha256_starts_def utils_sha256_init_def sha256_absorbed_def buffered_def)
  show "wp (utils_sha256_update c (Some i) (length i)) (\<lambda>c. \<exists>x. c = Some x \<and> sha256_absorbed x (m @ i))"
    if "\<exists>x. c = Some x \<and> sha256_absorbed x m" "length i < 2 ^ 32" for c m i
    using that sha256_absorb_law [of _ m i] by (fastforce simp: utils_sha256_update_def)
  show "wp (utils_sha256_finish c (Some out)) (\<lambda>(c, out). c \<noteq> None \<and> out = Some (sha256_hash m))"
    if "\<exists>x. c = Some x \<and> sha256_absorbed x m" "length out = 32" for c m out
    using that by (auto simp: sha256_finish_law)
qed (rule sha256_hash_length)

text \<open>C27: SHA-256 in pieces. A message below the address space, given to \<open>utils_sha256_update\<close>
  in pieces of any sizes, leaves in the 32 bytes of the output the SHA-256 of FIPS 180-4 of the whole message,
  and so does \<open>utils_sha256\<close> in one call. The hash on the right is the standard's, with its constants taken
  from the cube and square roots of the first primes, not from the code's tables. The result does not depend on
  how the message is cut, and no copy or store leaves the 64 bytes of the buffer: one that did would make the
  model undefined, while these calls all return.\<close>

theorem sha256_streams:
  assumes "\<forall>i \<in> set pieces. length i < 2 ^ 32" and "length out = 32" and "length (concat pieces) < 2 ^ 32"
  shows "(do {
      c \<leftarrow> for_each pieces (\<lambda>i c. utils_sha256_update c (Some i) (length i))
             (utils_sha256_starts (utils_sha256_init (Some junk)));
      (c, out) \<leftarrow> utils_sha256_finish c (Some out);
      Some out
    }) = Some (Some (sha256_hash (concat pieces))) \<and>
    utils_sha256 (Some (concat pieces)) (length (concat pieces)) (Some out) =
      Some (Some (sha256_hash (concat pieces)))"
  using sha256.digest [of "Some junk" out pieces]
    sha256.digest [of "Some sha256_zero" out "[concat pieces]"] assms
  by (auto simp: wp_Some_iff utils_sha256_def bind_eq_Some_conv)

lemma sha256_streams_witness:
  "utils_sha256 (Some (concat [[0x61], [0x62, 0x63]])) (length (concat [[0x61], [0x62, 0x63 :: u8]])) (Some (replicate 32 0)) =
     Some (Some (sha256_hash [0x61, 0x62, 0x63]))"
  using sha256_streams [of "[[0x61], [0x62, 0x63]]" "replicate 32 0"] by simp

end
