(* ===== verification/MdDigest.thy ===== *)
theory MdDigest
  imports Digest
begin

text \<open>
  What \<open>utils_sha1.c\<close> and \<open>utils_md5.c\<close> write alike: the context, and taking in a message. The two
  files differ in the block function and in the byte order. The laws of the digests are proved once,
  for any block function that is a compression of the chaining value.
\<close>

record md_context =
  total0 :: u32
  total1 :: u32
  md_state :: "u32 list"
  md_buffer :: "u8 list"

definition md_zero :: "nat \<Rightarrow> md_context" where
  "md_zero n = \<lparr>total0 = 0, total1 = 0, md_state = replicate n 0, md_buffer = replicate 64 0\<rparr>"

text \<open>The macro \<open>S\<close> of both files.\<close>

definition S :: "u32 \<Rightarrow> nat \<Rightarrow> u32" where
  "S x n = push_bit n x OR drop_bit (32 - n) (x AND 0xFFFFFFFF)"

definition md_count :: "md_context \<Rightarrow> u32 \<Rightarrow> md_context" where
  "md_count ctx ilen =
     (let ctx = ctx\<lparr>total0 := total0 ctx + ilen\<rparr>;
          ctx = ctx\<lparr>total0 := total0 ctx AND 0xFFFFFFFF\<rparr>
      in if total0 ctx < ilen then ctx\<lparr>total1 := total1 ctx + 1\<rparr> else ctx)"

definition md_absorb :: "(md_context \<Rightarrow> u8 list \<Rightarrow> md_context) \<Rightarrow> md_context \<Rightarrow> u8 list \<Rightarrow> md_context option" where
  "md_absorb process ctx input =
     (let left = unat (total0 ctx AND 0x3F);
          fill = 64 - left;
          ctx = md_count ctx (of_nat (length input))
      in do {
        (ctx, input, left) \<leftarrow>
          (if left \<noteq> 0 \<and> length input \<ge> fill then do {
             b \<leftarrow> overwrite (md_buffer ctx) left (take fill input);
             let ctx = ctx\<lparr>md_buffer := b\<rparr>;
             Some (process ctx (md_buffer ctx), drop fill input, 0)
           }
           else Some (ctx, input, left));
        let (input, ctx) = blocks_loop (\<lambda>b c. process c b) input ctx;
        if length input > 0 then do {
          b \<leftarrow> overwrite (md_buffer ctx) left input;
          Some (ctx\<lparr>md_buffer := b\<rparr>)
        }
        else Some ctx
      })"

definition md_update ::
  "(md_context \<Rightarrow> u8 list \<Rightarrow> md_context) \<Rightarrow> md_context \<Rightarrow> u8 list option \<Rightarrow> nat \<Rightarrow> md_context option" where
  "md_update process ctx input ilen =
     (if ilen = 0 then Some ctx
      else do {
        bs \<leftarrow> input;
        if ilen \<le> length bs then md_absorb process ctx (take ilen bs) else None
      })"

text \<open>The number of bits of the message, as \<open>finish\<close> computes it.\<close>

definition md_high :: "md_context \<Rightarrow> u32" where
  "md_high ctx = drop_bit 29 (total0 ctx) OR push_bit 3 (total1 ctx)"

definition md_low :: "md_context \<Rightarrow> u32" where
  "md_low ctx = push_bit 3 (total0 ctx)"

definition md_padding :: "u8 list" where
  "md_padding = 0x80 # replicate 63 0"

definition md_padn :: "md_context \<Rightarrow> nat" where
  "md_padn ctx = (let last = total0 ctx AND 0x3F in unat (if last < 56 then 56 - last else 120 - last))"

subsection \<open>The counters\<close>

lemma and_ones: "(x :: u32) AND 0xFFFFFFFF = x"
proof -
  have "x AND 0xFFFFFFFF = take_bit 32 x" by (simp add: take_bit_eq_mask mask_eq_exp_minus_1)
  then show ?thesis by (simp add: take_bit_word_eq_self)
qed

lemma S_rotl: "0 < n \<Longrightarrow> n < 32 \<Longrightarrow> S x n = word_rotl n x"
  by (simp add: S_def and_ones rotl_or)

lemma count_left: "unat ((of_nat n :: u32) AND 0x3F) = n mod 64"
proof -
  have "(of_nat n :: u32) AND 0x3F = take_bit 6 (of_nat n)" by (simp add: take_bit_eq_mask mask_eq_exp_minus_1)
  then have "unat ((of_nat n :: u32) AND 0x3F) = take_bit 6 (unat (of_nat n :: u32))"
    by (simp only: unsigned_take_bit_eq)
  then show ?thesis by (simp add: unat_of_nat take_bit_eq_mod mod_mod_cancel)
qed

lemma carry_mod: "x < m \<Longrightarrow> i < m \<Longrightarrow> (x + i) mod m < i \<longleftrightarrow> m \<le> x + (i :: nat)"
  by (cases "x + i < m") (auto simp: le_mod_geq not_less)

lemma carry_div: "i < m \<Longrightarrow> (n + i) div m = n div m + (if m \<le> n mod m + i then 1 else (0 :: nat))"
  using div_add1_eq [of n i m] mod_less_divisor [of m n]
  by (cases "n mod m + i < m") (auto simp: not_less le_div_geq simp del: mod_less_divisor)

lemma count_carry:
  assumes "i < 2 ^ 32"
  shows "(if (of_nat (n + i) :: u32) < of_nat i then of_nat (n div 2 ^ 32) + 1 else of_nat (n div 2 ^ 32)) =
    (of_nat ((n + i) div 2 ^ 32) :: u32)"
proof -
  have "unat (of_nat (n + i) :: u32) = (n mod 2 ^ 32 + i) mod 2 ^ 32" "unat (of_nat i :: u32) = i"
    using assms unat_of_nat [of "n + i", where ?'a = 32] unat_of_nat [of i, where ?'a = 32]
    by (simp_all add: mod_add_left_eq)
  then have c: "(of_nat (n + i) :: u32) < of_nat i \<longleftrightarrow> 2 ^ 32 \<le> n mod 2 ^ 32 + i"
    unfolding word_less_nat_alt using carry_mod [of "n mod 2 ^ 32" "2 ^ 32" i] assms by simp
  show ?thesis unfolding c carry_div [OF assms, of n] by simp
qed

lemma bits_low: "push_bit 3 (of_nat n) = (ucast (of_nat (8 * n) :: u64) :: u32)"
proof (rule bit_word_eqI)
  fix i assume "i < LENGTH(32)"
  have d: "8 * n = push_bit 3 n" by (simp add: push_bit_eq_mult)
  show "bit (push_bit 3 (of_nat n) :: u32) i = bit (ucast (of_nat (8 * n) :: u64) :: u32) i"
    unfolding d using \<open>i < LENGTH(32)\<close> by (auto simp: bit_simps)
qed

lemma bits_high:
  "drop_bit 29 (of_nat n) OR push_bit 3 (of_nat (n div 2 ^ 32)) = (ucast (drop_bit 32 (of_nat (8 * n) :: u64)) :: u32)"
proof (rule bit_word_eqI)
  fix i assume "i < LENGTH(32)"
  have d: "n div 2 ^ 32 = drop_bit 32 n" "8 * n = push_bit 3 n" by (simp_all add: drop_bit_eq_div push_bit_eq_mult)
  show "bit (drop_bit 29 (of_nat n) OR push_bit 3 (of_nat (n div 2 ^ 32)) :: u32) i =
      bit (ucast (drop_bit 32 (of_nat (8 * n) :: u64)) :: u32) i"
    unfolding d using \<open>i < LENGTH(32)\<close> by (auto simp: bit_simps)
qed

subsection \<open>Taking in a message\<close>

definition md_absorbed :: "(u32 list \<Rightarrow> u8 list \<Rightarrow> u32 list) \<Rightarrow> u32 list \<Rightarrow> md_context \<Rightarrow> u8 list \<Rightarrow> bool" where
  "md_absorbed compress iv c m \<longleftrightarrow>
     buffered compress iv (md_state c) (md_buffer c) m \<and>
     total0 c = of_nat (length m) \<and> total1 c = of_nat (length m div 2 ^ 32)"

lemma md_count_eq:
  assumes "i < 2 ^ 32" "total0 c = of_nat n" "total1 c = of_nat (n div 2 ^ 32)"
  shows "md_count c (of_nat i) = c\<lparr>total0 := of_nat (n + i), total1 := of_nat ((n + i) div 2 ^ 32)\<rparr>"
proof -
  have "total0 c + of_nat i = of_nat (n + i)" using assms(2) by simp
  then show ?thesis
    unfolding md_count_def Let_def and_ones count_carry [OF assms(1), of n, symmetric] assms(3) [symmetric]
    by (simp del: of_nat_add)
qed

lemma md_length:
  assumes "md_absorbed compress iv c m"
  shows "md_high c = ucast (drop_bit 32 (of_nat (8 * length m) :: u64))"
    and "md_low c = ucast (of_nat (8 * length m) :: u64)"
  using assms bits_high [of "length m"] bits_low [of "length m"]
  unfolding md_absorbed_def md_high_def md_low_def by metis+

lemma md_absorb_cases:
  assumes "unat (total0 c AND 0x3F) = r" "length i < 2 ^ 32" "total0 c = of_nat n" "total1 c = of_nat (n div 2 ^ 32)"
  shows "0 < r \<Longrightarrow> 64 - r \<le> length i \<Longrightarrow> md_absorb process c i = do {
      b \<leftarrow> overwrite (md_buffer c) r (take (64 - r) i);
      let c' = c\<lparr>total0 := of_nat (n + length i), total1 := of_nat ((n + length i) div 2 ^ 32), md_buffer := b\<rparr>;
      let (j, c') = blocks_loop (\<lambda>b c. process c b) (drop (64 - r) i) (process c' (md_buffer c'));
      if length j > 0 then do { b \<leftarrow> overwrite (md_buffer c') 0 j; Some (c'\<lparr>md_buffer := b\<rparr>) } else Some c'
    }"
    and "\<not> (0 < r \<and> 64 - r \<le> length i) \<Longrightarrow> md_absorb process c i =
     (let c' = c\<lparr>total0 := of_nat (n + length i), total1 := of_nat ((n + length i) div 2 ^ 32)\<rparr>;
          (j, c') = blocks_loop (\<lambda>b c. process c b) i c'
      in if length j > 0 then do { b \<leftarrow> overwrite (md_buffer c') r j; Some (c'\<lparr>md_buffer := b\<rparr>) } else Some c')"
proof -
  have u: "md_buffer (md_count c (of_nat (length i))) = md_buffer c" by (simp add: md_count_def Let_def)
  show "md_absorb process c i = do {
      b \<leftarrow> overwrite (md_buffer c) r (take (64 - r) i);
      let c' = c\<lparr>total0 := of_nat (n + length i), total1 := of_nat ((n + length i) div 2 ^ 32), md_buffer := b\<rparr>;
      let (j, c') = blocks_loop (\<lambda>b c. process c b) (drop (64 - r) i) (process c' (md_buffer c'));
      if length j > 0 then do { b \<leftarrow> overwrite (md_buffer c') 0 j; Some (c'\<lparr>md_buffer := b\<rparr>) } else Some c'
    }" if "0 < r" "64 - r \<le> length i"
    using that unfolding md_absorb_def Let_def assms(1) u md_count_eq [OF assms(2-4)] by (simp add: overwrite_def)
  show "md_absorb process c i =
     (let c' = c\<lparr>total0 := of_nat (n + length i), total1 := of_nat ((n + length i) div 2 ^ 32)\<rparr>;
          (j, c') = blocks_loop (\<lambda>b c. process c b) i c'
      in if length j > 0 then do { b \<leftarrow> overwrite (md_buffer c') r j; Some (c'\<lparr>md_buffer := b\<rparr>) } else Some c')"
    if "\<not> (0 < r \<and> 64 - r \<le> length i)"
    using that unfolding md_absorb_def Let_def assms(1) md_count_eq [OF assms(2-4)] by auto
qed

lemma md_padn_eq: "total0 c = of_nat n \<Longrightarrow> md_padn c = Suc ((119 - n mod 64) mod 64)"
proof -
  assume t: "total0 c = of_nat n"
  let ?l = "(of_nat n :: u32) AND 0x3F" and ?r = "n mod 64"
  have l: "unat ?l = ?r" "?r < 64" by (simp_all add: count_left)
  have "?l < 56 \<longleftrightarrow> ?r < 56" by (simp add: word_less_nat_alt l)
  moreover have "?r < 56 \<Longrightarrow> unat (56 - ?l) = 56 - ?r" "unat (120 - ?l) = 120 - ?r"
    using l(2) by (simp_all add: unat_sub_wrap l(1))
  ultimately have "md_padn c = (if ?r < 56 then 56 - ?r else 120 - ?r)"
    by (simp add: md_padn_def t Let_def)
  also have "\<dots> = Suc ((119 - ?r) mod 64)"
  proof (cases "?r < 56")
    case True
    then have "119 - ?r = 64 + (55 - ?r)" by simp
    then have "(119 - ?r) mod 64 = 55 - ?r" using True by (simp only: mod_add_self1) simp
    then show ?thesis unfolding if_P [OF True] using True by linarith
  next
    case False
    then show ?thesis using l(2) by (subst mod_less) auto
  qed
  finally show ?thesis .
qed

locale md_digest =
  fixes process :: "md_context \<Rightarrow> u8 list \<Rightarrow> md_context"
    and compress :: "u32 list \<Rightarrow> u8 list \<Rightarrow> u32 list" and iv :: "u32 list" and enc :: "u64 \<Rightarrow> u8 list"
  assumes process_law: "process c b = c\<lparr>md_state := compress (md_state c) b\<rparr>"
    and enc_law: "length (enc n) = 8"
begin

lemma blocks: "fold (\<lambda>b c. c\<lparr>md_state := compress (md_state c) b\<rparr>) bs c =
    c\<lparr>md_state := foldl compress (md_state c) bs\<rparr>"
  by (induction bs arbitrary: c) simp_all

lemma absorb:
  assumes a: "md_absorbed compress iv c m" and i: "length i < 2 ^ 32"
  shows "\<exists>c'. md_absorb process c i = Some c' \<and> md_absorbed compress iv c' (m @ i)"
proof -
  define r where "r = length m mod 64"
  let ?b = "md_buffer c"
  have c: "buffered compress iv (md_state c) ?b m" "total0 c = of_nat (length m)"
      "total1 c = of_nat (length m div 2 ^ 32)" "length ?b = 64" and r64: "r < 64"
    using a by (auto simp: md_absorbed_def buffered_def r_def)
  have r: "unat (total0 c AND 0x3F) = r" by (simp add: c(2) count_left r_def)
  note eq = md_absorb_cases [OF r i c(2,3), of process]
  note append = buffered_append [OF c(1), folded r_def]
  have n: "length (m @ i) mod 64 = (r + length i) mod 64" by (simp add: r_def mod_add_left_eq)
  show ?thesis
  proof (cases "0 < r \<and> 64 - r \<le> length i")
    case True
    let ?f = "64 - r"
    let ?B = "take r ?b @ take ?f i"
    have B: "put ?b r (take ?f i) = ?B" "length ?B = 64" using True r64 c(4) by (simp_all add: put_fill)
    let ?j = "rest (drop ?f i)"
    let ?b' = "if length ?j > 0 then put ?B 0 ?j else ?B"
    have j: "length ?j < 64" "length ?j = length (drop ?f i) mod 64" by simp_all
    have i': "take r ?b @ i = ?B @ drop ?f i" by simp
    have "r + length i = 64 + length (drop ?f i)"
      unfolding length_drop using True r64 by linarith
    then have n': "length (m @ i) mod 64 = length ?j" unfolding n j(2) by (simp only: mod_add_self1)
    have "buffered compress iv (foldl compress (compress (md_state c) ?B) (chunks (drop ?f i))) ?b' (m @ i)"
    proof (rule append)
      show "foldl compress (compress (md_state c) ?B) (chunks (drop ?f i)) =
          foldl compress (md_state c) (chunks (take r ?b @ i))"
        unfolding i' chunks_step [OF B(2)] by simp
      have "length (put ?B 0 ?j) = 64" using length_put [of 0 ?j ?B] unfolding B(2) using j(1) by linarith
      then show "length ?b' = 64" unfolding if_distrib [of length] using B(2) by (simp only: if_cancel)
      show "take (length (m @ i) mod 64) ?b' = rest (take r ?b @ i)"
        unfolding i' n' rest_step [OF B(2)] using take_put [of 0 ?B ?j] B(2) by (auto simp del: length_rest)
    qed
    moreover have p: "overwrite ?b r (take ?f i) = Some ?B" "overwrite ?B 0 ?j = Some (put ?B 0 ?j)"
      using True r64 c(4) B j(1) by (simp_all del: length_rest)
    have "md_absorb process c i =
        Some (c\<lparr>total0 := of_nat (length (m @ i)), total1 := of_nat (length (m @ i) div 2 ^ 32),
          md_state := foldl compress (compress (md_state c) ?B) (chunks (drop ?f i)), md_buffer := ?b'\<rparr>)"
      using True by (simp add: eq(1) Let_def blocks_loop_eq blocks process_law p del: length_rest overwrite_eq)
    ultimately show ?thesis by (simp add: md_absorbed_def)
  next
    case False
    let ?b' = "if length (rest i) > 0 then put ?b r (rest i) else ?b"
    have z: "r + length i < 64 \<and> rest i = i \<and> chunks i = [] \<or> r = 0"
      using False by auto
    have l: "length (rest i) < 64" by simp
    have "buffered compress iv (foldl compress (md_state c) (chunks i)) ?b' (m @ i)"
    proof (rule append)
      show "foldl compress (md_state c) (chunks i) = foldl compress (md_state c) (chunks (take r ?b @ i))"
        using z c(4) by auto
      show "length ?b' = 64" using z l c(4) by (auto simp del: length_rest)
      have t: "rest (take r ?b @ i) = take r ?b @ rest i" using z c(4) by auto
      have "(r + length i) mod 64 = r + length (rest i)" using z by auto
      then show "take (length (m @ i) mod 64) ?b' = rest (take r ?b @ i)"
        unfolding n t using take_put [of r ?b "rest i"] c(4) r64 by (auto simp del: length_rest)
    qed
    moreover have p: "overwrite ?b r (rest i) = Some (put ?b r (rest i))"
      using z l c(4) by (intro overwrite_eq) (auto simp del: length_rest)
    have "md_absorb process c i =
        Some (c\<lparr>total0 := of_nat (length (m @ i)), total1 := of_nat (length (m @ i) div 2 ^ 32),
          md_state := foldl compress (md_state c) (chunks i), md_buffer := ?b'\<rparr>)"
      unfolding eq(2) [OF False] by (simp add: Let_def blocks_loop_eq blocks process_law p del: length_rest overwrite_eq)
    ultimately show ?thesis by (simp add: md_absorbed_def)
  qed
qed

lemma update:
  "md_absorbed compress iv c m \<Longrightarrow> length i < 2 ^ 32 \<Longrightarrow>
     wp (md_update process c (Some i) (length i)) (\<lambda>c. md_absorbed compress iv c (m @ i))"
  using absorb [of c m i] by (auto simp: md_update_def)

lemma padded:
  assumes "md_absorbed compress iv c m" "n = of_nat (8 * length m)"
  shows "\<exists>c1 c2. md_update process c (Some md_padding) (md_padn c) = Some c1 \<and>
    md_update process c1 (Some (enc n)) 8 = Some c2 \<and>
    md_state c2 = foldl compress iv (chunks (padded enc m)) \<and> length (md_buffer c2) = 64"
proof -
  have t: "total0 c = of_nat (length m)" using assms(1) by (simp add: md_absorbed_def)
  let ?k = "(119 - length m mod 64) mod 64"
  let ?p = "(0x80 :: u8) # replicate ?k 0"
  have "?k \<le> 63" using mod_less_divisor [of 64 "119 - length m mod 64"] by linarith
  then have "take (Suc ?k) md_padding = ?p" by (simp add: md_padding_def)
  then have 1: "md_update process c (Some md_padding) (md_padn c) = md_absorb process c ?p"
    using \<open>?k \<le> 63\<close> unfolding md_update_def md_padn_eq [OF t] by (simp add: md_padding_def)
  obtain c1 where a: "md_absorb process c ?p = Some c1" "md_absorbed compress iv c1 (m @ ?p)"
    using absorb [OF assms(1), of ?p] \<open>?k \<le> 63\<close> by auto
  have 2: "md_update process c1 (Some (enc n)) 8 = md_absorb process c1 (enc n)"
    by (simp add: md_update_def enc_law)
  obtain c2 where "md_absorb process c1 (enc n) = Some c2" "md_absorbed compress iv c2 ((m @ ?p) @ enc n)"
    using absorb [OF a(2), of "enc n"] by (auto simp: enc_law)
  then show ?thesis using 1 2 a(1) assms(2) by (simp add: md_absorbed_def buffered_def padded_def)
qed

end

end
