(* ===== verification/Sha1.thy ===== *)
theory Sha1
  imports MdDigest
begin

text \<open>
  \<open>utils_sha1.c\<close>. The rounds do not move the five registers: each round is a macro on the registers
  in a rotated order. The message schedule is a ring of sixteen words. The definitions end with
  SHA-1 of FIPS 180-4.
\<close>

definition utils_sha1_init :: "md_context \<Rightarrow> md_context" where
  "utils_sha1_init ctx = md_zero 5"

definition utils_sha1_free :: "md_context option \<Rightarrow> md_context option" where
  "utils_sha1_free ctx = map_option (\<lambda>_. md_zero 5) ctx"

definition utils_sha1_clone :: "md_context \<Rightarrow> md_context \<Rightarrow> md_context" where
  "utils_sha1_clone dst src = src"

definition utils_sha1_starts :: "md_context \<Rightarrow> md_context" where
  "utils_sha1_starts ctx =
     ctx\<lparr>total0 := 0, total1 := 0,
         md_state := [0x67452301, 0xEFCDAB89, 0x98BADCFE, 0x10325476, 0xC3D2E1F0]\<rparr>"

subsection \<open>One block\<close>

datatype sha1_reg = RA | RB | RC | RD | RE

type_synonym sha1_order = "sha1_reg \<times> sha1_reg \<times> sha1_reg \<times> sha1_reg \<times> sha1_reg"

text \<open>The macros \<open>F\<close> and \<open>K\<close> as they are defined at step \<open>t\<close>.\<close>

definition sha1_F :: "nat \<Rightarrow> u32 \<Rightarrow> u32 \<Rightarrow> u32 \<Rightarrow> u32" where
  "sha1_F t x y z =
     (if t < 20 then z XOR (x AND (y XOR z))
      else if t < 40 then x XOR y XOR z
      else if t < 60 then (x AND y) OR (z AND (x OR y))
      else x XOR y XOR z)"

definition sha1_K :: "nat \<Rightarrow> u32" where
  "sha1_K t = (if t < 20 then 0x5A827999 else if t < 40 then 0x6ED9EBA1
     else if t < 60 then 0x8F1BBCDC else 0xCA62C1D6)"

definition sha1_P ::
  "(u32 \<Rightarrow> u32 \<Rightarrow> u32 \<Rightarrow> u32) \<Rightarrow> u32 \<Rightarrow> sha1_order \<Rightarrow> u32 \<Rightarrow> (sha1_reg \<Rightarrow> u32) \<Rightarrow> sha1_reg \<Rightarrow> u32" where
  "sha1_P F K n x r =
     (case n of (a, b, c, d, e) \<Rightarrow>
        let r = r(e := r e + (S (r a) 5 + F (r b) (r c) (r d) + K + x))
        in r(b := S (r b) 30))"

text \<open>The calls of \<open>P\<close>: the same five, over and over.\<close>

definition sha1_names :: "sha1_order list" where
  "sha1_names =
     [(RA, RB, RC, RD, RE),
      (RE, RA, RB, RC, RD),
      (RD, RE, RA, RB, RC),
      (RC, RD, RE, RA, RB),
      (RB, RC, RD, RE, RA)]"

definition sha1_R :: "nat \<Rightarrow> u32 list \<Rightarrow> u32 list" where
  "sha1_R t W =
     (let temp = W ! ((t - 3) AND 0x0F) XOR W ! ((t - 8) AND 0x0F) XOR
                 W ! ((t - 14) AND 0x0F) XOR W ! (t AND 0x0F)
      in W[t AND 0x0F := S temp 1])"

definition sha1_step :: "nat \<Rightarrow> u32 list \<times> (sha1_reg \<Rightarrow> u32) \<Rightarrow> u32 list \<times> (sha1_reg \<Rightarrow> u32)" where
  "sha1_step t s =
     (let (W, r) = s; W = (if t < 16 then W else sha1_R t W)
      in (W, sha1_P (sha1_F t) (sha1_K t) (sha1_names ! (t mod 5)) (W ! (t AND 0x0F)) r))"

definition sha1_regs :: "u32 list \<Rightarrow> sha1_reg \<Rightarrow> u32" where
  "sha1_regs st n =
     (case n of RA \<Rightarrow> st ! 0 | RB \<Rightarrow> st ! 1 | RC \<Rightarrow> st ! 2 | RD \<Rightarrow> st ! 3 | RE \<Rightarrow> st ! 4)"

definition utils_sha1_process :: "md_context \<Rightarrow> u8 list \<Rightarrow> md_context" where
  "utils_sha1_process ctx data =
     (let W = map (\<lambda>i. be32_at data (4 * i)) [0..<16];
          (W, r) = fold sha1_step [0..<80] (W, sha1_regs (md_state ctx));
          st = md_state ctx
      in ctx\<lparr>md_state := [st ! 0 + r RA, st ! 1 + r RB, st ! 2 + r RC, st ! 3 + r RD, st ! 4 + r RE]\<rparr>)"

subsection \<open>A message\<close>

definition utils_sha1_update :: "md_context \<Rightarrow> u8 list option \<Rightarrow> nat \<Rightarrow> md_context option" where
  "utils_sha1_update = md_update utils_sha1_process"

definition utils_sha1_finish :: "md_context \<Rightarrow> u8 list option \<Rightarrow> (md_context \<times> u8 list option) option" where
  "utils_sha1_finish ctx output =
     (let msglen = be32 (md_high ctx) @ be32 (md_low ctx); padn = md_padn ctx in do {
        ctx \<leftarrow> utils_sha1_update ctx (Some md_padding) padn;
        ctx \<leftarrow> utils_sha1_update ctx (Some msglen) 8;
        out \<leftarrow> output;
        out \<leftarrow> overwrite out 0 (concat (map be32 (md_state ctx)));
        Some (ctx, Some out)
      })"

definition utils_sha1 :: "u8 list option \<Rightarrow> nat \<Rightarrow> u8 list option \<Rightarrow> u8 list option option" where
  "utils_sha1 input ilen output =
     (let ctx = utils_sha1_starts (utils_sha1_init (md_zero 5)) in do {
        ctx \<leftarrow> utils_sha1_update ctx input ilen;
        (ctx, output) \<leftarrow> utils_sha1_finish ctx output;
        let ctx = utils_sha1_free (Some ctx);
        Some output
      })"

subsection \<open>FIPS 180-4\<close>

definition sha1_f :: "nat \<Rightarrow> u32 \<Rightarrow> u32 \<Rightarrow> u32 \<Rightarrow> u32" where
  "sha1_f t x y z =
     (if t < 20 then (x AND y) XOR (NOT x AND z)
      else if t < 40 then x XOR y XOR z
      else if t < 60 then (x AND y) XOR (x AND z) XOR (y AND z)
      else x XOR y XOR z)"

fun sha1_schedule :: "u8 list \<Rightarrow> nat \<Rightarrow> u32" where
  "sha1_schedule b t =
     (if t < 16 then be_word b t
      else word_rotl 1 (sha1_schedule b (t - 3) XOR sha1_schedule b (t - 8)
             XOR sha1_schedule b (t - 14) XOR sha1_schedule b (t - 16)))"

declare sha1_schedule.simps [simp del]

type_synonym sha1_five = "u32 \<times> u32 \<times> u32 \<times> u32 \<times> u32"

text \<open>The constants of the four twenties of rounds: roots with 30 binary places.\<close>

definition sha1_k :: "nat \<Rightarrow> u32" where
  "sha1_k t = of_int \<lfloor>2 ^ 30 * sqrt ([2, 3, 5, 10] ! (t div 20))\<rfloor>"

definition sha1_round_spec :: "u8 list \<Rightarrow> nat \<Rightarrow> sha1_five \<Rightarrow> sha1_five" where
  "sha1_round_spec m t r =
     (case r of (a, b, c, d, e) \<Rightarrow>
        (word_rotl 5 a + sha1_f t b c d + e + sha1_k t + sha1_schedule m t, a, word_rotl 30 b, c, d))"

definition sha1_compress :: "u32 list \<Rightarrow> u8 list \<Rightarrow> u32 list" where
  "sha1_compress st m =
     (case fold (sha1_round_spec m) [0..<80] (st ! 0, st ! 1, st ! 2, st ! 3, st ! 4) of
        (a, b, c, d, e) \<Rightarrow> [st ! 0 + a, st ! 1 + b, st ! 2 + c, st ! 3 + d, st ! 4 + e])"

definition sha1_hash :: "u8 list \<Rightarrow> u8 list" where
  "sha1_hash m =
     concat (map (\<lambda>w. big_endian 4 (unat w))
       (foldl sha1_compress [0x67452301, 0xEFCDAB89, 0x98BADCFE, 0x10325476, 0xC3D2E1F0]
         (chunks (padded (\<lambda>n. big_endian 8 (unat n)) m))))"

subsection \<open>A block, proved\<close>

lemma sha1_F_eq: "sha1_F = sha1_f"
proof (intro ext)
  fix t x y z
  have "z XOR (x AND (y XOR z)) = (x AND y) XOR (NOT x AND z)"
    and "(x AND y) OR (z AND (x OR y)) = (x AND y) XOR (x AND z) XOR (y AND z)" for x y z :: u32
    by (rule bit_word_eqI, auto simp: bit_simps)+
  then show "sha1_F t x y z = sha1_f t x y z" by (simp add: sha1_F_def sha1_f_def)
qed

lemma sha1_constant:
  assumes "real w ^ 2 \<le> 2 ^ 60 * x" "2 ^ 60 * x < (real w + 1) ^ 2"
  shows "\<lfloor>2 ^ 30 * sqrt x\<rfloor> = int w"
proof (rule floor_unique)
  have e: "sqrt (2 ^ 60 * x) = 2 ^ 30 * sqrt x" by (simp add: real_sqrt_mult real_sqrt_power)
  show "real_of_int (int w) \<le> 2 ^ 30 * sqrt x" unfolding e [symmetric] using real_le_rsqrt [OF assms(1)] by simp
  show "2 ^ 30 * sqrt x < real_of_int (int w) + 1" unfolding e [symmetric] using real_less_lsqrt [OF _ assms(2)] by simp
qed

lemma sha1_K_eq: "t < 80 \<Longrightarrow> sha1_K t = sha1_k t"
proof -
  assume "t < 80"
  then have "t div 20 \<in> {0, 1, 2, 3}" by auto
  moreover have "\<lfloor>2 ^ 30 * sqrt 2\<rfloor> = int 0x5A827999" "\<lfloor>2 ^ 30 * sqrt 3\<rfloor> = int 0x6ED9EBA1"
    "\<lfloor>2 ^ 30 * sqrt 5\<rfloor> = int 0x8F1BBCDC" "\<lfloor>2 ^ 30 * sqrt 10\<rfloor> = int 0xCA62C1D6"
    by (rule sha1_constant; simp)+
  moreover have "t < 20 \<longleftrightarrow> t div 20 = 0" "t < 40 \<longleftrightarrow> t div 20 \<le> 1" "t < 60 \<longleftrightarrow> t div 20 \<le> 2" by auto
  ultimately show ?thesis unfolding sha1_K_def sha1_k_def by auto
qed

lemma sha1_hash_eq:
  "sha1_hash m = concat (map be32 (foldl sha1_compress [0x67452301, 0xEFCDAB89, 0x98BADCFE, 0x10325476, 0xC3D2E1F0]
     (chunks (padded be64 m))))"
proof -
  have "be64 = (\<lambda>n. big_endian 8 (unat n))" "be32 = (\<lambda>w. big_endian 4 (unat w))" by (simp_all add: fun_eq_iff be64_bytes be32_bytes)
  then show ?thesis unfolding sha1_hash_def by simp
qed

text \<open>The registers in the order of their names at step \<open>t\<close>.\<close>

definition sha1_view :: "nat \<Rightarrow> (sha1_reg \<Rightarrow> u32) \<Rightarrow> sha1_five" where
  "sha1_view t r = (case sha1_names ! (t mod 5) of (a, b, c, d, e) \<Rightarrow> (r a, r b, r c, r d, r e))"

lemma sha1_P_view:
  assumes "x = sha1_schedule m t" "t < 80"
  shows "sha1_view (Suc t) (sha1_P (sha1_F t) (sha1_K t) (sha1_names ! (t mod 5)) x r) =
    sha1_round_spec m t (sha1_view t r)"
proof -
  have "t mod 5 \<in> {0, 1, 2, 3, 4}" using mod_less_divisor [of 5 t] by auto
  then show ?thesis
    unfolding assms(1) sha1_K_eq [OF assms(2)]
    by (auto simp: sha1_view_def mod_Suc sha1_names_def sha1_P_def sha1_round_spec_def sha1_F_eq S_rotl Let_def ac_simps)
qed

lemma sha1_steps:
  assumes "W = map (\<lambda>i. be32_at m (4 * i)) [0..<16]"
  shows "t \<le> 80 \<Longrightarrow> \<exists>V q. fold sha1_step [0..<t] (W, r) = (V, q) \<and>
    sha1_view t q = fold (sha1_round_spec m) [0..<t] (sha1_view 0 r) \<and>
    (if t \<le> 16 then V = W else ring V (sha1_schedule m) t)"
proof (induction t)
  case 0
  then show ?case by simp
next
  case (Suc t)
  then obtain V q where V: "fold sha1_step [0..<t] (W, r) = (V, q)"
    "sha1_view t q = fold (sha1_round_spec m) [0..<t] (sha1_view 0 r)"
    "if t \<le> 16 then V = W else ring V (sha1_schedule m) t" by (meson Suc_leD)
  have w: "W ! t = sha1_schedule m t" if "t < 16" for t
    using that by (simp add: assms sha1_schedule.simps be32_at_word)
  have ring: "ring V (sha1_schedule m) t" if "16 \<le> t"
  proof (cases "t = 16")
    case True
    then show ?thesis using V(3) w assms by (simp add: ring_def)
  qed (use V(3) that in simp)
  define U where "U = (if t < 16 then V else sha1_R t V)"
  have U: "U ! (t AND 15) = sha1_schedule m t \<and> (if Suc t \<le> 16 then U = W else ring U (sha1_schedule m) (Suc t))"
  proof (cases "t < 16")
    case True
    then show ?thesis using V(3) w by (simp add: U_def and_15)
  next
    case False
    then have 16: "16 \<le> t" by simp
    have g: "V ! ((t - 3) AND 15) = sha1_schedule m (t - 3)" "V ! ((t - 8) AND 15) = sha1_schedule m (t - 8)"
      "V ! ((t - 14) AND 15) = sha1_schedule m (t - 14)" "V ! (t AND 15) = sha1_schedule m (t - 16)"
      unfolding and_15 using 16 by (auto intro!: ring_get [OF ring] simp: mod_eq_dvd_iff_nat)
    have "S (sha1_schedule m (t - 3) XOR sha1_schedule m (t - 8) XOR sha1_schedule m (t - 14)
        XOR sha1_schedule m (t - 16)) 1 = sha1_schedule m t"
      using 16 by (simp add: S_rotl sha1_schedule.simps [of m t])
    then have u: "U = V[t mod 16 := sha1_schedule m t]"
      using False unfolding U_def sha1_R_def Let_def g by (simp add: and_15)
    then show ?thesis using ring_put [OF ring [OF 16] refl] ring [OF 16] False by (simp add: and_15 ring_def)
  qed
  have "sha1_step t (V, q) = (U, sha1_P (sha1_F t) (sha1_K t) (sha1_names ! (t mod 5)) (U ! (t AND 15)) q)"
    by (simp add: sha1_step_def U_def Let_def)
  then show ?case using V(1,2) U sha1_P_view [of "U ! (t AND 15)" m t q] Suc.prems by simp
qed

lemma utils_sha1_process_eq:
  "utils_sha1_process c b = c\<lparr>md_state := sha1_compress (md_state c) b\<rparr>"
proof -
  let ?W = "map (\<lambda>i. be32_at b (4 * i)) [0..<16]" and ?r = "sha1_regs (md_state c)"
  obtain V q where V: "fold sha1_step [0..<80] (?W, ?r) = (V, q)"
    "sha1_view 80 q = fold (sha1_round_spec b) [0..<80] (sha1_view 0 ?r)"
    using sha1_steps [OF refl, where m = b and t = 80 and r = ?r] by auto
  have "sha1_view 0 ?r = (md_state c ! 0, md_state c ! 1, md_state c ! 2, md_state c ! 3, md_state c ! 4)"
    by (simp add: sha1_view_def sha1_names_def sha1_regs_def)
  moreover have "sha1_view 80 q = (q RA, q RB, q RC, q RD, q RE)" by (simp add: sha1_view_def sha1_names_def)
  ultimately show ?thesis
    using V unfolding utils_sha1_process_def sha1_compress_def by (simp add: Let_def del: fold_simps upt_Suc)
qed

subsection \<open>A message, proved\<close>

abbreviation sha1_absorbed :: "md_context \<Rightarrow> u8 list \<Rightarrow> bool" where
  "sha1_absorbed \<equiv> md_absorbed sha1_compress [0x67452301, 0xEFCDAB89, 0x98BADCFE, 0x10325476, 0xC3D2E1F0]"

interpretation sha1_md: md_digest utils_sha1_process sha1_compress
  "[0x67452301, 0xEFCDAB89, 0x98BADCFE, 0x10325476, 0xC3D2E1F0]" be64
  by unfold_locales (simp_all add: utils_sha1_process_eq)

lemma sha1_msglen:
  assumes "sha1_absorbed c m"
  shows "be32 (md_high c) @ be32 (md_low c) = be64 (of_nat (8 * length m))"
  unfolding be64_def md_length [OF assms] ..

lemma length_sha1_compress: "length (sha1_compress st b) = 5"
  by (simp add: sha1_compress_def split: prod.splits)

lemma length_sha1_chain: "length st = 5 \<Longrightarrow> length (foldl sha1_compress st bs) = 5"
  by (induction bs arbitrary: st) (simp_all add: length_sha1_compress)

lemma length_sha1_hash: "length (sha1_hash m) = 20"
  by (simp add: sha1_hash_eq length_sha1_chain)

lemma sha1_finish_law:
  assumes "sha1_absorbed c m" "length out = 20"
  shows "\<exists>c'. utils_sha1_finish c (Some out) = Some (c', Some (sha1_hash m))"
proof -
  obtain c1 c2 where c: "utils_sha1_update c (Some md_padding) (md_padn c) = Some c1"
    "utils_sha1_update c1 (Some (be64 (of_nat (8 * length m)))) 8 = Some c2"
    "concat (map be32 (md_state c2)) = sha1_hash m"
    using sha1_md.padded [OF assms(1) refl] unfolding utils_sha1_update_def sha1_hash_eq by auto
  then show ?thesis
    using assms(2) unfolding utils_sha1_finish_def sha1_msglen [OF assms(1)] Let_def
    by (simp add: put_all length_sha1_hash del: of_nat_mult)
qed

interpretation sha1: streaming_hash utils_sha1_init utils_sha1_starts utils_sha1_update
  utils_sha1_finish sha1_hash 20 "\<lambda>_. True" sha1_absorbed
proof
  show "sha1_absorbed (utils_sha1_starts (utils_sha1_init c)) []" for c
    by (simp add: utils_sha1_starts_def utils_sha1_init_def md_zero_def md_absorbed_def buffered_def)
  show "wp (utils_sha1_update c (Some i) (length i)) (\<lambda>c. sha1_absorbed c (m @ i))"
    if "sha1_absorbed c m" "length i < 2 ^ 32" for c m i
    using sha1_md.update [OF that] by (simp add: utils_sha1_update_def)
  show "wp (utils_sha1_finish c (Some out)) (\<lambda>(c, out). True \<and> out = Some (sha1_hash m))"
    if "sha1_absorbed c m" "length out = 20" for c m out
    using sha1_finish_law [OF that] by auto
qed (rule length_sha1_hash)

lemma utils_sha1_eq:
  "length m < 2 ^ 32 \<Longrightarrow> length out = 20 \<Longrightarrow>
     utils_sha1 (Some m) (length m) (Some out) = Some (Some (sha1_hash m))"
  using sha1.digest [where c = "md_zero 5" and out = out and ps = "[m]"] by (auto simp: wp_Some_iff utils_sha1_def bind_eq_Some_conv)

end
