(* ===== verification/Md5.thy ===== *)
theory Md5
  imports MdDigest
begin

text \<open>
  \<open>utils_md5.c\<close>: MD5, with the registers in rotated order as in SHA-1, the words of a block in the
  order of the table, and little endian bytes. The definitions end with MD5 of RFC 1321, whose constants
  are defined through the sine.
\<close>

definition utils_md5_init :: "md_context \<Rightarrow> md_context" where
  "utils_md5_init ctx = md_zero 4"

definition utils_md5_free :: "md_context option \<Rightarrow> md_context option" where
  "utils_md5_free ctx = map_option (\<lambda>_. md_zero 4) ctx"

definition utils_md5_clone :: "md_context \<Rightarrow> md_context \<Rightarrow> md_context" where
  "utils_md5_clone dst src = src"

definition utils_md5_starts :: "md_context \<Rightarrow> md_context" where
  "utils_md5_starts ctx =
     ctx\<lparr>total0 := 0, total1 := 0, md_state := [0x67452301, 0xEFCDAB89, 0x98BADCFE, 0x10325476]\<rparr>"

subsection \<open>One block\<close>

datatype md5_reg = MA | MB | MC | MD

type_synonym md5_row = "md5_reg \<times> md5_reg \<times> md5_reg \<times> md5_reg \<times> nat \<times> nat \<times> u32"

text \<open>The calls of \<open>P\<close>.\<close>

definition md5_table :: "md5_row list" where
  "md5_table =
    [(MA, MB, MC, MD, 0, 7, 0xD76AA478), (MD, MA, MB, MC, 1, 12, 0xE8C7B756),
     (MC, MD, MA, MB, 2, 17, 0x242070DB), (MB, MC, MD, MA, 3, 22, 0xC1BDCEEE),
     (MA, MB, MC, MD, 4, 7, 0xF57C0FAF), (MD, MA, MB, MC, 5, 12, 0x4787C62A),
     (MC, MD, MA, MB, 6, 17, 0xA8304613), (MB, MC, MD, MA, 7, 22, 0xFD469501),
     (MA, MB, MC, MD, 8, 7, 0x698098D8), (MD, MA, MB, MC, 9, 12, 0x8B44F7AF),
     (MC, MD, MA, MB, 10, 17, 0xFFFF5BB1), (MB, MC, MD, MA, 11, 22, 0x895CD7BE),
     (MA, MB, MC, MD, 12, 7, 0x6B901122), (MD, MA, MB, MC, 13, 12, 0xFD987193),
     (MC, MD, MA, MB, 14, 17, 0xA679438E), (MB, MC, MD, MA, 15, 22, 0x49B40821),
     (MA, MB, MC, MD, 1, 5, 0xF61E2562), (MD, MA, MB, MC, 6, 9, 0xC040B340),
     (MC, MD, MA, MB, 11, 14, 0x265E5A51), (MB, MC, MD, MA, 0, 20, 0xE9B6C7AA),
     (MA, MB, MC, MD, 5, 5, 0xD62F105D), (MD, MA, MB, MC, 10, 9, 0x02441453),
     (MC, MD, MA, MB, 15, 14, 0xD8A1E681), (MB, MC, MD, MA, 4, 20, 0xE7D3FBC8),
     (MA, MB, MC, MD, 9, 5, 0x21E1CDE6), (MD, MA, MB, MC, 14, 9, 0xC33707D6),
     (MC, MD, MA, MB, 3, 14, 0xF4D50D87), (MB, MC, MD, MA, 8, 20, 0x455A14ED),
     (MA, MB, MC, MD, 13, 5, 0xA9E3E905), (MD, MA, MB, MC, 2, 9, 0xFCEFA3F8),
     (MC, MD, MA, MB, 7, 14, 0x676F02D9), (MB, MC, MD, MA, 12, 20, 0x8D2A4C8A),
     (MA, MB, MC, MD, 5, 4, 0xFFFA3942), (MD, MA, MB, MC, 8, 11, 0x8771F681),
     (MC, MD, MA, MB, 11, 16, 0x6D9D6122), (MB, MC, MD, MA, 14, 23, 0xFDE5380C),
     (MA, MB, MC, MD, 1, 4, 0xA4BEEA44), (MD, MA, MB, MC, 4, 11, 0x4BDECFA9),
     (MC, MD, MA, MB, 7, 16, 0xF6BB4B60), (MB, MC, MD, MA, 10, 23, 0xBEBFBC70),
     (MA, MB, MC, MD, 13, 4, 0x289B7EC6), (MD, MA, MB, MC, 0, 11, 0xEAA127FA),
     (MC, MD, MA, MB, 3, 16, 0xD4EF3085), (MB, MC, MD, MA, 6, 23, 0x04881D05),
     (MA, MB, MC, MD, 9, 4, 0xD9D4D039), (MD, MA, MB, MC, 12, 11, 0xE6DB99E5),
     (MC, MD, MA, MB, 15, 16, 0x1FA27CF8), (MB, MC, MD, MA, 2, 23, 0xC4AC5665),
     (MA, MB, MC, MD, 0, 6, 0xF4292244), (MD, MA, MB, MC, 7, 10, 0x432AFF97),
     (MC, MD, MA, MB, 14, 15, 0xAB9423A7), (MB, MC, MD, MA, 5, 21, 0xFC93A039),
     (MA, MB, MC, MD, 12, 6, 0x655B59C3), (MD, MA, MB, MC, 3, 10, 0x8F0CCC92),
     (MC, MD, MA, MB, 10, 15, 0xFFEFF47D), (MB, MC, MD, MA, 1, 21, 0x85845DD1),
     (MA, MB, MC, MD, 8, 6, 0x6FA87E4F), (MD, MA, MB, MC, 15, 10, 0xFE2CE6E0),
     (MC, MD, MA, MB, 6, 15, 0xA3014314), (MB, MC, MD, MA, 13, 21, 0x4E0811A1),
     (MA, MB, MC, MD, 4, 6, 0xF7537E82), (MD, MA, MB, MC, 11, 10, 0xBD3AF235),
     (MC, MD, MA, MB, 2, 15, 0x2AD7D2BB), (MB, MC, MD, MA, 9, 21, 0xEB86D391)]"

text \<open>The macro \<open>F\<close> as it is defined at step \<open>t\<close>.\<close>

definition md5_F :: "nat \<Rightarrow> u32 \<Rightarrow> u32 \<Rightarrow> u32 \<Rightarrow> u32" where
  "md5_F t x y z =
     (if t < 16 then z XOR (x AND (y XOR z))
      else if t < 32 then y XOR (z AND (x XOR y))
      else if t < 48 then x XOR y XOR z
      else y XOR (x OR NOT z))"

definition md5_P ::
  "(u32 \<Rightarrow> u32 \<Rightarrow> u32 \<Rightarrow> u32) \<Rightarrow> u32 list \<Rightarrow> md5_row \<Rightarrow> (md5_reg \<Rightarrow> u32) \<Rightarrow> md5_reg \<Rightarrow> u32" where
  "md5_P F X row r =
     (case row of (a, b, c, d, k, s, t) \<Rightarrow>
        let r = r(a := r a + (F (r b) (r c) (r d) + X ! k + t))
        in r(a := S (r a) s + r b))"

definition md5_regs :: "u32 list \<Rightarrow> md5_reg \<Rightarrow> u32" where
  "md5_regs st n = (case n of MA \<Rightarrow> st ! 0 | MB \<Rightarrow> st ! 1 | MC \<Rightarrow> st ! 2 | MD \<Rightarrow> st ! 3)"

definition utils_md5_process :: "md_context \<Rightarrow> u8 list \<Rightarrow> md_context" where
  "utils_md5_process ctx data =
     (let X = map (\<lambda>i. le32_at data (4 * i)) [0..<16];
          r = fold (\<lambda>t. md5_P (md5_F t) X (md5_table ! t)) [0..<64] (md5_regs (md_state ctx));
          st = md_state ctx
      in ctx\<lparr>md_state := [st ! 0 + r MA, st ! 1 + r MB, st ! 2 + r MC, st ! 3 + r MD]\<rparr>)"

subsection \<open>A message\<close>

definition utils_md5_update :: "md_context \<Rightarrow> u8 list option \<Rightarrow> nat \<Rightarrow> md_context option" where
  "utils_md5_update = md_update utils_md5_process"

definition utils_md5_finish :: "md_context \<Rightarrow> u8 list option \<Rightarrow> (md_context \<times> u8 list option) option" where
  "utils_md5_finish ctx output =
     (let msglen = le32 (md_low ctx) @ le32 (md_high ctx); padn = md_padn ctx in do {
        ctx \<leftarrow> utils_md5_update ctx (Some md_padding) padn;
        ctx \<leftarrow> utils_md5_update ctx (Some msglen) 8;
        out \<leftarrow> output;
        out \<leftarrow> overwrite out 0 (concat (map le32 (md_state ctx)));
        Some (ctx, Some out)
      })"

definition utils_md5 :: "u8 list option \<Rightarrow> nat \<Rightarrow> u8 list option \<Rightarrow> u8 list option option" where
  "utils_md5 input ilen output =
     (let ctx = utils_md5_starts (utils_md5_init (md_zero 4)) in do {
        ctx \<leftarrow> utils_md5_update ctx input ilen;
        (ctx, output) \<leftarrow> utils_md5_finish ctx output;
        let ctx = utils_md5_free (Some ctx);
        Some output
      })"

subsection \<open>Hexadecimal\<close>

definition utils_hb2hex :: "u8 \<Rightarrow> u8" where
  "utils_hb2hex hb = (let hb = hb AND 0xF in if hb < 10 then 0x30 + hb else hb - 10 + 0x61)"

text \<open>The digit of a half byte; a value that is neither branch leaves the digit before.\<close>

definition md5_hex_digit :: "u8 \<Rightarrow> u8 \<Rightarrow> u8" where
  "md5_hex_digit h output_char =
     (if h AND 0x0F \<le> 0x09 then (h AND 0x0F) + 0x30
      else if h AND 0x0F \<ge> 0x0A then (h AND 0x0F) + 0x61 - 0x0A
      else output_char)"

definition utils_md5_hexstr :: "u8 list \<Rightarrow> u8 list \<Rightarrow> u8 list option" where
  "utils_md5_hexstr input output =
     (if length input < 16 \<or> length output < 32 then None
      else Some (fst (fold (\<lambda>idx (output, output_char).
        let output_char = md5_hex_digit (drop_bit 4 (input ! idx)) output_char;
            output = output[2 * idx := output_char];
            output_char = md5_hex_digit (input ! idx) output_char
        in (output[2 * idx + 1 := output_char], output_char)) [0..<16] (output, 0))))"

subsection \<open>RFC 1321\<close>

definition md5_f :: "nat \<Rightarrow> u32 \<Rightarrow> u32 \<Rightarrow> u32 \<Rightarrow> u32" where
  "md5_f t x y z =
     (if t < 16 then (x AND y) OR (NOT x AND z)
      else if t < 32 then (x AND z) OR (y AND NOT z)
      else if t < 48 then x XOR y XOR z
      else y XOR (x OR NOT z))"

definition md5_index :: "nat \<Rightarrow> nat" where
  "md5_index t =
     (if t < 16 then t else if t < 32 then (5 * t + 1) mod 16
      else if t < 48 then (3 * t + 5) mod 16 else 7 * t mod 16)"

definition md5_shift :: "nat \<Rightarrow> nat" where
  "md5_shift t =
     [[7, 12, 17, 22], [5, 9, 14, 20], [4, 11, 16, 23], [6, 10, 15, 21]] ! (t div 16) ! (t mod 4)"

text \<open>\<open>sine_word t\<close> is the integer part of \<open>4294967296 * abs (sin (t + 1))\<close>.\<close>

type_synonym md5_four = "u32 \<times> u32 \<times> u32 \<times> u32"

definition md5_round_spec :: "u8 list \<Rightarrow> nat \<Rightarrow> md5_four \<Rightarrow> md5_four" where
  "md5_round_spec m t r =
     (case r of (a, b, c, d) \<Rightarrow>
        (d, b + word_rotl (md5_shift t) (a + md5_f t b c d + le_word m (md5_index t) + sine_word t), b, c))"

definition md5_compress :: "u32 list \<Rightarrow> u8 list \<Rightarrow> u32 list" where
  "md5_compress st m =
     (case fold (md5_round_spec m) [0..<64] (st ! 0, st ! 1, st ! 2, st ! 3) of
        (a, b, c, d) \<Rightarrow> [st ! 0 + a, st ! 1 + b, st ! 2 + c, st ! 3 + d])"

definition md5_hash :: "u8 list \<Rightarrow> u8 list" where
  "md5_hash m =
     concat (map (\<lambda>w. little_endian 4 (unat w))
       (foldl md5_compress [0x67452301, 0xEFCDAB89, 0x98BADCFE, 0x10325476]
         (chunks (padded (\<lambda>n. little_endian 8 (unat n)) m))))"

subsection \<open>A block, proved\<close>

lemma md5_F_eq: "md5_F = md5_f"
proof (intro ext)
  fix t x y z
  have "z XOR (x AND (y XOR z)) = (x AND y) OR (NOT x AND z)"
    and "y XOR (z AND (x XOR y)) = (x AND z) OR (y AND NOT z)" for x y z :: u32
    by (rule bit_word_eqI, auto simp: bit_simps)+
  then show "md5_F t x y z = md5_f t x y z" by (simp add: md5_F_def md5_f_def)
qed

definition md5_names :: "(md5_reg \<times> md5_reg \<times> md5_reg \<times> md5_reg) list" where
  "md5_names = [(MA, MB, MC, MD), (MD, MA, MB, MC), (MC, MD, MA, MB), (MB, MC, MD, MA)]"

text \<open>The table holds what RFC 1321 computes.\<close>

lemma md5_table_all:
  "list_all2 (\<lambda>t (a, b, c, d, k, s, w).
     (a, b, c, d) = md5_names ! (t mod 4) \<and> k = md5_index t \<and> s = md5_shift t \<and>
     k < 16 \<and> 0 < s \<and> s < 32) [0..<64] md5_table"
  by code_simp

lemma md5_hash_eq:
  "md5_hash m = concat (map le32 (foldl md5_compress [0x67452301, 0xEFCDAB89, 0x98BADCFE, 0x10325476]
     (chunks (padded le64 m))))"
proof -
  have "le64 = (\<lambda>n. little_endian 8 (unat n))" "le32 = (\<lambda>w. little_endian 4 (unat w))" by (simp_all add: fun_eq_iff le64_bytes le32_bytes)
  then show ?thesis unfolding md5_hash_def by simp
qed

text \<open>and the integer parts of sines.\<close>

lemma md5_sines: "t < 64 \<Longrightarrow> md5_table ! t = (a, b, c, d, k, s, w) \<Longrightarrow> w = sine_word t"
proof -
  assume t: "t < 64" "md5_table ! t = (a, b, c, d, k, s, w)"
  let ?ws = "map (\<lambda>(a, b, c, d, k, s, w). w) md5_table"
  have "sines_near sin_1 cos_1 2 ?ws" by code_simp
  then have "?ws = map sine_word [0..<length ?ws]" by (rule sine_words)
  moreover have "length md5_table = 64" using list_all2_lengthD [OF md5_table_all] by simp
  ultimately have "?ws ! t = map sine_word [0..<64] ! t" by simp
  then show ?thesis using t \<open>length md5_table = 64\<close> by simp
qed

lemma md5_table_at:
  assumes "t < 64" "md5_table ! t = (a, b, c, d, k, s, w)"
  shows "md5_names ! (t mod 4) = (a, b, c, d)" "k = md5_index t" "s = md5_shift t" "w = sine_word t"
    "k < 16" "0 < s" "s < 32"
  using list_all2_nthD [OF md5_table_all, of t] assms md5_sines [OF assms] by auto

definition md5_view :: "nat \<Rightarrow> (md5_reg \<Rightarrow> u32) \<Rightarrow> md5_four" where
  "md5_view t r = (case md5_names ! (t mod 4) of (a, b, c, d) \<Rightarrow> (r a, r b, r c, r d))"

lemma md5_names_step:
  assumes "md5_names ! (t mod 4) = (a, b, c, d)"
  shows "md5_names ! (Suc t mod 4) = (d, a, b, c) \<and> b \<noteq> a \<and> c \<noteq> a \<and> d \<noteq> a"
proof -
  have "t mod 4 \<in> {0, 1, 2, 3}" using mod_less_divisor [of 4 t] by auto
  then show ?thesis using assms by (auto simp: mod_Suc md5_names_def)
qed

lemma md5_P_view:
  assumes "t < 64" "X = map (\<lambda>i. le32_at m (4 * i)) [0..<16]"
  shows "md5_view (Suc t) (md5_P (md5_F t) X (md5_table ! t) r) = md5_round_spec m t (md5_view t r)"
proof -
  obtain a b c d k s w where row: "md5_table ! t = (a, b, c, d, k, s, w)" by (cases "md5_table ! t") auto
  note at = md5_table_at [OF assms(1) row]
  have X: "X ! k = le_word m (md5_index t)" using at(2,5) assms(2) by (simp add: le32_at_word)
  show ?thesis
    using md5_names_step [OF at(1)] at(1,6,7)
    unfolding row md5_P_def md5_round_spec_def md5_view_def prod.case Let_def md5_F_eq X at(4) at(3) [symmetric]
    by (simp add: S_rotl ac_simps)
qed

lemma utils_md5_process_eq:
  "utils_md5_process c m = c\<lparr>md_state := md5_compress (md_state c) m\<rparr>"
proof -
  let ?X = "map (\<lambda>i. le32_at m (4 * i)) [0..<16]" and ?r = "md5_regs (md_state c)"
  let ?q = "fold (\<lambda>t. md5_P (md5_F t) ?X (md5_table ! t)) [0..<64] ?r"
  have "t \<le> 64 \<Longrightarrow> md5_view t (fold (\<lambda>t. md5_P (md5_F t) ?X (md5_table ! t)) [0..<t] ?r) =
      fold (md5_round_spec m) [0..<t] (md5_view 0 ?r)" for t
  proof (induction t)
    case 0
    then show ?case by simp
  next
    case (Suc t)
    then show ?case
      using md5_P_view [OF _ refl, of t m "fold (\<lambda>t. md5_P (md5_F t) ?X (md5_table ! t)) [0..<t] ?r"] by simp
  qed
  from this [of 64] have "md5_view 64 ?q = fold (md5_round_spec m) [0..<64] (md5_view 0 ?r)" by simp
  moreover have "md5_view 64 ?q = (?q MA, ?q MB, ?q MC, ?q MD)" by (simp add: md5_view_def md5_names_def del: fold_simps upt_Suc)
  moreover have "md5_view 0 ?r = (md_state c ! 0, md_state c ! 1, md_state c ! 2, md_state c ! 3)"
    by (simp add: md5_view_def md5_names_def md5_regs_def)
  ultimately have "fold (md5_round_spec m) [0..<64] (md_state c ! 0, md_state c ! 1, md_state c ! 2, md_state c ! 3) =
      (?q MA, ?q MB, ?q MC, ?q MD)" by (simp only:)
  then show ?thesis unfolding utils_md5_process_def md5_compress_def Let_def by (simp only: prod.case)
qed

subsection \<open>A message, proved\<close>

abbreviation md5_absorbed :: "md_context \<Rightarrow> u8 list \<Rightarrow> bool" where
  "md5_absorbed \<equiv> md_absorbed md5_compress [0x67452301, 0xEFCDAB89, 0x98BADCFE, 0x10325476]"

interpretation md5_md: md_digest utils_md5_process md5_compress
  "[0x67452301, 0xEFCDAB89, 0x98BADCFE, 0x10325476]" le64
  by unfold_locales (simp_all add: utils_md5_process_eq)

lemma md5_msglen:
  assumes "md5_absorbed c m"
  shows "le32 (md_low c) @ le32 (md_high c) = le64 (of_nat (8 * length m))"
  unfolding le64_def md_length [OF assms] ..

lemma length_md5_compress: "length (md5_compress st b) = 4"
  by (simp add: md5_compress_def split: prod.splits)

lemma length_md5_chain: "length st = 4 \<Longrightarrow> length (foldl md5_compress st bs) = 4"
  by (induction bs arbitrary: st) (simp_all add: length_md5_compress)

lemma length_md5_hash: "length (md5_hash m) = 16"
  by (simp add: md5_hash_eq length_md5_chain)

lemma md5_finish_law:
  assumes "md5_absorbed c m" "length out = 16"
  shows "\<exists>c'. utils_md5_finish c (Some out) = Some (c', Some (md5_hash m))"
proof -
  obtain c1 c2 where c: "utils_md5_update c (Some md_padding) (md_padn c) = Some c1"
    "utils_md5_update c1 (Some (le64 (of_nat (8 * length m)))) 8 = Some c2"
    "concat (map le32 (md_state c2)) = md5_hash m"
    using md5_md.padded [OF assms(1) refl] unfolding utils_md5_update_def md5_hash_eq by auto
  then show ?thesis
    using assms(2) unfolding utils_md5_finish_def md5_msglen [OF assms(1)] Let_def
    by (simp add: put_all length_md5_hash del: of_nat_mult)
qed

interpretation md5: streaming_hash utils_md5_init utils_md5_starts utils_md5_update
  utils_md5_finish md5_hash 16 "\<lambda>_. True" md5_absorbed
proof
  show "md5_absorbed (utils_md5_starts (utils_md5_init c)) []" for c
    by (simp add: utils_md5_starts_def utils_md5_init_def md_zero_def md_absorbed_def buffered_def)
  show "wp (utils_md5_update c (Some i) (length i)) (\<lambda>c. md5_absorbed c (m @ i))"
    if "md5_absorbed c m" "length i < 2 ^ 32" for c m i
    using md5_md.update [OF that] by (simp add: utils_md5_update_def)
  show "wp (utils_md5_finish c (Some out)) (\<lambda>(c, out). True \<and> out = Some (md5_hash m))"
    if "md5_absorbed c m" "length out = 16" for c m out
    using md5_finish_law [OF that] by auto
qed (rule length_md5_hash)

lemma utils_md5_eq:
  "length m < 2 ^ 32 \<Longrightarrow> length out = 16 \<Longrightarrow>
     utils_md5 (Some m) (length m) (Some out) = Some (Some (md5_hash m))"
  using md5.digest [where c = "md_zero 4" and out = out and ps = "[m]"] by (auto simp: wp_Some_iff utils_md5_def bind_eq_Some_conv)

end
