(* ===== verification/Base64.thy ===== *)
theory Base64
  imports Digest
begin

text \<open>
  \<open>utils_base64.c\<close>. A buffer is a byte list, undefined to read or write outside; lengths are 32 bit
  words. The index \<open>i\<close> stays within the input and \<open>j\<close> within the output, so both are natural
  numbers. Errors are returned with \<open>FAIL_RETURN\<close>.
\<close>

abbreviation (input) SUCCESS_RETURN :: int where "SUCCESS_RETURN \<equiv> 0"
abbreviation (input) FAIL_RETURN :: int where "FAIL_RETURN \<equiv> - 1"

abbreviation (input) EQUALS :: u8 where "EQUALS \<equiv> 0x3D"

definition g_encodingTable :: "u8 list" where
  "g_encodingTable = map of_char ''ABCDEFGHIJKLMNOPQRSTUVWXYZabcdefghijklmnopqrstuvwxyz0123456789+/''"

definition g_modTable :: "nat list" where "g_modTable = [0, 2, 1]"

definition byte_at :: "u8 list \<Rightarrow> nat \<Rightarrow> u8 option" where
  "byte_at b i = (if i < length b then Some (b ! i) else None)"

definition store_byte :: "u8 list \<Rightarrow> nat \<Rightarrow> u8 \<Rightarrow> u8 list option" where
  "store_byte b j v = (if j < length b then Some (b[j := v]) else None)"

subsection \<open>Encoding\<close>

text \<open>\<open>i < inputLength ? data[i++] : 0\<close>.\<close>

definition octet :: "u8 list \<Rightarrow> nat \<Rightarrow> nat \<Rightarrow> (u32 \<times> nat) option" where
  "octet data n i =
     (if i < n then do { v \<leftarrow> byte_at data i; Some (ucast v, i + 1) } else Some (0, i))"

lemma octet_next: "octet data n i = Some (v, k) \<Longrightarrow> i \<le> k \<and> (i < n \<longrightarrow> i < k)"
  by (auto simp: octet_def bind_eq_Some_conv split: if_splits)

definition encoded :: "u32 \<Rightarrow> nat \<Rightarrow> u8" where
  "encoded triple k = g_encodingTable ! unat (drop_bit (k * 6) triple AND 0x3F)"

function base64_encode_loop :: "u8 list \<Rightarrow> nat \<Rightarrow> nat \<Rightarrow> nat \<Rightarrow> u8 list \<Rightarrow> u8 list option" where
  "base64_encode_loop data n i j enc =
     (if i < n then do {
        (octet_a, i1) \<leftarrow> octet data n i;
        (octet_b, i2) \<leftarrow> octet data n i1;
        (octet_c, i3) \<leftarrow> octet data n i2;
        let triple = push_bit 0x10 octet_a + push_bit 0x08 octet_b + octet_c;
        enc \<leftarrow> store_byte enc j (encoded triple 3);
        enc \<leftarrow> store_byte enc (j + 1) (encoded triple 2);
        enc \<leftarrow> store_byte enc (j + 2) (encoded triple 1);
        enc \<leftarrow> store_byte enc (j + 3) (encoded triple 0);
        base64_encode_loop data n i3 (j + 4) enc
      }
      else Some enc)"
  by auto
termination
  by (relation "measure (\<lambda>(data, n, i, j, enc). n - i)") (auto dest!: octet_next)

declare base64_encode_loop.simps [simp del]

definition utils_base64encode ::
  "u8 list \<Rightarrow> u32 \<Rightarrow> u32 \<Rightarrow> u8 list option \<Rightarrow> u32 \<Rightarrow> (int \<times> u8 list option \<times> u32) option" where
  "utils_base64encode data inputLength outputLenMax encodedData outputLength =
     (case encodedData of
        None \<Rightarrow> Some (FAIL_RETURN, None, outputLength)
      | Some enc \<Rightarrow>
          let outputLength = 4 * ((inputLength + 2) div 3) in
          if outputLenMax < outputLength then Some (FAIL_RETURN, Some enc, outputLength)
          else do {
            enc \<leftarrow> base64_encode_loop data (unat inputLength) 0 0 enc;
            enc \<leftarrow> for_each [0..<g_modTable ! unat (inputLength mod 3)]
              (\<lambda>i enc. store_byte enc (unat (outputLength - 1 - of_nat i)) EQUALS) enc;
            Some (SUCCESS_RETURN, Some enc, outputLength)
          })"

subsection \<open>Decoding\<close>

text \<open>The static variables of the decoder: \<open>signal\<close> and the table, zero before the first call.\<close>

type_synonym decoder = "int \<times> u8 list"

definition decoder_boot :: decoder where "decoder_boot = (0, replicate 256 0)"

definition build_decoding_table :: "decoder \<Rightarrow> decoder" where
  "build_decoding_table s =
     (let (signal, table) = s in
      if signal \<noteq> 0 then s
      else (1, fold (\<lambda>i table. table[unat (g_encodingTable ! i) := of_nat i]) [0..<64] table))"

text \<open>\<open>data[i] == '=' ? 0 & i++ : g_decodingTable[data[i++]]\<close>, an \<open>int8_t\<close> widened.\<close>

definition sextet_of :: "u8 list \<Rightarrow> u8 \<Rightarrow> u32" where
  "sextet_of table c = (if c = EQUALS then 0 else scast (table ! unat c))"

definition sextet :: "u8 list \<Rightarrow> u8 list \<Rightarrow> nat \<Rightarrow> u32 option" where
  "sextet table data i = do { c \<leftarrow> byte_at data i; Some (sextet_of table c) }"

text \<open>\<open>if (j < *outputLength) decodedData[j++] = ...\<close>\<close>

definition emit :: "nat \<Rightarrow> u32 \<Rightarrow> nat \<times> u8 list \<Rightarrow> (nat \<times> u8 list) option" where
  "emit outlen v s =
     (let (j, dec) = s in
      if j < outlen then do { dec \<leftarrow> store_byte dec j (ucast (v AND 0xFF)); Some (j + 1, dec) } else Some (j, dec))"

function base64_decode_loop ::
  "u8 list \<Rightarrow> u8 list \<Rightarrow> nat \<Rightarrow> nat \<Rightarrow> nat \<Rightarrow> nat \<times> u8 list \<Rightarrow> (nat \<times> u8 list) option" where
  "base64_decode_loop table data n outlen i s =
     (if i < n then do {
        sextet_a \<leftarrow> sextet table data i;
        sextet_b \<leftarrow> sextet table data (i + 1);
        sextet_c \<leftarrow> sextet table data (i + 2);
        sextet_d \<leftarrow> sextet table data (i + 3);
        let triple = push_bit 18 sextet_a + push_bit 12 sextet_b + push_bit 6 sextet_c + sextet_d;
        s \<leftarrow> emit outlen (drop_bit 16 triple) s;
        s \<leftarrow> emit outlen (drop_bit 8 triple) s;
        s \<leftarrow> emit outlen triple s;
        base64_decode_loop table data n outlen (i + 4) s
      }
      else Some s)"
  by auto
termination
  by (relation "measure (\<lambda>(table, data, n, outlen, i, s). n - i)") auto

declare base64_decode_loop.simps [simp del]

definition utils_base64decode ::
  "decoder \<Rightarrow> u8 list \<Rightarrow> u32 \<Rightarrow> u32 \<Rightarrow> u8 list \<Rightarrow> u32 \<Rightarrow> (int \<times> decoder \<times> u8 list \<times> u32) option" where
  "utils_base64decode st data inputLength outputLenMax decodedData outputLength =
     (let st = build_decoding_table st in
      if inputLength mod 4 \<noteq> 0 then Some (FAIL_RETURN, st, decodedData, outputLength)
      else do {
        let outputLength = inputLength div 4 * 3;
        c \<leftarrow> byte_at data (unat (inputLength - 1));
        let outputLength = (if c = EQUALS then outputLength - 1 else outputLength);
        c \<leftarrow> byte_at data (unat (inputLength - 2));
        let outputLength = (if c = EQUALS then outputLength - 1 else outputLength);
        if outputLenMax < outputLength then Some (FAIL_RETURN, st, decodedData, outputLength)
        else do {
          (j, dec) \<leftarrow> base64_decode_loop (snd st) data (unat inputLength) (unat outputLength) 0 (0, decodedData);
          Some (SUCCESS_RETURN, st, dec, outputLength)
        }
      })"

subsection \<open>RFC 4648\<close>

text \<open>The alphabet of the RFC by its ranges, and four characters for the number three bytes make.\<close>

definition base64_char :: "nat \<Rightarrow> u8" where
  "base64_char n =
     (if n < 26 then of_nat (n + 0x41) else if n < 52 then of_nat (n - 26 + 0x61)
      else if n < 62 then of_nat (n - 52 + 0x30) else if n = 62 then 0x2B else 0x2F)"

definition quad :: "u8 \<Rightarrow> u8 \<Rightarrow> u8 \<Rightarrow> u8 list" where
  "quad a b c =
     (let n = 65536 * unat a + 256 * unat b + unat c
      in [base64_char (n div 262144 mod 64), base64_char (n div 4096 mod 64), base64_char (n div 64 mod 64),
          base64_char (n mod 64)])"

fun base64 :: "u8 list \<Rightarrow> u8 list" where
  "base64 [] = []"
| "base64 [a] = take 2 (quad a 0 0) @ [EQUALS, EQUALS]"
| "base64 [a, b] = take 3 (quad a b 0) @ [EQUALS]"
| "base64 (a # b # c # bs) = quad a b c @ base64 bs"

text \<open>The same through the words and the table of the code.\<close>

definition triple_of :: "u8 \<Rightarrow> u8 \<Rightarrow> u8 \<Rightarrow> u32" where
  "triple_of a b c = push_bit 16 (ucast a) + push_bit 8 (ucast b) + ucast c"

lemma of_nat_back: "n < 2 ^ 32 \<Longrightarrow> unat (of_nat n :: u32) = n"
  by (simp add: unat_of_nat)

lemma unat_triple: "unat (triple_of a b c) = 65536 * unat a + 256 * unat b + unat c"
proof -
  have t: "triple_of a b c = of_nat (65536 * unat a + 256 * unat b + unat c)"
    by (simp add: triple_of_def push_bit_eq_mult)
  have b: "unat x < 256" for x :: u8 using unsigned_less [of x] by simp
  have "65536 * unat a + 256 * unat b + unat c < 4294967296" using b [of a] b [of b] b [of c] by linarith
  then have "65536 * unat a + 256 * unat b + unat c < 2 ^ 32" by simp
  then show ?thesis unfolding t by (rule of_nat_back)
qed

lemma table_char: "n < 64 \<Longrightarrow> g_encodingTable ! n = base64_char n"
proof -
  assume "n < 64"
  then have "n \<in> set [0..<64]" by simp
  moreover have "list_all (\<lambda>n. g_encodingTable ! n = base64_char n) [0..<64]" by code_simp
  ultimately show ?thesis unfolding list_all_iff by blast
qed

lemma encoded_char: "encoded v k = base64_char (unat v div 2 ^ (k * 6) mod 64)"
proof -
  have m: "drop_bit (k * 6) v AND 0x3F = take_bit 6 (drop_bit (k * 6) v)" by (simp add: take_bit_eq_mask mask_eq_exp_minus_1)
  have "unat (drop_bit (k * 6) v AND 0x3F) = unat v div 2 ^ (k * 6) mod 64"
    unfolding m by (simp only: unsigned_take_bit_eq unat_drop_bit_eq) (simp add: take_bit_eq_mod drop_bit_eq_div)
  then show ?thesis by (simp add: encoded_def table_char)
qed

lemma quad_encoded: "quad a b c = map (encoded (triple_of a b c)) [3, 2, 1, 0]"
  by (simp add: quad_def encoded_char unat_triple Let_def)

text \<open>What the loop of the encoder writes, before the padding.\<close>

fun unpadded :: "u8 list \<Rightarrow> u8 list" where
  "unpadded [] = []"
| "unpadded [a] = quad a 0 0"
| "unpadded [a, b] = quad a b 0"
| "unpadded (a # b # c # bs) = quad a b c @ unpadded bs"

lemma length_quad [simp]: "length (quad a b c) = 4"
  by (simp add: quad_encoded)

lemma length_unpadded: "length (unpadded bs) = 4 * ((length bs + 2) div 3)"
proof (induction bs rule: unpadded.induct)
  case (4 a b c bs)
  have "(length (a # b # c # bs) + 2) div 3 = Suc ((length bs + 2) div 3)" by simp
  then show ?case using 4 by (simp only: unpadded.simps length_append length_quad) simp
qed simp_all

lemma length_base64: "length (base64 bs) = length (unpadded bs)"
  by (induction bs rule: base64.induct) simp_all

lemma store_byte_put: "j < length b \<Longrightarrow> store_byte b j v = Some (put b j [v])"
  by (simp add: store_byte_def put_one)

lemma store_four:
  "j + 4 \<le> length e \<Longrightarrow> do {
      e \<leftarrow> store_byte e j a; e \<leftarrow> store_byte e (j + 1) b; e \<leftarrow> store_byte e (j + 2) c; e \<leftarrow> store_byte e (j + 3) d; f e
    } = f (put e j [a, b, c, d])"
  by (simp add: store_byte_put put_put)

lemma drop_Cons: "drop i data = a # bs \<Longrightarrow> i < length data \<and> data ! i = a \<and> drop (Suc i) data = bs"
  by (metis drop_eq_Nil Cons_nth_drop_Suc list.inject list.distinct(1) not_less)

lemma octet_in: "drop i data = a # bs \<Longrightarrow> octet data (length data) i = Some (ucast a, Suc i)"
  using drop_Cons [of i data a bs] by (simp add: octet_def byte_at_def)

lemma octet_out: "octet data (length data) (length data) = Some (0, length data)"
  by (simp add: octet_def)

lemma encode_loop_step:
  assumes "octet data n i = Some (ucast a, i1)" "octet data n i1 = Some (ucast b, i2)"
    "octet data n i2 = Some (ucast c, i3)" "i < n" "j + 4 \<le> length enc"
  shows "base64_encode_loop data n i j enc = base64_encode_loop data n i3 (j + 4) (put enc j (quad a b c))"
  using store_four [OF assms(5)] assms(1-4)
  by (subst base64_encode_loop.simps) (simp add: quad_encoded triple_of_def Let_def)

lemma encode_loop_eq:
  "drop i data = bs \<Longrightarrow> j + length (unpadded bs) \<le> length enc \<Longrightarrow>
     base64_encode_loop data (length data) i j enc = Some (put enc j (unpadded bs))"
proof (induction bs arbitrary: i j enc rule: unpadded.induct)
  case 1
  then show ?case by (simp add: base64_encode_loop.simps put_def)
next
  case (2 a)
  have i: "i < length data" "Suc i = length data" using drop_Cons [OF 2(1)] by auto
  have "base64_encode_loop data (length data) i j enc = base64_encode_loop data (length data) (length data) (j + 4) (put enc j (quad a 0 0))"
    by (rule encode_loop_step [where ?i1.0 = "length data" and ?i2.0 = "length data"])
      (use 2 i octet_in [OF 2(1)] octet_out in simp_all)
  then show ?case by (simp add: base64_encode_loop.simps)
next
  case (3 a b)
  note d = drop_Cons [OF 3(1)]
  then have d': "drop (Suc i) data = [b]" by simp
  have i: "i < length data" "Suc (Suc i) = length data" using d drop_Cons [OF d'] by auto
  have "base64_encode_loop data (length data) i j enc = base64_encode_loop data (length data) (length data) (j + 4) (put enc j (quad a b 0))"
    by (rule encode_loop_step [where ?i1.0 = "Suc i" and ?i2.0 = "length data"])
      (use 3 i octet_in [OF 3(1)] octet_in [OF d'] octet_out in simp_all)
  then show ?case by (simp add: base64_encode_loop.simps)
next
  case (4 a b c bs)
  note d = drop_Cons [OF 4(2)]
  then have d': "drop (Suc i) data = b # c # bs" by simp
  then have d'': "drop (Suc (Suc i)) data = c # bs" using drop_Cons [OF d'] by simp
  then have d3: "drop (Suc (Suc (Suc i))) data = bs" using drop_Cons [OF d''] by simp
  have "base64_encode_loop data (length data) i j enc =
      base64_encode_loop data (length data) (Suc (Suc (Suc i))) (j + 4) (put enc j (quad a b c))"
    by (rule encode_loop_step) (use 4(3) d octet_in [OF 4(2)] octet_in [OF d'] octet_in [OF d''] in simp_all)
  also have "\<dots> = Some (put (put enc j (quad a b c)) (j + 4) (unpadded bs))"
    using 4(3) by (intro 4(1) d3) simp
  finally show ?case using 4(3) by (simp add: put_put)
qed

text \<open>The padding loop turns the loop's result into RFC 4648.\<close>

definition pad_base64 :: "nat \<Rightarrow> u8 list \<Rightarrow> u8 list" where
  "pad_base64 k u = fold (\<lambda>i u. u[length u - 1 - i := EQUALS]) [0..<g_modTable ! k] u"

lemma pad_simps:
  "pad_base64 0 u = u" "pad_base64 1 u = u[length u - 1 := EQUALS, length u - 2 := EQUALS]" "pad_base64 2 u = u[length u - 1 := EQUALS]"
  by (simp_all add: pad_base64_def g_modTable_def upt_rec numeral_2_eq_2)

lemma pad_append:
  assumes "2 \<le> length u" "k < 3"
  shows "pad_base64 k (q @ u) = q @ pad_base64 k u"
proof -
  have "k = 0 \<or> k = 1 \<or> k = 2" using assms(2) by auto
  moreover have "length q + length u - 1 = length q + (length u - 1)" "length q + length u - 2 = length q + (length u - 2)"
    using assms(1) by simp_all
  ultimately show ?thesis using assms(1) by (auto simp: pad_simps [unfolded One_nat_def] pad_simps list_update_append)
qed

lemma base64_pad: "base64 bs = pad_base64 (length bs mod 3) (unpadded bs)"
proof (induction bs rule: base64.induct)
  case (4 a b c bs)
  have m: "length (a # b # c # bs) mod 3 = length bs mod 3" by (simp add: mod_Suc) presburger
  show ?case
  proof (cases "bs = []")
    case True
    then show ?thesis by (simp add: pad_simps)
  next
    case False
    then have "2 \<le> length (unpadded bs)" by (cases bs rule: unpadded.cases) simp_all
    then show ?thesis unfolding m using 4 by (simp add: pad_append)
  qed
qed (simp_all add: quad_encoded pad_simps pad_simps [unfolded One_nat_def] pad_simps(3) [unfolded numeral_2_eq_2])

subsection \<open>The table and the bits\<close>

definition base64_table :: "u8 list" where
  "base64_table = snd (build_decoding_table decoder_boot)"

lemma length_encodingTable: "length g_encodingTable = 64"
  by (simp add: g_encodingTable_def)

lemma encodingTable_distinct: "distinct g_encodingTable" "EQUALS \<notin> set g_encodingTable"
  by (simp_all add: g_encodingTable_def)

lemma int8_small: "list_all (\<lambda>i. scast (of_nat i :: u8) = (of_nat i :: u32)) [0..<64]"
  by code_simp

lemma fold_update:
  "inj_on f {..<n} \<Longrightarrow> i < n \<Longrightarrow> f i < length t \<Longrightarrow> fold (\<lambda>i t. t[f i := g i]) [0..<n] t ! f i = g i"
proof (induction n)
  case (Suc n)
  have len: "length (fold (\<lambda>i t. t[f i := g i]) [0..<n] t) = length t" for n
    by (induction n) simp_all
  have "f i \<noteq> f n \<or> i = n" using Suc.prems(1,2) by (auto simp: inj_on_def)
  then show ?case using Suc len by (auto simp: less_Suc_eq lessThan_Suc)
qed simp

lemma table_entries:
  assumes "i < 64"
  shows "g_encodingTable ! i \<noteq> EQUALS \<and> scast (base64_table ! unat (g_encodingTable ! i)) = (of_nat i :: u32)"
proof -
  have "inj_on (\<lambda>i. unat (g_encodingTable ! i)) {..<64}"
    using encodingTable_distinct(1) length_encodingTable by (auto simp: inj_on_def nth_eq_iff_index_eq simp flip: word_unat_eq_iff)
  then have "base64_table ! unat (g_encodingTable ! i) = of_nat i"
    unfolding base64_table_def build_decoding_table_def decoder_boot_def
    using fold_update [of "\<lambda>i. unat (g_encodingTable ! i)" 64 i "replicate 256 0"] assms by simp
  moreover have "g_encodingTable ! i \<in> set g_encodingTable" using assms length_encodingTable by simp
  ultimately show ?thesis
    using encodingTable_distinct(2) int8_small assms by (auto simp: list_all_iff)
qed

lemma unat_low_bits: "unat (v AND 0x3F :: u32) < 64"
proof -
  have "v AND 0x3F = take_bit 6 v" by (simp add: take_bit_eq_mask mask_eq_exp_minus_1)
  then have "unat (v AND 0x3F) = take_bit 6 (unat v)" by (simp only: unsigned_take_bit_eq)
  then show ?thesis using take_bit_nat_less_exp [of 6 "unat v"] by simp
qed

lemma encoded_sextet:
  "encoded t k \<noteq> EQUALS" "sextet_of base64_table (encoded t k) = drop_bit (k * 6) t AND 0x3F"
proof -
  let ?v = "drop_bit (k * 6) t AND 0x3F :: u32"
  have "g_encodingTable ! unat ?v \<noteq> EQUALS \<and> scast (base64_table ! unat (g_encodingTable ! unat ?v)) = (of_nat (unat ?v) :: u32)"
    using table_entries [OF unat_low_bits [of "drop_bit (k * 6) t"]] by simp
  then show "encoded t k \<noteq> EQUALS" "sextet_of base64_table (encoded t k) = ?v"
    by (simp_all add: encoded_def sextet_of_def)
qed

definition join4 :: "u32 \<Rightarrow> u32 \<Rightarrow> u32 \<Rightarrow> u32 \<Rightarrow> u32" where
  "join4 a b c d = push_bit 18 a + push_bit 12 b + push_bit 6 c + d"

definition bytes3 :: "u32 \<Rightarrow> u8 list" where
  "bytes3 t = [ucast (drop_bit 16 t AND 0xFF), ucast (drop_bit 8 t AND 0xFF), ucast (t AND 0xFF)]"

lemma triple_or: "triple_of a b c = push_bit 16 (ucast a) OR push_bit 8 (ucast b) OR ucast c"
proof -
  have "push_bit 16 (ucast a) + push_bit 8 (ucast b) = (push_bit 16 (ucast a) OR push_bit 8 (ucast b) :: u32)"
    by (rule disjunctive_add_eq_or, rule bit_word_eqI) (auto simp: bit_simps)
  moreover have "(push_bit 16 (ucast a) OR push_bit 8 (ucast b)) + ucast c =
      ((push_bit 16 (ucast a) OR push_bit 8 (ucast b)) OR ucast c :: u32)"
    by (rule disjunctive_add_eq_or, rule bit_word_eqI) (auto simp: bit_simps)
  ultimately show ?thesis by (simp add: triple_of_def ac_simps)
qed

lemma bytes_triple: "bytes3 (triple_of a b c) = [a, b, c]"
proof -
  have m: "(0xFF :: u32) = mask 8" by (simp add: mask_eq_exp_minus_1)
  have "ucast (drop_bit 16 (triple_of a b c) AND 0xFF) = a" "ucast (drop_bit 8 (triple_of a b c) AND 0xFF) = b"
    "ucast (triple_of a b c AND 0xFF) = c"
    unfolding triple_or m by (rule bit_word_eqI, auto simp: bit_simps)+
  then show ?thesis by (simp add: bytes3_def)
qed

lemma join_triple:
  fixes t :: u32
  assumes "drop_bit 24 t = 0"
  shows "join4 (drop_bit 18 t AND 0x3F) (drop_bit 12 t AND 0x3F) (drop_bit 6 t AND 0x3F) (t AND 0x3F) = t"
proof -
  have m: "(0x3F :: u32) = mask 6" by (simp add: mask_eq_exp_minus_1)
  let ?a = "push_bit 18 (drop_bit 18 t AND mask 6)" and ?b = "push_bit 12 (drop_bit 12 t AND mask 6)"
  let ?c = "push_bit 6 (drop_bit 6 t AND mask 6)" and ?d = "t AND mask 6"
  have "?a + ?b = ?a OR ?b"
    by (rule disjunctive_add_eq_or, rule bit_word_eqI) (auto simp: bit_simps)
  moreover have "(?a OR ?b) + ?c = (?a OR ?b) OR ?c"
    by (rule disjunctive_add_eq_or, rule bit_word_eqI) (auto simp: bit_simps)
  moreover have "((?a OR ?b) OR ?c) + ?d = ((?a OR ?b) OR ?c) OR ?d"
    by (rule disjunctive_add_eq_or, rule bit_word_eqI) (auto simp: bit_simps)
  ultimately have "join4 (drop_bit 18 t AND 0x3F) (drop_bit 12 t AND 0x3F) (drop_bit 6 t AND 0x3F) (t AND 0x3F) =
      ((?a OR ?b) OR ?c) OR ?d" by (simp only: join4_def m)
  also have "\<dots> = t"
  proof (rule bit_word_eqI)
    fix n assume "n < LENGTH(32)"
    have "\<not> bit t n" if "24 \<le> n"
    proof -
      have "bit (drop_bit 24 t) (n - 24) = bit t n" using that by (simp add: bit_drop_bit_eq)
      then show ?thesis using assms by simp
    qed
    then show "bit (((?a OR ?b) OR ?c) OR ?d) n = bit t n"
      using \<open>n < LENGTH(32)\<close> by (cases "n < 6"; cases "n < 12"; cases "n < 18"; cases "n < 24"; auto simp: bit_simps not_le)
  qed
  finally show ?thesis .
qed

lemma triple_small: "drop_bit 24 (triple_of a b c) = 0"
  unfolding triple_or by (rule bit_word_eqI) (auto simp: bit_simps)

lemma quad_sextets:
  "quad a b c = [p, q, r, s] \<Longrightarrow>
     join4 (sextet_of base64_table p) (sextet_of base64_table q) (sextet_of base64_table r) (sextet_of base64_table s) =
     triple_of a b c"
  using join_triple [OF triple_small [of a b c]] by (auto simp: quad_encoded encoded_sextet)

text \<open>Padding decodes like the letter the loop wrote there.\<close>

lemma quad_zero: "encoded (triple_of a b 0) 0 = 0x41" "encoded (triple_of a 0 0) 1 = 0x41"
proof -
  have m: "(0x3F :: u32) = mask 6" by (simp add: mask_eq_exp_minus_1)
  have "drop_bit (0 * 6) (triple_of a b 0) AND 0x3F = 0" "drop_bit (1 * 6) (triple_of a 0 0) AND 0x3F = 0"
    unfolding m triple_or by (rule bit_word_eqI, auto simp: bit_simps)+
  then show "encoded (triple_of a b 0) 0 = 0x41" "encoded (triple_of a 0 0) 1 = 0x41"
    by (simp_all add: encoded_def g_encodingTable_def)
qed

lemma sextet_padding: "sextet_of base64_table EQUALS = 0" "sextet_of base64_table 0x41 = 0"
proof -
  show "sextet_of base64_table EQUALS = 0" by (simp add: sextet_of_def)
  have "g_encodingTable ! 0 = 0x41" by (simp add: g_encodingTable_def)
  then show "sextet_of base64_table 0x41 = 0"
    using table_entries [of 0] by (simp add: sextet_of_def)
qed

subsection \<open>The loop of the decoder\<close>

text \<open>What it computes from a list of characters: three bytes of every four.\<close>

fun undone :: "u8 list \<Rightarrow> u8 list" where
  "undone (p # q # r # s # cs) =
     bytes3 (join4 (sextet_of base64_table p) (sextet_of base64_table q)
       (sextet_of base64_table r) (sextet_of base64_table s)) @ undone cs"
| "undone cs = []"

lemma undone_base64: "undone (base64 bs) = bs @ replicate (g_modTable ! (length bs mod 3)) 0"
proof (induction bs rule: base64.induct)
  case 1
  then show ?case by (simp add: g_modTable_def)
next
  case (2 a)
  obtain p q where q: "quad a 0 0 = [p, q, 0x41, 0x41]"
    using quad_zero(1) [of a 0] quad_zero(2) [of a] by (simp add: quad_encoded)
  then show ?case
    using quad_sextets [OF q] bytes_triple [of a 0 0]
    by (simp add: sextet_padding g_modTable_def replicate_Suc numeral_2_eq_2)
next
  case (3 a b)
  obtain p q r where q: "quad a b 0 = [p, q, r, 0x41]"
    using quad_zero(1) [of a b] by (simp add: quad_encoded)
  then show ?case
    using quad_sextets [OF q] bytes_triple [of a b 0]
    by (simp add: sextet_padding g_modTable_def numeral_2_eq_2)
next
  case (4 a b c bs)
  obtain p q r s where q: "quad a b c = [p, q, r, s]" by (simp add: quad_encoded)
  have m: "length (a # b # c # bs) mod 3 = length bs mod 3" by (simp add: mod_Suc) presburger
  show ?case unfolding m using 4 q quad_sextets [OF q] by (simp add: bytes_triple)
qed

text \<open>A store_byte that stops at the output's length.\<close>

definition append_to :: "nat \<Rightarrow> u8 list \<Rightarrow> nat \<times> u8 list \<Rightarrow> nat \<times> u8 list" where
  "append_to outlen bs s = (fst s + length (take (outlen - fst s) bs), put (snd s) (fst s) (take (outlen - fst s) bs))"

definition room :: "nat \<Rightarrow> nat \<times> u8 list \<Rightarrow> bool" where
  "room outlen s \<longleftrightarrow> fst s \<le> outlen \<and> outlen \<le> length (snd s)"

lemma room_append: "room outlen s \<Longrightarrow> room outlen (append_to outlen bs s)"
  by (auto simp: room_def append_to_def)

lemma append_append: "room outlen s \<Longrightarrow> append_to outlen cs (append_to outlen bs s) = append_to outlen (bs @ cs) s"
  by (auto simp: room_def append_to_def put_put min_def)

lemma append_Nil: "append_to outlen [] s = s"
  by (simp add: append_to_def put_def)

lemma emit_eq: "room outlen s \<Longrightarrow> emit outlen v s = Some (append_to outlen [ucast (v AND 0xFF)] s)"
  by (cases s) (auto simp: emit_def room_def append_to_def store_byte_put put_def Suc_le_eq take_Cons')

lemma emit_three:
  "room outlen s \<Longrightarrow>
     do { s \<leftarrow> emit outlen (drop_bit 16 t) s; s \<leftarrow> emit outlen (drop_bit 8 t) s; s \<leftarrow> emit outlen t s; f s } =
     f (append_to outlen (bytes3 t) s)"
  by (simp add: emit_eq room_append append_append bytes3_def)

lemma base64_decode_loop_eq:
  "drop i data = cs \<Longrightarrow> length cs mod 4 = 0 \<Longrightarrow> room outlen s \<Longrightarrow>
     base64_decode_loop base64_table data (length data) outlen i s = Some (append_to outlen (undone cs) s)"
proof (induction cs arbitrary: i s rule: undone.induct)
  case (1 p q r t cs)
  note d = drop_Cons [OF 1(2)]
  note d1 = drop_Cons [of "Suc i" data q "r # t # cs"]
  note d2 = drop_Cons [of "Suc (Suc i)" data r "t # cs"]
  note d3 = drop_Cons [of "Suc (Suc (Suc i))" data t cs]
  have at: "i < length data" "data ! i = p" "Suc i < length data" "data ! Suc i = q"
    "Suc (Suc i) < length data" "data ! Suc (Suc i) = r" "Suc (Suc (Suc i)) < length data"
    "data ! Suc (Suc (Suc i)) = t" "drop (i + 4) data = cs"
    using d d1 d2 d3 by (simp_all add: numeral_eq_Suc)
  have sx: "sextet base64_table data i = Some (sextet_of base64_table p)"
    "sextet base64_table data (i + 1) = Some (sextet_of base64_table q)"
    "sextet base64_table data (i + 2) = Some (sextet_of base64_table r)"
    "sextet base64_table data (i + 3) = Some (sextet_of base64_table t)"
    using at by (simp_all add: sextet_def byte_at_def numeral_eq_Suc)
  let ?t = "join4 (sextet_of base64_table p) (sextet_of base64_table q) (sextet_of base64_table r) (sextet_of base64_table t)"
  have "base64_decode_loop base64_table data (length data) outlen i s =
      base64_decode_loop base64_table data (length data) outlen (i + 4) (append_to outlen (bytes3 ?t) s)"
    unfolding base64_decode_loop.simps [of base64_table data "length data" outlen i] if_P [OF at(1)] sx
      Option.bind_lunit Let_def join4_def [symmetric]
    by (rule emit_three [OF 1(4)])
  also have "\<dots> = Some (append_to outlen (undone cs) (append_to outlen (bytes3 ?t) s))"
  proof (rule 1(1) [OF at(9)])
    show "length cs mod 4 = 0" using 1(3) by (simp add: mod_Suc split: if_splits)
    show "room outlen (append_to outlen (bytes3 ?t) s)" using 1(4) by (rule room_append)
  qed
  finally show ?case using 1(4) by (simp add: append_append)
qed (auto simp: base64_decode_loop.simps append_Nil)

subsection \<open>The round trip\<close>

lemma encoded_length:
  assumes "n \<le> 3221225469"
  shows "unat (4 * ((of_nat n + 2) div 3) :: u32) = 4 * ((n + 2) div 3)"
proof -
  have "unat (of_nat n + 2 :: u32) = n + 2" using assms by (simp add: unat_word_ariths unat_of_nat)
  then have "unat ((of_nat n + 2) div 3 :: u32) = (n + 2) div 3" by (simp add: unat_div)
  then show ?thesis using assms by (simp add: unat_word_ariths)
qed

lemma store_prefix: "k < length u \<Longrightarrow> length u \<le> length b \<Longrightarrow> store_byte (put b 0 u) k v = Some (put b 0 (u[k := v]))"
  by (simp add: store_byte_def put_def list_update_append)

lemma padding_loop:
  assumes "k < 3" "k = 0 \<or> 4 \<le> length u" "length u \<le> length b" "unat (w :: u32) = length u"
  shows "for_each [0..<g_modTable ! k] (\<lambda>i e. store_byte e (unat (w - 1 - of_nat i)) EQUALS) (put b 0 u) =
    Some (put b 0 (pad_base64 k u))"
proof -
  have "k = 0 \<or> k = 1 \<or> k = 2" using assms(1) by auto
  then show ?thesis
  proof (elim disjE)
    assume "k = 0"
    then show ?thesis by (simp add: g_modTable_def pad_simps)
  next
    assume k: "k = 1"
    then have "unat (w - 1) = length u - 1" "unat (w - 1 - 1) = length u - 2"
      using assms(2,4) by (simp_all add: unat_sub_wrap)
    then show ?thesis
      using assms(2,3) k by (simp add: g_modTable_def pad_simps [unfolded One_nat_def] upt_rec store_prefix)
  next
    assume k: "k = 2"
    then have "unat (w - 1) = length u - 1" using assms(2,4) by (simp add: unat_sub_wrap)
    then show ?thesis
      using assms(2,3) k by (simp add: g_modTable_def pad_simps upt_rec store_prefix)
  qed
qed

lemma length_pad [simp]: "length (pad_base64 k u) = length u"
proof -
  have "length (fold (\<lambda>i u. u[length u - 1 - i := EQUALS]) is u) = length u" for "is" :: "nat list"
    by (induction "is" arbitrary: u) simp_all
  then show ?thesis by (simp add: pad_base64_def)
qed

lemma base64_encode_eq:
  assumes "length data \<le> 3221225469" "length (base64 data) \<le> length enc" "length (base64 data) \<le> unat encMax"
  shows "utils_base64encode data (of_nat (length data)) encMax (Some enc) x =
    Some (SUCCESS_RETURN, Some (put enc 0 (base64 data)), 4 * ((of_nat (length data) + 2) div 3))"
proof -
  let ?w = "4 * ((of_nat (length data) + 2) div 3) :: u32"
  have w: "unat ?w = length (unpadded data)"
    using encoded_length [OF assms(1)] length_unpadded [of data] by simp
  have n: "unat (of_nat (length data) :: u32) = length data" using assms(1) by (simp add: unat_of_nat)
  then have m: "unat (of_nat (length data) mod 3 :: u32) = length data mod 3" by (simp add: unat_mod)
  have "length data mod 3 = 0 \<or> 4 \<le> length (unpadded data)"
    by (cases data rule: unpadded.cases) simp_all
  then have "for_each [0..<g_modTable ! (length data mod 3)] (\<lambda>i e. store_byte e (unat (?w - 1 - of_nat i)) EQUALS)
      (put enc 0 (unpadded data)) = Some (put enc 0 (base64 data))"
    unfolding base64_pad by (intro padding_loop w) (use assms(2) in \<open>simp_all add: length_base64\<close>)
  moreover have "\<not> encMax < ?w" using assms(3) w by (simp add: word_less_nat_alt length_base64)
  moreover have "base64_encode_loop data (length data) 0 0 enc = Some (put enc 0 (unpadded data))"
    by (rule encode_loop_eq) (use assms(2) in \<open>simp_all add: length_base64\<close>)
  ultimately show ?thesis by (simp add: utils_base64encode_def Let_def n m)
qed

text \<open>The length the decoder finds: one less for each padding character.\<close>

lemma base64_ends:
  "bs \<noteq> [] \<Longrightarrow> base64 bs ! (length (base64 bs) - 1) = EQUALS \<longleftrightarrow> length bs mod 3 \<noteq> 0"
  "bs \<noteq> [] \<Longrightarrow> base64 bs ! (length (base64 bs) - 2) = EQUALS \<longleftrightarrow> length bs mod 3 = 1"
proof -
  have "bs \<noteq> [] \<Longrightarrow> 4 \<le> length (base64 bs) \<and>
      (base64 bs ! (length (base64 bs) - 1) = EQUALS \<longleftrightarrow> length bs mod 3 \<noteq> 0) \<and>
      (base64 bs ! (length (base64 bs) - 2) = EQUALS \<longleftrightarrow> length bs mod 3 = 1)"
  proof (induction bs rule: base64.induct)
    case (4 a b c bs)
    have m: "length (a # b # c # bs) mod 3 = length bs mod 3" by (simp add: mod_Suc) presburger
    show ?case
    proof (cases "bs = []")
      case True
      then show ?thesis by (simp add: quad_encoded encoded_sextet(1))
    next
      case False
      then have l: "4 \<le> length (base64 bs)" using 4 by simp
      then have "4 + length (base64 bs) - 1 = 4 + (length (base64 bs) - 1)" "4 + length (base64 bs) - 2 = 4 + (length (base64 bs) - 2)"
        by simp_all
      then show ?thesis unfolding m using 4 False l by (auto simp: nth_append)
    qed
  qed (simp_all add: quad_encoded encoded_sextet(1) encoded_sextet(1) [of _ 1, unfolded One_nat_def])
  then show "bs \<noteq> [] \<Longrightarrow> base64 bs ! (length (base64 bs) - 1) = EQUALS \<longleftrightarrow> length bs mod 3 \<noteq> 0"
    "bs \<noteq> [] \<Longrightarrow> base64 bs ! (length (base64 bs) - 2) = EQUALS \<longleftrightarrow> length bs mod 3 = 1" by blast+
qed

lemma build_table: "st = decoder_boot \<or> st = (1, base64_table) \<Longrightarrow> build_decoding_table st = (1, base64_table)"
  by (auto simp: build_decoding_table_def base64_table_def decoder_boot_def)

lemma base64_decode_eq:
  assumes st: "st = decoder_boot \<or> st = (1, base64_table)"
    and bs: "bs \<noteq> []" "length bs \<le> 3221225469" "length bs \<le> unat decMax" "length bs \<le> length dec"
    and w: "w = 4 * ((of_nat (length bs) + 2) div 3)"
  shows "utils_base64decode st (base64 bs) w decMax dec y =
    Some (SUCCESS_RETURN, (1, base64_table), put dec 0 bs, of_nat (length bs))"
proof -
  let ?n = "length bs" and ?k = "(length bs + 2) div 3"
  have u: "unat w = 4 * ?k" using encoded_length [OF bs(2)] w by simp
  have L: "length (base64 bs) = 4 * ?k" by (simp add: length_base64 length_unpadded)
  have k: "0 < ?k" using bs(1) by (cases bs) simp_all
  have "unat (w mod 4) = 0" by (simp add: unat_mod u)
  then have m: "w mod 4 = 0" by (simp only: unsigned_eq_0_iff)
  have i: "unat (w - 1) = 4 * ?k - 1" "unat (w - 2) = 4 * ?k - 2" using k by (simp_all add: unat_sub_wrap u)
  have at: "byte_at (base64 bs) (unat (w - 1)) = Some (base64 bs ! (length (base64 bs) - 1))"
    "byte_at (base64 bs) (unat (w - 2)) = Some (base64 bs ! (length (base64 bs) - 2))"
    using k unfolding i byte_at_def L by simp_all
  have q: "unat (w div 4 * 3) = 3 * ?k" using bs(2) by (simp add: unat_word_ariths unat_div u)
  let ?p = "g_modTable ! (?n mod 3)"
  define v where "v = (let v = w div 4 * 3; v = (if ?n mod 3 \<noteq> 0 then v - 1 else v)
    in if ?n mod 3 = 1 then v - 1 else v)"
  have n: "3 * ?k = ?n + ?p" "?p \<le> 2"
  proof -
    have "?n mod 3 \<in> {0, 1, 2}" using mod_less_divisor [of 3 ?n] by auto
    then show "3 * ?k = ?n + ?p" "?p \<le> 2" by (auto simp: g_modTable_def) presburger+
  qed
  have "unat v = ?n"
  proof -
    have "?n mod 3 \<in> {0, 1, 2}" using mod_less_divisor [of 3 ?n] by auto
    then show ?thesis using n k q by (auto simp: v_def g_modTable_def unat_sub_wrap)
  qed
  then have v: "v = of_nat ?n" by (metis of_nat_unat ucast_id)
  have "base64_decode_loop base64_table (base64 bs) (length (base64 bs)) ?n 0 (0, dec) =
      Some (append_to ?n (undone (base64 bs)) (0, dec))"
    by (rule base64_decode_loop_eq) (use bs(4) L in \<open>simp_all add: room_def\<close>)
  also have "append_to ?n (undone (base64 bs)) (0, dec) = (?n, put dec 0 bs)"
    by (simp add: append_to_def undone_base64)
  finally have "base64_decode_loop base64_table (base64 bs) (unat w) (unat v) 0 (0, dec) = Some (?n, put dec 0 bs)"
    using u L \<open>unat v = ?n\<close> by simp
  moreover have "\<not> decMax < v" using bs(3) \<open>unat v = ?n\<close> by (simp add: word_less_nat_alt)
  ultimately show ?thesis
    unfolding utils_base64decode_def build_table [OF st] Let_def m at Option.bind_lunit base64_ends [OF bs(1)]
    by (simp add: v_def [unfolded Let_def, symmetric] v [symmetric] flip: One_nat_def)
qed

lemma base64decode_empty: "utils_base64decode st [] 0 decMax dec y = None"
  by (simp add: utils_base64decode_def byte_at_def Let_def)

text \<open>C30: Base64 round trip. Encoding a message that is not empty into a buffer that is long enough
  writes its base64 text of RFC 4648, padding included, and gives its length; decoding that text, on
  the decoder's first call or a later one, gives back the message and its length and touches nothing
  behind it.\<close>

theorem base64_round_trip:
  assumes "data \<noteq> []" "length data \<le> 3221225469"
    and "length (base64 data) \<le> unat encMax" "unat encMax \<le> length enc"
    and "length data \<le> unat decMax" "unat decMax \<le> length dec"
    and "st = decoder_boot \<or> st = build_decoding_table decoder_boot"
  shows "\<exists>m e. utils_base64encode data (of_nat (length data)) encMax (Some enc) x = Some (0, Some e, m) \<and>
    take (unat m) e = base64 data \<and>
    utils_base64decode st (take (unat m) e) m decMax dec y =
      Some (0, build_decoding_table decoder_boot, data @ drop (length data) dec, of_nat (length data))"
proof -
  let ?m = "4 * ((of_nat (length data) + 2) div 3) :: u32"
  have b: "build_decoding_table decoder_boot = (1, base64_table)" by (simp add: build_table)
  have m: "unat ?m = length (base64 data)"
    using encoded_length [OF assms(2)] by (simp add: length_base64 length_unpadded)
  have t: "take (unat ?m) (put enc 0 (base64 data)) = base64 data" unfolding m by (simp add: put_def)
  have "utils_base64decode st (base64 data) ?m decMax dec y =
      Some (0, (1, base64_table), put dec 0 data, of_nat (length data))"
    by (rule base64_decode_eq) (use assms b in simp_all)
  moreover have "utils_base64encode data (of_nat (length data)) encMax (Some enc) x =
      Some (0, Some (put enc 0 (base64 data)), ?m)"
    by (rule base64_encode_eq) (use assms in simp_all)
  ultimately show ?thesis using t b by (simp add: put_def)
qed

lemma base64_round_trip_witness:
  "\<exists>m e. utils_base64encode [0x61, 0x62] 2 8 (Some (replicate 8 0)) 0 = Some (0, Some e, m) \<and>
    take (unat m) e = base64 [0x61, 0x62] \<and>
    utils_base64decode decoder_boot (take (unat m) e) m 4 [7, 7, 7, 7] 0 =
      Some (0, build_decoding_table decoder_boot, [0x61, 0x62, 7, 7], 2)"
  using base64_round_trip [of "[0x61, 0x62]" 8 "replicate 8 0" 4 "[7, 7, 7, 7]" decoder_boot 0 0]
  by (simp add: quad_encoded)

end
