(* ===== verification/Hmac.thy ===== *)
theory Hmac
  imports Sha256 Sha1 Md5 Base64
begin

text \<open>
  \<open>utils_hmac.c\<close>: HMAC over the three digests. The functions write one body over different digests
  and outputs, here a definition over the digest's operations; what they do with the result is their
  own. Pointers are \<open>None\<close> for NULL, lengths are C integers. Local contexts and arrays that are set
  before they are read start as zeros.
\<close>

abbreviation (input) KEY_IOPAD_SIZE :: nat where "KEY_IOPAD_SIZE \<equiv> 64"
abbreviation (input) MD5_DIGEST_SIZE :: nat where "MD5_DIGEST_SIZE \<equiv> 16"
abbreviation (input) SHA1_DIGEST_SIZE :: nat where "SHA1_DIGEST_SIZE \<equiv> 20"
abbreviation (input) SHA256_DIGEST_SIZE :: nat where "SHA256_DIGEST_SIZE \<equiv> 32"

text \<open>An \<open>int\<close> passed as a \<open>size_t\<close>.\<close>

definition size_of :: "int \<Rightarrow> nat" where
  "size_of n = unat (of_int n :: u32)"

text \<open>\<open>memset\<close>, \<open>memcpy\<close> of the key and the loop of XORs, for one pad_base64.\<close>

definition key_pad :: "u8 \<Rightarrow> u8 list \<Rightarrow> int \<Rightarrow> u8 list option" where
  "key_pad x key key_len =
     (if size_of key_len \<le> length key \<and> size_of key_len \<le> KEY_IOPAD_SIZE
      then Some (map (\<lambda>b. b XOR x) (put (replicate KEY_IOPAD_SIZE 0) 0 (take (size_of key_len) key)))
      else None)"

definition hmac_body ::
  "('c \<Rightarrow> 'c) \<Rightarrow> ('c \<Rightarrow> 'c) \<Rightarrow> ('c \<Rightarrow> u8 list option \<Rightarrow> nat \<Rightarrow> 'c option) \<Rightarrow>
   ('c \<Rightarrow> u8 list option \<Rightarrow> ('c \<times> u8 list option) option) \<Rightarrow> nat \<Rightarrow> 'c \<Rightarrow> u8 list \<Rightarrow>
   u8 list \<Rightarrow> int \<Rightarrow> u8 list \<Rightarrow> int \<Rightarrow> u8 list option option" where
  "hmac_body init starts update finish dsize context out msg msg_len key key_len =
     do {
       k_ipad \<leftarrow> key_pad 0x36 key key_len;
       k_opad \<leftarrow> key_pad 0x5c key key_len;
       let context = starts (init context);
       context \<leftarrow> update context (Some k_ipad) KEY_IOPAD_SIZE;
       context \<leftarrow> update context (Some msg) (size_of msg_len);
       (context, out) \<leftarrow> finish context (Some out);
       let context = starts (init context);
       context \<leftarrow> update context (Some k_opad) KEY_IOPAD_SIZE;
       context \<leftarrow> update context out dsize;
       (context, out) \<leftarrow> finish context out;
       Some out
     }"

text \<open>The loop that writes a digest in hexadecimal.\<close>

definition hex_out :: "u8 list \<Rightarrow> nat \<Rightarrow> u8 list \<Rightarrow> u8 list option" where
  "hex_out out dsize digest =
     for_each [0..<dsize] (\<lambda>i digest. do {
       digest \<leftarrow> store_byte digest (i * 2) (utils_hb2hex (drop_bit 4 (out ! i)));
       store_byte digest (i * 2 + 1) (utils_hb2hex (out ! i))
     }) digest"

definition utils_hmac_md5 ::
  "u8 list option \<Rightarrow> int \<Rightarrow> u8 list option \<Rightarrow> u8 list option \<Rightarrow> int \<Rightarrow> u8 list option option" where
  "utils_hmac_md5 msg msg_len digest key key_len =
     (case (msg, digest, key) of
        (Some m, Some d, Some k) \<Rightarrow>
          if key_len > 64 then Some digest
          else do {
            out \<leftarrow> hmac_body utils_md5_init utils_md5_starts utils_md5_update utils_md5_finish MD5_DIGEST_SIZE
              (md_zero 4) (replicate MD5_DIGEST_SIZE 0) m msg_len k key_len;
            out \<leftarrow> out;
            d \<leftarrow> hex_out out MD5_DIGEST_SIZE d;
            Some (Some d)
          }
      | _ \<Rightarrow> Some digest)"

definition utils_hmac_sha256 ::
  "u8 list option \<Rightarrow> int \<Rightarrow> u8 list option \<Rightarrow> u8 list option \<Rightarrow> int \<Rightarrow> u8 list option option" where
  "utils_hmac_sha256 msg msg_len digest key key_len =
     (case (msg, digest, key) of
        (Some m, Some d, Some k) \<Rightarrow>
          if key_len > 64 then Some digest
          else do {
            out \<leftarrow> hmac_body utils_sha256_init utils_sha256_starts utils_sha256_update utils_sha256_finish
              SHA256_DIGEST_SIZE (Some sha256_zero) (replicate SHA256_DIGEST_SIZE 0) m msg_len k key_len;
            out \<leftarrow> out;
            d \<leftarrow> hex_out out SHA256_DIGEST_SIZE d;
            Some (Some d)
          }
      | _ \<Rightarrow> Some digest)"

definition hmac_sha1_body :: "u8 list \<Rightarrow> int \<Rightarrow> u8 list \<Rightarrow> int \<Rightarrow> u8 list option option" where
  "hmac_sha1_body = hmac_body utils_sha1_init utils_sha1_starts utils_sha1_update utils_sha1_finish
     SHA1_DIGEST_SIZE (md_zero 5) (replicate SHA1_DIGEST_SIZE 0)"

definition utils_hmac_sha1 ::
  "u8 list option \<Rightarrow> int \<Rightarrow> u8 list option \<Rightarrow> u8 list option \<Rightarrow> int \<Rightarrow> u8 list option option" where
  "utils_hmac_sha1 msg msg_len digest key key_len =
     (case (msg, digest, key) of
        (Some m, Some d, Some k) \<Rightarrow>
          if key_len > 64 then Some digest
          else do {
            out \<leftarrow> hmac_sha1_body m msg_len k key_len;
            out \<leftarrow> out;
            d \<leftarrow> hex_out out SHA1_DIGEST_SIZE d;
            Some (Some d)
          }
      | _ \<Rightarrow> Some digest)"

text \<open>\<open>memcpy(digest, out, SHA1_DIGEST_SIZE)\<close>: the bytes, in both of the next two.\<close>

definition copy_out :: "u8 list \<Rightarrow> u8 list \<Rightarrow> u8 list option" where
  "copy_out out d = (if length out \<le> length d then Some (put d 0 out) else None)"

definition utils_hmac_sha1_hex ::
  "u8 list option \<Rightarrow> int \<Rightarrow> u8 list option \<Rightarrow> u8 list option \<Rightarrow> int \<Rightarrow> u8 list option option" where
  "utils_hmac_sha1_hex msg msg_len digest key key_len =
     (case (msg, digest, key) of
        (Some m, Some d, Some k) \<Rightarrow>
          if key_len > 64 then Some digest
          else do {
            out \<leftarrow> hmac_sha1_body m msg_len k key_len;
            out \<leftarrow> out;
            d \<leftarrow> copy_out (take SHA1_DIGEST_SIZE out) d;
            Some (Some d)
          }
      | _ \<Rightarrow> Some digest)"

definition utils_hmac_sha1_raw ::
  "u8 list option \<Rightarrow> int \<Rightarrow> u8 list option \<Rightarrow> u8 list option \<Rightarrow> int \<Rightarrow> u8 list option option" where
  "utils_hmac_sha1_raw msg msg_len digest key key_len =
     (case (msg, digest, key) of
        (Some m, Some d, Some k) \<Rightarrow>
          if key_len > 64 then Some digest
          else do {
            out \<leftarrow> hmac_sha1_body m msg_len k key_len;
            out \<leftarrow> out;
            d \<leftarrow> copy_out (take SHA1_DIGEST_SIZE out) d;
            Some (Some d)
          }
      | _ \<Rightarrow> Some digest)"

text \<open>\<open>buf\<close> and \<open>outlen\<close> are what the stack holds when the function is entered.\<close>

definition utils_hmac_sha1_base64 ::
  "u8 list \<Rightarrow> u32 \<Rightarrow> u8 list option \<Rightarrow> int \<Rightarrow> u8 list option \<Rightarrow> int \<Rightarrow> u8 list option \<Rightarrow> int \<Rightarrow>
     (u8 list option \<times> int) option" where
  "utils_hmac_sha1_base64 buf outlen msg msg_len key key_len digest digest_len =
     do {
       buf \<leftarrow> utils_hmac_sha1_raw msg msg_len (Some buf) key key_len;
       buf \<leftarrow> buf;
       (r, digest, outlen) \<leftarrow> utils_base64encode buf 20 (of_int digest_len) digest outlen;
       Some (digest, sint outlen)
     }"

text \<open>A refused key leaves the caller of \<open>utils_hmac_sha1_raw\<close> with its own array, never written.\<close>

lemma hmac_base64_stale:
  "key_len > 64 \<Longrightarrow> utils_hmac_sha1_base64 buf outlen (Some m) l (Some key) key_len digest digest_len =
     do { (r, digest, outlen) \<leftarrow> utils_base64encode buf 20 (of_int digest_len) digest outlen; Some (digest, sint outlen) }"
  by (simp add: utils_hmac_sha1_base64_def utils_hmac_sha1_raw_def)

subsection \<open>RFC 2104\<close>

definition hmac_spec :: "(u8 list \<Rightarrow> u8 list) \<Rightarrow> u8 list \<Rightarrow> u8 list \<Rightarrow> u8 list" where
  "hmac_spec hash key m =
     (let k = key @ replicate (64 - length key) 0
      in hash (map (\<lambda>b. b XOR 0x5c) k @ hash (map (\<lambda>b. b XOR 0x36) k @ m)))"

text \<open>A byte in hexadecimal, high digit first.\<close>

definition hex_digit :: "nat \<Rightarrow> u8" where
  "hex_digit n = of_char (''0123456789abcdef'' ! n)"

definition hex_of :: "u8 list \<Rightarrow> u8 list" where
  "hex_of bs = concat (map (\<lambda>b. [hex_digit (unat b div 16), hex_digit (unat b mod 16)]) bs)"

lemma hb2hex_digit: "utils_hb2hex b = hex_digit (unat b mod 16)"
proof -
  have m: "b AND 0xF = take_bit 4 b" by (simp add: take_bit_eq_mask mask_eq_exp_minus_1)
  have u: "unat (b AND 0xF) = unat b mod 16" unfolding m by (simp only: unsigned_take_bit_eq) (simp add: take_bit_eq_mod)
  then have e: "b AND 0xF = of_nat (unat b mod 16)" by (metis of_nat_unat ucast_id)
  have "list_all (\<lambda>n. (if (of_nat n :: u8) < 10 then 0x30 + of_nat n else of_nat n - 10 + 0x61) = hex_digit n) [0..<16]"
    by code_simp
  moreover have "unat b mod 16 \<in> set [0..<16]" by simp
  ultimately show ?thesis unfolding utils_hb2hex_def Let_def e list_all_iff by blast
qed

lemma hex_of_bytes: "hex_of bs = concat (map (\<lambda>b. [utils_hb2hex (drop_bit 4 b), utils_hb2hex b]) bs)"
proof -
  have "unat (drop_bit 4 b) mod 16 = unat b div 16" for b :: u8
  proof -
    have "unat (drop_bit 4 b) = unat b div 16" by (simp only: unat_drop_bit_eq) (simp add: drop_bit_eq_div)
    moreover have "unat b < 256" using unsigned_less [of b, where ?'a = nat] by simp
    ultimately show ?thesis by (simp add: less_mult_imp_div_less)
  qed
  then show ?thesis by (simp add: hex_of_def hb2hex_digit)
qed

lemma size_of_nat: "n < 2 ^ 31 \<Longrightarrow> size_of (int n) = n"
  by (simp add: size_of_def unat_of_nat)

lemma key_pad_eq:
  "length key \<le> 64 \<Longrightarrow> key_pad x key (int (length key)) =
     Some (map (\<lambda>b. b XOR x) (key @ replicate (64 - length key) 0))"
  by (simp add: key_pad_def size_of_nat put_def)

context streaming_hash
begin

lemma two_pieces:
  assumes "valid c" "length out = dsize" "length a < 2 ^ 32" "length b < 2 ^ 32"
  shows "\<exists>c'. valid c' \<and> do {
      c \<leftarrow> update (starts (init c)) (Some a) (length a);
      c \<leftarrow> update c (Some b) (length b);
      finish c (Some out)
    } = Some (c', Some (hash (a @ b)))"
proof -
  have "i \<in> set [a, b] \<Longrightarrow> length i < 2 ^ 32" for i using assms(3,4) by auto
  from digest [of c out "[a, b]", OF assms(1,2) this] show ?thesis by (auto simp: wp_Some_iff)
qed

lemma hmac:
  assumes "valid c" "length out = dsize" "dsize < 2 ^ 32" "length m < 2 ^ 31" "length key \<le> 64"
  shows "hmac_body init starts update finish dsize c out m (int (length m)) key (int (length key)) =
    Some (Some (hmac_spec hash key m))"
proof -
  define i where "i = map (\<lambda>b. b XOR 0x36) (key @ replicate (64 - length key) 0)"
  define o' where "o' = map (\<lambda>b. b XOR 0x5c) (key @ replicate (64 - length key) 0)"
  have l: "length i = 64" "length o' = 64" using assms(5) by (simp_all add: i_def o'_def)
  obtain c' where c': "valid c'" "do {
      c \<leftarrow> update (starts (init c)) (Some i) 64; c \<leftarrow> update c (Some m) (length m); finish c (Some out)
    } = Some (c', Some (hash (i @ m)))"
    using two_pieces [OF assms(1,2), of i m] l assms(4) by auto
  obtain c'' where "do {
      c \<leftarrow> update (starts (init c')) (Some o') 64; c \<leftarrow> update c (Some (hash (i @ m))) dsize;
      finish c (Some (hash (i @ m)))
    } = Some (c'', Some (hash (o' @ hash (i @ m))))"
    using two_pieces [OF c'(1), of "hash (i @ m)" o' "hash (i @ m)"] l assms(3) hash_size [of "i @ m"] by auto
  then show ?thesis
    using c'(2) assms(4) unfolding hmac_body_def key_pad_eq [OF assms(5)] i_def [symmetric] o'_def [symmetric]
      hmac_spec_def Let_def
    by (auto simp: bind_eq_Some_conv size_of_nat)
qed

end

lemma hex_out_eq:
  assumes "length out = dsize" "2 * dsize \<le> length d"
  shows "hex_out out dsize d = Some (put d 0 (hex_of out))"
proof -
  have l: "length (hex_of bs) = 2 * length bs" for bs
    by (induction bs) (simp_all add: hex_of_def)
  have "n \<le> dsize \<Longrightarrow> hex_out out n d = Some (put d 0 (hex_of (take n out)))" for n
  proof (induction n)
    case 0
    then show ?case by (simp add: hex_out_def hex_of_def put_def)
  next
    case (Suc n)
    then have "hex_of (take (Suc n) out) = hex_of (take n out) @ [utils_hb2hex (drop_bit 4 (out ! n)), utils_hb2hex (out ! n)]"
      using assms(1) by (simp add: hex_of_bytes take_Suc_conv_app_nth)
    moreover have "length (hex_of (take n out)) = n * 2" using l [of "take n out"] Suc.prems assms(1) by simp
    ultimately show ?case
      using Suc assms l [of "take n out"]
      by (simp add: hex_out_def for_each_append store_byte_put put_put)
  qed
  from this [of dsize] show ?thesis using assms(1) by simp
qed

text \<open>C28: SHA-1 and MD5 in pieces. Whatever the sizes of the pieces a message is given in, each below the
  address space, and also across the wrap of the 32 bit byte counter, \<open>utils_sha1_finish\<close> writes into its
  20 bytes the SHA-1 of FIPS 180-4 and \<open>utils_md5_finish\<close> into its 16 the MD5 of RFC 1321 of the whole
  message, and the one call forms agree on each piece. The standards' constants are not the code's: those of
  SHA-1 are square roots, those of MD5 sines. Renaming registers instead of moving them, the ring of the
  schedule and the shortened boolean functions compute the published compression functions, and no copy
  leaves the buffer of 64 bytes.\<close>

theorem sha1_md5_stream:
  assumes "\<forall>i \<in> set pieces. length i < 2 ^ 32" and "length out = 20" and "length out' = 16"
  shows "(\<exists>c. do {
      c \<leftarrow> for_each pieces (\<lambda>i c. utils_sha1_update c (Some i) (length i)) (utils_sha1_starts (utils_sha1_init junk));
      utils_sha1_finish c (Some out)
    } = Some (c, Some (sha1_hash (concat pieces)))) \<and>
    (\<exists>c. do {
      c \<leftarrow> for_each pieces (\<lambda>i c. utils_md5_update c (Some i) (length i)) (utils_md5_starts (utils_md5_init junk));
      utils_md5_finish c (Some out')
    } = Some (c, Some (md5_hash (concat pieces)))) \<and>
    (\<forall>m \<in> set pieces.
      utils_sha1 (Some m) (length m) (Some out) = Some (Some (sha1_hash m)) \<and>
      utils_md5 (Some m) (length m) (Some out') = Some (Some (md5_hash m)))"
  using sha1.digest [where c = junk and out = out and ps = pieces]
    md5.digest [where c = junk and out = out' and ps = pieces] assms
  by (auto simp: wp_Some_iff utils_sha1_eq utils_md5_eq)

lemma sha1_md5_stream_witness:
  "utils_sha1 (Some [0x61]) 1 (Some (replicate 20 0)) = Some (Some (sha1_hash [0x61])) \<and>
   utils_md5 (Some [0x61]) 1 (Some (replicate 16 0)) = Some (Some (md5_hash [0x61]))"
  using sha1_md5_stream [of "[[0x61], []]" "replicate 20 0" "replicate 16 0" "md_zero 5"] by simp

lemma hmac_sha1_body_eq:
  "length m < 2 ^ 31 \<Longrightarrow> length key \<le> 64 \<Longrightarrow>
     hmac_sha1_body m (int (length m)) key (int (length key)) = Some (Some (hmac_spec sha1_hash key m))"
  unfolding hmac_sha1_body_def by (rule sha1.hmac) simp_all

lemma length_hmac: "length (hmac_spec sha1_hash key m) = 20" "length (hmac_spec md5_hash key m) = 16"
  "length (hmac_spec sha256_hash key m) = 32"
  by (simp_all add: hmac_spec_def Let_def length_sha1_hash length_md5_hash sha256_hash_length)

lemma utils_hmac_sha1_raw_eq:
  assumes "length m < 2 ^ 31" "length key \<le> 64" "20 \<le> length d"
  shows "utils_hmac_sha1_raw (Some m) (int (length m)) (Some d) (Some key) (int (length key)) =
    Some (Some (put d 0 (hmac_spec sha1_hash key m)))"
  using assms by (simp add: utils_hmac_sha1_raw_def hmac_sha1_body_eq copy_out_def length_hmac)

text \<open>C29: The message codes are HMAC. For a key of at most 64 bytes, a message below 2 GB and an output of at
  least 64 bytes (below 2 GB), the functions of \<open>utils_hmac.c\<close> write HMAC (RFC 2104) over MD5, SHA-256 and
  SHA-1: in lower case hexadecimal with two digits a byte, as raw bytes (the raw function, and also the one
  whose name says hexadecimal), and in base64 with its length of 28. A longer key, which RFC 2104 would hash
  first, makes the five others leave the output as it was, and \<open>utils_hmac_sha1_base64\<close> write the base64 of the
  20 bytes its local array happens to hold.\<close>

theorem hmac_codes:
  assumes "length m < 2 ^ 31" "length key \<le> 64" and d: "64 \<le> length d" and "64 < n" and "length buf = 20"
    and "28 \<le> digest_len" "digest_len \<le> int (length d)" "length d < 2 ^ 31"
  defines "l \<equiv> int (length m)" and "k \<equiv> int (length key)"
  shows "utils_hmac_md5 (Some m) l (Some d) (Some key) k = Some (Some (put d 0 (hex_of (hmac_spec md5_hash key m)))) \<and>
    utils_hmac_sha256 (Some m) l (Some d) (Some key) k = Some (Some (put d 0 (hex_of (hmac_spec sha256_hash key m)))) \<and>
    utils_hmac_sha1 (Some m) l (Some d) (Some key) k = Some (Some (put d 0 (hex_of (hmac_spec sha1_hash key m)))) \<and>
    utils_hmac_sha1_hex (Some m) l (Some d) (Some key) k = Some (Some (put d 0 (hmac_spec sha1_hash key m))) \<and>
    utils_hmac_sha1_raw (Some m) l (Some d) (Some key) k = Some (Some (put d 0 (hmac_spec sha1_hash key m))) \<and>
    utils_hmac_sha1_base64 buf outlen (Some m) l (Some key) k (Some d) digest_len =
      Some (Some (put d 0 (base64 (hmac_spec sha1_hash key m))), 28) \<and>
    utils_hmac_md5 (Some m) l (Some d) (Some key) n = Some (Some d) \<and>
    utils_hmac_sha256 (Some m) l (Some d) (Some key) n = Some (Some d) \<and>
    utils_hmac_sha1 (Some m) l (Some d) (Some key) n = Some (Some d) \<and>
    utils_hmac_sha1_hex (Some m) l (Some d) (Some key) n = Some (Some d) \<and>
    utils_hmac_sha1_raw (Some m) l (Some d) (Some key) n = Some (Some d) \<and>
    utils_hmac_sha1_base64 buf outlen (Some m) l (Some key) n (Some d) digest_len = Some (Some (put d 0 (base64 buf)), 28)"
proof -
  have k: "\<not> 64 < k" using assms(2) by (simp add: k_def)
  have 1: "hmac_body utils_md5_init utils_md5_starts utils_md5_update utils_md5_finish 16 (md_zero 4)
      (replicate 16 0) m l key k = Some (Some (hmac_spec md5_hash key m))"
    unfolding l_def k_def by (rule md5.hmac) (use assms(1,2) in simp_all)
  have 2: "hmac_body utils_sha256_init utils_sha256_starts utils_sha256_update utils_sha256_finish 32 (Some sha256_zero)
      (replicate 32 0) m l key k = Some (Some (hmac_spec sha256_hash key m))"
    unfolding l_def k_def by (rule sha256.hmac) (use assms(1,2) in simp_all)
  have 3: "hmac_sha1_body m l key k = Some (Some (hmac_spec sha1_hash key m))"
    unfolding l_def k_def by (rule hmac_sha1_body_eq) (use assms(1,2) in simp_all)
  have 4: "utils_hmac_sha1_raw (Some m) l (Some buf) (Some key) k = Some (Some (hmac_spec sha1_hash key m))"
    unfolding l_def k_def using utils_hmac_sha1_raw_eq [OF assms(1,2), of buf] assms(5)
    by (simp add: put_all length_hmac)
  have "int (length d) < 2147483648" using assms(8) by simp
  then have "unat (of_int digest_len :: u32) = nat digest_len"
    using assms(6,7) by (simp add: unsigned_of_int take_bit_int_eq_self)
  then have 5: "utils_base64encode h 20 (of_int digest_len) (Some d) outlen = Some (0, Some (put d 0 (base64 h)), 28)"
    if "length h = 20" for h
    using base64_encode_eq [of h d "of_int digest_len" outlen] that d assms(6) by (simp add: length_base64 length_unpadded)
  show ?thesis
    using d k assms(2,4) 1 2 3 4 5 [OF length_hmac(1)] 5 [OF assms(5)] utils_hmac_sha1_raw_eq [OF assms(1,2), of d]
    unfolding l_def [symmetric] k_def [symmetric]
    by (simp add: utils_hmac_md5_def utils_hmac_sha256_def utils_hmac_sha1_def utils_hmac_sha1_hex_def
        utils_hmac_sha1_base64_def hmac_base64_stale hex_out_eq length_hmac copy_out_def)
       (simp add: utils_hmac_sha1_raw_def)?
qed

lemma hmac_codes_witness:
  "utils_hmac_sha256 (Some [1, 2]) 2 (Some (replicate 64 0)) (Some [3]) 1 =
     Some (Some (put (replicate 64 0) 0 (hex_of (hmac_spec sha256_hash [3] [1, 2]))))"
  using hmac_codes [of "[1, 2]" "[3]" "replicate 64 0" 65 "replicate 20 0" 28] by simp

end
