(* ===== verification/HfProtocol.thy ===== *)
theory HfProtocol
  imports Digest
begin

text \<open>
  \<open>HFService/custom_util.c\<close> and \<open>protocol.c\<close>: the appliance protocol between the serial line and the
  cloud. Memory is a byte list, undefined to access outside. The four key structures are compared
  and copied as raw memory, so they are their bytes, laid out as the ARM compiler does: a \<open>uint16\<close>
  at an even offset, low byte first.
\<close>

definition peek :: "u8 list \<Rightarrow> nat \<Rightarrow> u8 option" where
  "peek b i = (if i < length b then Some (b ! i) else None)"

definition poke :: "nat \<Rightarrow> u8 \<Rightarrow> u8 list \<Rightarrow> u8 list option" where
  "poke i v b = (if i < length b then Some (b[i := v]) else None)"

subsection \<open>\<open>custom_util.c\<close>\<close>

definition IS_BIGENDIAN :: nat where "IS_BIGENDIAN = 1"

definition getBits :: "u8 list \<Rightarrow> nat \<Rightarrow> u8 \<Rightarrow> nat \<Rightarrow> u8 option" where
  "getBits data pos bitmask shift = do { ret \<leftarrow> peek data pos; Some (drop_bit shift (ret AND bitmask)) }"

definition putBits :: "nat \<Rightarrow> u8 \<Rightarrow> u8 \<Rightarrow> nat \<Rightarrow> u8 list \<Rightarrow> u8 list option" where
  "putBits i val bitmask shift b =
     do { old \<leftarrow> peek b i; poke i (old OR (push_bit shift val AND bitmask)) b }"

definition getByte :: "u8 list \<Rightarrow> nat \<Rightarrow> u8 option" where
  "getByte data pos = peek data pos"

definition putByte :: "nat \<Rightarrow> u8 \<Rightarrow> u8 list \<Rightarrow> u8 list option" where
  "putByte i val b = poke i val b"

definition getWord :: "u8 list \<Rightarrow> nat \<Rightarrow> u16 option" where
  "getWord data pos =
     (if IS_BIGENDIAN = 1 then do {
        dat1 \<leftarrow> peek data pos;
        dat2 \<leftarrow> peek data (pos + 1);
        Some (push_bit 8 (ucast dat2) + ucast dat1)
      }
      else do {
        dat1 \<leftarrow> peek data (pos + 1);
        dat2 \<leftarrow> peek data pos;
        Some (push_bit 8 (ucast dat2) + ucast dat1)
      })"

definition putWord :: "nat \<Rightarrow> u16 \<Rightarrow> u8 list \<Rightarrow> u8 list option" where
  "putWord i val b =
     (let dat2 = ucast (val AND 0xff); dat1 = ucast (drop_bit 8 (val AND 0xff00)) in
      if IS_BIGENDIAN = 1 then do { b \<leftarrow> poke i dat1 b; poke (i + 1) dat2 b }
      else do { b \<leftarrow> poke i dat2 b; poke (i + 1) dat1 b })"

definition getInt :: "u8 list \<Rightarrow> nat \<Rightarrow> u32 option" where
  "getInt data pos =
     (let ad = (\<lambda>k. if IS_BIGENDIAN = 1 then pos + k else pos + (3 - k)) in do {
        dat1 \<leftarrow> peek data (ad 0);
        dat2 \<leftarrow> peek data (ad 1);
        dat3 \<leftarrow> peek data (ad 2);
        dat4 \<leftarrow> peek data (ad 3);
        Some (push_bit 24 (ucast dat4) + push_bit 16 (ucast dat3) + push_bit 8 (ucast dat2) + ucast dat1)
      })"

definition putInt :: "nat \<Rightarrow> u32 \<Rightarrow> u8 list \<Rightarrow> u8 list option" where
  "putInt i val b =
     (let ad = (\<lambda>k. if IS_BIGENDIAN = 1 then i + k else i + (3 - k)) in do {
        b \<leftarrow> poke (ad 0) (ucast (val AND 0xff)) b;
        b \<leftarrow> poke (ad 1) (ucast (drop_bit 8 (val AND 0xff00))) b;
        b \<leftarrow> poke (ad 2) (ucast (drop_bit 16 (val AND 0xff0000))) b;
        poke (ad 3) (ucast (drop_bit 24 (val AND 0xff000000))) b
      })"

definition outMaxLen :: "nat \<Rightarrow> nat \<Rightarrow> nat \<Rightarrow> nat" where
  "outMaxLen pos len ol = (let l = pos + len in if ol > l then ol else l)"

subsection \<open>The state\<close>

text \<open>The offsets of the members of \<open>StrUpKeys\<close> and of \<open>StrDownKeys\<close>.\<close>

datatype up_field =
    UP_POWER | UP_CHILD_SAFETY_LOCK | UP_UV_LIGHT | UP_NEGATIVE_ION | UP_LED_LIGHT | UP_BEEP
  | UP_RESET_FILTER_MESH | UP_FILTER_WARN | UP_MODE | UP_LEFT_TIMER_OFF | UP_FANSPEED | UP_PM25
  | UP_VOC | UP_CO2 | UP_FILTER_MESH_HOURS | UP_ERRORCODE

fun up_offset :: "up_field \<Rightarrow> nat" where
  "up_offset UP_POWER = 0"
| "up_offset UP_CHILD_SAFETY_LOCK = 1"
| "up_offset UP_UV_LIGHT = 2"
| "up_offset UP_NEGATIVE_ION = 3"
| "up_offset UP_LED_LIGHT = 4"
| "up_offset UP_BEEP = 5"
| "up_offset UP_RESET_FILTER_MESH = 6"
| "up_offset UP_FILTER_WARN = 7"
| "up_offset UP_MODE = 8"
| "up_offset UP_LEFT_TIMER_OFF = 10"
| "up_offset UP_FANSPEED = 12"
| "up_offset UP_PM25 = 14"
| "up_offset UP_VOC = 16"
| "up_offset UP_CO2 = 18"
| "up_offset UP_FILTER_MESH_HOURS = 20"
| "up_offset UP_ERRORCODE = 22"

definition sizeof_StrUpKeys :: nat where "sizeof_StrUpKeys = 24"

datatype down_field =
    DN_POWER | DN_CHILD_SAFETY_LOCK | DN_UV_LIGHT | DN_NEGATIVE_ION | DN_LED_LIGHT | DN_BEEP
  | DN_RESET_FILTER_MESH | DN_MODE | DN_TIMER_OFF | DN_FANSPEED

fun down_offset :: "down_field \<Rightarrow> nat" where
  "down_offset DN_POWER = 0"
| "down_offset DN_CHILD_SAFETY_LOCK = 1"
| "down_offset DN_UV_LIGHT = 2"
| "down_offset DN_NEGATIVE_ION = 3"
| "down_offset DN_LED_LIGHT = 4"
| "down_offset DN_BEEP = 5"
| "down_offset DN_RESET_FILTER_MESH = 6"
| "down_offset DN_MODE = 7"
| "down_offset DN_TIMER_OFF = 8"
| "down_offset DN_FANSPEED = 10"

definition sizeof_StrDownKeys :: nat where "sizeof_StrDownKeys = 12"

record hf =
  dataOut :: "u8 list option"
  dataOut_size :: nat
  outLen :: nat
  device_updated :: int
  strUpKeysNow :: "u8 list"
  strUpKeysDirty :: "u8 list"
  strDownKeysNow :: "u8 list"
  strDownKeysDirty :: "u8 list"

text \<open>Members in memory.\<close>

definition get8 :: "u8 list \<Rightarrow> nat \<Rightarrow> u8" where "get8 st i = st ! i"
definition set8 :: "u8 list \<Rightarrow> nat \<Rightarrow> u8 \<Rightarrow> u8 list" where "set8 st i v = st[i := v]"

definition get16 :: "u8 list \<Rightarrow> nat \<Rightarrow> u16" where
  "get16 st i = push_bit 8 (ucast (st ! (i + 1))) OR ucast (st ! i)"

definition set16 :: "u8 list \<Rightarrow> nat \<Rightarrow> u16 \<Rightarrow> u8 list" where
  "set16 st i v = st[i := ucast v, i + 1 := ucast (drop_bit 8 v)]"

text \<open>A write through \<open>dataOut\<close>.\<close>

definition out :: "(u8 list \<Rightarrow> u8 list option) \<Rightarrow> hf \<Rightarrow> hf option" where
  "out f s = do { b \<leftarrow> dataOut s; b \<leftarrow> f b; Some (s\<lparr>dataOut := Some b\<rparr>) }"

text \<open>\<open>memset(dataOut, 0, dataOut_size); outLen = 0\<close>.\<close>

definition clear_out :: "hf \<Rightarrow> hf option" where
  "clear_out s =
     do {
       b \<leftarrow> dataOut s;
       if dataOut_size s \<le> length b
       then Some (s\<lparr>dataOut := Some (put b 0 (replicate (dataOut_size s) 0)), outLen := 0\<rparr>)
       else None
     }"

definition structUpSynch :: "hf \<Rightarrow> hf" where
  "structUpSynch s =
     (let size = (if sizeof_StrUpKeys > sizeof_StrDownKeys then sizeof_StrDownKeys else sizeof_StrUpKeys)
      in s\<lparr>strDownKeysNow := put (strDownKeysNow s) 0 (take size (strUpKeysNow s))\<rparr>)"

subsection \<open>Upstream\<close>

definition key_tag :: "u8 \<Rightarrow> u8 \<Rightarrow> hf \<Rightarrow> hf option" where
  "key_tag n len s =
     do {
       s \<leftarrow> out (poke (outLen s) n) s;
       let s = s\<lparr>outLen := outLen s + 1\<rparr>;
       s \<leftarrow> out (poke (outLen s) len) s;
       Some (s\<lparr>outLen := outLen s + 1\<rparr>)
     }"

text \<open>The body of the sixteen \<open>up_key\<close> functions, a byte or a word of the structure.\<close>

definition up_key8 :: "u8 \<Rightarrow> up_field \<Rightarrow> (u8 list \<Rightarrow> u8 option) \<Rightarrow> u8 list option \<Rightarrow> hf \<Rightarrow> hf option" where
  "up_key8 n f get data s =
     do {
       s \<leftarrow> key_tag n 1 s;
       s \<leftarrow> (case data of
               None \<Rightarrow> Some s
             | Some d \<Rightarrow> do { v \<leftarrow> get d; Some (s\<lparr>strUpKeysDirty := set8 (strUpKeysDirty s) (up_offset f) v\<rparr>) });
       s \<leftarrow> out (putByte (outLen s) (get8 (strUpKeysDirty s) (up_offset f))) s;
       Some (s\<lparr>outLen := outLen s + 1\<rparr>)
     }"

definition up_key16 :: "u8 \<Rightarrow> up_field \<Rightarrow> nat \<Rightarrow> u8 list option \<Rightarrow> hf \<Rightarrow> hf option" where
  "up_key16 n f pos data s =
     do {
       s \<leftarrow> key_tag n 2 s;
       s \<leftarrow> (case data of
               None \<Rightarrow> Some s
             | Some d \<Rightarrow> do { v \<leftarrow> getWord d pos; Some (s\<lparr>strUpKeysDirty := set16 (strUpKeysDirty s) (up_offset f) v\<rparr>) });
       s \<leftarrow> out (putWord (outLen s) (get16 (strUpKeysDirty s) (up_offset f))) s;
       Some (s\<lparr>outLen := outLen s + 2\<rparr>)
     }"

definition up_key_SN_POWER :: "u8 list option \<Rightarrow> nat \<Rightarrow> hf \<Rightarrow> hf option" where
  "up_key_SN_POWER data pos = up_key8 1 UP_POWER (\<lambda>d. getBits d pos 0x1 0) data"

definition up_key_SN_CHILD_SAFETY_LOCK :: "u8 list option \<Rightarrow> nat \<Rightarrow> hf \<Rightarrow> hf option" where
  "up_key_SN_CHILD_SAFETY_LOCK data pos = up_key8 2 UP_CHILD_SAFETY_LOCK (\<lambda>d. getBits d pos 0x2 1) data"

definition up_key_UV_LIGHT :: "u8 list option \<Rightarrow> nat \<Rightarrow> hf \<Rightarrow> hf option" where
  "up_key_UV_LIGHT data pos = up_key8 3 UP_UV_LIGHT (\<lambda>d. getBits d pos 0x4 2) data"

definition up_key_SN_NEGATIVE_ION :: "u8 list option \<Rightarrow> nat \<Rightarrow> hf \<Rightarrow> hf option" where
  "up_key_SN_NEGATIVE_ION data pos = up_key8 4 UP_NEGATIVE_ION (\<lambda>d. getBits d pos 0x8 3) data"

definition up_key_SN_LED_LIGHT :: "u8 list option \<Rightarrow> nat \<Rightarrow> hf \<Rightarrow> hf option" where
  "up_key_SN_LED_LIGHT data pos = up_key8 5 UP_LED_LIGHT (\<lambda>d. getBits d pos 0x10 4) data"

definition up_key_BEEP :: "u8 list option \<Rightarrow> nat \<Rightarrow> hf \<Rightarrow> hf option" where
  "up_key_BEEP data pos = up_key8 6 UP_BEEP (\<lambda>d. getBits d pos 0x20 5) data"

definition up_key_SN_RESET_FILTER_MESH :: "u8 list option \<Rightarrow> nat \<Rightarrow> hf \<Rightarrow> hf option" where
  "up_key_SN_RESET_FILTER_MESH data pos = up_key8 7 UP_RESET_FILTER_MESH (\<lambda>d. getBits d pos 0x40 6) data"

definition up_key_FILTER_WARN :: "u8 list option \<Rightarrow> nat \<Rightarrow> hf \<Rightarrow> hf option" where
  "up_key_FILTER_WARN data pos = up_key8 8 UP_FILTER_WARN (\<lambda>d. getBits d pos 0x80 7) data"

definition up_key_SN_MODE :: "u8 list option \<Rightarrow> nat \<Rightarrow> hf \<Rightarrow> hf option" where
  "up_key_SN_MODE data pos = up_key8 9 UP_MODE (\<lambda>d. getByte d pos) data"

definition up_key_LEFT_TIMER_OFF :: "u8 list option \<Rightarrow> nat \<Rightarrow> hf \<Rightarrow> hf option" where
  "up_key_LEFT_TIMER_OFF data pos = up_key16 10 UP_LEFT_TIMER_OFF pos data"

definition up_key_SN_FANSPEED :: "u8 list option \<Rightarrow> nat \<Rightarrow> hf \<Rightarrow> hf option" where
  "up_key_SN_FANSPEED data pos = up_key8 11 UP_FANSPEED (\<lambda>d. getByte d pos) data"

definition up_key_SN_PM25 :: "u8 list option \<Rightarrow> nat \<Rightarrow> hf \<Rightarrow> hf option" where
  "up_key_SN_PM25 data pos = up_key16 12 UP_PM25 pos data"

definition up_key_SN_VOC :: "u8 list option \<Rightarrow> nat \<Rightarrow> hf \<Rightarrow> hf option" where
  "up_key_SN_VOC data pos = up_key16 13 UP_VOC pos data"

definition up_key_SN_CO2 :: "u8 list option \<Rightarrow> nat \<Rightarrow> hf \<Rightarrow> hf option" where
  "up_key_SN_CO2 data pos = up_key16 14 UP_CO2 pos data"

definition up_key_SN_FILTER_MESH_HOURS :: "u8 list option \<Rightarrow> nat \<Rightarrow> hf \<Rightarrow> hf option" where
  "up_key_SN_FILTER_MESH_HOURS data pos = up_key16 15 UP_FILTER_MESH_HOURS pos data"

definition up_key_ERRORCODE :: "u8 list option \<Rightarrow> nat \<Rightarrow> hf \<Rightarrow> hf option" where
  "up_key_ERRORCODE data pos = up_key8 16 UP_ERRORCODE (\<lambda>d. getByte d pos) data"

definition up_fun_up :: "u8 list option \<Rightarrow> hf \<Rightarrow> hf option" where
  "up_fun_up data s =
     do {
       s \<leftarrow> (if data \<noteq> None then do {
               let s = s\<lparr>strUpKeysDirty := replicate sizeof_StrUpKeys 0\<rparr>;
               s \<leftarrow> up_key_SN_POWER data 6 s;
               s \<leftarrow> up_key_SN_CHILD_SAFETY_LOCK data 6 s;
               s \<leftarrow> up_key_UV_LIGHT data 6 s;
               s \<leftarrow> up_key_SN_NEGATIVE_ION data 6 s;
               s \<leftarrow> up_key_SN_LED_LIGHT data 6 s;
               s \<leftarrow> up_key_BEEP data 6 s;
               s \<leftarrow> up_key_SN_RESET_FILTER_MESH data 6 s;
               s \<leftarrow> up_key_FILTER_WARN data 6 s;
               s \<leftarrow> up_key_SN_MODE data 7 s;
               s \<leftarrow> up_key_LEFT_TIMER_OFF data 8 s;
               s \<leftarrow> up_key_SN_FANSPEED data 10 s;
               s \<leftarrow> up_key_SN_PM25 data 11 s;
               s \<leftarrow> up_key_SN_VOC data 13 s;
               s \<leftarrow> up_key_SN_CO2 data 15 s;
               up_key_SN_FILTER_MESH_HOURS data 17 s
             }
             else up_key_ERRORCODE data 19 s);
       Some (if strUpKeysNow s = strUpKeysDirty s then s\<lparr>device_updated := 0\<rparr>
             else structUpSynch (s\<lparr>strUpKeysNow := strUpKeysDirty s, device_updated := 1\<rparr>))
     }"

definition upstream :: "u8 list \<Rightarrow> hf \<Rightarrow> hf option" where
  "upstream data s =
     do {
       s \<leftarrow> clear_out s;
       funCode0 \<leftarrow> peek data 0;
       if funCode0 = 0xAA then up_fun_up (Some data) s else Some s
     }"

subsection \<open>Downstream\<close>

definition max_len :: "nat \<Rightarrow> nat \<Rightarrow> hf \<Rightarrow> hf" where
  "max_len pos len s = s\<lparr>outLen := outMaxLen pos len (outLen s)\<rparr>"

definition dn_bits :: "down_field \<Rightarrow> u8 \<Rightarrow> nat \<Rightarrow> hf \<Rightarrow> hf option" where
  "dn_bits f bitmask shift s =
     do { s \<leftarrow> out (putBits 6 (get8 (strDownKeysDirty s) (down_offset f)) bitmask shift) s; Some (max_len 6 1 s) }"

definition dn_key_SN_POWER :: "hf \<Rightarrow> hf option" where
  "dn_key_SN_POWER s =
     do {
       s \<leftarrow> dn_bits DN_POWER 0x1 0 s;
       s \<leftarrow> out (putByte 0 0xAA) s;
       Some (max_len 0 1 s)
     }"

definition dn_key_SN_CHILD_SAFETY_LOCK :: "hf \<Rightarrow> hf option" where
  "dn_key_SN_CHILD_SAFETY_LOCK = dn_bits DN_CHILD_SAFETY_LOCK 0x2 1"

definition dn_key_UV_LIGHT :: "hf \<Rightarrow> hf option" where
  "dn_key_UV_LIGHT = dn_bits DN_UV_LIGHT 0x4 2"

definition dn_key_SN_NEGATIVE_ION :: "hf \<Rightarrow> hf option" where
  "dn_key_SN_NEGATIVE_ION = dn_bits DN_NEGATIVE_ION 0x8 3"

definition dn_key_SN_LED_LIGHT :: "hf \<Rightarrow> hf option" where
  "dn_key_SN_LED_LIGHT = dn_bits DN_LED_LIGHT 0x10 4"

definition dn_key_BEEP :: "hf \<Rightarrow> hf option" where
  "dn_key_BEEP = dn_bits DN_BEEP 0x20 5"

definition dn_key_SN_RESET_FILTER_MESH :: "hf \<Rightarrow> hf option" where
  "dn_key_SN_RESET_FILTER_MESH = dn_bits DN_RESET_FILTER_MESH 0x40 6"

definition dn_key_SN_MODE :: "hf \<Rightarrow> hf option" where
  "dn_key_SN_MODE s =
     do { s \<leftarrow> out (putByte 7 (get8 (strDownKeysDirty s) (down_offset DN_MODE))) s; Some (max_len 7 1 s) }"

definition dn_key_TIMER_OFF :: "hf \<Rightarrow> hf option" where
  "dn_key_TIMER_OFF s =
     do { s \<leftarrow> out (putWord 8 (get16 (strDownKeysDirty s) (down_offset DN_TIMER_OFF))) s; Some (max_len 8 2 s) }"

definition dn_key_SN_FANSPEED :: "hf \<Rightarrow> hf option" where
  "dn_key_SN_FANSPEED s =
     do { s \<leftarrow> out (putByte 10 (get8 (strDownKeysDirty s) (down_offset DN_FANSPEED))) s; Some (max_len 10 1 s) }"

text \<open>\<open>getFeild\<close>: the field at a position, and the next position; \<open>None\<close> inside is its return 0.\<close>

definition getFeild :: "u8 list \<Rightarrow> nat \<Rightarrow> ((nat \<times> nat) \<times> nat) option option" where
  "getFeild data pos =
     do {
       idx \<leftarrow> peek data pos;
       len \<leftarrow> peek data (pos + 1);
       Some (if len = 0 \<or> idx = 0 then None else Some ((unat idx, pos + 2), pos + 2 + unat len))
     }"

definition set_field :: "u8 list \<Rightarrow> nat \<Rightarrow> nat \<Rightarrow> u8 list \<Rightarrow> u8 list option" where
  "set_field data idx pVal st =
     (let byte = (\<lambda>f. do { v \<leftarrow> getByte data pVal; Some (set8 st (down_offset f) v) });
          word = (\<lambda>f. do { v \<leftarrow> getWord data pVal; Some (set16 st (down_offset f) v) }) in
      if idx = 1 then byte DN_POWER
      else if idx = 2 then byte DN_CHILD_SAFETY_LOCK
      else if idx = 3 then byte DN_UV_LIGHT
      else if idx = 4 then byte DN_NEGATIVE_ION
      else if idx = 5 then byte DN_LED_LIGHT
      else if idx = 6 then byte DN_BEEP
      else if idx = 7 then byte DN_RESET_FILTER_MESH
      else if idx = 8 then byte DN_MODE
      else if idx = 9 then word DN_TIMER_OFF
      else if idx = 10 then byte DN_FANSPEED
      else Some st)"

lemma getFeild_next: "getFeild data pos = Some (Some ((i, v), p)) \<Longrightarrow> pos < p \<and> pos < length data"
  by (auto simp: getFeild_def peek_def bind_eq_Some_conv split: if_splits)

function setStruct :: "u8 list \<Rightarrow> nat \<Rightarrow> u8 list \<Rightarrow> u8 list option" where
  "setStruct data pos st =
     (case getFeild data pos of
        None \<Rightarrow> None
      | Some None \<Rightarrow> Some st
      | Some (Some ((idx, pVal), pos')) \<Rightarrow>
          (case set_field data idx pVal st of
             None \<Rightarrow> None
           | Some st \<Rightarrow> setStruct data pos' st))"
  by auto
termination
  by (relation "measure (\<lambda>(data, pos, st). length data - pos)") (auto dest!: getFeild_next)

declare setStruct.simps [simp del]

definition act_SET :: "u8 list \<Rightarrow> hf \<Rightarrow> hf option" where
  "act_SET data s =
     do {
       let s = s\<lparr>strDownKeysDirty := strDownKeysNow s\<rparr>;
       st \<leftarrow> setStruct data 0 (strDownKeysDirty s);
       let s = s\<lparr>strDownKeysDirty := st\<rparr>;
       s \<leftarrow> dn_key_SN_POWER s;
       s \<leftarrow> dn_key_SN_CHILD_SAFETY_LOCK s;
       s \<leftarrow> dn_key_UV_LIGHT s;
       s \<leftarrow> dn_key_SN_NEGATIVE_ION s;
       s \<leftarrow> dn_key_SN_LED_LIGHT s;
       s \<leftarrow> dn_key_BEEP s;
       s \<leftarrow> dn_key_SN_RESET_FILTER_MESH s;
       s \<leftarrow> dn_key_SN_MODE s;
       s \<leftarrow> dn_key_TIMER_OFF s;
       dn_key_SN_FANSPEED s
     }"

definition downstream :: "u8 list \<Rightarrow> hf \<Rightarrow> hf option" where
  "downstream data s = do { s \<leftarrow> clear_out s; act_SET data s }"

definition autoResponse :: "hf \<Rightarrow> hf option" where
  "autoResponse s =
     do {
       s \<leftarrow> clear_out s;
       Some (s\<lparr>strUpKeysDirty := put (strUpKeysDirty s) 0 (take sizeof_StrDownKeys (strDownKeysDirty s))\<rparr>)
     }"

definition setHeap :: "u8 list \<Rightarrow> nat \<Rightarrow> hf \<Rightarrow> hf" where
  "setHeap heap n s = s\<lparr>dataOut := Some heap, dataOut_size := n\<rparr>"

definition setConfirmed :: "hf \<Rightarrow> hf" where "setConfirmed s = s"

subsection \<open>What a report becomes\<close>

definition flag :: "u8 \<Rightarrow> nat \<Rightarrow> u8" where "flag b k = of_bool (bit b k)"

definition report_tlv :: "u8 list \<Rightarrow> u8 list" where
  "report_tlv d =
     [1, 1, flag (d ! 6) 0, 2, 1, flag (d ! 6) 1, 3, 1, flag (d ! 6) 2, 4, 1, flag (d ! 6) 3,
      5, 1, flag (d ! 6) 4, 6, 1, flag (d ! 6) 5, 7, 1, flag (d ! 6) 6, 8, 1, flag (d ! 6) 7,
      9, 1, d ! 7, 10, 2, d ! 9, d ! 8, 11, 1, d ! 10, 12, 2, d ! 12, d ! 11, 13, 2, d ! 14, d ! 13,
      14, 2, d ! 16, d ! 15, 15, 2, d ! 18, d ! 17]"

definition up_image :: "u8 list \<Rightarrow> u8 list" where
  "up_image d =
     map (flag (d ! 6)) [0..<8] @
       [d ! 7, 0, d ! 8, d ! 9, d ! 10, 0, d ! 11, d ! 12, d ! 13, d ! 14, d ! 15, d ! 16, d ! 17, d ! 18, 0, 0]"

lemma getBits_flag:
  "k < 8 \<Longrightarrow> pos < length d \<Longrightarrow> bitmask = push_bit k 1 \<Longrightarrow> getBits d pos bitmask k = Some (flag (d ! pos) k)"
proof -
  assume a: "k < 8" "pos < length d" "bitmask = push_bit k 1"
  have "drop_bit k (d ! pos AND push_bit k 1) = (of_bool (bit (d ! pos) k) :: u8)"
    using a(1) by (auto intro!: bit_word_eqI simp: bit_simps)
  then show ?thesis using a by (simp add: getBits_def peek_def flag_def)
qed

lemma word_bytes:
  fixes hi lo :: u8
  defines "w \<equiv> push_bit 8 (ucast hi) + ucast lo :: u16"
  shows "w = push_bit 8 (ucast hi) OR ucast lo" "ucast w = lo" "ucast (drop_bit 8 w) = hi"
    "ucast (w AND 0xff) = lo" "ucast (drop_bit 8 (w AND 0xff00)) = hi"
    "ucast (drop_bit 8 w AND 0xff) = hi"
proof -
  have m: "(0xff :: u16) = mask 8" "(0xff00 :: u16) = push_bit 8 (mask 8)"
    by (simp_all add: mask_eq_exp_minus_1 push_bit_eq_mult)
  show w: "w = push_bit 8 (ucast hi) OR ucast lo"
    unfolding w_def by (rule disjunctive_add_eq_or, rule bit_word_eqI) (auto simp: bit_simps)
  show "ucast w = lo" "ucast (drop_bit 8 w) = hi" "ucast (w AND 0xff) = lo" "ucast (drop_bit 8 (w AND 0xff00)) = hi"
    "ucast (drop_bit 8 w AND 0xff) = hi"
    unfolding w m by (rule bit_word_eqI, auto simp: bit_simps)+
qed

lemma poke_put: "i < length b \<Longrightarrow> poke i v b = Some (put b i [v])"
  by (simp add: poke_def put_one)

text \<open>The state while a report is written: the bytes so far, and the structure.\<close>

definition writing :: "u8 list \<Rightarrow> u8 list \<Rightarrow> u8 list \<Rightarrow> hf \<Rightarrow> hf" where
  "writing z bs k s = s\<lparr>dataOut := Some (put z 0 bs), outLen := length bs, strUpKeysDirty := k\<rparr>"

lemma key_tag_writing:
  "length bs + 2 \<le> length z \<Longrightarrow> key_tag n len (writing z bs k s) = Some (writing z (bs @ [n, len]) k s)"
  by (simp add: key_tag_def writing_def out_def poke_put put_put)

lemma up_key8_writing:
  "length bs + 3 \<le> length z \<Longrightarrow> get d = Some v \<Longrightarrow> up_offset f < length k \<Longrightarrow>
     up_key8 n f get (Some d) (writing z bs k s) = Some (writing z (bs @ [n, 1, v]) (k[up_offset f := v]) s)"
  by (simp add: up_key8_def key_tag_writing)
    (simp add: writing_def out_def putByte_def poke_put put_put get8_def set8_def)

lemma up_key16_writing:
  "length bs + 4 \<le> length z \<Longrightarrow> pos + 1 < length d \<Longrightarrow> up_offset f + 1 < length k \<Longrightarrow>
     up_key16 n f pos (Some d) (writing z bs k s) =
       Some (writing z (bs @ [n, 2, d ! (pos + 1), d ! pos]) (k[up_offset f := d ! pos, up_offset f + 1 := d ! (pos + 1)]) s)"
  by (simp add: up_key16_def key_tag_writing getWord_def peek_def IS_BIGENDIAN_def)
    (simp add: writing_def out_def putWord_def IS_BIGENDIAN_def poke_put put_put get16_def set16_def word_bytes
      flip: word_bytes(1))

lemmas up_key_defs = up_key_SN_POWER_def up_key_SN_CHILD_SAFETY_LOCK_def up_key_UV_LIGHT_def
  up_key_SN_NEGATIVE_ION_def up_key_SN_LED_LIGHT_def up_key_BEEP_def up_key_SN_RESET_FILTER_MESH_def
  up_key_FILTER_WARN_def up_key_SN_MODE_def up_key_LEFT_TIMER_OFF_def up_key_SN_FANSPEED_def
  up_key_SN_PM25_def up_key_SN_VOC_def up_key_SN_CO2_def up_key_SN_FILTER_MESH_HOURS_def

definition reported :: "u8 list \<Rightarrow> hf \<Rightarrow> hf" where
  "reported d s =
     (if strUpKeysNow s = strUpKeysDirty s then s\<lparr>device_updated := 0\<rparr>
      else structUpSynch (s\<lparr>strUpKeysNow := strUpKeysDirty s, device_updated := 1\<rparr>))"

lemma up_fun_up_eq:
  assumes "19 \<le> length d" "50 \<le> length z"
  shows "up_fun_up (Some d) (writing z [] k s) = Some (reported d (writing z (report_tlv d) (up_image d) s))"
proof -
  have w: "(writing z [] k s)\<lparr>strUpKeysDirty := k'\<rparr> = writing z [] k' s" for k' by (simp add: writing_def)
  have i: "up_image d = [flag (d ! 6) 0, flag (d ! 6) 1, flag (d ! 6) 2, flag (d ! 6) 3, flag (d ! 6) 4, flag (d ! 6) 5,
    flag (d ! 6) 6, flag (d ! 6) 7, d ! 7, 0, d ! 8, d ! 9, d ! 10, 0, d ! 11, d ! 12, d ! 13, d ! 14, d ! 15, d ! 16,
    d ! 17, d ! 18, 0, 0]" by (simp add: up_image_def upt_rec eval_nat_numeral)
  have z: "replicate sizeof_StrUpKeys 0 = [0,0,0,0,0,0,0,0,0,0,0,0,0,0,0,0,0,0,0,0,0,0,0,0 :: u8]"
    by (simp add: sizeof_StrUpKeys_def eval_nat_numeral)
  show ?thesis
    unfolding up_fun_up_def w z i report_tlv_def up_key_defs
    using assms by (simp add: w up_key8_writing up_key16_writing getBits_flag getByte_def peek_def reported_def)
qed

lemma upstream_eq:
  assumes "dataOut s = Some b" "dataOut_size s \<le> length b" "50 \<le> dataOut_size s" "19 \<le> length d" "d ! 0 = 0xAA"
  shows "upstream d s =
    Some (reported d (writing (put b 0 (replicate (dataOut_size s) 0)) (report_tlv d) (up_image d) s))"
proof -
  let ?z = "put b 0 (replicate (dataOut_size s) 0)"
  have z: "50 \<le> length ?z" using assms(2,3) by simp
  have c: "clear_out s = Some (writing ?z [] (strUpKeysDirty s) s)"
    using assms(1,2) by (simp add: clear_out_def writing_def put_put) (simp add: put_def)
  show ?thesis
    using assms(4,5) up_fun_up_eq [OF assms(4) z] by (auto simp: upstream_def c peek_def)
qed

subsection \<open>What a command becomes\<close>

text \<open>A field of a command: its number and its bytes. Numbers above ten are skipped.\<close>

definition command_bytes :: "(u8 \<times> u8 list) list \<Rightarrow> u8 list" where
  "command_bytes fs = concat (map (\<lambda>(i, v). i # of_nat (length v) # v) fs)"

definition field_ok :: "u8 \<times> u8 list \<Rightarrow> bool" where
  "field_ok f \<longleftrightarrow> fst f \<noteq> 0 \<and> 0 < length (snd f) \<and> length (snd f) < 256 \<and> (fst f = 9 \<longrightarrow> 2 \<le> length (snd f))"

definition apply_field :: "u8 \<times> u8 list \<Rightarrow> u8 list \<Rightarrow> u8 list" where
  "apply_field f st =
     (let (i, v) = f; n = unat i in
      if n \<le> 8 then st[n - 1 := v ! 0]
      else if n = 9 then st[8 := v ! 0, 9 := v ! 1]
      else if n = 10 then st[10 := v ! 0]
      else st)"

lemma setStruct_eq:
  "list_all field_ok fs \<Longrightarrow>
     setStruct (pre @ command_bytes fs @ 0 # x # r) (length pre) st = Some (fold apply_field fs st)"
proof (induction fs arbitrary: pre st)
  case Nil
  have "getFeild (pre @ 0 # x # r) (length pre) = Some None" by (simp add: getFeild_def peek_def nth_append)
  then show ?case by (simp add: setStruct.simps command_bytes_def)
next
  case (Cons f fs)
  obtain i v where f: "f = (i, v)" by (cases f)
  have ok: "i \<noteq> 0" "0 < length v" "length v < 256" "i = 9 \<longrightarrow> 2 \<le> length v" using Cons.prems by (simp_all add: field_ok_def f)
  define d where "d = pre @ command_bytes (f # fs) @ 0 # x # r"
  have d: "d = pre @ i # of_nat (length v) # v @ command_bytes fs @ 0 # x # r" by (simp add: d_def command_bytes_def f)
  have l: "unat (of_nat (length v) :: u8) = length v" using ok(3) by (simp add: unat_of_nat)
  have n0: "(of_nat (length v) :: u8) \<noteq> 0" using ok(2) l by (metis unsigned_0 less_irrefl)
  have g: "getFeild d (length pre) = Some (Some ((unat i, length pre + 2), length (pre @ i # of_nat (length v) # v)))"
    using ok(1) n0 l by (simp add: d getFeild_def peek_def nth_append)
  obtain u us where v: "v = u # us" using ok(2) by (cases v) auto
  have at: "peek d (length pre + 2) = Some (v ! 0)" "2 \<le> length v \<Longrightarrow> peek d (length pre + 3) = Some (v ! 1)"
    by (cases us; simp add: d v peek_def nth_append nth_Cons')+
  have "set_field d (unat i) (length pre + 2) st = Some (apply_field (i, v) st)"
  proof (cases "unat i = 9")
    case True
    then have "unat i = unat (9 :: u8)" by simp
    then have "i = 9" by (simp only: word_unat_eq_iff)
    then show ?thesis
      using at ok(4) by (simp add: set_field_def apply_field_def getWord_def IS_BIGENDIAN_def set16_def word_bytes(2,3) numeral_3_eq_3)
  next
    case False
    have "i \<noteq> 0 \<longrightarrow> unat i \<noteq> 0" by (simp add: unsigned_eq_0_iff)
    then have "unat i \<in> {1,2,3,4,5,6,7,8,10} \<or> unat i > 10" using False ok(1) by simp presburger
    then show ?thesis
      using at by (auto simp: set_field_def apply_field_def getByte_def set8_def)
  qed
  then have "setStruct d (length pre) st =
      setStruct d (length (pre @ i # of_nat (length v) # v)) (apply_field f st)"
    using g f by (simp add: setStruct.simps [of d "length pre"])
  also have "d = (pre @ i # of_nat (length v) # v) @ command_bytes fs @ 0 # x # r" by (simp add: d)
  finally show ?case using Cons.IH [of "pre @ i # of_nat (length v) # v"] Cons.prems
    by (simp add: command_bytes_def f)
qed

definition flags :: "u8 list \<Rightarrow> u8" where
  "flags k =
     ((((((k ! 0 AND 1) OR (push_bit 1 (k ! 1) AND 2)) OR (push_bit 2 (k ! 2) AND 4)) OR (push_bit 3 (k ! 3) AND 8))
       OR (push_bit 4 (k ! 4) AND 16)) OR (push_bit 5 (k ! 5) AND 32)) OR (push_bit 6 (k ! 6) AND 64)"

definition command_frame :: "u8 list \<Rightarrow> u8 list" where
  "command_frame k = [0xAA, 0, 0, 0, 0, 0, flags k, k ! 7, k ! 9, k ! 8, k ! 10]"

lemmas dn_key_defs = dn_key_SN_POWER_def dn_key_SN_CHILD_SAFETY_LOCK_def dn_key_UV_LIGHT_def
  dn_key_SN_NEGATIVE_ION_def dn_key_SN_LED_LIGHT_def dn_key_BEEP_def dn_key_SN_RESET_FILTER_MESH_def
  dn_key_SN_MODE_def dn_key_TIMER_OFF_def dn_key_SN_FANSPEED_def

lemma get16_bytes: "ucast (get16 st i AND 0xff) = st ! i" "ucast (drop_bit 8 (get16 st i AND 0xff00)) = st ! (i + 1)"
  "ucast (drop_bit 8 (get16 st i) AND 0xff) = st ! (i + 1)"
  unfolding get16_def word_bytes(1) [symmetric] by (rule word_bytes)+

definition sending :: "u8 list \<Rightarrow> u8 list \<Rightarrow> nat \<Rightarrow> hf \<Rightarrow> hf" where
  "sending f t n s = s\<lparr>dataOut := Some (f @ t), outLen := n\<rparr>"

lemma sending_steps:
  assumes "length f = 11"
  shows "dn_bits fl m sh (sending f t n s) =
      Some (sending (f[6 := f ! 6 OR (push_bit sh (strDownKeysDirty s ! down_offset fl) AND m)]) t (if n > 7 then n else 7) s)"
    and "i < 11 \<Longrightarrow> out (putByte i v) (sending f t n s) = Some (sending (f[i := v]) t n s)"
    and "out (putWord 8 (get16 st j)) (sending f t n s) = Some (sending (f[8 := st ! (j + 1), 9 := st ! j]) t n s)"
    and "max_len p l (sending f t n s) = sending f t (if n > p + l then n else p + l) s"
    and "strDownKeysDirty (sending f t n s) = strDownKeysDirty s"
  using assms
  by (simp_all add: sending_def dn_bits_def out_def putBits_def putByte_def putWord_def peek_def poke_def max_len_def
      outMaxLen_def get8_def get16_bytes [unfolded One_nat_def add_Suc_right add_0_right] IS_BIGENDIAN_def nth_append
      list_update_append del: push_bit_Suc)

lemma downstream_eq:
  assumes "dataOut s = Some b" "dataOut_size s \<le> length b" "11 \<le> dataOut_size s" "list_all field_ok fs"
  defines "k \<equiv> fold apply_field fs (strDownKeysNow s)"
  shows "downstream (command_bytes fs @ 0 # x # r) s =
    Some (s\<lparr>dataOut := Some (put (put b 0 (replicate (dataOut_size s) 0)) 0 (command_frame k)), outLen := 11,
            strDownKeysDirty := k\<rparr>)"
proof -
  have "replicate 11 (0 :: u8) = [0,0,0,0,0,0,0,0,0,0,0]" by (simp add: eval_nat_numeral)
  then have "replicate (dataOut_size s) (0 :: u8) = [0,0,0,0,0,0,0,0,0,0,0] @ replicate (dataOut_size s - 11) 0"
    using replicate_add [of 11 "dataOut_size s - 11" "0 :: u8"] assms(3) by simp
  then obtain t where z: "put b 0 (replicate (dataOut_size s) 0) = [0,0,0,0,0,0,0,0,0,0,0] @ t"
    by (simp add: put_def)
  have c: "clear_out s = Some (s\<lparr>dataOut := Some ([0,0,0,0,0,0,0,0,0,0,0] @ t), outLen := 0\<rparr>)"
    using assms(1,2) z by (simp add: clear_out_def)
  have st: "setStruct (command_bytes fs @ 0 # x # r) 0 (strDownKeysNow s) = Some k"
    using setStruct_eq [OF assms(4), of "[]" x r "strDownKeysNow s"] by (simp add: k_def)
  have w: "s\<lparr>dataOut := Some ([0,0,0,0,0,0,0,0,0,0,0] @ t), outLen := 0, strDownKeysDirty := k\<rparr> =
      sending [0,0,0,0,0,0,0,0,0,0,0] t 0 (s\<lparr>strDownKeysDirty := k\<rparr>)" by (simp add: sending_def)
  have "downstream (command_bytes fs @ 0 # x # r) s = Some (sending (command_frame k) t 11 (s\<lparr>strDownKeysDirty := k\<rparr>))"
    unfolding downstream_def act_SET_def dn_key_defs command_frame_def flags_def
    by (simp add: c st w [simplified] sending_steps get8_def del: push_bit_Suc)
  then show ?thesis unfolding z by (simp add: sending_def put_def command_frame_def)
qed

end
