(* ===== verification/HfUart.thy ===== *)
theory HfUart
  imports HfProtocol CStrings
begin

text \<open>
  \<open>HFService_upstream.c\<close>, \<open>HFService_downstream.c\<close>, \<open>HFService_helper.c\<close> and
  \<open>HFService_localprocess.c\<close>: frames from the serial line go to the cloud, commands from the cloud
  to the appliance. What the SDK and the cloud client are told is a list of effects; what they
  answer (the clock, the run mode, a scan, memory) is an argument. A call with memory that is not
  there is \<open>None\<close>.
\<close>

subsection \<open>The state\<close>

abbreviation "DATA_OUT_MAX_SIZE \<equiv> (512 :: nat)"
abbreviation "UART_DATA_LENGTH_MIN \<equiv> (4 :: int)"
abbreviation "UART_DATA_BYTE_INTERVAL \<equiv> (500 :: u32)"

definition UART_DOWN_NEED_ACK :: nat where "UART_DOWN_NEED_ACK = 0"
definition DEVICE_DONT_NEED_MCU :: nat where "DEVICE_DONT_NEED_MCU = 0"

datatype state_code = HFSERV_STATE_FAILE | HFSERV_STATE_NONE | HFSERV_STATE_OK

datatype uart_cmd =
    CMD_SMTLK | CMD_RELD | CMD_RESET | CMD_INIT | CMD_DATA | CMD_ERROR | CMD_WORK | CMD_ACK | CMD_DACTORY | CMD_NULL

datatype CLOUD_DATA_TYPE =
    EVENT_WIFI_CONNECT | EVENT_WIFI_DISCONNECT | EVENT_CLOUD_CONNECT | EVENT_CLOUD_DISCONNECT
  | EVENT_DHCP_OK | CMD_LOCAL_CTRL | CMD_REMOTE_CTRL | CMD_MENU_CTRL | CMD_REMOTE_GET
  | RSP_LOCAL_CTRL | RSP_REMOTE_CTRL | RSP_MENU_CTRL | UPDATE_DATA | UPDATE_RSP | CMD_MAX_NUM
  | EVENT_SN_CONNECT

datatype hf_sem = Device_init_ok_sem | Uart_ack_sem_start | Uart_ack_sem_stop | Local_mcu_sem

datatype hf_thread = Process_uart_ack | Process_device_init | Process_local_mcu

datatype hf_effect =
    Smtlk_start | Sys_reload | Sys_reset | Wifi_scan
  | Sem_new hf_sem | Sem_signal hf_sem | Sem_free hf_sem | Thread_create hf_thread | Thread_destroy
  | Cloud_send CLOUD_DATA_TYPE "u8 list" | Cloud_start | Uart_send "u8 list"

record uart =
  protocol :: hf
  recv_data :: "u8 list option"
  recv_len :: int
  last_recv :: u32
  inited :: bool
  upload :: bool
  up_copy_data :: "u8 list option"
  up_copy_len :: nat
  down_copy_data :: "u8 list option"
  down_copy_len :: nat
  local_waiting :: bool
  remote_waiting :: bool
  product_test :: bool
  init_sem :: bool
  uart_mutex :: bool
  effects :: "hf_effect list"

definition emit_effect :: "hf_effect \<Rightarrow> uart \<Rightarrow> uart" where
  "emit_effect e s = s\<lparr>effects := effects s @ [e]\<rparr>"

text \<open>\<open>memcpy\<close> of bytes read elsewhere to the start of a buffer.\<close>

definition copy_to :: "u8 list option \<Rightarrow> u8 list \<Rightarrow> u8 list option" where
  "copy_to dst bs = do { b \<leftarrow> dst; if length bs \<le> length b then Some (put b 0 bs) else None }"

definition bytes_at :: "u8 list \<Rightarrow> nat \<Rightarrow> nat \<Rightarrow> u8 list option" where
  "bytes_at b pos n = (if pos + n \<le> length b then Some (take n (drop pos b)) else None)"

text \<open>The frame handed on: it lies in the receive buffer, or it is the copy of the last command.\<close>

datatype frame = Received nat | Down_copy

definition memory_of :: "frame \<Rightarrow> uart \<Rightarrow> u8 list option" where
  "memory_of f s =
     (case f of
        Received pos \<Rightarrow> do { b \<leftarrow> recv_data s; if pos \<le> length b then Some (drop pos b) else None }
      | Down_copy \<Rightarrow> down_copy_data s)"

subsection \<open>Frames from the serial line\<close>

definition uart_proto_head :: "u8 list" where "uart_proto_head = [0xAA]"

function find_head_from :: "u8 list \<Rightarrow> int \<Rightarrow> nat \<Rightarrow> nat option option" where
  "find_head_from data len pos =
     (if int (pos + length uart_proto_head) < len then
        (case bytes_at data pos (length uart_proto_head) of
           None \<Rightarrow> None
         | Some bs \<Rightarrow> if bs = uart_proto_head then Some (Some pos) else find_head_from data len (pos + 1))
      else Some None)"
  by auto
termination by (relation "measure (\<lambda>(data, len, pos). nat len - pos)") (auto simp: uart_proto_head_def)

declare find_head_from.simps [simp del]

text \<open>\<open>Some None\<close> is the result -1.\<close>

definition uart_proto_find_head :: "u8 list \<Rightarrow> int \<Rightarrow> nat option option" where
  "uart_proto_find_head data len = find_head_from data len 0"

text \<open>The callback of a scan, for the name of one network.\<close>

definition hfwifi_scan_test :: "u8 list option \<Rightarrow> uart \<Rightarrow> uart option" where
  "hfwifi_scan_test scan_ret s =
     (case scan_ret of
        None \<Rightarrow> Some s
      | Some ssid \<Rightarrow> do {
          bs \<leftarrow> bytes_at ssid 0 7;
          Some (if bs = map (\<lambda>c. of_nat (of_char c)) ''HF-TEST'' then s\<lparr>product_test := True\<rparr> else s)
        })"

definition uart_proto_get_len :: "u8 list \<Rightarrow> nat \<Rightarrow> int \<Rightarrow> int" where
  "uart_proto_get_len data head_pos len = len"

definition uart_proto_legal_check :: "frame \<Rightarrow> int \<Rightarrow> state_code" where
  "uart_proto_legal_check f proto_len = HFSERV_STATE_OK"

definition uart_cmd_classify :: "frame \<Rightarrow> uart \<Rightarrow> uart_cmd option" where
  "uart_cmd_classify f s =
     (if \<not> inited s then Some CMD_INIT
      else do {
        data \<leftarrow> memory_of f s;
        code \<leftarrow> peek data 0;
        Some (if code = 0x07 then CMD_SMTLK
              else if code = 0x06 then CMD_ERROR
              else if code = 0x08 then CMD_WORK
              else if code = 0x0A then CMD_ACK
              else if code = 0x0B then CMD_DACTORY
              else if code = 0xAA then CMD_DATA
              else CMD_NULL)
      })"

text \<open>The branches of \<open>uart_data_process\<close> for the first frame and for a report.\<close>

definition init_branch :: "frame \<Rightarrow> nat \<Rightarrow> uart \<Rightarrow> uart option" where
  "init_branch f proto_len s =
     (if down_copy_data s \<noteq> None then do {
        let s = s\<lparr>inited := True, upload := False\<rparr>;
        data \<leftarrow> memory_of f s;
        bs \<leftarrow> bytes_at data 0 proto_len;
        c \<leftarrow> (if f = Down_copy \<and> proto_len > 0 then None else copy_to (down_copy_data s) bs);
        Some (emit_effect (Sem_signal Device_init_ok_sem) (s\<lparr>down_copy_data := Some c, down_copy_len := proto_len\<rparr>))
      }
      else Some s)"

definition report_to_cloud :: "u8 list \<Rightarrow> uart \<Rightarrow> uart" where
  "report_to_cloud report s =
     (if local_waiting s then (emit_effect (Cloud_send RSP_LOCAL_CTRL report) s)\<lparr>local_waiting := False\<rparr>
      else if remote_waiting s then (emit_effect (Cloud_send RSP_REMOTE_CTRL report) s)\<lparr>remote_waiting := False\<rparr>
      else (emit_effect (Cloud_send UPDATE_DATA report) s)\<lparr>upload := True\<rparr>)"

definition data_branch :: "frame \<Rightarrow> uart \<Rightarrow> uart option" where
  "data_branch f s =
     do {
       data \<leftarrow> memory_of f s;
       p \<leftarrow> upstream data (protocol s);
       let s = s\<lparr>protocol := p\<rparr>;
       if outLen p = 0 then Some s
       else do {
         let s = (if UART_DOWN_NEED_ACK \<noteq> 0 \<and> (local_waiting s \<or> remote_waiting s)
                  then emit_effect (Sem_signal Uart_ack_sem_stop) s else s);
         b \<leftarrow> dataOut p;
         report \<leftarrow> bytes_at b 0 (outLen p);
         let s = report_to_cloud report s;
         c \<leftarrow> copy_to (up_copy_data s) report;
         Some (s\<lparr>up_copy_data := Some c, up_copy_len := outLen p\<rparr>)
       }
     }"

text \<open>The argument \<open>scan\<close>: the networks a scan calls back with.\<close>

definition uart_data_process :: "u8 list option list \<Rightarrow> frame \<Rightarrow> nat \<Rightarrow> uart \<Rightarrow> uart option" where
  "uart_data_process scan f proto_len s =
     do {
       cmd \<leftarrow> uart_cmd_classify f s;
       if cmd = CMD_SMTLK then Some (emit_effect Smtlk_start s)
       else if cmd = CMD_RELD then Some (emit_effect Sys_reload s)
       else if cmd = CMD_DACTORY then for_each scan hfwifi_scan_test (emit_effect Wifi_scan s)
       else if cmd = CMD_RESET then Some (emit_effect Sys_reset s)
       else if cmd = CMD_INIT then init_branch f proto_len s
       else if cmd = CMD_DATA then data_branch f s
       else Some s
     }"

definition uart_proto_integrateCheck :: "u8 list option list \<Rightarrow> int \<Rightarrow> uart \<Rightarrow> ((state_code \<times> int) \<times> uart) option" where
  "uart_proto_integrateCheck scan len s =
     do {
       data \<leftarrow> recv_data s;
       proto_head \<leftarrow> uart_proto_find_head data len;
       case proto_head of
         Some head \<Rightarrow>
           (let proto_len = uart_proto_get_len data head len in
            if proto_len > 0 then
              if uart_proto_legal_check (Received head) proto_len = HFSERV_STATE_OK then do {
                s \<leftarrow> uart_data_process scan (Received head) (nat proto_len) s;
                Some ((HFSERV_STATE_OK, int head + proto_len), s)
              }
              else Some ((HFSERV_STATE_FAILE, int head + proto_len), s)
            else if proto_len = 0 then Some ((HFSERV_STATE_NONE, int head), s)
            else Some ((HFSERV_STATE_FAILE, int head + (- proto_len)), s))
       | None \<Rightarrow>
           if len > int (length uart_proto_head)
           then Some ((HFSERV_STATE_FAILE, len - int (length uart_proto_head)), s)
           else Some ((HFSERV_STATE_NONE, len), s)
     }"

text \<open>
  \<open>memcpy(data, data + proto_len, recv_len - proto_len)\<close>: a negative length is taken as a huge one,
  and the two areas must not overlap.
\<close>

definition drop_front :: "int \<Rightarrow> uart \<Rightarrow> uart option" where
  "drop_front proto_len s =
     (let n = recv_len s - proto_len in
      if proto_len = 0 then Some s
      else if n < 0 \<or> n > proto_len then None
      else do {
        b \<leftarrow> recv_data s;
        bs \<leftarrow> bytes_at b (nat proto_len) (nat n);
        b \<leftarrow> copy_to (Some b) bs;
        Some (s\<lparr>recv_data := Some b, recv_len := n\<rparr>)
      })"

definition recv_round :: "u8 list option list \<Rightarrow> uart \<Rightarrow> (state_code \<times> uart) option" where
  "recv_round scan s =
     do {
       ((state, proto_len), s) \<leftarrow> uart_proto_integrateCheck scan (recv_len s) s;
       s \<leftarrow> drop_front proto_len s;
       Some (state, s)
     }"

lemma hfwifi_scan_test_recv_len: "hfwifi_scan_test r s = Some s' \<Longrightarrow> recv_len s' = recv_len s \<and> recv_data s' = recv_data s"
  by (auto simp: hfwifi_scan_test_def bind_eq_Some_conv split: option.splits if_splits)

lemma scan_recv_len: "for_each scan hfwifi_scan_test s = Some s' \<Longrightarrow> recv_len s' = recv_len s \<and> recv_data s' = recv_data s"
  by (induction scan arbitrary: s) (auto simp: bind_eq_Some_conv dest!: hfwifi_scan_test_recv_len)

lemma emit_effect_recv [simp]: "recv_len (emit_effect e s) = recv_len s" "recv_data (emit_effect e s) = recv_data s"
  by (simp_all add: emit_effect_def)

lemma report_to_cloud_recv [simp]: "recv_len (report_to_cloud r s) = recv_len s" "recv_data (report_to_cloud r s) = recv_data s"
  by (simp_all add: report_to_cloud_def)

lemma init_branch_recv: "init_branch f n s = Some s' \<Longrightarrow> recv_len s' = recv_len s \<and> recv_data s' = recv_data s"
  by (auto simp: init_branch_def Let_def bind_eq_Some_conv split: if_splits)

lemma data_branch_recv: "data_branch f s = Some s' \<Longrightarrow> recv_len s' = recv_len s \<and> recv_data s' = recv_data s"
  by (auto simp: data_branch_def bind_eq_Some_conv Let_def split: if_splits)

lemma uart_data_process_recv:
  "uart_data_process scan f n s = Some s' \<Longrightarrow> recv_len s' = recv_len s \<and> recv_data s' = recv_data s"
  by (auto simp: uart_data_process_def bind_eq_Some_conv split: if_splits
      dest!: scan_recv_len init_branch_recv data_branch_recv)

lemma recv_round_less:
  assumes "recv_round scan s = Some (st, s')" "\<not> recv_len s < UART_DATA_LENGTH_MIN"
  shows "nat (recv_len s') < nat (recv_len s)"
proof -
  obtain n t where t: "uart_proto_integrateCheck scan (recv_len s) s = Some ((st, n), t)" "drop_front n t = Some s'"
    using assms(1) by (auto simp: recv_round_def bind_eq_Some_conv)
  have n: "n \<ge> 3 \<and> recv_len t = recv_len s"
    using t(1) assms(2)
    by (auto simp: uart_proto_integrateCheck_def bind_eq_Some_conv uart_proto_get_len_def uart_proto_legal_check_def Let_def
        uart_proto_head_def dest: uart_data_process_recv split: option.splits if_splits)
  have "n \<noteq> 0" using n by auto
  then have "recv_len s' = recv_len t - n"
    using t(2) by (auto simp: drop_front_def Let_def bind_eq_Some_conv split: if_splits)
  then show ?thesis using n assms(2) by auto
qed

function recv_loop :: "u8 list option list \<Rightarrow> uart \<Rightarrow> uart option" where
  "recv_loop scan s =
     (if recv_len s < UART_DATA_LENGTH_MIN then Some s
      else
        (case recv_round scan s of
           None \<Rightarrow> None
         | Some (state, s') \<Rightarrow> if state = HFSERV_STATE_NONE then Some s' else recv_loop scan s'))"
  by auto
termination by (relation "measure (\<lambda>(scan, s). nat (recv_len s))") (auto dest: recv_round_less)

declare recv_loop.simps [simp del]

text \<open>\<open>t\<close> and \<open>t'\<close>: the two readings of the clock. The size of the pointer is four.\<close>

definition hfservice_uart_data_recv :: "u8 list option list \<Rightarrow> u32 \<Rightarrow> u32 \<Rightarrow> u8 list \<Rightarrow> int \<Rightarrow> uart \<Rightarrow> uart option" where
  "hfservice_uart_data_recv scan t t' data len s =
     do {
       let s = (if UART_DATA_BYTE_INTERVAL \<noteq> 0 \<and> t - last_recv s > UART_DATA_BYTE_INTERVAL then s\<lparr>recv_len := 0\<rparr> else s);
       let s = s\<lparr>last_recv := t'\<rparr>;
       let tmp_len = (if recv_len s + len > int DATA_OUT_MAX_SIZE then 4 - recv_len s else len);
       if tmp_len < 0 \<or> recv_len s < 0 then None
       else do {
         bs \<leftarrow> bytes_at data 0 (nat tmp_len);
         b \<leftarrow> recv_data s;
         b \<leftarrow> (if nat (recv_len s) + length bs \<le> length b then Some (put b (nat (recv_len s)) bs) else None);
         recv_loop scan (s\<lparr>recv_data := Some b, recv_len := recv_len s + tmp_len\<rparr>)
       }
     }"

subsection \<open>Commands from the cloud\<close>

text \<open>\<open>fireUartSend\<close>: \<open>mutex_ok\<close> is the SDK's answer when the lock is made, \<open>sent\<close> that of the line.\<close>

definition fireUartSend :: "bool \<Rightarrow> int \<Rightarrow> u8 list \<Rightarrow> uart \<Rightarrow> int \<times> uart" where
  "fireUartSend mutex_ok sent data s =
     (if \<not> uart_mutex s \<and> \<not> mutex_ok then (0, s)
      else (sent, emit_effect (Uart_send data) (s\<lparr>uart_mutex := True\<rparr>)))"

definition down_data_action :: "bool \<Rightarrow> bool \<Rightarrow> int \<Rightarrow> u8 list option \<Rightarrow> nat \<Rightarrow> uart \<Rightarrow> uart option" where
  "down_data_action through mutex_ok sent data len s =
     (if DEVICE_DONT_NEED_MCU = 1
      then Some (if init_sem s then emit_effect (Sem_signal Device_init_ok_sem) s else s)
      else if through then
        (case data of
           Some d \<Rightarrow> do {
             bs \<leftarrow> bytes_at d 0 len;
             let s = snd (fireUartSend mutex_ok sent bs s);
             c \<leftarrow> copy_to (down_copy_data s) bs;
             Some (s\<lparr>down_copy_data := Some c, down_copy_len := len\<rparr>)
           }
         | None \<Rightarrow> do {
             d \<leftarrow> down_copy_data s;
             bs \<leftarrow> bytes_at d 0 (down_copy_len s);
             Some (snd (fireUartSend mutex_ok sent bs s))
           })
      else Some s)"

definition down_data_doIntegrate :: "uart \<Rightarrow> uart" where "down_data_doIntegrate s = s"

text \<open>\<open>data\<close> and \<open>len\<close>: what the pointers lead to. A query is answered in them.\<close>

definition hfservice_cloud_data_recv ::
  "u8 list option list \<Rightarrow> CLOUD_DATA_TYPE \<Rightarrow> u8 list option \<Rightarrow> int option \<Rightarrow> uart \<Rightarrow>
     ((u8 list option \<times> int option) \<times> uart) option" where
  "hfservice_cloud_data_recv scan type data len s =
     (if type = EVENT_WIFI_CONNECT \<or> type = EVENT_WIFI_DISCONNECT \<or> type = EVENT_CLOUD_DISCONNECT
      then Some ((data, len), s)
      else if type = EVENT_CLOUD_CONNECT then do {
        s \<leftarrow> uart_data_process scan Down_copy (down_copy_len s) s;
        Some ((data, len), s)
      }
      else if type = CMD_LOCAL_CTRL \<or> type = CMD_REMOTE_CTRL then do {
        d \<leftarrow> data;
        p \<leftarrow> downstream d (protocol s);
        let s = s\<lparr>protocol := p\<rparr>;
        if outLen p = 0 then Some ((data, len), s)
        else do {
          let s = down_data_doIntegrate s;
          let s = (if type = CMD_REMOTE_CTRL then s\<lparr>remote_waiting := True\<rparr> else s\<lparr>local_waiting := True\<rparr>);
          Some ((data, len),
            (if UART_DOWN_NEED_ACK = 0 then s\<lparr>protocol := setConfirmed (protocol s)\<rparr>
             else emit_effect (Sem_signal Uart_ack_sem_start) s))
        }
      }
      else if type = CMD_REMOTE_GET then do {
        c \<leftarrow> up_copy_data s;
        bs \<leftarrow> bytes_at c 0 (up_copy_len s);
        d \<leftarrow> copy_to data bs;
        l \<leftarrow> len;
        Some ((Some d, Some (int (up_copy_len s))), s)
      }
      else if type = UPDATE_RSP then Some ((data, len), s\<lparr>upload := True\<rparr>)
      else Some ((data, len), s))"

text \<open>
  The quality of the network from the answer \<open>rsp\<close> to \<open>AT+WSLQ\<close>, 64 bytes; \<open>strstr\<close> of one
  character is \<open>strchr\<close>. The result is what \<open>rbuf\<close> then holds.
\<close>

definition acquire_network_lq :: "cbuf \<Rightarrow> u8 \<Rightarrow> u8 option" where
  "acquire_network_lq rsp rbuf =
     do {
       tmp \<leftarrow> strchr rsp CHR ''%'';
       case tmp of
         None \<Rightarrow> Some rbuf
       | Some t \<Rightarrow> do {
           let rsp = rsp[length rsp - length t := NUL];
           tmp \<leftarrow> strchr rsp CHR '','';
           case tmp of
             None \<Rightarrow> Some rbuf
           | Some t \<Rightarrow> do { n \<leftarrow> atoi (drop 2 t); Some (word_of_int n) }
         }
     }"

text \<open>The words the SDK splits that answer into; a null pointer is \<open>None\<close>.\<close>

definition get_my_wifi_rssi :: "cbuf option list \<Rightarrow> u8 option" where
  "get_my_wifi_rssi words =
     do {
       w1 \<leftarrow> (if 1 < length words then words ! 1 else None);
       same \<leftarrow> streq w1 ''Disconnected'';
       if \<not> same then do {
         w2 \<leftarrow> (if 2 < length words then words ! 2 else None);
         n \<leftarrow> atoi w2;
         Some (word_of_int n)
       }
       else Some 0
     }"

subsection \<open>Start\<close>

definition hfservice_device_init_cmd :: "bool \<Rightarrow> bool \<Rightarrow> int \<Rightarrow> uart \<Rightarrow> uart option" where
  "hfservice_device_init_cmd through mutex_ok sent s =
     (if through
      then down_data_action through mutex_ok sent (Some [0xAA, 0xAA, 0x05, 0x03, 0x00, 0x00, 0x00, 0x5C]) 8 s
      else Some s)"

text \<open>One round of the thread that waits for the first frame; \<open>True\<close> when it has ended.\<close>

definition process_device_init :: "int \<Rightarrow> bool \<Rightarrow> bool \<Rightarrow> int \<Rightarrow> uart \<Rightarrow> (bool \<times> uart) option" where
  "process_device_init ret through mutex_ok sent s =
     (if ret > 0
      then Some (True, emit_effect Thread_destroy
             ((emit_effect (Sem_free Device_init_ok_sem) (emit_effect Cloud_start s))\<lparr>init_sem := False\<rparr>))
      else do { s \<leftarrow> hfservice_device_init_cmd through mutex_ok sent s; Some (False, s) })"

definition quary_devices_state :: "u8 list" where "quary_devices_state = [0xAA, 0xAA, 0xA1, 0x4F]"

text \<open>One round of the thread that asks the appliance for its state.\<close>

definition process_device_state :: "int \<Rightarrow> bool \<Rightarrow> int \<Rightarrow> uart \<Rightarrow> uart" where
  "process_device_state ret mutex_ok sent s =
     (if ret > 0 then snd (fireUartSend mutex_ok sent quary_devices_state s) else s)"

text \<open>
  \<open>HFService_init\<close>: each allocation gives a block or fails; one not reached is not looked at. A block
  given back is one without bytes: its pointer is not null, but nothing may be read or written.
\<close>

definition HFService_init ::
  "u8 list option \<Rightarrow> u8 list option \<Rightarrow> u8 list option \<Rightarrow> u8 list option \<Rightarrow> uart \<Rightarrow> state_code \<times> uart" where
  "HFService_init m1 m2 m3 m4 s =
     (let s = s\<lparr>recv_data := m1\<rparr> in
      if m1 = None then (HFSERV_STATE_FAILE, s)
      else let s = s\<lparr>down_copy_data := m2\<rparr> in
      if m2 = None then (HFSERV_STATE_FAILE, s)
      else let s = s\<lparr>up_copy_data := m3\<rparr> in
      if m3 = None then (HFSERV_STATE_FAILE, s\<lparr>down_copy_data := Some []\<rparr>)
      else (case m4 of
        None \<Rightarrow> (HFSERV_STATE_FAILE, s\<lparr>down_copy_data := Some [], up_copy_data := Some []\<rparr>)
      | Some heap \<Rightarrow>
          let s = s\<lparr>protocol := setHeap heap DATA_OUT_MAX_SIZE (protocol s)\<rparr>;
              s = (if UART_DOWN_NEED_ACK = 1
                   then emit_effect (Thread_create Process_uart_ack)
                          (emit_effect (Sem_new Uart_ack_sem_stop) (emit_effect (Sem_new Uart_ack_sem_start) s))
                   else s);
              s = emit_effect (Thread_create Process_device_init)
                    ((emit_effect (Sem_new Device_init_ok_sem) s)\<lparr>init_sem := True\<rparr>);
              s = (if DEVICE_DONT_NEED_MCU = 1
                   then emit_effect (Thread_create Process_local_mcu) (emit_effect (Sem_new Local_mcu_sem) s)
                   else s)
          in (HFSERV_STATE_OK, s)))"

subsection \<open>What arrives\<close>

lemma find_head_from_next:
  "bytes_at b pos 1 = Some [x] \<Longrightarrow>
     find_head_from b len pos =
       (if int pos + 1 < len then if x = 0xAA then Some (Some pos) else find_head_from b len (pos + 1) else Some None)"
  by (subst find_head_from.simps) (simp add: uart_proto_head_def)

lemma bytes_at_one: "i < length b \<Longrightarrow> bytes_at b i 1 = Some [b ! i]"
  by (simp add: bytes_at_def take_Suc hd_drop_conv_nth)

lemma find_head_at:
  "pos \<le> p \<Longrightarrow> int p + 1 < len \<Longrightarrow> len \<le> int (length b) \<Longrightarrow> b ! p = 0xAA \<Longrightarrow>
     (\<forall>i. pos \<le> i \<and> i < p \<longrightarrow> b ! i \<noteq> 0xAA) \<Longrightarrow> find_head_from b len pos = Some (Some p)"
proof (induction "p - pos" arbitrary: pos)
  case 0
  then show ?case using find_head_from_next [OF bytes_at_one, of pos b len] by auto
next
  case (Suc k)
  have lt: "pos < p" "pos < length b" using Suc.hyps(2) Suc.prems by linarith+
  then have "b ! pos \<noteq> 0xAA" using Suc.prems by simp
  moreover have "find_head_from b len (pos + 1) = Some (Some p)" using Suc lt by simp
  ultimately show ?case using find_head_from_next [OF bytes_at_one, of pos b len] lt Suc.prems by auto
qed

lemma find_head_none:
  "len \<le> int (length b) \<Longrightarrow> (\<forall>i. pos \<le> i \<and> int i + 1 < len \<longrightarrow> b ! i \<noteq> 0xAA) \<Longrightarrow> find_head_from b len pos = Some None"
proof (induction "nat len - pos" arbitrary: pos)
  case 0
  then show ?case by (subst find_head_from.simps) (auto simp: uart_proto_head_def)
next
  case (Suc k)
  show ?case
  proof (cases "int pos + 1 < len")
    case True
    then have "b ! pos \<noteq> 0xAA" "pos < length b" using Suc.prems by auto
    moreover have "find_head_from b len (pos + 1) = Some None" using Suc True by auto
    ultimately show ?thesis using find_head_from_next [OF bytes_at_one, of pos b len] True by auto
  next
    case False
    then show ?thesis by (subst find_head_from.simps) (auto simp: uart_proto_head_def)
  qed
qed

lemma recv_loop_done: "recv_len s < 4 \<Longrightarrow> recv_loop scan s = Some s"
  by (simp add: recv_loop.simps)

lemma recv_loop_step:
  "\<not> recv_len s < 4 \<Longrightarrow> recv_loop scan s =
     (case recv_round scan s of
        None \<Rightarrow> None
      | Some (state, s') \<Rightarrow> if state = HFSERV_STATE_NONE then Some s' else recv_loop scan s')"
  by (subst recv_loop.simps) simp

lemma recv_headless:
  assumes s: "recv_data s = Some b" "recv_len s = int n" "4 \<le> n" "n \<le> length b"
    and g: "\<forall>i. i + 1 < n \<longrightarrow> b ! i \<noteq> 0xAA"
  shows "recv_loop scan s = Some (s\<lparr>recv_data := Some (put b 0 [b ! (n - 1)]), recv_len := 1\<rparr>)"
proof -
  have "find_head_from b (int n) 0 = Some None" by (rule find_head_none) (use s g in auto)
  then have "recv_round scan s = Some (HFSERV_STATE_FAILE, s\<lparr>recv_data := Some (put b 0 [b ! (n - 1)]), recv_len := 1\<rparr>)"
    using s bytes_at_one [of "n - 1" b]
    by (simp add: recv_round_def uart_proto_integrateCheck_def uart_proto_find_head_def uart_proto_head_def drop_front_def
        copy_to_def Let_def nat_diff_distrib)
  then show ?thesis using s by (simp add: recv_loop_step recv_loop_done)
qed

lemma recv_frame:
  assumes s: "recv_data s = Some b" "recv_len s = int n" "4 \<le> n" "n \<le> length b"
    and g: "b ! 0 = 0xAA"
  shows "recv_loop scan s = map_option (\<lambda>s'. s'\<lparr>recv_len := 0\<rparr>) (uart_data_process scan (Received 0) n s)"
proof -
  have h: "find_head_from b (int n) 0 = Some (Some 0)" by (rule find_head_at) (use s g in auto)
  show ?thesis
  proof (cases "uart_data_process scan (Received 0) n s")
    case None
    then have "recv_round scan s = None"
      using s h by (simp add: recv_round_def uart_proto_integrateCheck_def uart_proto_find_head_def uart_proto_get_len_def
          uart_proto_legal_check_def)
    then show ?thesis using s by (simp add: recv_loop_step None)
  next
    case (Some s')
    have k: "recv_len s' = int n" "recv_data s' = Some b" using uart_data_process_recv [OF Some] s by simp_all
    have "recv_round scan s = Some (HFSERV_STATE_OK, s'\<lparr>recv_data := Some b, recv_len := 0\<rparr>)"
      using s h Some k
      by (simp add: recv_round_def uart_proto_integrateCheck_def uart_proto_find_head_def uart_proto_get_len_def
          uart_proto_legal_check_def drop_front_def bytes_at_def copy_to_def put_def)
    moreover have "s'\<lparr>recv_data := Some b, recv_len := 0\<rparr> = s'\<lparr>recv_len := 0\<rparr>" using k by simp
    ultimately show ?thesis using s by (simp add: recv_loop_step Some recv_loop_done)
  qed
qed

lemma recv_late_head:
  assumes s: "recv_data s = Some b" "recv_len s = int n" "4 \<le> n" "n \<le> length b"
    and g: "0 < p" "p + 1 < n" "b ! p = 0xAA" "\<forall>i < p. b ! i \<noteq> 0xAA"
  shows "recv_loop scan s = None"
proof -
  have h: "find_head_from b (int n) 0 = Some (Some p)" by (rule find_head_at) (use s g in auto)
  have "recv_round scan s = None"
  proof (cases "uart_data_process scan (Received p) n s")
    case (Some s')
    then show ?thesis
      using s h g(1) uart_data_process_recv [OF Some]
      by (simp add: recv_round_def uart_proto_integrateCheck_def uart_proto_find_head_def uart_proto_get_len_def
          uart_proto_legal_check_def drop_front_def)
  qed (use s h in \<open>simp add: recv_round_def uart_proto_integrateCheck_def uart_proto_find_head_def uart_proto_get_len_def
         uart_proto_legal_check_def\<close>)
  then show ?thesis using s by (simp add: recv_loop_step)
qed

end
