(* ===== verification/HfService.thy ===== *)
theory HfService
  imports HfUart
begin

text \<open>
  HFService in operation: the invariant of its blocks and buffers over everything that can happen, and
  what a report of the appliance and a command of the cloud become.
\<close>

subsection \<open>What is kept\<close>

definition block :: "nat \<Rightarrow> u8 list option \<Rightarrow> bool" where
  "block n m \<longleftrightarrow> (\<exists>b. m = Some b \<and> length b = n)"

definition hf_ok :: "hf \<Rightarrow> bool" where
  "hf_ok p \<longleftrightarrow> block DATA_OUT_MAX_SIZE (dataOut p) \<and> dataOut_size p = DATA_OUT_MAX_SIZE \<and>
     length (strUpKeysNow p) = sizeof_StrUpKeys \<and> length (strUpKeysDirty p) = sizeof_StrUpKeys \<and>
     length (strDownKeysNow p) = sizeof_StrDownKeys \<and> length (strDownKeysDirty p) = sizeof_StrDownKeys"

definition uart_ready :: "uart \<Rightarrow> bool" where
  "uart_ready s \<longleftrightarrow> hf_ok (protocol s) \<and> block DATA_OUT_MAX_SIZE (recv_data s) \<and>
     block DATA_OUT_MAX_SIZE (up_copy_data s) \<and> block DATA_OUT_MAX_SIZE (down_copy_data s) \<and>
     up_copy_len s \<le> DATA_OUT_MAX_SIZE \<and> down_copy_len s \<le> DATA_OUT_MAX_SIZE \<and>
     0 \<le> recv_len s \<and> recv_len s < UART_DATA_LENGTH_MIN"

lemma block_simps [simp]: "block n None = False" "block n (Some b) = (length b = n)"
  by (simp_all add: block_def)

lemma poke_length: "poke i v b = Some b' \<Longrightarrow> length b' = length b"
  by (auto simp: poke_def split: if_splits)

lemma stores_length:
  "putBits i x m k b = Some b' \<Longrightarrow> length b' = length b"
  "putByte i x b = Some b' \<Longrightarrow> length b' = length b"
  "putWord i w b = Some b' \<Longrightarrow> length b' = length b"
  by (auto simp: putBits_def putByte_def putWord_def Let_def bind_eq_Some_conv dest!: poke_length split: if_splits)

definition kept :: "(hf \<Rightarrow> hf option) \<Rightarrow> bool" where
  "kept f \<longleftrightarrow> (\<forall>s s'. hf_ok s \<longrightarrow> f s = Some s' \<longrightarrow> hf_ok s')"

lemma keptD: "kept f \<Longrightarrow> f s = Some s' \<Longrightarrow> hf_ok s \<Longrightarrow> hf_ok s'"
  by (auto simp: kept_def)

lemma hf_ok_updates [simp]:
  "hf_ok (s\<lparr>outLen := n\<rparr>) = hf_ok s" "hf_ok (s\<lparr>device_updated := i\<rparr>) = hf_ok s" "hf_ok (max_len j k s) = hf_ok s"
  by (simp_all add: hf_ok_def max_len_def)

lemma hf_ok_Dirty:
  "hf_ok s \<Longrightarrow> length k = sizeof_StrUpKeys \<Longrightarrow> hf_ok (s\<lparr>strUpKeysDirty := k\<rparr>)"
  "hf_ok s \<Longrightarrow> length k' = sizeof_StrDownKeys \<Longrightarrow> hf_ok (s\<lparr>strDownKeysDirty := k'\<rparr>)"
  by (simp_all add: hf_ok_def)

lemma length_set [simp]: "length (set8 st i v) = length st" "length (set16 st i w) = length st"
  by (simp_all add: set8_def set16_def)

lemma hf_ok_lengths: "hf_ok s \<Longrightarrow> length (strUpKeysDirty s) = sizeof_StrUpKeys"
  "hf_ok s \<Longrightarrow> length (strDownKeysNow s) = sizeof_StrDownKeys"
  by (simp_all add: hf_ok_def)

lemma out_kept:
  "out f s = Some s' \<Longrightarrow> hf_ok s \<Longrightarrow> (\<And>b b'. f b = Some b' \<Longrightarrow> length b' = length b) \<Longrightarrow> hf_ok s'"
  by (auto simp: out_def hf_ok_def bind_eq_Some_conv)

lemmas outs_kept = out_kept [OF _ _ poke_length] out_kept [OF _ _ stores_length(1)] out_kept [OF _ _ stores_length(2)]
  out_kept [OF _ _ stores_length(3)]

lemma key_tag_kept: "key_tag n l s = Some s' \<Longrightarrow> hf_ok s \<Longrightarrow> hf_ok s'"
  by (auto simp: key_tag_def Let_def bind_eq_Some_conv dest!: outs_kept(1))

lemma up_key8_kept: "up_key8 n f g d s = Some s' \<Longrightarrow> hf_ok s \<Longrightarrow> hf_ok s'"
  by (auto simp: up_key8_def bind_eq_Some_conv hf_ok_Dirty hf_ok_lengths split: option.splits
      dest!: key_tag_kept outs_kept(3))

lemma up_key16_kept: "up_key16 n f pos d s = Some s' \<Longrightarrow> hf_ok s \<Longrightarrow> hf_ok s'"
  by (auto simp: up_key16_def bind_eq_Some_conv hf_ok_Dirty hf_ok_lengths split: option.splits
      dest!: key_tag_kept outs_kept(4))

lemma synch_kept: "hf_ok s \<Longrightarrow> hf_ok (structUpSynch (s\<lparr>strUpKeysNow := strUpKeysDirty s, device_updated := i\<rparr>))"
  by (simp add: structUpSynch_def hf_ok_def sizeof_StrUpKeys_def sizeof_StrDownKeys_def)

lemma clear_out_kept: "clear_out s = Some s' \<Longrightarrow> hf_ok s \<Longrightarrow> hf_ok s' \<and> outLen s' = 0"
  by (auto simp: clear_out_def hf_ok_def bind_eq_Some_conv split: if_splits)

lemma kept_bind: "kept f \<Longrightarrow> kept g \<Longrightarrow> kept (\<lambda>s. Option.bind (f s) g)"
  unfolding kept_def bind_eq_Some_conv by blast

lemma up_keys_kept:
  "kept (up_key8 n f g d)" "kept (up_key16 n f pos d)"
  unfolding kept_def using up_key8_kept up_key16_kept by blast+

lemma up_fun_up_kept: "up_fun_up d s = Some s' \<Longrightarrow> hf_ok s \<Longrightarrow> hf_ok s'"
proof -
  assume a: "up_fun_up d s = Some s'" "hf_ok s"
  let ?keys = "\<lambda>s. Option.bind (up_key_SN_POWER d 6 s) (\<lambda>s. Option.bind (up_key_SN_CHILD_SAFETY_LOCK d 6 s)
    (\<lambda>s. Option.bind (up_key_UV_LIGHT d 6 s) (\<lambda>s. Option.bind (up_key_SN_NEGATIVE_ION d 6 s)
    (\<lambda>s. Option.bind (up_key_SN_LED_LIGHT d 6 s) (\<lambda>s. Option.bind (up_key_BEEP d 6 s)
    (\<lambda>s. Option.bind (up_key_SN_RESET_FILTER_MESH d 6 s) (\<lambda>s. Option.bind (up_key_FILTER_WARN d 6 s)
    (\<lambda>s. Option.bind (up_key_SN_MODE d 7 s) (\<lambda>s. Option.bind (up_key_LEFT_TIMER_OFF d 8 s)
    (\<lambda>s. Option.bind (up_key_SN_FANSPEED d 10 s) (\<lambda>s. Option.bind (up_key_SN_PM25 d 11 s)
    (\<lambda>s. Option.bind (up_key_SN_VOC d 13 s) (\<lambda>s. Option.bind (up_key_SN_CO2 d 15 s)
    (up_key_SN_FILTER_MESH_HOURS d 17))))))))))))))"
  have k: "kept ?keys" unfolding up_key_defs by (intro kept_bind up_keys_kept)
  obtain t where t: "s' = (if strUpKeysNow t = strUpKeysDirty t then t\<lparr>device_updated := 0\<rparr>
      else structUpSynch (t\<lparr>strUpKeysNow := strUpKeysDirty t, device_updated := 1\<rparr>))"
    "if d = None then up_key_ERRORCODE d 19 s = Some t
     else ?keys (s\<lparr>strUpKeysDirty := replicate sizeof_StrUpKeys 0\<rparr>) = Some t"
    using a(1) by (cases d) (auto simp: up_fun_up_def bind_eq_Some_conv Let_def)
  have "hf_ok t"
    using t(2) keptD [OF k, of "s\<lparr>strUpKeysDirty := replicate sizeof_StrUpKeys 0\<rparr>" t] a(2)
    by (cases d) (auto simp: hf_ok_Dirty up_key_ERRORCODE_def dest!: up_key8_kept)
  then show ?thesis unfolding t(1) using synch_kept [of t 1] by simp
qed

lemma upstream_kept: "upstream d s = Some s' \<Longrightarrow> hf_ok s \<Longrightarrow> hf_ok s'"
  by (auto simp: upstream_def bind_eq_Some_conv dest!: up_fun_up_kept clear_out_kept split: if_splits)

lemma set_field_length: "set_field d i v st = Some st' \<Longrightarrow> length st' = length st"
  by (auto simp: set_field_def Let_def bind_eq_Some_conv split: if_splits)

lemma setStruct_length: "setStruct d pos st = Some st' \<Longrightarrow> length st' = length st"
proof (induction d pos st rule: setStruct.induct)
  case (1 d pos st)
  show ?case using 1(2) 1(1)
    by (subst (asm) setStruct.simps) (auto split: option.splits dest: set_field_length)
qed

lemma dn_bits_kept: "kept (dn_bits f m k)"
  by (auto simp: kept_def dn_bits_def bind_eq_Some_conv dest!: outs_kept(2))

lemma dn_keys_kept:
  "kept dn_key_SN_MODE" "kept dn_key_TIMER_OFF" "kept dn_key_SN_FANSPEED" "kept dn_key_SN_POWER"
  unfolding dn_key_SN_POWER_def dn_key_SN_MODE_def dn_key_TIMER_OFF_def dn_key_SN_FANSPEED_def kept_def bind_eq_Some_conv
  using outs_kept(3,4) keptD [OF dn_bits_kept] by (fastforce+)

lemma downstream_kept: "downstream d s = Some s' \<Longrightarrow> hf_ok s \<Longrightarrow> hf_ok s'"
proof -
  assume a: "downstream d s = Some s'" "hf_ok s"
  let ?keys = "\<lambda>s. Option.bind (dn_key_SN_POWER s) (\<lambda>s. Option.bind (dn_bits DN_CHILD_SAFETY_LOCK 0x2 1 s)
    (\<lambda>s. Option.bind (dn_bits DN_UV_LIGHT 0x4 2 s) (\<lambda>s. Option.bind (dn_bits DN_NEGATIVE_ION 0x8 3 s)
    (\<lambda>s. Option.bind (dn_bits DN_LED_LIGHT 0x10 4 s) (\<lambda>s. Option.bind (dn_bits DN_BEEP 0x20 5 s)
    (\<lambda>s. Option.bind (dn_bits DN_RESET_FILTER_MESH 0x40 6 s) (\<lambda>s. Option.bind (dn_key_SN_MODE s)
    (\<lambda>s. Option.bind (dn_key_TIMER_OFF s) dn_key_SN_FANSPEED))))))))"
  have k: "kept ?keys" by (intro kept_bind dn_keys_kept dn_bits_kept)
  obtain t st where t: "clear_out s = Some t" "setStruct d 0 (strDownKeysNow t) = Some st"
    "?keys (t\<lparr>strDownKeysDirty := st\<rparr>) = Some s'"
    using a(1) by (auto simp: downstream_def act_SET_def bind_eq_Some_conv Let_def dn_key_SN_CHILD_SAFETY_LOCK_def
        dn_key_UV_LIGHT_def dn_key_SN_NEGATIVE_ION_def dn_key_SN_LED_LIGHT_def dn_key_BEEP_def
        dn_key_SN_RESET_FILTER_MESH_def)
  have "hf_ok t" using clear_out_kept [OF t(1) a(2)] by simp
  then have "hf_ok (t\<lparr>strDownKeysDirty := st\<rparr>)"
    using setStruct_length [OF t(2)] by (intro hf_ok_Dirty) (simp_all add: hf_ok_lengths)
  then show ?thesis using keptD [OF k t(3)] by simp
qed

lemma copy_to_block: "copy_to m bs = Some b \<Longrightarrow> block n m \<Longrightarrow> length b = n"
  by (cases m) (auto simp: copy_to_def split: if_splits)

lemma bytes_at_length: "bytes_at b i n = Some bs \<Longrightarrow> length bs = n \<and> i + n \<le> length b"
  by (auto simp: bytes_at_def split: if_splits)

text \<open>Everything the invariant says but how much has been received.\<close>

definition uart_blocks :: "uart \<Rightarrow> bool" where
  "uart_blocks s \<longleftrightarrow> hf_ok (protocol s) \<and> block DATA_OUT_MAX_SIZE (recv_data s) \<and>
     block DATA_OUT_MAX_SIZE (up_copy_data s) \<and> block DATA_OUT_MAX_SIZE (down_copy_data s) \<and>
     up_copy_len s \<le> DATA_OUT_MAX_SIZE \<and> down_copy_len s \<le> DATA_OUT_MAX_SIZE"

lemma uart_ready_blocks: "uart_ready s \<longleftrightarrow> uart_blocks s \<and> 0 \<le> recv_len s \<and> recv_len s < 4"
  by (auto simp: uart_ready_def uart_blocks_def)

lemma uart_blocks_simps [simp]:
  "uart_blocks (emit_effect e s) = uart_blocks s" "uart_blocks (report_to_cloud r s) = uart_blocks s"
  "uart_blocks (s\<lparr>recv_len := i\<rparr>) = uart_blocks s" "uart_blocks (s\<lparr>last_recv := t\<rparr>) = uart_blocks s"
  "uart_blocks (s\<lparr>inited := c, upload := d\<rparr>) = uart_blocks s" "uart_blocks (s\<lparr>upload := d\<rparr>) = uart_blocks s"
  "uart_blocks (s\<lparr>local_waiting := c\<rparr>) = uart_blocks s" "uart_blocks (s\<lparr>remote_waiting := c\<rparr>) = uart_blocks s"
  "uart_blocks (s\<lparr>product_test := c\<rparr>) = uart_blocks s" "uart_blocks (s\<lparr>uart_mutex := c\<rparr>) = uart_blocks s"
  "uart_blocks (s\<lparr>init_sem := c\<rparr>) = uart_blocks s"
  by (simp_all add: uart_blocks_def emit_effect_def report_to_cloud_def)

lemma uart_blocks_protocol: "uart_blocks s \<Longrightarrow> hf_ok p \<Longrightarrow> uart_blocks (s\<lparr>protocol := p\<rparr>)"
  by (simp add: uart_blocks_def)

lemma uart_blocks_down:
  "uart_blocks s \<Longrightarrow> copy_to (down_copy_data s) bs = Some c \<Longrightarrow> length bs = n \<Longrightarrow>
     uart_blocks (s\<lparr>down_copy_data := Some c, down_copy_len := n\<rparr>)"
  by (cases "down_copy_data s") (auto simp: uart_blocks_def copy_to_def split: if_splits)

lemma uart_blocks_up:
  "uart_blocks s \<Longrightarrow> copy_to (up_copy_data s) bs = Some c \<Longrightarrow> length bs = n \<Longrightarrow>
     uart_blocks (s\<lparr>up_copy_data := Some c, up_copy_len := n\<rparr>)"
  by (cases "up_copy_data s") (auto simp: uart_blocks_def copy_to_def split: if_splits)

lemma scan_blocks: "for_each scan hfwifi_scan_test s = Some s' \<Longrightarrow> uart_blocks s \<Longrightarrow> uart_blocks s'"
  by (induction scan arbitrary: s)
    (auto simp: bind_eq_Some_conv hfwifi_scan_test_def split: option.splits if_splits)

lemma init_branch_blocks: "init_branch f n s = Some s' \<Longrightarrow> uart_blocks s \<Longrightarrow> uart_blocks s'"
  by (auto simp: init_branch_def Let_def bind_eq_Some_conv uart_blocks_def emit_effect_def copy_to_def
      dest!: bytes_at_length split: if_splits)

lemma report_copies [simp]: "up_copy_data (report_to_cloud r s) = up_copy_data s" "up_copy_data (emit_effect e s) = up_copy_data s"
  by (simp_all add: report_to_cloud_def emit_effect_def)

lemma data_branch_blocks:
  assumes "data_branch f s = Some s'" "uart_blocks s"
  shows "uart_blocks s'"
proof -
  obtain d p where p: "memory_of f s = Some d" "upstream d (protocol s) = Some p"
    using assms(1) by (auto simp: data_branch_def bind_eq_Some_conv)
  let ?s = "s\<lparr>protocol := p\<rparr>"
  have s: "uart_blocks ?s"
    using assms(2) upstream_kept [OF p(2)] by (intro uart_blocks_protocol) (auto simp: uart_blocks_def)
  show ?thesis
  proof (cases "outLen p = 0")
    case False
    then obtain b r c where c: "bytes_at b 0 (outLen p) = Some r"
        "copy_to (up_copy_data (report_to_cloud r ?s)) r = Some c"
        "s' = (report_to_cloud r ?s)\<lparr>up_copy_data := Some c, up_copy_len := outLen p\<rparr>"
      using assms(1) p by (auto simp: data_branch_def bind_eq_Some_conv UART_DOWN_NEED_ACK_def Let_def)
    then show ?thesis
      using uart_blocks_up [of "report_to_cloud r ?s" r c] bytes_at_length [OF c(1)] s by simp
  qed (use assms(1) p s in \<open>auto simp: data_branch_def Let_def\<close>)
qed

lemma uart_data_process_blocks: "uart_data_process scan f n s = Some s' \<Longrightarrow> uart_blocks s \<Longrightarrow> uart_blocks s'"
  by (auto simp: uart_data_process_def bind_eq_Some_conv split: if_splits
      dest!: scan_blocks init_branch_blocks data_branch_blocks)

text \<open>Every way the receive loop can go.\<close>

lemma recv_loop_cases:
  assumes s: "recv_data s = Some b" "recv_len s = int n" "n \<le> length b"
  obtains (short) "n < 4" "recv_loop scan s = Some s"
  | (headless) "4 \<le> n" "recv_loop scan s = Some (s\<lparr>recv_data := Some (put b 0 [b ! (n - 1)]), recv_len := 1\<rparr>)"
  | (frame) "4 \<le> n" "b ! 0 = 0xAA"
      "recv_loop scan s = map_option (\<lambda>s'. s'\<lparr>recv_len := 0\<rparr>) (uart_data_process scan (Received 0) n s)"
  | (late) "4 \<le> n" "recv_loop scan s = None"
proof (cases "n < 4")
  case True
  then show ?thesis using short s recv_loop_done [of s] by simp
next
  case False
  then have n: "4 \<le> n" by simp
  note k = s(1,2) n s(3)
  show ?thesis
  proof (cases "\<exists>i. i + 1 < n \<and> b ! i = 0xAA")
    case True
    define p where "p = (LEAST i. i + 1 < n \<and> b ! i = 0xAA)"
    have p: "p + 1 < n \<and> b ! p = 0xAA" unfolding p_def by (rule LeastI_ex [OF True])
    have q: "\<forall>i < p. b ! i \<noteq> 0xAA"
    proof (intro allI impI notI)
      fix i assume "i < p" "b ! i = 0xAA"
      then show False using not_less_Least [of i "\<lambda>i. i + 1 < n \<and> b ! i = 0xAA"] p unfolding p_def by simp
    qed
    show ?thesis
    proof (cases "p = 0")
      case True
      then have h: "b ! 0 = 0xAA" using p by simp
      show ?thesis by (rule frame [OF n h recv_frame [OF k h]])
    next
      case False
      then show ?thesis using p q by (intro late [OF n recv_late_head [OF k, of p]]) auto
    qed
  next
    case False
    then show ?thesis by (intro headless [OF n recv_headless [OF k]]) blast
  qed
qed

lemma uart_data_recv_kept:
  assumes "hfservice_uart_data_recv scan t t' data len s = Some s'" "uart_ready s"
  shows "uart_ready s'"
proof -
  let ?s = "(if UART_DATA_BYTE_INTERVAL \<noteq> 0 \<and> t - last_recv s > UART_DATA_BYTE_INTERVAL then s\<lparr>recv_len := 0\<rparr> else s)\<lparr>last_recv := t'\<rparr>"
  let ?tmp = "if recv_len ?s + len > int DATA_OUT_MAX_SIZE then 4 - recv_len ?s else len"
  have r: "uart_blocks ?s" "0 \<le> recv_len ?s" "recv_len ?s < 4"
    using assms(2) by (auto simp: uart_ready_blocks)
  obtain b bs where b: "recv_data ?s = Some b" "length b = 512" "0 \<le> ?tmp" "bytes_at data 0 (nat ?tmp) = Some bs"
    "nat (recv_len ?s) + length bs \<le> 512"
    "recv_loop scan (?s\<lparr>recv_data := Some (put b (nat (recv_len ?s)) bs), recv_len := recv_len ?s + ?tmp\<rparr>) = Some s'"
    using assms(1) r(1) unfolding hfservice_uart_data_recv_def Let_def
    by (auto simp: bind_eq_Some_conv uart_blocks_def split: if_splits)
  define n where "n = nat (recv_len ?s) + length bs"
  define u where "u = ?s\<lparr>recv_data := Some (put b (nat (recv_len ?s)) bs), recv_len := recv_len ?s + ?tmp\<rparr>"
  have bs: "int (length bs) = ?tmp" using bytes_at_length [OF b(4)] b(3) by simp
  have l: "length (put b (nat (recv_len ?s)) bs) = 512" using b(2,5) by simp
  have u: "recv_data u = Some (put b (nat (recv_len ?s)) bs)" "recv_len u = int n" "uart_blocks u" "recv_loop scan u = Some s'"
    using b bs r l by (simp_all add: u_def n_def uart_blocks_def split del: if_split)
  have n: "n \<le> length (put b (nat (recv_len ?s)) bs)" unfolding l using b(5) by (simp add: n_def)
  from u(1,2) n show ?thesis
  proof (cases rule: recv_loop_cases [where scan = scan])
    case short
    then show ?thesis using u by (simp add: uart_ready_blocks)
  next
    case headless
    then have "s' = u\<lparr>recv_data := Some (put (put b (nat (recv_len ?s)) bs) 0 [put b (nat (recv_len ?s)) bs ! (n - 1)]), recv_len := 1\<rparr>"
      using u(4) by simp
    then show ?thesis using u(3) l by (simp add: uart_ready_blocks uart_blocks_def)
  next
    case frame
    then obtain s1 where "uart_data_process scan (Received 0) n u = Some s1" "s' = s1\<lparr>recv_len := 0\<rparr>"
      using u(4) by (cases "uart_data_process scan (Received 0) n u") auto
    then show ?thesis using uart_data_process_blocks u(3) by (auto simp: uart_ready_blocks)
  next
    case late
    then show ?thesis using u(4) by simp
  qed
qed

subsection \<open>The service in operation\<close>

lemma fireUartSend_blocks: "uart_blocks (snd (fireUartSend m i d s)) = uart_blocks s"
  by (simp add: fireUartSend_def)

lemma fireUartSend_copies: "down_copy_data (snd (fireUartSend m i d s)) = down_copy_data s"
    "recv_len (snd (fireUartSend m i d s)) = recv_len s"
  by (simp_all add: fireUartSend_def emit_effect_def)

lemma down_data_action_kept:
  assumes "down_data_action through m i d len s = Some s'" "uart_ready s"
  shows "uart_ready s'"
proof -
  have b: "uart_blocks s" "0 \<le> recv_len s" "recv_len s < 4" using assms(2) by (simp_all add: uart_ready_blocks)
  have c: "uart_ready ((snd (fireUartSend m i bs s))\<lparr>down_copy_data := Some c, down_copy_len := len\<rparr>)"
    if "bytes_at x 0 len = Some bs" "copy_to (down_copy_data (snd (fireUartSend m i bs s))) bs = Some c" for x bs c
    using that b uart_blocks_down [of "snd (fireUartSend m i bs s)" bs c len] bytes_at_length [OF that(1)]
    by (simp add: uart_ready_blocks fireUartSend_blocks fireUartSend_copies)
  show ?thesis
    using assms(1) c assms(2) b
    by (auto simp: down_data_action_def DEVICE_DONT_NEED_MCU_def bind_eq_Some_conv Let_def uart_ready_blocks
        fireUartSend_blocks fireUartSend_copies split: if_splits option.splits)
qed

lemma cloud_data_recv_kept:
  assumes "hfservice_cloud_data_recv scan type data len s = Some (r, s')" "uart_ready s"
  shows "uart_ready s'"
proof -
  have b: "uart_blocks s" "hf_ok (protocol s)" "0 \<le> recv_len s" "recv_len s < 4"
    using assms(2) by (simp_all add: uart_ready_blocks uart_blocks_def)
  have c: "uart_ready t" if "uart_data_process scan f n s = Some t" for f n t
    using that b uart_data_process_blocks [OF that] uart_data_process_recv [OF that] by (simp add: uart_ready_blocks)
  have d: "uart_ready (s\<lparr>protocol := p\<rparr>)" if "downstream x (protocol s) = Some p" for x p
    using b downstream_kept [OF that] by (simp add: uart_ready_blocks uart_blocks_protocol)
  have f: "uart_ready (t\<lparr>remote_waiting := c\<rparr>) = uart_ready t" "uart_ready (t\<lparr>local_waiting := c\<rparr>) = uart_ready t"
    "uart_ready (t\<lparr>upload := c\<rparr>) = uart_ready t" for t c
    by (simp_all add: uart_ready_def)
  show ?thesis
    using assms c d
    by (auto simp: hfservice_cloud_data_recv_def bind_eq_Some_conv Let_def f down_data_doIntegrate_def UART_DOWN_NEED_ACK_def
        setConfirmed_def split: if_splits)
qed

text \<open>
  What can happen once \<open>HFService_init\<close> has made the blocks: bytes from the line, a call from the cloud
  client, a round of the two threads, in any order and with any answers of the SDK.
\<close>

inductive hf_step :: "uart \<Rightarrow> uart \<Rightarrow> bool" where
  from_uart: "hfservice_uart_data_recv scan t t' data (int (length data)) s = Some s' \<Longrightarrow> hf_step s s'"
| from_cloud: "hfservice_cloud_data_recv scan type data len s = Some (r, s') \<Longrightarrow> hf_step s s'"
| init_round: "process_device_init ret through m i s = Some (e, s') \<Longrightarrow> hf_step s s'"
| state_round: "hf_step s (process_device_state ret m i s)"

lemma hf_step_kept: "hf_step s s' \<Longrightarrow> uart_ready s \<Longrightarrow> uart_ready s'"
proof (induction rule: hf_step.induct)
  case (init_round ret through m i s e s')
  then show ?case
    by (auto simp: process_device_init_def hfservice_device_init_cmd_def bind_eq_Some_conv uart_ready_blocks
        split: if_splits dest: down_data_action_kept)
qed (auto simp: process_device_state_def uart_ready_blocks fireUartSend_blocks fireUartSend_copies
      dest: uart_data_recv_kept cloud_data_recv_kept)

subsection \<open>A report and a command\<close>

lemma length_report [simp]: "length (report_tlv m) = 50"
  by (simp add: report_tlv_def)

lemma reported_out: "dataOut (reported d s) = dataOut s" "outLen (reported d s) = outLen s"
  by (simp_all add: reported_def structUpSynch_def)

lemma upstream_ready:
  assumes "hf_ok p" "19 \<le> length m" "m ! 0 = 0xAA"
  obtains p' z where "upstream m p = Some p'" "dataOut p' = Some (report_tlv m @ z)" "outLen p' = 50"
    "strUpKeysNow p \<noteq> up_image m \<Longrightarrow> strDownKeysNow p' = take 12 (up_image m)"
proof -
  obtain b where b: "dataOut p = Some b" "length b = 512" "dataOut_size p = 512" "length (strDownKeysNow p) = 12"
    using assms(1) by (auto simp: hf_ok_def block_def sizeof_StrDownKeys_def)
  let ?w = "writing (put b 0 (replicate (dataOut_size p) 0)) (report_tlv m) (up_image m) p"
  have u: "upstream m p = Some (reported m ?w)" using b assms by (intro upstream_eq) simp_all
  show ?thesis
  proof (rule that [OF u])
    show "dataOut (reported m ?w) = Some (report_tlv m @ drop 50 (put b 0 (replicate (dataOut_size p) 0)))"
      "outLen (reported m ?w) = 50" by (simp_all add: reported_out writing_def put_def)
    show "strDownKeysNow (reported m ?w) = take 12 (up_image m)" if "strUpKeysNow p \<noteq> up_image m"
      using that b(4) by (simp add: reported_def writing_def structUpSynch_def put_def sizeof_StrUpKeys_def
          sizeof_StrDownKeys_def up_image_def)
  qed
qed

lemma data_branch_eq:
  assumes "uart_blocks s" "memory_of f s = Some m" "19 \<le> length m" "m ! 0 = 0xAA"
  obtains p c where "data_branch f s =
      Some ((report_to_cloud (report_tlv m) (s\<lparr>protocol := p\<rparr>))\<lparr>up_copy_data := Some (report_tlv m @ c), up_copy_len := 50\<rparr>)"
proof -
  have p: "hf_ok (protocol s)" using assms(1) by (simp add: uart_blocks_def)
  obtain p' z where u: "upstream m (protocol s) = Some p'" "dataOut p' = Some (report_tlv m @ z)" "outLen p' = 50"
    by (rule upstream_ready [OF p assms(3,4)])
  obtain c where c: "up_copy_data s = Some c" "length c = 512" using assms(1) by (auto simp: uart_blocks_def block_def)
  have "data_branch f s = Some ((report_to_cloud (report_tlv m) (s\<lparr>protocol := p'\<rparr>))
      \<lparr>up_copy_data := Some (report_tlv m @ drop 50 c), up_copy_len := 50\<rparr>)"
    using assms(2) u c by (simp add: data_branch_def bytes_at_def UART_DOWN_NEED_ACK_def copy_to_def put_def Let_def)
  then show ?thesis by (rule that)
qed

text \<open>A chunk that arrives in an empty buffer.\<close>

lemma recv_chunk:
  assumes "uart_ready s" "recv_len s = 0" "recv_data s = Some b" "length d \<le> 512"
  obtains u where "hfservice_uart_data_recv scan t t' d (int (length d)) s = recv_loop scan u"
    "u = s\<lparr>last_recv := t', recv_data := Some (d @ drop (length d) b), recv_len := int (length d)\<rparr>"
    "length (d @ drop (length d) b) = 512"
proof
  have l: "length b = 512" using assms by (simp add: uart_ready_def)
  have z: "s\<lparr>recv_len := 0\<rparr> = s" using assms(2) by simp
  show "hfservice_uart_data_recv scan t t' d (int (length d)) s =
      recv_loop scan (s\<lparr>last_recv := t', recv_data := Some (d @ drop (length d) b), recv_len := int (length d)\<rparr>)"
    using assms l unfolding hfservice_uart_data_recv_def z if_cancel
    by (simp add: bytes_at_def put_def Let_def)
  show "length (d @ drop (length d) b) = 512" using l assms(4) by simp
qed simp

text \<open>The bytes in the receive buffer when a chunk has been taken in; those a frame does not begin are fatal.\<close>

definition chunk_taken :: "u32 \<Rightarrow> u8 list \<Rightarrow> uart \<Rightarrow> u8 list" where
  "chunk_taken t d s =
     (let old = (case recv_data s of None \<Rightarrow> [] | Some b \<Rightarrow> if t - last_recv s > 500 then [] else take (nat (recv_len s)) b)
      in if length old + length d > 512 then old @ take (4 - length old) d else old @ d)"

definition misaligned :: "u8 list \<Rightarrow> bool" where
  "misaligned bs \<longleftrightarrow> 4 \<le> length bs \<and> hd bs \<noteq> 0xAA \<and> 0xAA \<in> set (butlast bs)"

lemma frame_returns:
  assumes "uart_blocks s" "recv_data s = Some b" "b ! 0 = 0xAA" "n \<le> 512"
  shows "\<exists>s'. uart_data_process scan (Received 0) n s = Some s'"
proof -
  have b: "length b = 512" "memory_of (Received 0) s = Some b" using assms(1,2) by (simp_all add: uart_blocks_def memory_of_def)
  obtain c where c: "down_copy_data s = Some c" "length c = 512" using assms(1) by (auto simp: uart_blocks_def block_def)
  show ?thesis
  proof (cases "inited s")
    case True
    then have "uart_cmd_classify (Received 0) s = Some CMD_DATA"
      using b assms(3) by (cases b) (simp_all add: uart_cmd_classify_def peek_def)
    moreover obtain s' where "data_branch (Received 0) s = Some s'"
      using data_branch_eq [OF assms(1) b(2) _ assms(3)] b(1) by auto
    ultimately show ?thesis by (simp add: uart_data_process_def)
  next
    case False
    then have "uart_cmd_classify (Received 0) s = Some CMD_INIT" by (simp add: uart_cmd_classify_def)
    moreover have "memory_of (Received 0) (s\<lparr>inited := True, upload := False\<rparr>) = Some b" using b(2) by (simp add: memory_of_def)
    ultimately show ?thesis
      using c b(1) assms(4) by (simp add: uart_data_process_def init_branch_def bytes_at_def copy_to_def)
  qed
qed

lemma misaligned_take:
  assumes "n \<le> length b" "4 \<le> n"
  shows "misaligned (take n b) \<longleftrightarrow> b ! 0 \<noteq> 0xAA \<and> (\<exists>p. p + 1 < n \<and> b ! p = 0xAA)"
proof -
  have l: "length (take n b) = n" "butlast (take n b) = take (n - 1) b" using assms by (simp_all add: butlast_take)
  have h: "hd (take n b) = b ! 0" using assms by (cases b) auto
  have i: "(!) b ` {0..<n - 1} = set (take (n - 1) b)" by (rule nth_image) (use assms in simp)
  have "0xAA \<in> set (take (n - 1) b) \<longleftrightarrow> (\<exists>p < n - 1. b ! p = 0xAA)"
    unfolding i [symmetric] image_iff by (metis atLeastLessThan_iff zero_le)
  then show ?thesis using assms(2) unfolding misaligned_def l h less_diff_conv by blast
qed

lemma misaligned_iff:
  assumes "n \<le> length b" "4 \<le> n"
  shows "misaligned (take n b) \<longleftrightarrow> (\<exists>p. 0 < p \<and> p + 1 < n \<and> b ! p = 0xAA \<and> (\<forall>i < p. b ! i \<noteq> 0xAA))"
proof
  assume "misaligned (take n b)"
  then obtain q where q: "q + 1 < n" "b ! q = 0xAA" "b ! 0 \<noteq> 0xAA" unfolding misaligned_take [OF assms] by blast
  define p where "p = (LEAST i. b ! i = 0xAA)"
  have p: "b ! p = 0xAA" "p \<le> q" unfolding p_def using q(2) by (auto intro: LeastI Least_le)
  moreover have "\<forall>i < p. b ! i \<noteq> 0xAA" unfolding p_def using not_less_Least by blast
  moreover have "0 < p" using p(1) q(3) by (cases p) auto
  ultimately show "\<exists>p. 0 < p \<and> p + 1 < n \<and> b ! p = 0xAA \<and> (\<forall>i < p. b ! i \<noteq> 0xAA)" using q(1) by (intro exI [of _ p]) auto
next
  assume "\<exists>p. 0 < p \<and> p + 1 < n \<and> b ! p = 0xAA \<and> (\<forall>i < p. b ! i \<noteq> 0xAA)"
  then show "misaligned (take n b)" unfolding misaligned_take [OF assms] by blast
qed

lemma recv_loop_returns:
  assumes "uart_blocks s" "recv_data s = Some b" "recv_len s = int n" "n \<le> 512"
  shows "recv_loop scan s = None \<longleftrightarrow> misaligned (take n b)"
proof -
  have b: "length b = 512" "n \<le> length b" using assms by (simp_all add: uart_blocks_def)
  show ?thesis
  proof (cases "n < 4")
    case True
    then show ?thesis using assms(3) by (simp add: recv_loop_done misaligned_def)
  next
    case False
    then have n: "4 \<le> n" by simp
    note k = assms(2,3) n b(2)
    show ?thesis
    proof (cases "\<exists>i. i + 1 < n \<and> b ! i = 0xAA")
      case False
      then have "\<forall>i. i + 1 < n \<longrightarrow> b ! i \<noteq> 0xAA" by blast
      then show ?thesis using recv_headless [OF k, of scan] False unfolding misaligned_iff [OF b(2) n] by auto
    next
      case True
      show ?thesis
      proof (cases "b ! 0 = 0xAA")
        case True
        then have "\<not> misaligned (take n b)" unfolding misaligned_iff [OF b(2) n] by auto
        then show ?thesis using recv_frame [OF k True, of scan] frame_returns [OF assms(1,2) True assms(4), of scan] by auto
      next
        case False
        then have "misaligned (take n b)"
          using True unfolding misaligned_take [OF b(2) n] by blast
        then obtain p where p: "0 < p" "p + 1 < n" "b ! p = 0xAA" "\<forall>i < p. b ! i \<noteq> 0xAA"
          unfolding misaligned_iff [OF b(2) n] by blast
        show ?thesis using recv_late_head [OF k p] \<open>misaligned (take n b)\<close> by simp
      qed
    qed
  qed
qed

lemma uart_data_recv_returns:
  assumes "uart_ready s"
  shows "hfservice_uart_data_recv scan t t' d (int (length d)) s = None \<longleftrightarrow> misaligned (chunk_taken t d s)"
proof -
  obtain b where b: "recv_data s = Some b" "length b = 512" using assms by (auto simp: uart_ready_def block_def)
  define n0 where "n0 = (if t - last_recv s > 500 then 0 else nat (recv_len s))"
  define s0 where "s0 = s\<lparr>last_recv := t', recv_len := int n0\<rparr>"
  have n0: "n0 < 4" using assms by (auto simp: n0_def uart_ready_def)
  have s0: "(if UART_DATA_BYTE_INTERVAL \<noteq> 0 \<and> t - last_recv s > UART_DATA_BYTE_INTERVAL then s\<lparr>recv_len := 0\<rparr> else s)\<lparr>last_recv := t'\<rparr> = s0"
    using assms by (auto simp: s0_def n0_def uart_ready_def)
  define k where "k = (if n0 + length d > 512 then 4 - n0 else length d)"
  have k: "k \<le> length d" "n0 + k \<le> 512" using n0 by (auto simp: k_def)
  have tmp: "(if recv_len s0 + int (length d) > int DATA_OUT_MAX_SIZE then 4 - recv_len s0 else int (length d)) = int k"
    using n0 by (auto simp: s0_def k_def)
  let ?u = "s0\<lparr>recv_data := Some (put b n0 (take k d)), recv_len := int (n0 + k)\<rparr>"
  have l: "length (put b n0 (take k d)) = 512" using k b(2) by simp
  have "hfservice_uart_data_recv scan t t' d (int (length d)) s = recv_loop scan ?u"
    unfolding hfservice_uart_data_recv_def Let_def s0 tmp using k b by (simp add: s0_def bytes_at_def)
  moreover have "uart_blocks ?u" using assms l by (simp add: s0_def uart_ready_blocks uart_blocks_def)
  then have "recv_loop scan ?u = None \<longleftrightarrow> misaligned (take (n0 + k) (put b n0 (take k d)))"
    using k(2) by (intro recv_loop_returns) simp_all
  moreover have "take (n0 + k) (put b n0 (take k d)) = chunk_taken t d s"
    using k n0 b by (auto simp: put_def chunk_taken_def n0_def k_def Let_def)
  ultimately show ?thesis by simp
qed

text \<open>The calls of the cloud client that are in order.\<close>

definition cloud_ok :: "u8 list option list \<Rightarrow> CLOUD_DATA_TYPE \<Rightarrow> u8 list option \<Rightarrow> int option \<Rightarrow> uart \<Rightarrow> bool" where
  "cloud_ok scan type data len s \<longleftrightarrow>
     (type = EVENT_CLOUD_CONNECT \<longrightarrow> inited s \<and> (\<forall>n. Some n \<in> set scan \<longrightarrow> 7 \<le> length n)) \<and>
     (type = CMD_LOCAL_CTRL \<or> type = CMD_REMOTE_CTRL \<longrightarrow>
        (\<exists>fs x r. data = Some (command_bytes fs @ 0 # x # r) \<and> list_all field_ok fs)) \<and>
     (type = CMD_REMOTE_GET \<longrightarrow> len \<noteq> None \<and> (\<exists>d. data = Some d \<and> up_copy_len s \<le> length d))"

lemma scan_returns: "(\<forall>n. Some n \<in> set scan \<longrightarrow> 7 \<le> length n) \<Longrightarrow> \<exists>s'. for_each scan hfwifi_scan_test s = Some s'"
proof (induction scan arbitrary: s)
  case (Cons r scan)
  then have "\<exists>s1. hfwifi_scan_test r s = Some s1"
    by (cases r) (auto simp: hfwifi_scan_test_def bytes_at_def)
  then show ?case using Cons by auto
qed simp

lemma down_copy_returns:
  assumes "uart_blocks s" "inited s" "\<forall>n. Some n \<in> set scan \<longrightarrow> 7 \<le> length n"
  shows "\<exists>s'. uart_data_process scan Down_copy n s = Some s'"
proof -
  obtain c where c: "down_copy_data s = Some c" "length c = 512" using assms(1) by (auto simp: uart_blocks_def block_def)
  then have m: "memory_of Down_copy s = Some c" by (simp add: memory_of_def)
  obtain cmd where cmd: "uart_cmd_classify Down_copy s = Some cmd" "cmd = CMD_DATA \<longrightarrow> c ! 0 = 0xAA" "cmd \<noteq> CMD_INIT"
    using assms(2) m c(2) by (cases c) (auto simp: uart_cmd_classify_def peek_def)
  have "\<exists>s'. data_branch Down_copy s = Some s'" if "c ! 0 = 0xAA"
    using data_branch_eq [OF assms(1) m _ that] c(2) by auto
  then show ?thesis
    using cmd scan_returns [OF assms(3), of "emit_effect Wifi_scan s"] by (auto simp: uart_data_process_def)
qed

lemma cloud_data_recv_returns:
  assumes "uart_ready s" "cloud_ok scan type data len s"
  shows "\<exists>r s'. hfservice_cloud_data_recv scan type data len s = Some (r, s')"
proof -
  have ub: "uart_blocks s" using assms(1) by (simp add: uart_ready_blocks)
  obtain b c where b: "dataOut (protocol s) = Some b" "length b = 512" "dataOut_size (protocol s) = 512"
      "up_copy_data s = Some c" "length c = 512" "up_copy_len s \<le> 512"
    using ub by (auto simp: uart_blocks_def hf_ok_def block_def)
  consider "type = EVENT_CLOUD_CONNECT" | "type = CMD_LOCAL_CTRL \<or> type = CMD_REMOTE_CTRL" | "type = CMD_REMOTE_GET"
    | "type \<notin> {EVENT_CLOUD_CONNECT, CMD_LOCAL_CTRL, CMD_REMOTE_CTRL, CMD_REMOTE_GET}" by auto
  then show ?thesis
  proof cases
    case 1
    then show ?thesis
      using down_copy_returns [OF ub, of scan "down_copy_len s"] assms(2)
      by (auto simp: hfservice_cloud_data_recv_def cloud_ok_def)
  next
    case 2
    then obtain fs x r where d: "data = Some (command_bytes fs @ 0 # x # r)" "list_all field_ok fs"
      using assms(2) by (auto simp: cloud_ok_def)
    have "\<exists>p. downstream (command_bytes fs @ 0 # x # r) (protocol s) = Some p \<and> outLen p = 11"
      using downstream_eq [of "protocol s" b fs x r] b d(2) by simp
    then show ?thesis using 2 d(1) by (auto simp: hfservice_cloud_data_recv_def UART_DOWN_NEED_ACK_def Let_def)
  next
    case 3
    then show ?thesis using assms(2) b by (auto simp: hfservice_cloud_data_recv_def cloud_ok_def bytes_at_def copy_to_def)
  next
    case 4
    then show ?thesis by (auto simp: hfservice_cloud_data_recv_def)
  qed
qed

lemma device_init_returns:
  assumes "uart_ready s"
  shows "\<exists>e s'. process_device_init ret through m i s = Some (e, s')"
proof -
  obtain c where "down_copy_data s = Some c" "length c = 512" using assms by (auto simp: uart_ready_def block_def)
  then show ?thesis
    by (cases "ret > 0"; auto simp: process_device_init_def hfservice_device_init_cmd_def down_data_action_def DEVICE_DONT_NEED_MCU_def
        bytes_at_def copy_to_def fireUartSend_copies Let_def)
qed

text \<open>C31: HFService in operation: when its four blocks of 512 bytes are there, HFService_init succeeds, and
  after whatever has then come from the line and the cloud, in any order and with any answers of the SDK, the
  blocks and structures are whole, at most three bytes are in the receive buffer, and the next call keeps to
  them: a chunk of any length is undefined behaviour exactly when the buffer then holds at least four bytes and
  the first 0xAA among all but the last of them is not the first byte; every call of the cloud that is in order
  (a connection after the first frame, with names of networks of seven bytes or more; a command made of
  type-length-value fields; a query with room for the last report) and every round of the two threads returns,
  and all of them leave the service as whole as before.
\<close>
theorem service_kept:
  assumes "length m1 = 512" "length m2 = 512" "length m3 = 512" "length m4 = 512"
    and "length (strUpKeysNow (protocol s)) = sizeof_StrUpKeys" "length (strUpKeysDirty (protocol s)) = sizeof_StrUpKeys"
    and "length (strDownKeysNow (protocol s)) = sizeof_StrDownKeys" "length (strDownKeysDirty (protocol s)) = sizeof_StrDownKeys"
    and "recv_len s = 0" "up_copy_len s = 0" "down_copy_len s = 0"
    and "hf_step\<^sup>*\<^sup>* (snd (HFService_init (Some m1) (Some m2) (Some m3) (Some m4) s)) s'"
  shows "fst (HFService_init (Some m1) (Some m2) (Some m3) (Some m4) s) = HFSERV_STATE_OK \<and> uart_ready s' \<and>
    (\<forall>scan t t' d. if misaligned (chunk_taken t d s')
       then hfservice_uart_data_recv scan t t' d (int (length d)) s' = None
       else wp (hfservice_uart_data_recv scan t t' d (int (length d)) s') uart_ready) \<and>
    (\<forall>scan type data len. cloud_ok scan type data len s' \<longrightarrow>
       wp (hfservice_cloud_data_recv scan type data len s') (\<lambda>(r, u). uart_ready u)) \<and>
    (\<forall>ret through m i. wp (process_device_init ret through m i s') (\<lambda>(e, u). uart_ready u)) \<and>
    (\<forall>ret m i. uart_ready (process_device_state ret m i s'))"
proof -
  have "uart_ready (snd (HFService_init (Some m1) (Some m2) (Some m3) (Some m4) s))"
    using assms(1-11)
    by (simp add: HFService_init_def Let_def uart_ready_def hf_ok_def setHeap_def UART_DOWN_NEED_ACK_def DEVICE_DONT_NEED_MCU_def emit_effect_def)
  with assms(12) have r: "uart_ready s'"
    by (induction rule: rtranclp_induct) (auto dest: hf_step_kept)
  note k = hf_step_kept [OF _ r]
  have "fst (HFService_init (Some m1) (Some m2) (Some m3) (Some m4) s) = HFSERV_STATE_OK"
    by (simp add: HFService_init_def Let_def)
  moreover have "if misaligned (chunk_taken t d s') then hfservice_uart_data_recv scan t t' d (int (length d)) s' = None
      else wp (hfservice_uart_data_recv scan t t' d (int (length d)) s') uart_ready" for scan t t' d
    using uart_data_recv_returns [OF r, of scan t t' d] k [OF from_uart] by (auto simp: wp_Some_iff)
  moreover have "wp (hfservice_cloud_data_recv scan type data len s') (\<lambda>(r, u). uart_ready u)"
    if "cloud_ok scan type data len s'" for scan type data len
    using cloud_data_recv_returns [OF r that] k [OF from_cloud] by (auto simp: wp_Some_iff)
  moreover have "wp (process_device_init ret through m i s') (\<lambda>(e, u). uart_ready u)" for ret through m i
    using device_init_returns [OF r, of ret through m i] k [OF init_round] by (auto simp: wp_Some_iff)
  ultimately show ?thesis using r k [OF state_round] by blast
qed

definition hf_zero :: hf where
  "hf_zero = \<lparr>dataOut = None, dataOut_size = 0, outLen = 0, device_updated = 0, strUpKeysNow = replicate 24 0,
     strUpKeysDirty = replicate 24 0, strDownKeysNow = replicate 12 0, strDownKeysDirty = replicate 12 0\<rparr>"

definition uart_zero :: uart where
  "uart_zero = \<lparr>protocol = hf_zero, recv_data = None, recv_len = 0, last_recv = 0, inited = False, upload = False,
     up_copy_data = None, up_copy_len = 0, down_copy_data = None, down_copy_len = 0, local_waiting = False,
     remote_waiting = False, product_test = False, init_sem = False, uart_mutex = False, effects = []\<rparr>"

definition uart_started :: uart where
  "uart_started = snd (HFService_init (Some (replicate 512 7)) (Some (replicate 512 7)) (Some (replicate 512 7))
     (Some (replicate 512 7)) uart_zero)"

lemma service_kept_witness:
  "wp (hfservice_uart_data_recv [] 9 9 (replicate 600 7) 600 (process_device_state 1 True 4 uart_started)) uart_ready"
proof -
  let ?s = "process_device_state 1 True 4 uart_started"
  have "hf_step\<^sup>*\<^sup>* uart_started ?s"
    by (intro r_into_rtranclp state_round)
  moreover have r: "length (replicate 512 (7 :: u8)) = 512" by simp
  moreover have z: "length (strUpKeysNow (protocol uart_zero)) = sizeof_StrUpKeys"
    "length (strUpKeysDirty (protocol uart_zero)) = sizeof_StrUpKeys"
    "length (strDownKeysNow (protocol uart_zero)) = sizeof_StrDownKeys"
    "length (strDownKeysDirty (protocol uart_zero)) = sizeof_StrDownKeys"
    "recv_len uart_zero = 0" "up_copy_len uart_zero = 0" "down_copy_len uart_zero = 0"
    by (simp_all add: uart_zero_def hf_zero_def sizeof_StrUpKeys_def sizeof_StrDownKeys_def)
  ultimately have "if misaligned (chunk_taken t d ?s) then hfservice_uart_data_recv scan t t' d (int (length d)) ?s = None
      else wp (hfservice_uart_data_recv scan t t' d (int (length d)) ?s) uart_ready" for scan t t' d
    using service_kept [OF r r r r z, folded uart_started_def] by blast
  from this [of 9 "replicate 600 7" "[]" 9]
  have "misaligned (chunk_taken 9 (replicate 600 7) ?s) \<or>
      wp (hfservice_uart_data_recv [] 9 9 (replicate 600 7) 600 ?s) uart_ready"
    by (simp split: if_splits)
  moreover have "recv_len ?s = 0" "recv_data ?s = Some (replicate 512 7)" "last_recv ?s = 0"
    by (simp_all add: uart_started_def HFService_init_def setHeap_def uart_zero_def process_device_state_def fireUartSend_def
        UART_DOWN_NEED_ACK_def DEVICE_DONT_NEED_MCU_def emit_effect_def Let_def)
  then have "\<not> misaligned (chunk_taken 9 (replicate 600 7) ?s)"
    by (auto simp: misaligned_def chunk_taken_def dest!: in_set_butlastD)
  ultimately show ?thesis by simp
qed

text \<open>C32: A report of the appliance. Once the service is initialised, a frame of 4 to 512 bytes that begins
  with 0xAA and comes into an empty buffer is sent to the cloud as its fifteen fields, as
  the answer to a local command if one waits, else to a remote one, else as an update; the buffer is
  empty again and a query of the cloud is answered with the same fields. The fields are read from the
  first 19 bytes of the buffer: those of a shorter frame are completed with bytes of earlier ones.
\<close>
theorem uart_report:
  assumes "uart_ready s" "inited s" "recv_len s = 0" "recv_data s = Some b" "4 \<le> length d" "length d \<le> 512" "d ! 0 = 0xAA"
    and "50 \<le> length z"
  defines "tlv \<equiv> report_tlv (d @ drop (length d) b)"
    and "target \<equiv> if local_waiting s then RSP_LOCAL_CTRL else if remote_waiting s then RSP_REMOTE_CTRL else UPDATE_DATA"
  shows "\<exists>s'. hfservice_uart_data_recv scan t t' d (int (length d)) s = Some s' \<and>
     effects s' = effects s @ [Cloud_send target tlv] \<and>
     \<not> local_waiting s' \<and> (remote_waiting s' \<longleftrightarrow> local_waiting s \<and> remote_waiting s) \<and> recv_len s' = 0 \<and>
     hfservice_cloud_data_recv scan CMD_REMOTE_GET (Some z) (Some l) s' = Some ((Some (put z 0 tlv), Some 50), s')"
proof -
  let ?m = "d @ drop (length d) b"
  obtain u where r: "hfservice_uart_data_recv scan t t' d (int (length d)) s = recv_loop scan u"
    and u: "u = s\<lparr>last_recv := t', recv_data := Some ?m, recv_len := int (length d)\<rparr>" and l: "length ?m = 512"
    by (rule recv_chunk [OF assms(1,3,4,6)])
  have m: "?m ! 0 = 0xAA" using assms(5,7) by (cases d) auto
  have ub: "uart_blocks u" using assms(1) l by (simp add: u uart_ready_blocks uart_blocks_def)
  have mem: "memory_of (Received 0) u = Some ?m" by (simp add: memory_of_def u)
  have e: "19 \<le> length ?m" using l by simp
  obtain p c where d0: "data_branch (Received 0) u =
      Some ((report_to_cloud (report_tlv ?m) (u\<lparr>protocol := p\<rparr>))\<lparr>up_copy_data := Some (report_tlv ?m @ c), up_copy_len := 50\<rparr>)"
    by (rule data_branch_eq [OF ub mem e m])
  note d = d0 [folded tlv_def]
  have "uart_cmd_classify (Received 0) u = Some CMD_DATA"
    unfolding uart_cmd_classify_def mem peek_def using assms(2,5) m by (cases d) (simp_all add: u)
  then have "uart_data_process scan (Received 0) (length d) u = data_branch (Received 0) u"
    by (simp add: uart_data_process_def)
  then have "recv_loop scan u = Some ((report_to_cloud tlv (u\<lparr>protocol := p\<rparr>))
      \<lparr>up_copy_data := Some (tlv @ c), up_copy_len := 50, recv_len := 0\<rparr>)"
    using recv_frame [of u ?m "length d" scan] assms(5,6) l m d by (simp add: u)
  moreover have "length tlv = 50" by (simp add: tlv_def)
  ultimately show ?thesis
    using assms(8) r
    by (auto simp: report_to_cloud_def emit_effect_def u target_def hfservice_cloud_data_recv_def bytes_at_def copy_to_def)
qed

lemma uart_report_witness:
  "\<exists>s'. hfservice_uart_data_recv [] 9 9 [0xAA, 1, 2, 3] 4 (uart_started\<lparr>inited := True\<rparr>) = Some s' \<and> effects s' \<noteq> [] \<and> recv_len s' = 0"
proof -
  have r: "uart_ready uart_started" "recv_data uart_started = Some (replicate 512 7)" "recv_len uart_started = 0"
    by (simp_all add: uart_started_def HFService_init_def uart_ready_def hf_ok_def setHeap_def uart_zero_def hf_zero_def
        sizeof_StrUpKeys_def sizeof_StrDownKeys_def UART_DOWN_NEED_ACK_def DEVICE_DONT_NEED_MCU_def emit_effect_def Let_def)
  show ?thesis
    using uart_report [of "uart_started\<lparr>inited := True\<rparr>" "replicate 512 7" "[0xAA, 1, 2, 3]" "replicate 50 0" "[]" 9 9 0] r
    by (auto simp: uart_ready_def)
qed

text \<open>C34: Noise before a frame: a chunk of 4 to 512 bytes that comes into an empty buffer and has its first
  0xAA after another byte, not at its very end, takes the service outside the language. The length of
  the frame is counted from the start of the buffer and not from the head, so more bytes are dropped
  than were received, and the copy that closes the gap gets a negative length.
\<close>
theorem uart_noise:
  assumes "uart_ready s" "recv_len s = 0" "4 \<le> length d" "length d \<le> 512"
    and "0 < p" "p + 1 < length d" "d ! p = 0xAA" "\<forall>i < p. d ! i \<noteq> 0xAA"
  shows "hfservice_uart_data_recv scan t t' d (int (length d)) s = None"
proof -
  obtain b where b: "recv_data s = Some b" using assms(1) by (auto simp: uart_ready_def block_def)
  obtain u where r: "hfservice_uart_data_recv scan t t' d (int (length d)) s = recv_loop scan u"
    and u: "u = s\<lparr>last_recv := t', recv_data := Some (d @ drop (length d) b), recv_len := int (length d)\<rparr>"
    and l: "length (d @ drop (length d) b) = 512"
    by (rule recv_chunk [OF assms(1,2) b assms(4)])
  have "recv_loop scan u = None"
    by (rule recv_late_head [of u "d @ drop (length d) b" "length d" p]) (use assms(3-8) l in \<open>auto simp: u nth_append\<close>)
  then show ?thesis by (simp add: r)
qed

lemma uart_noise_witness: "hfservice_uart_data_recv [] 9 9 [0, 0xAA, 1, 2] 4 uart_started = None"
proof -
  have "uart_ready uart_started" "recv_len uart_started = 0"
    by (simp_all add: uart_started_def HFService_init_def uart_ready_def hf_ok_def setHeap_def uart_zero_def hf_zero_def
        sizeof_StrUpKeys_def sizeof_StrDownKeys_def UART_DOWN_NEED_ACK_def DEVICE_DONT_NEED_MCU_def emit_effect_def Let_def)
  then show ?thesis using uart_noise [of uart_started "[0, 0xAA, 1, 2]" 1 "[]" 9 9] by simp
qed

text \<open>What the flags of a frame are: the lowest bits of the first seven members.\<close>

lemma apply_field_frame:
  assumes "length k = 12" "0 < unat (fst f)" "unat (fst f) \<le> 7"
  shows "length (apply_field f k) = 12 \<and> (\<forall>j \<ge> 7. apply_field f k ! j = k ! j)"
  using assms by (cases f) (auto simp: apply_field_def Let_def)

lemma apply_fields_frame:
  "length k = 12 \<Longrightarrow> \<forall>f \<in> set fs. 0 < unat (fst f) \<and> unat (fst f) \<le> 7 \<Longrightarrow>
     length (fold apply_field fs k) = 12 \<and> (\<forall>j \<ge> 7. fold apply_field fs k ! j = k ! j)"
proof (induction fs arbitrary: k)
  case (Cons f fs)
  then show ?case using apply_field_frame [of k f] by auto
qed simp

lemma apply_field_switch:
  "take 7 a = take 7 c \<Longrightarrow> 0 < unat (fst f) \<Longrightarrow> unat (fst f) \<le> 7 \<Longrightarrow> take 7 (apply_field f a) = take 7 (apply_field f c)"
  by (cases f) (simp add: apply_field_def take_update_swap)

lemma apply_fields_switches:
  "take 7 a = take 7 c \<Longrightarrow> \<forall>f \<in> set fs. 0 < unat (fst f) \<and> unat (fst f) \<le> 7 \<Longrightarrow>
     take 7 (fold apply_field fs a) = take 7 (fold apply_field fs c)"
proof (induction fs arbitrary: a c)
  case (Cons f fs)
  show ?case
    using Cons.IH [of "apply_field f a" "apply_field f c"] Cons.prems apply_field_switch [of a c f] by simp
qed simp

text \<open>C33: A command after a report is built on the wrong values. When a report differs from the one before,
  and a command from the cloud then sets only some of the seven switches, the frame built carries
  the switches asked for, but as mode the filter warning of the report, as timer the reported mode and
  as fan speed the low byte of the reported timer: the report's structure is copied byte by byte over
  the start of one with other members.
\<close>
theorem command_after_report:
  assumes "hf_ok p" "19 \<le> length d" "d ! 0 = 0xAA" "strUpKeysNow p \<noteq> up_image d"
    and "list_all field_ok fs" "\<forall>f \<in> set fs. unat (fst f) \<le> 7"
  shows "\<exists>p1 p2 z. upstream d p = Some p1 \<and> downstream (command_bytes fs @ 0 # x # r) p1 = Some p2 \<and> outLen p2 = 11 \<and>
     dataOut p2 = Some ([0xAA, 0, 0, 0, 0, 0, flags (fold apply_field fs (map (flag (d ! 6)) [0..<7] @ replicate 5 0)),
       flag (d ! 6) 7, 0, d ! 7, d ! 8] @ z)"
proof -
  obtain p1 z where u: "upstream d p = Some p1" "strDownKeysNow p1 = take 12 (up_image d)"
    using upstream_ready [OF assms(1-3)] assms(4) by metis
  have ok: "hf_ok p1" by (rule upstream_kept [OF u(1) assms(1)])
  then obtain b where b: "dataOut p1 = Some b" "length b = 512" "dataOut_size p1 = 512"
    by (auto simp: hf_ok_def block_def)
  define k where "k = fold apply_field fs (take 12 (up_image d))"
  have nz: "\<forall>f \<in> set fs. 0 < unat (fst f) \<and> unat (fst f) \<le> 7"
  proof
    fix f assume "f \<in> set fs"
    then have "fst f \<noteq> 0" "unat (fst f) \<le> 7" using assms(5,6) by (auto simp: list_all_iff field_ok_def)
    then show "0 < unat (fst f) \<and> unat (fst f) \<le> 7" by (simp add: unat_gt_0)
  qed
  have im: "take 12 (up_image d) = map (flag (d ! 6)) [0..<7] @ [flag (d ! 6) 7, d ! 7, 0, d ! 8, d ! 9]"
    by (simp add: up_image_def upt_rec eval_nat_numeral)
  have k: "\<forall>j \<ge> 7. k ! j = take 12 (up_image d) ! j"
    unfolding k_def using apply_fields_frame [OF _ nz, of "take 12 (up_image d)"] by (simp add: up_image_def)
  have fl: "flags k = flags (fold apply_field fs (map (flag (d ! 6)) [0..<7] @ replicate 5 0))"
  proof -
    have "take 7 k = take 7 (fold apply_field fs (map (flag (d ! 6)) [0..<7] @ replicate 5 0))"
      unfolding k_def by (rule apply_fields_switches) (use nz in \<open>simp_all add: im\<close>)
    then have "k ! j = fold apply_field fs (map (flag (d ! 6)) [0..<7] @ replicate 5 0) ! j" if "j < 7" for j
      using that by (metis nth_take)
    then show ?thesis by (simp add: flags_def del: push_bit_Suc)
  qed
  have "downstream (command_bytes fs @ 0 # x # r) p1 =
    Some (p1\<lparr>dataOut := Some (put (put b 0 (replicate (dataOut_size p1) 0)) 0 (command_frame k)), outLen := 11,
            strDownKeysDirty := k\<rparr>)"
    using downstream_eq [of p1 b fs x r] b assms(5) u(2) by (simp add: k_def)
  then show ?thesis
    using u(1) k fl by (auto simp: command_frame_def put_def im nth_append)
qed

lemma command_after_report_witness:
  "\<exists>p1 p2. upstream (0xAA # replicate 18 9) (setHeap (replicate 512 0) 512 hf_zero) = Some p1 \<and>
     downstream [1, 1, 1, 0, 0] p1 = Some p2 \<and> outLen p2 = 11"
proof -
  have "hf_ok (setHeap (replicate 512 0) 512 hf_zero)"
    by (simp add: hf_ok_def setHeap_def hf_zero_def sizeof_StrUpKeys_def sizeof_StrDownKeys_def)
  moreover have "strUpKeysNow (setHeap (replicate 512 0) 512 hf_zero) ! 8 \<noteq> up_image (0xAA # replicate 18 9) ! 8"
    by (simp add: setHeap_def hf_zero_def up_image_def nth_append)
  ultimately have "\<exists>p1 p2 z. upstream (0xAA # replicate 18 9) (setHeap (replicate 512 0) 512 hf_zero) = Some p1 \<and>
      downstream (command_bytes [(1, [1])] @ 0 # 0 # []) p1 = Some p2 \<and> outLen p2 = 11 \<and>
      dataOut p2 = Some ([0xAA, 0, 0, 0, 0, 0, flags (fold apply_field [(1, [1])]
        (map (flag ((0xAA # replicate 18 9) ! 6)) [0..<7] @ replicate 5 0)),
       flag ((0xAA # replicate 18 9) ! 6) 7, 0, (0xAA # replicate 18 9) ! 7, (0xAA # replicate 18 9) ! 8] @ z)"
    by (intro command_after_report) (auto simp: field_ok_def)
  moreover have "command_bytes [(1, [1])] @ 0 # 0 # [] = [1, 1, 1, 0, 0]" by (simp add: command_bytes_def)
  ultimately show ?thesis by metis
qed

end
