(* ===== verification/Jsmn.thy ===== *)
theory Jsmn
  imports CStrings
begin

text \<open>
  \<open>JingDong/jsmn/jsmn.c\<close>: the JSON tokenizer, with \<open>JSMN_STRICT\<close> and \<open>JSMN_PARENT_LINKS\<close>. Positions and
  indices are \<open>int16\<close> and wrap. The text is memory from its first byte on; reading beside it is \<open>None\<close>,
  and so is a token outside the array.
\<close>

type_synonym i16 = "16 word"

datatype jsmntype_t = JSMN_PRIMITIVE | JSMN_OBJECT | JSMN_ARRAY | JSMN_STRING

datatype jsmnerr_t = JSMN_ERROR_NOMEM | JSMN_ERROR_INVAL | JSMN_ERROR_PART

record jsontok_t =
  tok_type :: jsmntype_t
  tok_size :: u8
  tok_start :: i16
  tok_end :: i16
  tok_parent :: i16

record jsmn_parser =
  jpos :: i16
  toknext :: i16
  toksuper :: i16

subsection \<open>Memory\<close>

text \<open>\<open>parser->pos < len\<close>: the position becomes a \<open>size_t\<close>.\<close>

definition before :: "i16 \<Rightarrow> nat \<Rightarrow> bool" where
  "before p len \<longleftrightarrow> unat (scast p :: u32) < len"

definition char_at :: "cbuf \<Rightarrow> i16 \<Rightarrow> char option" where
  "char_at js p = (if 0 \<le> sint p \<and> nat (sint p) < length js then Some (js ! nat (sint p)) else None)"

definition token_at :: "jsontok_t list \<Rightarrow> i16 \<Rightarrow> jsontok_t option" where
  "token_at T i = (if 0 \<le> sint i \<and> nat (sint i) < length T then Some (T ! nat (sint i)) else None)"

definition with_token :: "(jsontok_t \<Rightarrow> jsontok_t) \<Rightarrow> i16 \<Rightarrow> jsontok_t list \<Rightarrow> jsontok_t list option" where
  "with_token f i T = do { t \<leftarrow> token_at T i; Some (T[nat (sint i) := f t]) }"

subsection \<open>Positions only grow\<close>

text \<open>How much of the text lies behind a position; none when it has wrapped.\<close>

definition text_left :: "cbuf \<Rightarrow> i16 \<Rightarrow> nat" where
  "text_left js p = (if 0 \<le> sint p then length js - nat (sint p) else 0)"

lemma sint_next: "sint (p + 1 :: i16) = (if sint p = 32767 then - 32768 else sint p + 1)"
proof -
  have b: "- 32768 \<le> sint p" "sint p \<le> 32767" using sint_greater_eq [of p] sint_lt [of p] by simp_all
  have "sint (p + 1) = signed_take_bit 15 (sint p + 1)" by (simp add: sint_word_ariths)
  then show ?thesis using b by (cases "sint p = 32767") (simp_all add: signed_take_bit_int_eq_self)
qed

lemma text_left_next:
  "char_at js p \<noteq> None \<Longrightarrow> sint p \<le> sint q \<Longrightarrow> text_left js (q + 1) < text_left js p"
  by (auto simp: text_left_def char_at_def sint_next split: if_splits)

subsection \<open>Tokens\<close>

text \<open>Inner \<open>None\<close> is the result NULL.\<close>

definition jsmn_alloc_token ::
  "jsmn_parser \<Rightarrow> jsontok_t list \<Rightarrow> nat \<Rightarrow> (i16 \<times> jsmn_parser \<times> jsontok_t list) option option" where
  "jsmn_alloc_token parser T num_tokens =
     (if \<not> before (toknext parser) num_tokens then Some None
      else do {
        T \<leftarrow> with_token (\<lambda>t. t\<lparr>tok_start := -1, tok_end := -1, tok_size := 0, tok_parent := -1\<rparr>) (toknext parser) T;
        Some (Some (toknext parser, parser\<lparr>toknext := toknext parser + 1\<rparr>, T))
      })"

definition jsmn_fill_token :: "jsmntype_t \<Rightarrow> i16 \<Rightarrow> i16 \<Rightarrow> jsontok_t \<Rightarrow> jsontok_t" where
  "jsmn_fill_token type s e t = t\<lparr>tok_type := type, tok_start := s, tok_end := e, tok_size := 0\<rparr>"

text \<open>
  A result: an error (the code negative) or none, with parser and tokens as they are then. \<open>None\<close> for the
  tokens is the null pointer, a run that only counts.
\<close>

type_synonym jsmn_result = "jsmnerr_t option \<times> jsmn_parser \<times> jsontok_t list option"

text \<open>The end of \<open>jsmn_parse_primitive\<close> and of \<open>jsmn_parse_string\<close>: a token for what was found.\<close>

definition found_token :: "jsmntype_t \<Rightarrow> i16 \<Rightarrow> i16 \<Rightarrow> i16 \<Rightarrow> i16 \<Rightarrow> jsmn_parser \<Rightarrow> jsontok_t list option \<Rightarrow> nat \<Rightarrow>
    jsmn_result option" where
  "found_token type s e start after parser tokens num_tokens =
     (case tokens of
        None \<Rightarrow> Some (None, parser\<lparr>jpos := after\<rparr>, None)
      | Some T \<Rightarrow> do {
          r \<leftarrow> jsmn_alloc_token parser T num_tokens;
          case r of
            None \<Rightarrow> Some (Some JSMN_ERROR_NOMEM, parser\<lparr>jpos := start\<rparr>, tokens)
          | Some (i, parser, T) \<Rightarrow> do {
              T \<leftarrow> with_token (jsmn_fill_token type s e) i T;
              T \<leftarrow> with_token (\<lambda>t. t\<lparr>tok_parent := toksuper parser\<rparr>) i T;
              Some (None, parser\<lparr>jpos := after\<rparr>, Some T)
            }
        })"

datatype scanned = Found i16 | Failed jsmnerr_t

definition is_separator :: "char \<Rightarrow> bool" where
  "is_separator c \<longleftrightarrow> c \<in> {CHR 0x09, CHR 0x0D, CHR 0x0A, CHR '' '', CHR '','', CHR '']'', CHR ''}''}"

function primitive_scan :: "cbuf \<Rightarrow> nat \<Rightarrow> i16 \<Rightarrow> scanned option" where
  "primitive_scan js len p =
     (if before p len then
        (case char_at js p of
           None \<Rightarrow> None
         | Some c \<Rightarrow>
             if c = NUL then Some (Failed JSMN_ERROR_PART)
             else if is_separator c then Some (Found p)
             else if (of_char c :: nat) < 32 \<or> (of_char c :: nat) \<ge> 127 then Some (Failed JSMN_ERROR_INVAL)
             else primitive_scan js len (p + 1))
      else Some (Failed JSMN_ERROR_PART))"
  by auto
termination by (relation "measure (\<lambda>(js, len, p). text_left js p)") (auto intro: text_left_next)

declare primitive_scan.simps [simp del]

definition jsmn_parse_primitive ::
  "cbuf \<Rightarrow> nat \<Rightarrow> nat \<Rightarrow> jsmn_parser \<Rightarrow> jsontok_t list option \<Rightarrow> jsmn_result option" where
  "jsmn_parse_primitive js len num_tokens parser tokens =
     do {
       let start = jpos parser;
       r \<leftarrow> primitive_scan js len start;
       case r of
         Failed e \<Rightarrow> Some (Some e, parser\<lparr>jpos := start\<rparr>, tokens)
       | Found p \<Rightarrow> found_token JSMN_PRIMITIVE start p start (p - 1) parser tokens num_tokens
     }"

text \<open>The four digits of an escape, the end of the text too; inner \<open>None\<close> is a byte that is no digit.\<close>

definition is_hex :: "char \<Rightarrow> bool" where
  "is_hex c = (let n = (of_char c :: nat) in (48 \<le> n \<and> n \<le> 57) \<or> (65 \<le> n \<and> n \<le> 70) \<or> (97 \<le> n \<and> n \<le> 102))"

fun hex_scan :: "cbuf \<Rightarrow> nat \<Rightarrow> i16 \<Rightarrow> i16 option option" where
  "hex_scan js 0 p = Some (Some p)"
| "hex_scan js (Suc k) p =
     (case char_at js p of
        None \<Rightarrow> None
      | Some c \<Rightarrow> if c = NUL then Some (Some p) else if \<not> is_hex c then Some None else hex_scan js k (p + 1))"

text \<open>The position of the last byte of an escape that begins at \<open>p\<close>.\<close>

definition escape_scan :: "cbuf \<Rightarrow> i16 \<Rightarrow> i16 option option" where
  "escape_scan js p =
     do {
       c \<leftarrow> char_at js (p + 1);
       if c \<in> {CHR 0x22, CHR ''/'', CHR 0x5C, CHR ''b'', CHR ''f'', CHR ''r'', CHR ''n'', CHR ''t''}
       then Some (Some (p + 1))
       else if c = CHR ''u'' then do {
         r \<leftarrow> hex_scan js 4 (p + 1 + 1);
         Some (map_option (\<lambda>q. q - 1) r)
       }
       else Some None
     }"

lemma sint_prev: "sint (p - 1 :: i16) = (if sint p = - 32768 then 32767 else sint p - 1)"
  using sint_next [of "p - 1"] sint_greater_eq [of p] sint_lt [of p] sint_greater_eq [of "p - 1"] sint_lt [of "p - 1"]
  by (auto split: if_splits)

lemma hex_scan_grows:
  "hex_scan js k p = Some (Some q) \<Longrightarrow> 0 \<le> sint p \<Longrightarrow> sint q = - 32768 \<or> sint p \<le> sint q"
proof (induction js k p rule: hex_scan.induct)
  case (2 js k p)
  obtain c where c: "char_at js p = Some c" using 2(2) by (auto split: option.splits)
  show ?case
  proof (cases "c = NUL")
    case True
    then show ?thesis using 2(2) c by simp
  next
    case False
    then have r: "is_hex c" "hex_scan js k (p + 1) = Some (Some q)" using 2(2) c by (auto split: if_splits)
    show ?thesis
    proof (cases "sint p = 32767")
      case True
      then have w: "sint (p + 1) = - 32768" by (simp add: sint_next)
      then have "char_at js (p + 1) = None" by (simp add: char_at_def)
      then have "q = p + 1" using r(2) by (cases k) auto
      then show ?thesis using w by simp
    next
      case False
      then have n: "sint (p + 1) = sint p + 1" by (simp add: sint_next)
      then show ?thesis using 2(1) [OF c \<open>c \<noteq> NUL\<close>] r 2(3) by auto
    qed
  qed
qed simp

lemma escape_scan_grows:
  assumes "escape_scan js p = Some (Some q)" "char_at js p \<noteq> None"
  shows "sint p \<le> sint q"
proof -
  have c: "char_at js (p + 1) \<noteq> None" using assms(1) by (auto simp: escape_scan_def bind_eq_Some_conv)
  then have n: "0 \<le> sint p" "sint (p + 1) = sint p + 1"
    using assms(2) by (auto simp: char_at_def sint_next split: if_splits)
  consider "q = p + 1" | r where "hex_scan js 4 (p + 1 + 1) = Some (Some r)" "q = r - 1"
    using assms(1) by (auto simp: escape_scan_def bind_eq_Some_conv split: if_splits)
  then show ?thesis
  proof cases
    case 2
    define w where "w = p + 1 + 1"
    have e: "sint w = (if sint (p + 1) = 32767 then - 32768 else sint (p + 1) + 1)" unfolding w_def by (rule sint_next)
    have "char_at js w \<noteq> None" using 2(1) unfolding w_def [symmetric] by (auto simp: eval_nat_numeral split: option.splits)
    then have m: "0 \<le> sint w" "sint w = sint p + 2" using n e by (auto simp: char_at_def split: if_splits)
    have "sint r = - 32768 \<or> sint p + 2 \<le> sint r" using hex_scan_grows [OF 2(1) [folded w_def] m(1)] m(2) by simp
    then show ?thesis using n(1) sint_lt [of p] 2(2) by (auto simp: sint_prev)
  qed (use n in simp)
qed

function string_scan :: "cbuf \<Rightarrow> nat \<Rightarrow> i16 \<Rightarrow> scanned option" where
  "string_scan js len p =
     (if before p len then
        (case char_at js p of
           None \<Rightarrow> None
         | Some c \<Rightarrow>
             if c = NUL then Some (Failed JSMN_ERROR_PART)
             else if c = CHR 0x22 then Some (Found p)
             else if c = CHR 0x5C then
               (case escape_scan js p of
                  None \<Rightarrow> None
                | Some None \<Rightarrow> Some (Failed JSMN_ERROR_INVAL)
                | Some (Some q) \<Rightarrow> string_scan js len (q + 1))
             else string_scan js len (p + 1))
      else Some (Failed JSMN_ERROR_PART))"
  by auto
termination
  by (relation "measure (\<lambda>(js, len, p). text_left js p)") (auto intro!: text_left_next dest: escape_scan_grows)

declare string_scan.simps [simp del]

definition jsmn_parse_string ::
  "cbuf \<Rightarrow> nat \<Rightarrow> nat \<Rightarrow> jsmn_parser \<Rightarrow> jsontok_t list option \<Rightarrow> jsmn_result option" where
  "jsmn_parse_string js len num_tokens parser tokens =
     do {
       let start = jpos parser;
       r \<leftarrow> string_scan js len (start + 1);
       case r of
         Failed e \<Rightarrow> Some (Some e, parser\<lparr>jpos := start\<rparr>, tokens)
       | Found p \<Rightarrow> found_token JSMN_STRING (start + 1) p start p parser tokens num_tokens
     }"

subsection \<open>The parser\<close>

text \<open>A container that is still open.\<close>

definition open_token :: "jsontok_t \<Rightarrow> bool" where
  "open_token t \<longleftrightarrow> tok_start t \<noteq> -1 \<and> tok_end t = -1"

text \<open>
  The search for the container a bracket closes, from token \<open>i\<close> up. The chain of parents is followed
  until it ends; on a chain that never ends the search does not return.
\<close>

partial_function (option) close_search ::
  "jsmntype_t \<Rightarrow> jsmn_parser \<Rightarrow> jsontok_t list \<Rightarrow> i16 \<Rightarrow> jsmn_result option" where
  "close_search type parser T i =
     do {
       t \<leftarrow> token_at T i;
       if open_token t then
         if tok_type t \<noteq> type then Some (Some JSMN_ERROR_INVAL, parser, Some T)
         else do {
           T \<leftarrow> with_token (\<lambda>t. t\<lparr>tok_end := jpos parser + 1\<rparr>) i T;
           Some (None, parser\<lparr>toksuper := tok_parent t\<rparr>, Some T)
         }
       else if tok_parent t = -1 then Some (None, parser, Some T)
       else close_search type parser T (tok_parent t)
     }"

declare close_search.simps [code]

text \<open>\<open>tokens[parser->toksuper].size++\<close> behind its test.\<close>

definition count_child :: "jsmn_parser \<Rightarrow> jsontok_t list option \<Rightarrow> jsontok_t list option option" where
  "count_child parser tokens =
     (case tokens of
        None \<Rightarrow> Some None
      | Some T \<Rightarrow>
          if toksuper parser \<noteq> -1
          then do { T \<leftarrow> with_token (\<lambda>t. t\<lparr>tok_size := tok_size t + 1\<rparr>) (toksuper parser) T; Some (Some T) }
          else Some (Some T))"

definition open_container ::
  "jsmntype_t \<Rightarrow> nat \<Rightarrow> jsmn_parser \<Rightarrow> jsontok_t list option \<Rightarrow> jsmn_result option" where
  "open_container type num_tokens parser tokens =
     (case tokens of
        None \<Rightarrow> Some (None, parser, None)
      | Some T \<Rightarrow> do {
          r \<leftarrow> jsmn_alloc_token parser T num_tokens;
          case r of
            None \<Rightarrow> Some (Some JSMN_ERROR_NOMEM, parser, tokens)
          | Some (i, parser, T) \<Rightarrow> do {
              T \<leftarrow> (if toksuper parser \<noteq> -1 then do {
                      T \<leftarrow> with_token (\<lambda>t. t\<lparr>tok_size := tok_size t + 1\<rparr>) (toksuper parser) T;
                      with_token (\<lambda>t. t\<lparr>tok_parent := toksuper parser\<rparr>) i T
                    }
                    else Some T);
              T \<leftarrow> with_token (\<lambda>t. t\<lparr>tok_type := type, tok_start := jpos parser\<rparr>) i T;
              Some (None, parser\<lparr>toksuper := toknext parser - 1\<rparr>, Some T)
            }
        })"

definition close_container ::
  "jsmntype_t \<Rightarrow> jsmn_parser \<Rightarrow> jsontok_t list option \<Rightarrow> jsmn_result option" where
  "close_container type parser tokens =
     (case tokens of
        None \<Rightarrow> Some (None, parser, None)
      | Some T \<Rightarrow>
          if sint (toknext parser) < 1 then Some (Some JSMN_ERROR_INVAL, parser, tokens)
          else close_search type parser T (toknext parser - 1))"

text \<open>A value that is no container, and its count.\<close>

definition leaf :: "jsmn_result option \<Rightarrow> jsmn_result option" where
  "leaf m =
     do {
       (e, parser, tokens) \<leftarrow> m;
       if e \<noteq> None then Some (e, parser, tokens)
       else do { tokens \<leftarrow> count_child parser tokens; Some (None, parser, tokens) }
     }"

definition skipped :: "char \<Rightarrow> bool" where
  "skipped c \<longleftrightarrow> c \<in> {CHR 0x09, CHR 0x0D, CHR 0x0A, CHR '':'', CHR '','', CHR '' ''}"

definition primitive_start :: "char \<Rightarrow> bool" where
  "primitive_start c \<longleftrightarrow> c \<in> set ''-0123456789tfn''"

text \<open>The switch on a byte; with the result, how much the number of tokens grows.\<close>

definition jsmn_byte ::
  "cbuf \<Rightarrow> nat \<Rightarrow> nat \<Rightarrow> char \<Rightarrow> jsmn_parser \<Rightarrow> jsontok_t list option \<Rightarrow> (int \<times> jsmn_result) option" where
  "jsmn_byte js len num_tokens c parser tokens =
     (if c = CHR ''{'' then map_option (Pair 1) (open_container JSMN_OBJECT num_tokens parser tokens)
      else if c = CHR ''['' then map_option (Pair 1) (open_container JSMN_ARRAY num_tokens parser tokens)
      else if c = CHR ''}'' then map_option (Pair 0) (close_container JSMN_OBJECT parser tokens)
      else if c = CHR '']'' then map_option (Pair 0) (close_container JSMN_ARRAY parser tokens)
      else if c = CHR 0x22 then map_option (Pair 1) (leaf (jsmn_parse_string js len num_tokens parser tokens))
      else if skipped c then Some (0, None, parser, tokens)
      else if primitive_start c
      then map_option (Pair 1) (leaf (jsmn_parse_primitive js len num_tokens parser tokens))
      else Some (0, Some JSMN_ERROR_INVAL, parser, tokens))"

subsection \<open>The loop ends\<close>

lemma char_at_NoneI: "sint p < 0 \<Longrightarrow> char_at js p = None"
  by (simp add: char_at_def)

lemma next_grows: "0 \<le> sint (p + 1 :: i16) \<Longrightarrow> sint (p + 1) = sint p + 1"
  by (auto simp: sint_next split: if_splits)

lemma string_scan_grows:
  "string_scan js len p = Some (Found q) \<Longrightarrow> 0 \<le> sint p \<and> sint p \<le> sint q"
proof (induction js len p rule: string_scan.induct)
  case (1 js len p)
  obtain c where c: "before p len" "char_at js p = Some c" "c \<noteq> NUL"
    using 1(3) by (subst (asm) string_scan.simps) (auto split: if_splits option.splits)
  have p: "0 \<le> sint p" using c(2) by (auto simp: char_at_def split: if_splits)
  note r = 1(3) [unfolded string_scan.simps [of js len p]]
  consider "c = CHR 0x22" | (esc) w where "c = CHR 0x5C" "escape_scan js p = Some (Some w)"
    | (other) "c \<noteq> CHR 0x22" "c \<noteq> CHR 0x5C"
    using r c by (auto split: if_splits option.splits)
  then show ?case
  proof cases
    case esc
    then have "string_scan js len (w + 1) = Some (Found q)" using r c by simp
    then have "0 \<le> sint (w + 1) \<and> sint (w + 1) \<le> sint q" using 1(1) [OF c(1,2,3)] esc by auto
    moreover have "sint p \<le> sint w" using escape_scan_grows [OF esc(2)] c(2) by simp
    ultimately show ?thesis using p next_grows [of w] by linarith
  next
    case other
    then have "string_scan js len (p + 1) = Some (Found q)" using r c by simp
    then have "0 \<le> sint (p + 1) \<and> sint (p + 1) \<le> sint q" using 1(2) [OF c(1,2,3)] other by simp
    then show ?thesis using p next_grows [of p] by linarith
  qed (use r c p in auto)
qed

lemma primitive_scan_grows:
  "primitive_scan js len p = Some (Found q) \<Longrightarrow> 0 \<le> sint p \<and> sint p \<le> sint q"
proof (induction js len p rule: primitive_scan.induct)
  case (1 js len p)
  obtain c where c: "before p len" "char_at js p = Some c" "c \<noteq> NUL"
    using 1(2) by (subst (asm) primitive_scan.simps) (auto split: if_splits option.splits)
  have p: "0 \<le> sint p" using c(2) by (auto simp: char_at_def split: if_splits)
  note r = 1(2) [unfolded primitive_scan.simps [of js len p]]
  show ?case
  proof (cases "is_separator c")
    case True
    then show ?thesis using r c p by simp
  next
    case False
    then have s: "\<not> ((of_char c :: nat) < 32 \<or> (of_char c :: nat) \<ge> 127)" "primitive_scan js len (p + 1) = Some (Found q)"
      using r c by (auto split: if_splits)
    then have "0 \<le> sint (p + 1) \<and> sint (p + 1) \<le> sint q" using 1(1) [OF c(1,2,3) False] by simp
    then show ?thesis using p next_grows [of p] by linarith
  qed
qed

lemma primitive_scan_moves:
  assumes "primitive_scan js len p = Some (Found q)" "char_at js p = Some c" "\<not> is_separator c"
  shows "sint p \<le> sint (q - 1)"
proof -
  have "primitive_scan js len (p + 1) = Some (Found q)"
    using assms by (subst (asm) primitive_scan.simps) (auto split: if_splits)
  then have "0 \<le> sint (p + 1)" "sint (p + 1) \<le> sint q" using primitive_scan_grows by blast+
  then show ?thesis using next_grows [of p] assms(2) by (auto simp: sint_prev char_at_def split: if_splits)
qed

lemma found_token_pos:
  "found_token type s e start after parser tokens n = Some (None, parser', tokens') \<Longrightarrow> jpos parser' = after"
  by (auto simp: found_token_def jsmn_alloc_token_def bind_eq_Some_conv split: option.splits if_splits)

lemma leaf_pos: "leaf m = Some (None, parser', tokens') \<Longrightarrow> \<exists>t. m = Some (None, parser', t)"
  by (auto simp: leaf_def bind_eq_Some_conv split: if_splits)

lemma close_search_pos: "close_search type parser T i = Some r \<Longrightarrow> jpos (fst (snd r)) = jpos parser"
proof (rule close_search.raw_induct [where P = "\<lambda>type parser T i r. jpos (fst (snd r)) = jpos parser", rotated], assumption)
  fix f type parser T i r
  assume IH: "\<And>type parser T i r. f type parser T i = Some r \<Longrightarrow> jpos (fst (snd r)) = jpos parser"
    and r: "do {
       t \<leftarrow> token_at T i;
       if open_token t then
         if tok_type t \<noteq> type then Some (Some JSMN_ERROR_INVAL, parser, Some T)
         else do {
           T \<leftarrow> with_token (\<lambda>t. t\<lparr>tok_end := jpos parser + 1\<rparr>) i T;
           Some (None, parser\<lparr>toksuper := tok_parent t\<rparr>, Some T)
         }
       else if tok_parent t = -1 then Some (None, parser, Some T)
       else f type parser T (tok_parent t)
     } = Some r"
  obtain t where t: "token_at T i = Some t" using r by (auto simp: bind_eq_Some_conv)
  show "jpos (fst (snd r)) = jpos parser"
    using r t IH by (cases "open_token t"; cases "tok_parent t = -1") (auto simp: bind_eq_Some_conv split: if_split_asm)
qed

lemma alloc_pos: "jsmn_alloc_token parser T n = Some (Some (i, parser', T')) \<Longrightarrow> jpos parser' = jpos parser"
  by (auto simp: jsmn_alloc_token_def bind_eq_Some_conv split: if_splits)

lemma containers_pos:
  "open_container type n parser tokens = Some (e, parser', tokens') \<Longrightarrow> jpos parser' = jpos parser"
  "close_container type parser tokens = Some (e, parser', tokens') \<Longrightarrow> jpos parser' = jpos parser"
  by (auto simp: open_container_def bind_eq_Some_conv dest!: alloc_pos split: option.splits)
    (auto simp: close_container_def dest: close_search_pos split: option.splits if_splits)

lemma parse_string_pos:
  assumes "jsmn_parse_string js len n parser tokens = Some (None, parser', tokens')" "0 \<le> sint (jpos parser)"
  shows "sint (jpos parser) \<le> sint (jpos parser')"
proof -
  obtain r where r: "string_scan js len (jpos parser + 1) = Some r"
    using assms(1) by (auto simp: jsmn_parse_string_def Let_def bind_eq_Some_conv)
  show ?thesis
  proof (cases r)
    case (Found q)
    then have "jpos parser' = q" using assms(1) r by (auto simp: jsmn_parse_string_def Let_def dest: found_token_pos)
    then show ?thesis using string_scan_grows [of js len "jpos parser + 1" q] r Found next_grows [of "jpos parser"] by auto
  qed (use assms(1) r in \<open>simp add: jsmn_parse_string_def Let_def\<close>)
qed

lemma parse_primitive_pos:
  assumes "jsmn_parse_primitive js len n parser tokens = Some (None, parser', tokens')"
    and "char_at js (jpos parser) = Some c" "\<not> is_separator c"
  shows "sint (jpos parser) \<le> sint (jpos parser')"
proof -
  obtain r where r: "primitive_scan js len (jpos parser) = Some r"
    using assms(1) by (auto simp: jsmn_parse_primitive_def Let_def bind_eq_Some_conv)
  show ?thesis
  proof (cases r)
    case (Found q)
    then have "jpos parser' = q - 1" using assms(1) r by (auto simp: jsmn_parse_primitive_def Let_def dest: found_token_pos)
    then show ?thesis using primitive_scan_moves [of js len "jpos parser" q] r Found assms(2,3) by simp
  qed (use assms(1) r in \<open>simp add: jsmn_parse_primitive_def Let_def\<close>)
qed

lemma jsmn_byte_pos:
  assumes "jsmn_byte js len n c parser tokens = Some (k, None, parser', tokens')" "char_at js (jpos parser) = Some c"
  shows "sint (jpos parser) \<le> sint (jpos parser')"
proof -
  have nn: "0 \<le> sint (jpos parser)" using assms(2) by (auto simp: char_at_def split: if_splits)
  have st: "sint (jpos parser) \<le> sint (jpos parser')" if "leaf (jsmn_parse_string js len n parser tokens) = Some (None, parser', tokens')"
    using leaf_pos [OF that] parse_string_pos nn by blast
  have pr: "sint (jpos parser) \<le> sint (jpos parser')"
    if "leaf (jsmn_parse_primitive js len n parser tokens) = Some (None, parser', tokens')" "primitive_start c"
  proof -
    note k = that
    have "\<not> is_separator c" using k(2) by (auto simp: primitive_start_def is_separator_def)
    moreover obtain t where "jsmn_parse_primitive js len n parser tokens = Some (None, parser', t)"
      using leaf_pos [OF k(1)] by blast
    ultimately show ?thesis by (intro parse_primitive_pos [OF _ assms(2)])
  qed
  show ?thesis
  proof (cases "c = CHR ''{'' \<or> c = CHR ''[''")
    case True
    then obtain type where "open_container type n parser tokens = Some (None, parser', tokens')"
      using assms(1) by (elim disjE) (auto simp: jsmn_byte_def)
    then show ?thesis using containers_pos(1) by fastforce
  next
    case no_open: False
    show ?thesis
    proof (cases "c = CHR ''}'' \<or> c = CHR '']''")
      case True
      then obtain type where "close_container type parser tokens = Some (None, parser', tokens')"
        using assms(1) by (elim disjE) (auto simp: jsmn_byte_def)
      then show ?thesis using containers_pos(2) by fastforce
    next
      case no_close: False
      show ?thesis
      proof (cases "c = CHR 0x22")
        case True
        then show ?thesis using assms(1) st by (auto simp: jsmn_byte_def)
      next
        case False
        then have "jsmn_byte js len n c parser tokens =
            (if skipped c then Some (0, None, parser, tokens)
             else if primitive_start c then map_option (Pair 1) (leaf (jsmn_parse_primitive js len n parser tokens))
             else Some (0, Some JSMN_ERROR_INVAL, parser, tokens))"
          using no_open no_close by (simp add: jsmn_byte_def)
        then show ?thesis using assms(1) pr
          by (cases "leaf (jsmn_parse_primitive js len n parser tokens)") (auto split: if_split_asm)
      qed
    qed
  qed
qed

text \<open>After the text: a container left open is an error.\<close>

fun unclosed :: "jsontok_t list \<Rightarrow> nat \<Rightarrow> bool option" where
  "unclosed T 0 = Some False"
| "unclosed T (Suc i) = (if i < length T then if open_token (T ! i) then Some True else unclosed T i else None)"

definition jsmn_finish ::
  "int \<Rightarrow> jsmn_parser \<Rightarrow> jsontok_t list option \<Rightarrow> ((jsmnerr_t + int) \<times> jsmn_parser \<times> jsontok_t list option) option" where
  "jsmn_finish count parser tokens =
     do {
       unclosed \<leftarrow> unclosed (case tokens of None \<Rightarrow> [] | Some T \<Rightarrow> T) (nat (sint (toknext parser)));
       Some (if unclosed then Inl JSMN_ERROR_PART else Inr count, parser, tokens)
     }"

function jsmn_loop ::
  "cbuf \<Rightarrow> nat \<Rightarrow> nat \<Rightarrow> int \<Rightarrow> jsmn_parser \<Rightarrow> jsontok_t list option \<Rightarrow>
     ((jsmnerr_t + int) \<times> jsmn_parser \<times> jsontok_t list option) option" where
  "jsmn_loop js len num_tokens count parser tokens =
     (if before (jpos parser) len then
        (case char_at js (jpos parser) of
           None \<Rightarrow> None
         | Some c \<Rightarrow>
             if c = NUL then jsmn_finish count parser tokens
             else
               (case jsmn_byte js len num_tokens c parser tokens of
                  None \<Rightarrow> None
                | Some (k, Some e, parser', tokens') \<Rightarrow> Some (Inl e, parser', tokens')
                | Some (k, None, parser', tokens') \<Rightarrow>
                    jsmn_loop js len num_tokens (count + k) (parser'\<lparr>jpos := jpos parser' + 1\<rparr>) tokens'))
      else jsmn_finish count parser tokens)"
  by auto
termination
  by (relation "measure (\<lambda>(js, len, n, count, parser, tokens). text_left js (jpos parser))")
    (auto intro!: text_left_next dest: jsmn_byte_pos)

declare jsmn_loop.simps [simp del]

definition jsmn_parse ::
  "jsmn_parser \<Rightarrow> cbuf \<Rightarrow> nat \<Rightarrow> jsontok_t list option \<Rightarrow> nat \<Rightarrow>
     ((jsmnerr_t + int) \<times> jsmn_parser \<times> jsontok_t list option) option" where
  "jsmn_parse parser js len tokens num_tokens = jsmn_loop js len num_tokens 0 parser tokens"

definition jsmn_init :: jsmn_parser where
  "jsmn_init = \<lparr>jpos = 0, toknext = 0, toksuper = -1\<rparr>"

end
