(* ===== verification/JsonWrap.thy ===== *)
theory JsonWrap
  imports Jsmn
begin

text \<open>
  \<open>JingDong/jsmn/json_wrappers.c\<close>: looking up members of objects and elements of arrays in the tokens. A
  pointer to a token is its index. \<open>CONFIG_JSON_FLOAT\<close> is off. Results are \<open>Inl\<close> the error
  (the code returns it negated) or \<open>Inr\<close> what is stored through the pointer; \<open>None\<close> is a read
  outside the tokens or the text.
\<close>

type_synonym word64 = "64 word"

datatype wm_json_errno =
    WM_E_JSON_FAIL | WM_E_JSON_NOMEM | WM_E_JSON_INVAL | WM_E_JSON_INCOMPLETE | WM_E_JSON_INVALID_JOBJ
  | WM_E_JSON_NOT_FOUND | WM_E_JSON_INVALID_TYPE | WM_E_JSON_INVALID_INDEX | WM_E_JSON_INVALID_JARRAY
  | WM_E_JSON_INVSTART | WM_E_JSON_OBUF

record json_parser_t =
  jparser :: jsmn_parser
  jtext :: "cbuf option"
  jtokens :: "jsontok_t list"
  jcur :: "nat option"
  jnum_tokens :: int

definition token_of :: "jsontok_t list \<Rightarrow> nat \<Rightarrow> jsontok_t option" where
  "token_of T i = (if i < length T then Some (T ! i) else None)"

definition cur_token :: "json_parser_t \<Rightarrow> (nat \<times> jsontok_t) option" where
  "cur_token jobj = do { i \<leftarrow> jcur jobj; t \<leftarrow> token_of (jtokens jobj) i; Some (i, t) }"

subsection \<open>From the C library\<close>

text \<open>\<open>js + n\<close>.\<close>

definition text_from :: "cbuf \<Rightarrow> int \<Rightarrow> cbuf option" where
  "text_from js n = (if 0 \<le> n \<and> nat n \<le> length js then Some (drop (nat n) js) else None)"

text \<open>\<open>strncmp(a, b, n) == 0\<close>.\<close>

fun strncmp_eq :: "nat \<Rightarrow> cbuf \<Rightarrow> cbuf \<Rightarrow> bool option" where
  "strncmp_eq 0 a b = Some True"
| "strncmp_eq (Suc n) (x # xs) (y # ys) =
     (if x \<noteq> y then Some False else if x = NUL then Some True else strncmp_eq n xs ys)"
| "strncmp_eq (Suc n) _ _ = None"

text \<open>The value of a digit, at least 16 for a byte that is none.\<close>

definition digit_value :: "char \<Rightarrow> nat" where
  "digit_value c =
     (let n = (of_char c :: nat) in
      if 48 \<le> n \<and> n \<le> 57 then n - 48
      else if 97 \<le> n \<and> n \<le> 102 then n - 87
      else if 65 \<le> n \<and> n \<le> 70 then n - 55
      else 99)"

text \<open>The number the digits make, and how many they are.\<close>

fun digits_in :: "nat \<Rightarrow> nat \<Rightarrow> nat \<Rightarrow> cbuf \<Rightarrow> (nat \<times> nat) option" where
  "digits_in base n k [] = None"
| "digits_in base n k (c # cs) =
     (if digit_value c < base then digits_in base (base * n + digit_value c) (Suc k) cs else Some (n, k))"

text \<open>
  \<open>strtoul\<close> with base 0 and results below \<open>m\<close> (2 to the number of bits): the value, and how many bytes
  were taken; a number that is too large gives the largest value.
\<close>

definition strto_base :: "cbuf \<Rightarrow> (nat \<times> nat) option" where
  "strto_base b =
     (case b of
        c1 # c2 # c3 # cs \<Rightarrow>
          if c1 = CHR ''0'' \<and> c2 \<in> {CHR ''x'', CHR ''X''} \<and> digit_value c3 < 16 then Some (16, 2)
          else if c1 = CHR ''0'' then Some (8, 0) else Some (10, 0)
      | c1 # c2 # cs \<Rightarrow>
          if c1 = CHR ''0'' then if c2 \<in> {CHR ''x'', CHR ''X''} then None else Some (8, 0) else Some (10, 0)
      | c1 # cs \<Rightarrow> if c1 = CHR ''0'' then None else Some (10, 0)
      | [] \<Rightarrow> None)"

fun leading_space :: "cbuf \<Rightarrow> nat" where
  "leading_space [] = 0"
| "leading_space (c # cs) = (if is_space c then Suc (leading_space cs) else 0)"

definition strto :: "nat \<Rightarrow> cbuf \<Rightarrow> (nat \<times> nat) option" where
  "strto m b =
     do {
       let sp = leading_space b;
       c \<leftarrow> (if sp < length b then Some (b ! sp) else None);
       let sign = (if c \<in> {CHR ''-'', CHR ''+''} then 1 else 0);
       (base, pre) \<leftarrow> strto_base (drop (sp + sign) b);
       (n, k) \<leftarrow> digits_in base 0 0 (drop (sp + sign + pre) b);
       Some (if k = 0 then (0, 0)
             else (if n \<ge> m then m - 1 else if c = CHR ''-'' then (m - n) mod m else n, sp + sign + pre + k))
     }"

subsection \<open>Values of tokens\<close>

definition json_token_streq :: "cbuf \<Rightarrow> jsontok_t \<Rightarrow> string \<Rightarrow> bool option" where
  "json_token_streq js t s =
     do {
       let n = nat ((sint (tok_end t) - sint (tok_start t)) mod 2 ^ 32);
       a \<leftarrow> text_from js (sint (tok_start t));
       same \<leftarrow> strncmp_eq n a (s @ [NUL]);
       Some (same \<and> length s = n)
     }"

function skip_children :: "jsontok_t list \<Rightarrow> nat \<Rightarrow> nat \<Rightarrow> nat option" where
  "skip_children T 0 i = Some i"
| "skip_children T (Suc cnt) i =
     (if i + 1 < length T then
        (case skip_children T (unat (tok_size (T ! (i + 1)))) (i + 1) of
           None \<Rightarrow> None
         | Some j \<Rightarrow> skip_children T cnt j)
      else None)"
  by pat_completeness auto

termination
proof -
  have grows: "i \<le> j" if "skip_children_dom (T, n, i)" "skip_children T n i = Some j" for T n i j
    using that by (induction arbitrary: j rule: skip_children.pinduct)
      (auto simp: skip_children.psimps split: if_split_asm option.split_asm, fastforce)
  show ?thesis
    by (relation "measures [\<lambda>(T, n, i). length T - i, \<lambda>(T, n, i). n]") (auto dest: grows)
qed

declare skip_children.simps [simp del]

text \<open>\<open>skip_to_last\<close>: over the tokens of the element and of all in it.\<close>

definition skip_to_last :: "jsontok_t list \<Rightarrow> nat \<Rightarrow> nat option" where
  "skip_to_last T element = do { t \<leftarrow> token_of T element; skip_children T (unat (tok_size t)) element }"

definition json_str_to_bool :: "cbuf \<Rightarrow> jsontok_t \<Rightarrow> (wm_json_errno + bool) option" where
  "json_str_to_bool js t =
     (if tok_type t \<noteq> JSMN_PRIMITIVE then Some (Inl WM_E_JSON_INVALID_TYPE)
      else do {
        a \<leftarrow> json_token_streq js t ''true'';
        b \<leftarrow> (if a then Some True else json_token_streq js t ''1'');
        if b then Some (Inr True)
        else do {
          a \<leftarrow> json_token_streq js t ''false'';
          b \<leftarrow> (if a then Some True else json_token_streq js t ''0'');
          Some (if b then Inr False else Inl WM_E_JSON_INVALID_TYPE)
        }
      })"

definition json_str_to_int :: "cbuf \<Rightarrow> jsontok_t \<Rightarrow> (wm_json_errno + int) option" where
  "json_str_to_int js t =
     (if tok_type t \<noteq> JSMN_PRIMITIVE then Some (Inl WM_E_JSON_INVALID_TYPE)
      else do {
        b \<leftarrow> text_from js (sint (tok_start t));
        (n, k) \<leftarrow> strto (2 ^ 32) b;
        Some (if sint (tok_start t) + int k = sint (tok_end t) then Inr (sint (of_nat n :: u32))
              else Inl WM_E_JSON_INVALID_TYPE)
      })"

definition json_str_to_int64 :: "cbuf \<Rightarrow> jsontok_t \<Rightarrow> (wm_json_errno + int) option" where
  "json_str_to_int64 js t =
     (if tok_type t \<noteq> JSMN_PRIMITIVE then Some (Inl WM_E_JSON_INVALID_TYPE)
      else do {
        b \<leftarrow> text_from js (sint (tok_start t));
        (n, k) \<leftarrow> strto (2 ^ 64) b;
        Some (if sint (tok_start t) + int k = sint (tok_end t) then Inr (sint (of_nat n :: word64))
              else Inl WM_E_JSON_INVALID_TYPE)
      })"

text \<open>The array \<open>value\<close> is given and returned.\<close>

definition json_str_to_str :: "cbuf \<Rightarrow> jsontok_t \<Rightarrow> cbuf \<Rightarrow> int \<Rightarrow> (wm_json_errno + cbuf) option" where
  "json_str_to_str js t value maxlen =
     (let n = sint (tok_end t) - sint (tok_start t) in
      if tok_type t \<noteq> JSMN_STRING then Some (Inl WM_E_JSON_INVALID_TYPE)
      else if n \<ge> maxlen then Some (Inl WM_E_JSON_NOMEM)
      else if n < 0 then None
      else do {
        src \<leftarrow> text_from js (sint (tok_start t));
        value \<leftarrow> strncpy value src (nat n);
        if nat n < length value then Some (Inr (value[nat n := NUL])) else None
      })"

subsection \<open>Members of an object\<close>

datatype parse_state = KEY | FOUND | SKIP

abbreviation "is_container t \<equiv> tok_type t = JSMN_ARRAY \<or> tok_type t = JSMN_OBJECT"

fun get_value_loop :: "cbuf \<Rightarrow> jsontok_t list \<Rightarrow> i16 \<Rightarrow> string \<Rightarrow> parse_state \<Rightarrow> nat \<Rightarrow> nat \<Rightarrow> (wm_json_errno + nat) option"
  where
  "get_value_loop js T cur_end key state 0 i = Some (Inl WM_E_JSON_NOT_FOUND)"
| "get_value_loop js T cur_end key state (Suc num_children) i =
     do {
       let i = i + 1;
       t \<leftarrow> token_of T i;
       if sint (tok_end t) > sint cur_end then Some (Inl WM_E_JSON_FAIL)
       else
         (case state of
            KEY \<Rightarrow>
              if tok_type t \<noteq> JSMN_STRING then Some (Inl WM_E_JSON_FAIL)
              else do {
                same \<leftarrow> json_token_streq js t key;
                get_value_loop js T cur_end key (if same then FOUND else SKIP) num_children i
              }
          | SKIP \<Rightarrow> do {
              i \<leftarrow> (if is_container t then skip_to_last T i else Some i);
              get_value_loop js T cur_end key KEY num_children i
            }
          | FOUND \<Rightarrow> Some (Inr i))
     }"

definition json_get_value :: "json_parser_t \<Rightarrow> string \<Rightarrow> (wm_json_errno + nat) option" where
  "json_get_value jobj key =
     do {
       (i, t) \<leftarrow> cur_token jobj;
       let num_children = unat (tok_size t);
       if num_children = 0 \<or> num_children mod 2 \<noteq> 0 then Some (Inl WM_E_JSON_FAIL)
       else if tok_type t \<noteq> JSMN_OBJECT then Some (Inl WM_E_JSON_INVALID_JOBJ)
       else do {
         js \<leftarrow> jtext jobj;
         get_value_loop js (jtokens jobj) (tok_end t) key KEY num_children i
       }
     }"

text \<open>What follows a search: the token found goes to a conversion, an error is passed on.\<close>

definition on_token ::
  "json_parser_t \<Rightarrow> (wm_json_errno + nat) option \<Rightarrow> (cbuf \<Rightarrow> nat \<Rightarrow> jsontok_t \<Rightarrow> (wm_json_errno + 'a) option) \<Rightarrow>
     (wm_json_errno + 'a) option" where
  "on_token jobj m f =
     do {
       r \<leftarrow> m;
       case r of
         Inl e \<Rightarrow> Some (Inl e)
       | Inr i \<Rightarrow> do { js \<leftarrow> jtext jobj; t \<leftarrow> token_of (jtokens jobj) i; f js i t }
     }"

definition str_len :: "jsontok_t \<Rightarrow> wm_json_errno + int" where
  "str_len t =
     (if tok_type t \<noteq> JSMN_STRING then Inl WM_E_JSON_INVALID_TYPE else Inr (sint (tok_end t) - sint (tok_start t)))"

definition json_get_val_bool :: "json_parser_t \<Rightarrow> string \<Rightarrow> (wm_json_errno + bool) option" where
  "json_get_val_bool jobj key = on_token jobj (json_get_value jobj key) (\<lambda>js i t. json_str_to_bool js t)"

definition json_get_val_int :: "json_parser_t \<Rightarrow> string \<Rightarrow> (wm_json_errno + int) option" where
  "json_get_val_int jobj key = on_token jobj (json_get_value jobj key) (\<lambda>js i t. json_str_to_int js t)"

definition json_get_val_int64 :: "json_parser_t \<Rightarrow> string \<Rightarrow> (wm_json_errno + int) option" where
  "json_get_val_int64 jobj key = on_token jobj (json_get_value jobj key) (\<lambda>js i t. json_str_to_int64 js t)"

definition json_get_val_float :: "json_parser_t \<Rightarrow> string \<Rightarrow> (wm_json_errno + int) option" where
  "json_get_val_float jobj key = Some (Inl WM_E_JSON_FAIL)"

definition json_get_val_str :: "json_parser_t \<Rightarrow> string \<Rightarrow> cbuf \<Rightarrow> int \<Rightarrow> (wm_json_errno + cbuf) option" where
  "json_get_val_str jobj key value maxlen =
     on_token jobj (json_get_value jobj key) (\<lambda>js i t. json_str_to_str js t value maxlen)"

definition json_get_val_str_len :: "json_parser_t \<Rightarrow> string \<Rightarrow> (wm_json_errno + int) option" where
  "json_get_val_str_len jobj key = on_token jobj (json_get_value jobj key) (\<lambda>js i t. Some (str_len t))"

text \<open>Entering a container makes it the current one.\<close>

definition enter_object :: "json_parser_t \<Rightarrow> nat \<Rightarrow> jsontok_t \<Rightarrow> wm_json_errno + json_parser_t" where
  "enter_object jobj i t =
     (if tok_type t \<noteq> JSMN_OBJECT then Inl WM_E_JSON_INVALID_TYPE
      else if unat (tok_size t) mod 2 \<noteq> 0 then Inl WM_E_JSON_INVALID_JOBJ
      else Inr (jobj\<lparr>jcur := Some i\<rparr>))"

definition enter_array :: "json_parser_t \<Rightarrow> nat \<Rightarrow> jsontok_t \<Rightarrow> wm_json_errno + (nat \<times> json_parser_t)" where
  "enter_array jobj i t =
     (if tok_type t \<noteq> JSMN_ARRAY then Inl WM_E_JSON_INVALID_TYPE
      else Inr (unat (tok_size t), jobj\<lparr>jcur := Some i\<rparr>))"

definition json_get_composite_object :: "json_parser_t \<Rightarrow> string \<Rightarrow> (wm_json_errno + json_parser_t) option" where
  "json_get_composite_object jobj key = on_token jobj (json_get_value jobj key) (\<lambda>js i t. Some (enter_object jobj i t))"

definition json_release_composite_object :: "json_parser_t \<Rightarrow> (wm_json_errno + json_parser_t) option" where
  "json_release_composite_object jobj =
     do {
       (i, t) \<leftarrow> cur_token jobj;
       Some (if sint (tok_parent t) < 0 then Inl WM_E_JSON_FAIL
             else Inr (jobj\<lparr>jcur := Some (nat (sint (tok_parent t)))\<rparr>))
     }"

definition json_get_array_object :: "json_parser_t \<Rightarrow> string \<Rightarrow> (wm_json_errno + (nat \<times> json_parser_t)) option" where
  "json_get_array_object jobj key = on_token jobj (json_get_value jobj key) (\<lambda>js i t. Some (enter_array jobj i t))"

definition json_release_array_object :: "json_parser_t \<Rightarrow> (wm_json_errno + json_parser_t) option" where
  "json_release_array_object jobj = json_release_composite_object jobj"

subsection \<open>Elements of an array\<close>

text \<open>The result -1 for a current token that is no array.\<close>

definition json_array_get_num_elements :: "json_parser_t \<Rightarrow> int option" where
  "json_array_get_num_elements jobj =
     do { (i, t) \<leftarrow> cur_token jobj; Some (if tok_type t \<noteq> JSMN_ARRAY then -1 else uint (tok_size t)) }"

fun array_index_loop :: "jsontok_t list \<Rightarrow> i16 \<Rightarrow> nat \<Rightarrow> nat \<Rightarrow> (wm_json_errno + nat) option" where
  "array_index_loop T cur_end 0 i = Some (Inr i)"
| "array_index_loop T cur_end (Suc index) i =
     do {
       t \<leftarrow> token_of T i;
       if sint (tok_end t) > sint cur_end then Some (Inl WM_E_JSON_FAIL)
       else do {
         i \<leftarrow> (if is_container t then skip_to_last T i else Some i);
         array_index_loop T cur_end index (i + 1)
       }
     }"

definition json_get_array_index :: "json_parser_t \<Rightarrow> u16 \<Rightarrow> (wm_json_errno + nat) option" where
  "json_get_array_index jobj index =
     do {
       (i, t) \<leftarrow> cur_token jobj;
       if tok_type t \<noteq> JSMN_ARRAY then Some (Inl WM_E_JSON_INVALID_JARRAY)
       else if unat index \<ge> unat (tok_size t) then Some (Inl WM_E_JSON_INVALID_INDEX)
       else array_index_loop (jtokens jobj) (tok_end t) (unat index) (i + 1)
     }"

definition json_array_get_bool :: "json_parser_t \<Rightarrow> u16 \<Rightarrow> (wm_json_errno + bool) option" where
  "json_array_get_bool jobj index = on_token jobj (json_get_array_index jobj index) (\<lambda>js i t. json_str_to_bool js t)"

definition json_array_get_int :: "json_parser_t \<Rightarrow> u16 \<Rightarrow> (wm_json_errno + int) option" where
  "json_array_get_int jobj index = on_token jobj (json_get_array_index jobj index) (\<lambda>js i t. json_str_to_int js t)"

definition json_array_get_int64 :: "json_parser_t \<Rightarrow> u16 \<Rightarrow> (wm_json_errno + int) option" where
  "json_array_get_int64 jobj index = on_token jobj (json_get_array_index jobj index) (\<lambda>js i t. json_str_to_int64 js t)"

definition json_array_get_float :: "json_parser_t \<Rightarrow> u16 \<Rightarrow> (wm_json_errno + int) option" where
  "json_array_get_float jobj index = Some (Inl WM_E_JSON_FAIL)"

definition json_array_get_str :: "json_parser_t \<Rightarrow> u16 \<Rightarrow> cbuf \<Rightarrow> int \<Rightarrow> (wm_json_errno + cbuf) option" where
  "json_array_get_str jobj index value maxlen =
     on_token jobj (json_get_array_index jobj index) (\<lambda>js i t. json_str_to_str js t value maxlen)"

definition json_array_get_str_len :: "json_parser_t \<Rightarrow> u16 \<Rightarrow> (wm_json_errno + int) option" where
  "json_array_get_str_len jobj index = on_token jobj (json_get_array_index jobj index) (\<lambda>js i t. Some (str_len t))"

definition json_array_get_composite_object :: "json_parser_t \<Rightarrow> u16 \<Rightarrow> (wm_json_errno + json_parser_t) option" where
  "json_array_get_composite_object jobj index =
     on_token jobj (json_get_array_index jobj index) (\<lambda>js i t. Some (enter_object jobj i t))"

definition json_array_release_composite_object :: "json_parser_t \<Rightarrow> (wm_json_errno + json_parser_t) option" where
  "json_array_release_composite_object jobj = json_release_composite_object jobj"

definition json_array_get_array_object :: "json_parser_t \<Rightarrow> u16 \<Rightarrow> (wm_json_errno + (nat \<times> json_parser_t)) option" where
  "json_array_get_array_object jobj index =
     on_token jobj (json_get_array_index jobj index) (\<lambda>js i t. Some (enter_array jobj i t))"

definition json_array_release_array_object :: "json_parser_t \<Rightarrow> (wm_json_errno + json_parser_t) option" where
  "json_array_release_array_object jobj = json_release_composite_object jobj"

subsection \<open>Start\<close>

definition json_obj_init :: "jsontok_t list \<Rightarrow> int \<Rightarrow> json_parser_t" where
  "json_obj_init tokens num_tokens =
     \<lparr>jparser = jsmn_init, jtext = None, jtokens = tokens, jcur = None, jnum_tokens = num_tokens\<rparr>"

definition json_is_object :: "json_parser_t \<Rightarrow> bool option" where
  "json_is_object jobj = do { (i, t) \<leftarrow> cur_token jobj; Some (tok_type t = JSMN_OBJECT) }"

definition json_is_array :: "json_parser_t \<Rightarrow> bool option" where
  "json_is_array jobj = do { (i, t) \<leftarrow> cur_token jobj; Some (tok_type t = JSMN_ARRAY) }"

text \<open>The result: \<open>None\<close> inside is \<open>WM_SUCCESS\<close>.\<close>

definition json_init ::
  "jsontok_t list \<Rightarrow> int \<Rightarrow> cbuf \<Rightarrow> int \<Rightarrow> (wm_json_errno option \<times> json_parser_t) option" where
  "json_init tokens num_tokens js js_len =
     do {
       let jobj = json_obj_init tokens num_tokens;
       (r, p, T) \<leftarrow> jsmn_parse (jparser jobj) js (nat (js_len mod 2 ^ 32)) (Some (jtokens jobj)) (nat (jnum_tokens jobj mod 2 ^ 32));
       let jobj = jobj\<lparr>jparser := p, jtokens := (case T of None \<Rightarrow> tokens | Some T \<Rightarrow> T)\<rparr>;
       case r of
         Inl JSMN_ERROR_NOMEM \<Rightarrow> Some (Some WM_E_JSON_NOMEM, jobj)
       | Inl JSMN_ERROR_INVAL \<Rightarrow> Some (Some WM_E_JSON_INVAL, jobj)
       | Inl JSMN_ERROR_PART \<Rightarrow> Some (Some WM_E_JSON_INCOMPLETE, jobj)
       | Inr n \<Rightarrow> do {
           let jobj = jobj\<lparr>jtext := Some js, jnum_tokens := n, jcur := Some 0\<rparr>;
           (i, t) \<leftarrow> cur_token jobj;
           Some (if tok_type t = JSMN_OBJECT \<and> unat (tok_size t) mod 2 = 0 then None
                 else if tok_type t = JSMN_ARRAY then None
                 else Some WM_E_JSON_INVALID_JOBJ, jobj)
         }
     }"

end
