(* ===== verification/JsonText.thy ===== *)
theory JsonText
  imports Jsmn
begin

text \<open>
  What \<open>jsmn_parse\<close> makes of a JSON text: for a tree of values laid out in any way, the tokens are those
  of the tree, in order, with the places of the values in the text, their parents and their numbers of
  children.
\<close>

subsection \<open>Positions\<close>

definition ix :: "nat \<Rightarrow> i16" where "ix n = of_nat n"

lemma ix_add [simp]: "ix n + 1 = ix (n + 1)" "1 + ix n = ix (n + 1)"
  by (simp_all add: ix_def)

lemma ix_sub [simp]: "0 < n \<Longrightarrow> ix n - 1 = ix (n - 1)"
  by (simp add: ix_def of_nat_diff)

lemma sint_ix [simp]: "n < 32768 \<Longrightarrow> sint (ix n) = int n"
  unfolding ix_def by (simp add: signed_of_nat signed_take_bit_int_eq_self)

lemma ix_nonneg [simp]: "n < 32768 \<Longrightarrow> ix n \<noteq> -1" "n < 32768 \<Longrightarrow> -1 \<noteq> ix n"
proof -
  show "ix n \<noteq> -1" if "n < 32768"
  proof
    assume "ix n = -1"
    then have "int n = sint (-1 :: i16)" using sint_ix [OF that] by metis
    then show False by simp
  qed
  then show "n < 32768 \<Longrightarrow> -1 \<noteq> ix n" by metis
qed

lemma scast_ix: "n < 32768 \<Longrightarrow> unat (scast (ix n) :: u32) = n"
proof -
  assume n: "n < 32768"
  have "(scast (ix n) :: u32) = of_int (sint (ix n))" by (simp only: of_int_sint)
  then show ?thesis using n by (simp add: unat_of_nat)
qed

lemma before_ix [simp]: "n < 32768 \<Longrightarrow> before (ix n) len = (n < len)"
  by (simp add: before_def scast_ix)

lemma char_at_ix [simp]: "n < 32768 \<Longrightarrow> char_at js (ix n) = (if n < length js then Some (js ! n) else None)"
  by (simp add: char_at_def)

lemma token_at_ix [simp]: "n < 32768 \<Longrightarrow> token_at T (ix n) = (if n < length T then Some (T ! n) else None)"
  by (simp add: token_at_def)

lemma with_token_ix: "n < 32768 \<Longrightarrow> n < length T \<Longrightarrow> with_token f (ix n) T = Some (T[n := f (T ! n)])"
  by (simp add: with_token_def)

subsection \<open>Trees\<close>

text \<open>
  A value: a primitive, the text between the quotes of a string, or a container with its children and
  the bytes before its end. Before every child stand bytes the tokenizer skips: spaces, commas, colons.
\<close>

datatype node = Prim string | Str string | Con bool items string
  and items = Done | Item string node items

fun closer :: "bool \<Rightarrow> char" where
  "closer True = CHR ''}''" | "closer False = CHR '']''"

fun opener :: "bool \<Rightarrow> char" where
  "opener True = CHR ''{''" | "opener False = CHR ''[''"

primrec text_of :: "node \<Rightarrow> string" and items_text :: "items \<Rightarrow> string" where
  "text_of (Prim s) = s"
| "text_of (Str s) = CHR 0x22 # s @ [CHR 0x22]"
| "text_of (Con b xs t) = opener b # items_text xs @ t @ [closer b]"
| "items_text Done = []"
| "items_text (Item w n xs) = w @ text_of n @ items_text xs"

primrec ntoks :: "node \<Rightarrow> nat" and nitems :: "items \<Rightarrow> nat" where
  "ntoks (Prim s) = 1"
| "ntoks (Str s) = 1"
| "ntoks (Con b xs t) = Suc (nitems xs)"
| "nitems Done = 0"
| "nitems (Item w n xs) = ntoks n + nitems xs"

primrec children :: "items \<Rightarrow> nat" where
  "children Done = 0"
| "children (Item w n xs) = Suc (children xs)"

fun string_ok :: "string \<Rightarrow> bool" where
  "string_ok [] = True"
| "string_ok (c # s) =
     (if c = CHR 0x5C then
        (case s of
           [] \<Rightarrow> False
         | d # r \<Rightarrow>
             if d \<in> {CHR 0x22, CHR ''/'', CHR 0x5C, CHR ''b'', CHR ''f'', CHR ''r'', CHR ''n'', CHR ''t''} then string_ok r
             else d = CHR ''u'' \<and> 4 \<le> length r \<and> list_all is_hex (take 4 r) \<and> string_ok (drop 4 r))
      else c \<noteq> CHR 0x22 \<and> c \<noteq> NUL \<and> string_ok s)"

definition prim_char :: "char \<Rightarrow> bool" where
  "prim_char c \<longleftrightarrow> \<not> is_separator c \<and> 32 \<le> (of_char c :: nat) \<and> (of_char c :: nat) < 127"

definition prim_ok :: "string \<Rightarrow> bool" where
  "prim_ok s \<longleftrightarrow> s \<noteq> [] \<and> primitive_start (hd s) \<and> list_all prim_char s"

text \<open>A primitive is followed by a byte that ends it.\<close>

definition ends_prim :: "node \<Rightarrow> string \<Rightarrow> bool" where
  "ends_prim n r \<longleftrightarrow> (case n of Prim s \<Rightarrow> is_separator (hd (r @ '']'')) | _ \<Rightarrow> True)"

primrec node_ok :: "node \<Rightarrow> bool" and items_ok :: "items \<Rightarrow> string \<Rightarrow> bool" where
  "node_ok (Prim s) = prim_ok s"
| "node_ok (Str s) = string_ok s"
| "node_ok (Con b xs t) = (items_ok xs t \<and> list_all skipped t)"
| "items_ok Done t = True"
| "items_ok (Item w n xs) t = (list_all skipped w \<and> node_ok n \<and> ends_prim n (items_text xs @ t) \<and> items_ok xs t)"

text \<open>The tokens, from their place in the text, their first index and their parent.\<close>

primrec toks :: "node \<Rightarrow> nat \<Rightarrow> nat \<Rightarrow> i16 \<Rightarrow> jsontok_t list"
  and items_toks :: "items \<Rightarrow> nat \<Rightarrow> nat \<Rightarrow> i16 \<Rightarrow> jsontok_t list" where
  "toks (Prim s) off i par =
     [\<lparr>tok_type = JSMN_PRIMITIVE, tok_size = 0, tok_start = ix off, tok_end = ix (off + length s), tok_parent = par\<rparr>]"
| "toks (Str s) off i par =
     [\<lparr>tok_type = JSMN_STRING, tok_size = 0, tok_start = ix (off + 1), tok_end = ix (off + 1 + length s), tok_parent = par\<rparr>]"
| "toks (Con b xs t) off i par =
     \<lparr>tok_type = (if b then JSMN_OBJECT else JSMN_ARRAY), tok_size = of_nat (children xs), tok_start = ix off,
      tok_end = ix (off + length (text_of (Con b xs t))), tok_parent = par\<rparr>
     # items_toks xs (off + 1) (i + 1) (ix i)"
| "items_toks Done off i par = []"
| "items_toks (Item w n xs) off i par =
     toks n (off + length w) i par @ items_toks xs (off + length w + length (text_of n)) (i + ntoks n) par"

lemma length_toks [simp]: "length (toks n off i par) = ntoks n" "length (items_toks xs off i par) = nitems xs"
  by (induction n and xs arbitrary: off i par and off i par) simp_all

subsection \<open>The scans\<close>

lemma prim_char_facts: "prim_char c \<Longrightarrow> c \<noteq> NUL" "is_separator c \<Longrightarrow> c \<noteq> NUL"
  by (cases "c = NUL"; simp add: prim_char_def) (auto simp: is_separator_def)

lemma primitive_found:
  "n < len \<Longrightarrow> len \<le> 32767 \<Longrightarrow> char_at js (ix n) = Some c \<Longrightarrow> is_separator c \<Longrightarrow>
     primitive_scan js len (ix n) = Some (Found (ix n))"
  by (subst primitive_scan.simps) (simp add: prim_char_facts del: char_at_ix)

lemma primitive_goes_on:
  "n < len \<Longrightarrow> len \<le> 32767 \<Longrightarrow> char_at js (ix n) = Some c \<Longrightarrow> prim_char c \<Longrightarrow>
     primitive_scan js len (ix n) = primitive_scan js len (ix (n + 1))"
  using prim_char_facts(1) [of c] by (subst primitive_scan.simps) (simp add: prim_char_def del: char_at_ix)

lemma primitive_scan_ok:
  "list_all prim_char s \<Longrightarrow> is_separator c \<Longrightarrow> js = pre @ s @ c # post \<Longrightarrow>
     length pre + length s < len \<Longrightarrow> len \<le> 32767 \<Longrightarrow>
     primitive_scan js len (ix (length pre)) = Some (Found (ix (length pre + length s)))"
proof (induction s arbitrary: pre)
  case Nil
  have "primitive_scan js len (ix (length pre)) = Some (Found (ix (length pre)))"
    by (rule primitive_found [where c = c]) (use Nil in \<open>simp_all add: nth_append\<close>)
  then show ?case by simp
next
  case (Cons x s)
  have "primitive_scan js len (ix (length (pre @ [x]))) = Some (Found (ix (length (pre @ [x]) + length s)))"
    by (rule Cons.IH) (use Cons.prems in auto)
  moreover have "primitive_scan js len (ix (length pre)) = primitive_scan js len (ix (length pre + 1))"
    by (rule primitive_goes_on [where c = x]) (use Cons.prems in \<open>simp_all add: nth_append\<close>)
  ultimately show ?case by simp
qed

lemma hex_scan_ok:
  "list_all is_hex h \<Longrightarrow> js = pre @ h @ post \<Longrightarrow> length pre + length h < 32768 \<Longrightarrow>
     hex_scan js (length h) (ix (length pre)) = Some (Some (ix (length pre + length h)))"
proof (induction h arbitrary: pre)
  case (Cons x h)
  have "x \<noteq> NUL" using Cons.prems(1) by (auto simp: is_hex_def)
  then show ?case using Cons.IH [of "pre @ [x]"] Cons.prems by (simp add: nth_append)
qed simp

lemma escape_simple:
  "js = pre @ CHR 0x5C # d # post \<Longrightarrow> length pre + 2 < 32768 \<Longrightarrow>
     d \<in> {CHR 0x22, CHR ''/'', CHR 0x5C, CHR ''b'', CHR ''f'', CHR ''r'', CHR ''n'', CHR ''t''} \<Longrightarrow>
     escape_scan js (ix (length pre)) = Some (Some (ix (length pre + 1)))"
  unfolding escape_scan_def by (simp add: nth_append)

lemma escape_hex:
  assumes "js = pre @ CHR 0x5C # CHR ''u'' # h @ post" "length pre + 6 < 32768" "length h = 4" "list_all is_hex h"
  shows "escape_scan js (ix (length pre)) = Some (Some (ix (length pre + 5)))"
proof -
  have "hex_scan js (length h) (ix (length (pre @ [CHR 0x5C, CHR ''u'']))) =
      Some (Some (ix (length (pre @ [CHR 0x5C, CHR ''u'']) + length h)))"
    by (rule hex_scan_ok [where post = post]) (use assms in auto)
  then show ?thesis using assms unfolding escape_scan_def by (simp add: nth_append add.commute)
qed

lemma string_goes_on:
  "n < len \<Longrightarrow> len \<le> 32767 \<Longrightarrow> char_at js (ix n) = Some c \<Longrightarrow> c \<noteq> NUL \<Longrightarrow> c \<noteq> CHR 0x22 \<Longrightarrow> c \<noteq> CHR 0x5C \<Longrightarrow>
     string_scan js len (ix n) = string_scan js len (ix (n + 1))"
  "n < len \<Longrightarrow> len \<le> 32767 \<Longrightarrow> char_at js (ix n) = Some (CHR 0x5C) \<Longrightarrow> escape_scan js (ix n) = Some (Some (ix m)) \<Longrightarrow>
     string_scan js len (ix n) = string_scan js len (ix (m + 1))"
  "n < len \<Longrightarrow> len \<le> 32767 \<Longrightarrow> char_at js (ix n) = Some (CHR 0x22) \<Longrightarrow> string_scan js len (ix n) = Some (Found (ix n))"
  by (subst string_scan.simps, simp del: char_at_ix)+

lemma string_scan_ok:
  "string_ok s \<Longrightarrow> js = pre @ s @ CHR 0x22 # post \<Longrightarrow> length pre + length s < len \<Longrightarrow> len \<le> 32767 \<Longrightarrow>
     string_scan js len (ix (length pre)) = Some (Found (ix (length pre + length s)))"
proof (induction s arbitrary: pre rule: string_ok.induct)
  case 1
  then show ?case by (simp add: string_goes_on(3) nth_append)
next
  case (2 c s)
  note js = 2(5) and l = 2(6) and m = 2(7)
  have at: "char_at js (ix (length pre)) = Some c" using js l m by (simp add: nth_append)
  have n: "length pre < len" using l by simp
  show ?case
  proof (cases "c = CHR 0x5C")
    case False
    then have ok: "c \<noteq> NUL" "c \<noteq> CHR 0x22" "string_ok s" using 2(4) by simp_all
    have "string_scan js len (ix (length (pre @ [c]))) = Some (Found (ix (length (pre @ [c]) + length s)))"
      by (rule 2(3) [OF False ok(3)]) (use js l m in auto)
    then show ?thesis using string_goes_on(1) [OF n m at ok(1,2) False] by simp
  next
    case True
    then obtain d r where s: "s = d # r" using 2(4) by (cases s) auto
    show ?thesis
    proof (cases "d \<in> {CHR 0x22, CHR ''/'', CHR 0x5C, CHR ''b'', CHR ''f'', CHR ''r'', CHR ''n'', CHR ''t''}")
      case d: True
      then have r: "string_ok r" using 2(4) True s by simp
      have e: "escape_scan js (ix (length pre)) = Some (Some (ix (length pre + 1)))"
        by (rule escape_simple [where d = d and post = "r @ CHR 0x22 # post"]) (use js l m True s d in auto)
      have "string_scan js len (ix (length (pre @ [c, d]))) = Some (Found (ix (length (pre @ [c, d]) + length r)))"
        by (rule 2(1) [OF True s d r]) (use js l m s in auto)
      then show ?thesis using string_goes_on(2) [OF n m _ e] at True s by simp
    next
      case d: False
      then have u: "d = CHR ''u''" "4 \<le> length r" "list_all is_hex (take 4 r)" "string_ok (drop 4 r)"
        using 2(4) True s by simp_all
      have rs: "r = take 4 r @ drop 4 r" by simp
      have e: "escape_scan js (ix (length pre)) = Some (Some (ix (length pre + 5)))"
        by (rule escape_hex [where h = "take 4 r" and post = "drop 4 r @ CHR 0x22 # post"]) (use js l m True s u in auto)
      have "string_scan js len (ix (length (pre @ c # d # take 4 r))) =
          Some (Found (ix (length (pre @ c # d # take 4 r) + length (drop 4 r))))"
        by (rule 2(2) [OF True s d u(4)]) (use js l m s u in auto)
      then show ?thesis using string_goes_on(2) [OF n m _ e] at True s u(2) by (simp add: add.commute)
    qed
  qed
qed

subsection \<open>Tokens in the array\<close>

text \<open>One more child for the token \<open>sp\<close>, if it is one.\<close>

definition bump :: "i16 \<Rightarrow> nat \<Rightarrow> jsontok_t list \<Rightarrow> jsontok_t list" where
  "bump sp m A =
     (if sp = -1 then A
      else A[nat (sint sp) := (A ! nat (sint sp))\<lparr>tok_size := tok_size (A ! nat (sint sp)) + of_nat m\<rparr>])"

definition super_ok :: "i16 \<Rightarrow> jsontok_t list \<Rightarrow> bool" where
  "super_ok sp A \<longleftrightarrow> sp = -1 \<or> (0 \<le> sint sp \<and> nat (sint sp) < length A)"

definition at_token :: "nat \<Rightarrow> nat \<Rightarrow> i16 \<Rightarrow> jsmn_parser" where
  "at_token pos k sp = \<lparr>jpos = ix pos, toknext = ix k, toksuper = sp\<rparr>"

lemma length_bump [simp]: "length (bump sp m A) = length A"
  by (simp add: bump_def)

lemma bump_0 [simp]: "bump sp 0 A = A"
  by (simp add: bump_def)

lemma bump_bump [simp]: "super_ok sp A \<Longrightarrow> bump sp n (bump sp m A) = bump sp (m + n) A"
  by (auto simp: bump_def super_ok_def ac_simps)

lemma super_ok_bump [simp]: "super_ok sp (bump sp' m A) = super_ok sp A"
  by (simp add: super_ok_def)

lemma super_ok_append: "super_ok sp A \<Longrightarrow> super_ok sp (A @ B)"
  by (auto simp: super_ok_def)

lemma bump_append [simp]: "super_ok sp A \<Longrightarrow> bump sp m (A @ B) = bump sp m A @ B"
  by (auto simp: bump_def super_ok_def nth_append list_update_append)

lemma count_child_bump:
  "super_ok (toksuper p) A \<Longrightarrow> count_child p (Some (A @ B)) = Some (Some (bump (toksuper p) 1 A @ B))"
  by (auto simp: count_child_def super_ok_def bump_def with_token_def token_at_def nth_append list_update_append)

lemma alloc_ok:
  "length A < num \<Longrightarrow> length A < 32767 \<Longrightarrow>
     jsmn_alloc_token (at_token pos (length A) sp) (A @ t # B) num =
       Some (Some (ix (length A), at_token pos (length A + 1) sp,
         A @ t\<lparr>tok_start := -1, tok_end := -1, tok_size := 0, tok_parent := -1\<rparr> # B))"
  by (simp add: jsmn_alloc_token_def at_token_def with_token_ix)

lemma found_ok:
  assumes "length A < num" "length A < 32767"
  shows "found_token ty s e start after (at_token pos (length A) sp) (Some (A @ t # B)) num =
      Some (None, (at_token pos (length A + 1) sp)\<lparr>jpos := after\<rparr>,
        Some (A @ \<lparr>tok_type = ty, tok_size = 0, tok_start = s, tok_end = e, tok_parent = sp\<rparr> # B))"
proof -
  have "(t\<lparr>tok_start := -1, tok_end := -1, tok_size := 0, tok_parent := -1, tok_type := ty, tok_start := s, tok_end := e,
      tok_size := 0, tok_parent := sp\<rparr>) = \<lparr>tok_type = ty, tok_size = 0, tok_start = s, tok_end = e, tok_parent = sp\<rparr>"
    by simp
  with assms show ?thesis
    by (simp add: found_token_def alloc_ok with_token_ix jsmn_fill_token_def) (simp add: at_token_def)
qed

lemma leaf_ok:
  assumes "m = Some (None, p, Some (A @ B))" "super_ok (toksuper p) A"
  shows "leaf m = Some (None, p, Some (bump (toksuper p) 1 A @ B))"
  using assms by (simp add: leaf_def count_child_bump)

text \<open>A byte of the text, and the loop.\<close>

lemma loop_step:
  assumes "n < len" "len \<le> 32767" "char_at js (ix n) = Some c" "c \<noteq> NUL"
    and "jsmn_byte js len num c (at_token n k sp) T = Some (d, None, p, T')"
  shows "jsmn_loop js len num count (at_token n k sp) T = jsmn_loop js len num (count + d) (p\<lparr>jpos := jpos p + 1\<rparr>) T'"
  using assms by (subst jsmn_loop.simps) (simp add: at_token_def del: char_at_ix)

lemma loop_skips:
  "list_all skipped w \<Longrightarrow> js = pre @ w @ post \<Longrightarrow> length pre + length w \<le> len \<Longrightarrow> len \<le> 32767 \<Longrightarrow>
     jsmn_loop js len num count (at_token (length pre) k sp) T =
       jsmn_loop js len num count (at_token (length pre + length w) k sp) T"
proof (induction w arbitrary: pre)
  case (Cons x w)
  have x: "skipped x" "x \<noteq> NUL" using Cons.prems(1) by (auto simp: skipped_def)
  have "jsmn_byte js len num x (at_token (length pre) k sp) T = Some (0, None, at_token (length pre) k sp, T)"
    using x(1) by (auto simp: jsmn_byte_def skipped_def)
  then have "jsmn_loop js len num count (at_token (length pre) k sp) T =
      jsmn_loop js len num (count + 0) ((at_token (length pre) k sp)\<lparr>jpos := jpos (at_token (length pre) k sp) + 1\<rparr>) T"
    by (intro loop_step [where c = x]) (use Cons.prems x in \<open>simp_all add: nth_append\<close>)
  also have "\<dots> = jsmn_loop js len num count (at_token (length (pre @ [x])) k sp) T" by (simp add: at_token_def)
  finally show ?case using Cons.IH [of "pre @ [x]"] Cons.prems by simp
qed simp

subsection \<open>The way up\<close>

lemma ntoks_pos [simp]: "0 < ntoks n"
  by (cases n) simp_all

lemma nitems_pos: "0 < children xs \<Longrightarrow> 0 < nitems xs"
  by (cases xs) simp_all

lemma close_up:
  "token_at X i = Some t \<Longrightarrow> tok_end t \<noteq> -1 \<Longrightarrow> tok_parent t \<noteq> -1 \<Longrightarrow>
     close_search ty p X i = close_search ty p X (tok_parent t)"
  by (subst close_search.simps) (simp add: open_token_def)

lemma close_found:
  "token_at X i = Some t \<Longrightarrow> tok_end t = -1 \<Longrightarrow> tok_start t \<noteq> -1 \<Longrightarrow> tok_type t = ty \<Longrightarrow>
     with_token (\<lambda>t. t\<lparr>tok_end := jpos p + 1\<rparr>) i X = Some X' \<Longrightarrow>
     close_search ty p X i = Some (None, p\<lparr>toksuper := tok_parent t\<rparr>, Some X')"
  by (subst close_search.simps) (simp add: open_token_def)

lemma close_over:
  "j < 32768 \<Longrightarrow> j < length X \<Longrightarrow> tok_end (X ! j) \<noteq> -1 \<Longrightarrow> tok_parent (X ! j) = par \<Longrightarrow> par \<noteq> -1 \<Longrightarrow>
     close_search ty p X (ix j) = close_search ty p X par"
  using close_up [of X "ix j" "X ! j"] by simp

lemma walk_up:
  "X = P @ toks n off (length P) par @ R \<Longrightarrow> length P + ntoks n \<le> 32767 \<Longrightarrow> off + length (text_of n) \<le> 32767 \<Longrightarrow>
     par \<noteq> -1 \<Longrightarrow> close_search ty p X (ix (length P + ntoks n - 1)) = close_search ty p X par"
  "X = P @ items_toks xs off (length P) par @ R \<Longrightarrow> length P + nitems xs \<le> 32767 \<Longrightarrow>
     off + length (items_text xs) \<le> 32767 \<Longrightarrow> par \<noteq> -1 \<Longrightarrow> 0 < children xs \<Longrightarrow>
     close_search ty p X (ix (length P + nitems xs - 1)) = close_search ty p X par"
proof (induction n and xs arbitrary: P off par R and P off par R)
  case (Prim s)
  then show ?case using close_over [of "length P" X par ty p] by simp
next
  case (Str s)
  then show ?case using close_over [of "length P" X par ty p] by simp
next
  case (Con b xs t)
  have up: "close_search ty p X (ix (length P)) = close_search ty p X par"
    using Con.prems close_over [of "length P" X par ty p] by simp
  show ?case
  proof (cases "children xs")
    case 0
    then have "nitems xs = 0" by (cases xs) simp_all
    then show ?thesis using up by simp
  next
    case (Suc m)
    obtain con where "toks (Con b xs t) off (length P) par = con # items_toks xs (off + 1) (length P + 1) (ix (length P))"
      by simp
    then have "X = (P @ [con]) @ items_toks xs (off + 1) (length (P @ [con])) (ix (length P)) @ R"
      using Con.prems(1) by simp
    then have "close_search ty p X (ix (length (P @ [con]) + nitems xs - 1)) = close_search ty p X (ix (length P))"
      by (rule Con.IH) (use Con.prems Suc in auto)
    then show ?thesis using up by simp
  qed
next
  case (Item w n xs)
  show ?case
  proof (cases "children xs")
    case 0
    then have d: "xs = Done" by (cases xs) simp_all
    have "close_search ty p X (ix (length P + ntoks n - 1)) = close_search ty p X par"
      by (rule Item.IH(1) [where off = "off + length w" and R = R]) (use Item.prems d in auto)
    then show ?thesis by (simp add: d)
  next
    case (Suc m)
    let ?P = "P @ toks n (off + length w) (length P) par"
    have "close_search ty p X (ix (length ?P + nitems xs - 1)) = close_search ty p X par"
      by (rule Item.IH(2) [where off = "off + length w + length (text_of n)" and R = R]) (use Item.prems Suc in auto)
    then show ?thesis by (simp add: ac_simps)
  qed
qed simp

subsection \<open>Containers\<close>

definition con_token :: "bool \<Rightarrow> nat \<Rightarrow> nat \<Rightarrow> i16 \<Rightarrow> i16 \<Rightarrow> jsontok_t" where
  "con_token b m off e sp =
     \<lparr>tok_type = (if b then JSMN_OBJECT else JSMN_ARRAY), tok_size = of_nat m, tok_start = ix off, tok_end = e, tok_parent = sp\<rparr>"

lemma with_super:
  "super_ok sp A \<Longrightarrow> sp \<noteq> -1 \<Longrightarrow>
     with_token (\<lambda>t. t\<lparr>tok_size := tok_size t + 1\<rparr>) sp (A @ B) = Some (bump sp 1 A @ B)"
  by (simp add: with_token_def token_at_def bump_def super_ok_def nth_append list_update_append)

lemma with_last: "length A = k \<Longrightarrow> k < 32768 \<Longrightarrow> with_token f (ix k) (A @ x # B) = Some (A @ f x # B)"
  by (auto simp: with_token_ix)

lemma open_ok:
  assumes "length A < num" "length A < 32767" "super_ok sp A"
  shows "jsmn_byte js len num (opener b) (at_token n (length A) sp) (Some (A @ t # B)) =
      Some (1, None, at_token n (length A + 1) (ix (length A)), Some (bump sp 1 A @ con_token b 0 n (-1) sp # B))"
proof -
  have w: "with_token f (ix (length A)) (bump sp 1 A @ x # B) = Some (bump sp 1 A @ f x # B)" for f x
    by (rule with_last) (use assms(2) in simp_all)
  have p: "jpos (at_token n k sp') = ix n" "toknext (at_token n k sp') = ix k" "toksuper (at_token n k sp') = sp'"
    "(at_token n k sp')\<lparr>toksuper := q\<rparr> = at_token n k q" for k sp' q
    by (simp_all add: at_token_def)
  have c: "open_container ty num (at_token n (length A) sp) (Some (A @ t # B)) =
      Some (None, at_token n (length A + 1) (ix (length A)),
        Some (bump sp 1 A @ \<lparr>tok_type = ty, tok_size = 0, tok_start = ix n, tok_end = -1, tok_parent = sp\<rparr> # B))" for ty
  proof (cases "sp = -1")
    case True
    then have "bump sp 1 A = A" by (simp add: bump_def)
    then show ?thesis using assms w True by (simp add: open_container_def alloc_ok p)
  next
    case False
    then show ?thesis using assms w by (simp add: open_container_def alloc_ok p with_super [simplified])
  qed
  show ?thesis by (cases b) (simp_all add: jsmn_byte_def c con_token_def)
qed

lemma bump_con: "bump (ix (length A)) m (A @ [con_token b 0 n e sp]) = A @ [con_token b m n e sp]"
  if "length A < 32768"
  using that by (simp add: bump_def con_token_def)

lemma close_ok:
  assumes "length A + nitems xs < 32767" "off + length (items_text xs) \<le> 32767" "n < 32768" "pos < 32767"
  defines "C \<equiv> items_toks xs off (length A + 1) (ix (length A))"
  shows "jsmn_byte js len num (closer b) (at_token pos (length A + 1 + nitems xs) (ix (length A)))
        (Some (A @ con_token b m n (-1) sp # C @ B)) =
      Some (0, None, at_token pos (length A + 1 + nitems xs) sp, Some (A @ con_token b m n (ix (pos + 1)) sp # C @ B))"
proof -
  let ?p = "at_token pos (length A + 1 + nitems xs) (ix (length A))"
  let ?ty = "if b then JSMN_OBJECT else JSMN_ARRAY"
  let ?X = "A @ con_token b m n (-1) sp # C @ B"
  have up: "close_search ?ty ?p ?X (ix (length A + nitems xs)) = close_search ?ty ?p ?X (ix (length A))"
  proof (cases "children xs")
    case 0
    then have "nitems xs = 0" by (cases xs) simp_all
    then show ?thesis by simp
  next
    case (Suc k)
    have "close_search ?ty ?p ?X (ix (length (A @ [con_token b m n (-1) sp]) + nitems xs - 1)) =
        close_search ?ty ?p ?X (ix (length A))"
      by (rule walk_up(2) [where off = off and R = B]) (use assms Suc in auto)
    then show ?thesis by simp
  qed
  have "close_search ?ty ?p ?X (ix (length A)) =
      Some (None, ?p\<lparr>toksuper := tok_parent (con_token b m n (-1) sp)\<rparr>, Some (A @ con_token b m n (ix (pos + 1)) sp # C @ B))"
    by (rule close_found) (use assms in \<open>simp_all add: con_token_def with_token_ix at_token_def\<close>)
  then have "close_container ?ty ?p (Some ?X) =
      Some (None, at_token pos (length A + 1 + nitems xs) sp, Some (A @ con_token b m n (ix (pos + 1)) sp # C @ B))"
    using up assms(1) by (simp add: close_container_def at_token_def con_token_def)
  then show ?thesis by (cases b) (simp_all add: jsmn_byte_def)
qed

subsection \<open>The tokens of a tree\<close>

lemma opener_facts [simp]: "opener b \<noteq> NUL" "closer b \<noteq> NUL" "is_separator (closer b)"
  by (cases b; simp add: is_separator_def)+

lemma leaf_byte:
  "skipped c \<Longrightarrow> c \<noteq> CHR ''{'' \<and> c \<noteq> CHR ''['' \<and> c \<noteq> CHR ''}'' \<and> c \<noteq> CHR '']'' \<and> c \<noteq> CHR 0x22"
  "primitive_start c \<Longrightarrow> \<not> skipped c \<and> c \<noteq> NUL \<and>
     c \<noteq> CHR ''{'' \<and> c \<noteq> CHR ''['' \<and> c \<noteq> CHR ''}'' \<and> c \<noteq> CHR '']'' \<and> c \<noteq> CHR 0x22"
  by (auto simp: skipped_def primitive_start_def)

lemma loop_prim:
  assumes "prim_ok s" "js = pre @ s @ c # post" "is_separator c" "length pre + length s < len" "len \<le> 32767"
    and "length A < num" "length A < 32767" "super_ok sp A"
  shows "jsmn_loop js len num count (at_token (length pre) (length A) sp) (Some (A @ t # B)) =
    jsmn_loop js len num (count + 1) (at_token (length pre + length s) (length A + 1) sp)
      (Some (bump sp 1 A @ toks (Prim s) (length pre) (length A) sp @ B))"
proof -
  let ?p = "at_token (length pre) (length A) sp"
  obtain x s' where s: "s = x # s'" "primitive_start x" "list_all prim_char s"
    using assms(1) by (cases s) (auto simp: prim_ok_def)
  have scan: "primitive_scan js len (ix (length pre)) = Some (Found (ix (length pre + length s)))"
    by (rule primitive_scan_ok [where c = c and post = post]) (use assms s in auto)
  have "jsmn_parse_primitive js len num ?p (Some (A @ t # B)) =
      Some (None, (at_token (length pre) (length A + 1) sp)\<lparr>jpos := ix (length pre + length s - 1)\<rparr>,
        Some (A @ toks (Prim s) (length pre) (length A) sp @ B))"
    using assms(6,7) s(1) scan by (simp add: jsmn_parse_primitive_def found_ok) (simp add: at_token_def)
  moreover have "(at_token (length pre) (length A + 1) sp)\<lparr>jpos := ix (length pre + length s - 1)\<rparr> =
      at_token (length pre + length s - 1) (length A + 1) sp" by (simp add: at_token_def)
  ultimately have "leaf (jsmn_parse_primitive js len num ?p (Some (A @ t # B))) =
      Some (None, at_token (length pre + length s - 1) (length A + 1) sp,
        Some (bump sp 1 A @ toks (Prim s) (length pre) (length A) sp @ B))"
    using leaf_ok [of _ "at_token (length pre + length s - 1) (length A + 1) sp" A
        "toks (Prim s) (length pre) (length A) sp @ B"] assms(8)
    by (simp add: at_token_def)
  then have "jsmn_byte js len num x ?p (Some (A @ t # B)) =
      Some (1, None, at_token (length pre + length s - 1) (length A + 1) sp,
        Some (bump sp 1 A @ toks (Prim s) (length pre) (length A) sp @ B))"
    using leaf_byte(2) [OF s(2)] s(2) by (simp add: jsmn_byte_def)
  then have "jsmn_loop js len num count ?p (Some (A @ t # B)) =
      jsmn_loop js len num (count + 1) ((at_token (length pre + length s - 1) (length A + 1) sp)
          \<lparr>jpos := jpos (at_token (length pre + length s - 1) (length A + 1) sp) + 1\<rparr>)
        (Some (bump sp 1 A @ toks (Prim s) (length pre) (length A) sp @ B))"
    by (intro loop_step [where c = x]) (use assms(2,4,5) s leaf_byte(2) in \<open>simp_all add: nth_append\<close>)
  then show ?thesis using s(1) by (simp add: at_token_def)
qed

lemma loop_str:
  assumes "string_ok s" "js = pre @ text_of (Str s) @ post" "length pre + length s + 2 \<le> len" "len \<le> 32767"
    and "length A < num" "length A < 32767" "super_ok sp A"
  shows "jsmn_loop js len num count (at_token (length pre) (length A) sp) (Some (A @ t # B)) =
    jsmn_loop js len num (count + 1) (at_token (length pre + length s + 2) (length A + 1) sp)
      (Some (bump sp 1 A @ toks (Str s) (length pre) (length A) sp @ B))"
proof -
  let ?p = "at_token (length pre) (length A) sp" and ?q = "length pre + 1 + length s"
  have "string_scan js len (ix (length (pre @ [CHR 0x22]))) = Some (Found (ix (length (pre @ [CHR 0x22]) + length s)))"
    by (rule string_scan_ok [where post = post]) (use assms in auto)
  then have scan: "string_scan js len (ix (length pre + 1)) = Some (Found (ix ?q))" by simp
  have "jsmn_parse_string js len num ?p (Some (A @ t # B)) =
      Some (None, (at_token (length pre) (length A + 1) sp)\<lparr>jpos := ix ?q\<rparr>,
        Some (A @ toks (Str s) (length pre) (length A) sp @ B))"
    using assms(5,6) scan by (simp add: jsmn_parse_string_def found_ok) (simp add: at_token_def)
  moreover have "(at_token (length pre) (length A + 1) sp)\<lparr>jpos := ix ?q\<rparr> = at_token ?q (length A + 1) sp"
    by (simp add: at_token_def)
  ultimately have "leaf (jsmn_parse_string js len num ?p (Some (A @ t # B))) =
      Some (None, at_token ?q (length A + 1) sp, Some (bump sp 1 A @ toks (Str s) (length pre) (length A) sp @ B))"
    using leaf_ok [of _ "at_token ?q (length A + 1) sp" A "toks (Str s) (length pre) (length A) sp @ B"] assms(7)
    by (simp add: at_token_def)
  then have "jsmn_byte js len num (CHR 0x22) ?p (Some (A @ t # B)) =
      Some (1, None, at_token ?q (length A + 1) sp, Some (bump sp 1 A @ toks (Str s) (length pre) (length A) sp @ B))"
    by (simp add: jsmn_byte_def)
  then have "jsmn_loop js len num count ?p (Some (A @ t # B)) =
      jsmn_loop js len num (count + 1) ((at_token ?q (length A + 1) sp)\<lparr>jpos := jpos (at_token ?q (length A + 1) sp) + 1\<rparr>)
        (Some (bump sp 1 A @ toks (Str s) (length pre) (length A) sp @ B))"
    by (intro loop_step [where c = "CHR 0x22"]) (use assms(2,3,4) in \<open>simp_all add: nth_append\<close>)
  then show ?thesis by (simp add: at_token_def)
qed

lemma hd_rest: "is_separator (hd (r @ '']'')) \<Longrightarrow> is_separator c \<Longrightarrow> \<exists>d u. r @ c # post = d # u \<and> is_separator d"
  by (cases r) auto

text \<open>What must follow a value in the text.\<close>

definition followed :: "node \<Rightarrow> string \<Rightarrow> nat \<Rightarrow> nat \<Rightarrow> bool" where
  "followed n post e len \<longleftrightarrow>
     (case n of Prim s \<Rightarrow> (\<exists>c r. post = c # r \<and> is_separator c \<and> e < len) | _ \<Rightarrow> e \<le> len)"

lemma followedI:
  "ends_prim n r \<Longrightarrow> is_separator c \<Longrightarrow> e < len \<Longrightarrow> followed n (r @ c # post) e len"
  using hd_rest [of r c post] by (cases n) (auto simp: followed_def ends_prim_def)

lemma drop_more: "n \<le> length B \<Longrightarrow> B = take n B @ drop n B"
  by simp

lemma loop_tree:
  "node_ok n \<Longrightarrow> js = pre @ text_of n @ post \<Longrightarrow> followed n post (length pre + length (text_of n)) len \<Longrightarrow> len \<le> 32767 \<Longrightarrow>
     length A + ntoks n \<le> num \<Longrightarrow> length A + ntoks n < 32767 \<Longrightarrow> ntoks n \<le> length B \<Longrightarrow> super_ok sp A \<Longrightarrow>
     jsmn_loop js len num count (at_token (length pre) (length A) sp) (Some (A @ B)) =
       jsmn_loop js len num (count + int (ntoks n)) (at_token (length pre + length (text_of n)) (length A + ntoks n) sp)
         (Some (bump sp 1 A @ toks n (length pre) (length A) sp @ drop (ntoks n) B))"
  "items_ok xs t \<Longrightarrow> js = pre @ items_text xs @ t @ c # post \<Longrightarrow> is_separator c \<Longrightarrow>
     length pre + length (items_text xs) + length t < len \<Longrightarrow> len \<le> 32767 \<Longrightarrow>
     length A + nitems xs \<le> num \<Longrightarrow> length A + nitems xs < 32767 \<Longrightarrow> nitems xs \<le> length B \<Longrightarrow> super_ok sp A \<Longrightarrow>
     jsmn_loop js len num count (at_token (length pre) (length A) sp) (Some (A @ B)) =
       jsmn_loop js len num (count + int (nitems xs)) (at_token (length pre + length (items_text xs)) (length A + nitems xs) sp)
         (Some (bump sp (children xs) A @ items_toks xs (length pre) (length A) sp @ drop (nitems xs) B))"
proof (induction n and xs arbitrary: pre post A B sp count and pre post t c A B sp count)
  case (Prim s)
  obtain b B' where B: "B = b # B'" using Prim.prems(7) by (cases B) auto
  obtain c r where c: "post = c # r" "is_separator c" "length pre + length s < len"
    using Prim.prems(3) by (auto simp: followed_def)
  show ?case
    using loop_prim [of s js pre c r len A num sp count b B'] Prim.prems c B by simp
next
  case (Str s)
  obtain b B' where B: "B = b # B'" using Str.prems(7) by (cases B) auto
  show ?case
    using loop_str [of s js pre post len A num sp count b B'] Str.prems B by (simp add: followed_def)
next
  case (Con q xs t)
  obtain b B' where B: "B = b # B'" using Con.prems(7) by (cases B) auto
  let ?A1 = "bump sp 1 A @ [con_token q 0 (length pre) (-1) sp]" and ?pre = "pre @ [opener q]"
  let ?e = "length pre + 1 + length (items_text xs) + length t"
  have e: "?e < len" using Con.prems(3) by (simp add: followed_def)
  have js: "js = ?pre @ items_text xs @ t @ closer q # post" using Con.prems(2) by simp
  have "jsmn_loop js len num count (at_token (length pre) (length A) sp) (Some (A @ B)) =
      jsmn_loop js len num (count + 1) ((at_token (length pre) (length A + 1) (ix (length A)))
          \<lparr>jpos := jpos (at_token (length pre) (length A + 1) (ix (length A))) + 1\<rparr>)
        (Some (bump sp 1 A @ con_token q 0 (length pre) (-1) sp # B'))"
    unfolding B
    by (rule loop_step [where c = "opener q"])
      (use Con.prems e in \<open>simp_all add: open_ok nth_append\<close>)
  also have "\<dots> = jsmn_loop js len num (count + 1) (at_token (length ?pre) (length ?A1) (ix (length A))) (Some (?A1 @ B'))"
    by (simp add: at_token_def)
  also have "\<dots> = jsmn_loop js len num (count + 1 + int (nitems xs))
      (at_token (length ?pre + length (items_text xs)) (length ?A1 + nitems xs) (ix (length A)))
      (Some (bump (ix (length A)) (children xs) ?A1 @ items_toks xs (length ?pre) (length ?A1) (ix (length A)) @ drop (nitems xs) B'))"
    by (rule Con.IH [OF _ js]) (use Con.prems e B in \<open>simp_all add: super_ok_def\<close>)
  also have "bump (ix (length A)) (children xs) ?A1 = bump sp 1 A @ [con_token q (children xs) (length pre) (-1) sp]"
    using bump_con [of "bump sp 1 A" "children xs" q "length pre" "-1" sp] Con.prems(6) by simp
  also have "jsmn_loop js len num (count + 1 + int (nitems xs))
      (at_token (length ?pre + length (items_text xs)) (length ?A1 + nitems xs) (ix (length A))) T =
     jsmn_loop js len num (count + 1 + int (nitems xs)) (at_token ?e (length ?A1 + nitems xs) (ix (length A))) T" for T
    using loop_skips [of t js "?pre @ items_text xs" "closer q # post" len num "count + 1 + int (nitems xs)"
        "length ?A1 + nitems xs" "ix (length A)" T] Con.prems(1,4) js e by simp
  also have "jsmn_loop js len num (count + 1 + int (nitems xs)) (at_token ?e (length ?A1 + nitems xs) (ix (length A)))
       (Some ((bump sp 1 A @ [con_token q (children xs) (length pre) (-1) sp]) @
          items_toks xs (length ?pre) (length ?A1) (ix (length A)) @ drop (nitems xs) B')) =
     jsmn_loop js len num (count + 1 + int (nitems xs) + 0) ((at_token ?e (length A + 1 + nitems xs) sp)
          \<lparr>jpos := jpos (at_token ?e (length A + 1 + nitems xs) sp) + 1\<rparr>)
       (Some (bump sp 1 A @ con_token q (children xs) (length pre) (ix (?e + 1)) sp #
          items_toks xs (length pre + 1) (length A + 1) (ix (length A)) @ drop (nitems xs) B'))"
  proof (rule loop_step [where c = "closer q"])
    show "?e < len" "len \<le> 32767" "closer q \<noteq> NUL" using e Con.prems(4) by simp_all
    show "char_at js (ix ?e) = Some (closer q)" using e Con.prems(4) js by (simp add: nth_append)
    show "jsmn_byte js len num (closer q) (at_token ?e (length ?A1 + nitems xs) (ix (length A)))
       (Some ((bump sp 1 A @ [con_token q (children xs) (length pre) (-1) sp]) @
          items_toks xs (length ?pre) (length ?A1) (ix (length A)) @ drop (nitems xs) B')) =
      Some (0, None, at_token ?e (length A + 1 + nitems xs) sp,
        Some (bump sp 1 A @ con_token q (children xs) (length pre) (ix (?e + 1)) sp #
          items_toks xs (length pre + 1) (length A + 1) (ix (length A)) @ drop (nitems xs) B'))"
      using close_ok [of "bump sp 1 A" xs "length pre + 1" "length pre" ?e js len num q "children xs" sp "drop (nitems xs) B'"]
        e Con.prems(4,6) by simp
  qed
  finally show ?case using B by (simp add: at_token_def con_token_def ac_simps)
next
  case Done
  then show ?case by simp
next
  case (Item w n xs)
  let ?pre = "pre @ w" and ?A = "bump sp 1 A @ toks n (length pre + length w) (length A) sp" and ?B = "drop (ntoks n) B"
  have js: "js = ?pre @ text_of n @ (items_text xs @ t) @ c # post" using Item.prems(2) by simp
  have js2: "js = (?pre @ text_of n) @ items_text xs @ t @ c # post" using js by simp
  have f: "followed n ((items_text xs @ t) @ c # post) (length ?pre + length (text_of n)) len"
    by (rule followedI) (use Item.prems in auto)
  have "jsmn_loop js len num count (at_token (length pre) (length A) sp) (Some (A @ B)) =
      jsmn_loop js len num count (at_token (length ?pre) (length A) sp) (Some (A @ B))"
    using loop_skips [of w js pre "text_of n @ (items_text xs @ t) @ c # post" len num count "length A" sp "Some (A @ B)"]
      Item.prems by simp
  also have "\<dots> = jsmn_loop js len num (count + int (ntoks n)) (at_token (length ?pre + length (text_of n)) (length A + ntoks n) sp)
      (Some (bump sp 1 A @ toks n (length ?pre) (length A) sp @ ?B))"
    by (rule Item.IH(1) [OF _ js f]) (use Item.prems in auto)
  also have "\<dots> = jsmn_loop js len num (count + int (ntoks n)) (at_token (length (?pre @ text_of n)) (length ?A) sp) (Some (?A @ ?B))"
    by (simp add: add.assoc)
  also have "\<dots> = jsmn_loop js len num (count + int (ntoks n) + int (nitems xs))
      (at_token (length (?pre @ text_of n) + length (items_text xs)) (length ?A + nitems xs) sp)
      (Some (bump sp (children xs) ?A @ items_toks xs (length (?pre @ text_of n)) (length ?A) sp @ drop (nitems xs) ?B))"
    by (rule Item.IH(2) [OF _ js2]) (use Item.prems in \<open>auto simp: super_ok_append\<close>)
  finally show ?case using Item.prems(9) by (simp add: ac_simps)
qed

subsection \<open>A whole text\<close>

lemma toks_closed:
  "off + length (text_of n) \<le> 32767 \<Longrightarrow> t \<in> set (toks n off i par) \<Longrightarrow> tok_end t \<noteq> -1"
  "off + length (items_text xs) \<le> 32767 \<Longrightarrow> t \<in> set (items_toks xs off i par) \<Longrightarrow> tok_end t \<noteq> -1"
  by (induction n and xs arbitrary: off i par and off i par) (force simp: add.assoc)+

lemma any_open_closed:
  "(\<forall>i < k. i < length T \<and> tok_end (T ! i) \<noteq> -1) \<Longrightarrow> unclosed T k = Some False"
  by (induction k) (auto simp: open_token_def)

lemma jsmn_parse_tree:
  assumes "node_ok n" "\<forall>s. n \<noteq> Prim s" "list_all skipped w" "list_all skipped v"
    and "len = length (w @ text_of n @ v)" "len \<le> 32767"
    and "ntoks n \<le> num" "ntoks n \<le> length T" "ntoks n < 32767"
  shows "jsmn_parse jsmn_init (w @ text_of n @ v @ post) len (Some T) num =
    Some (Inr (int (ntoks n)), at_token len (ntoks n) (-1),
      Some (toks n (length w) 0 (-1) @ drop (ntoks n) T))"
proof -
  let ?js = "w @ text_of n @ v @ post" and ?T = "toks n (length w) 0 (-1) @ drop (ntoks n) T"
  have "jsmn_parse jsmn_init ?js len (Some T) num = jsmn_loop ?js len num 0 (at_token 0 0 (-1)) (Some T)"
    by (simp add: jsmn_parse_def jsmn_init_def at_token_def ix_def)
  also have "\<dots> = jsmn_loop ?js len num 0 (at_token (length w) 0 (-1)) (Some T)"
    using loop_skips [of w ?js "[]" "text_of n @ v @ post" len num 0 0 "-1" "Some T"] assms by simp
  also have "\<dots> = jsmn_loop ?js len num (0 + int (ntoks n)) (at_token (length w + length (text_of n)) (ntoks n) (-1))
      (Some (bump (-1) 1 [] @ toks n (length w) 0 (-1) @ drop (ntoks n) T))"
    using loop_tree(1) [of n ?js w "v @ post" len "[]" num T "-1" 0] assms
    by (cases n) (simp_all add: followed_def super_ok_def)
  also have "\<dots> = jsmn_loop ?js len num (int (ntoks n)) (at_token (length (w @ text_of n)) (ntoks n) (-1)) (Some ?T)"
    by (simp add: bump_def)
  also have "\<dots> = jsmn_loop ?js len num (int (ntoks n)) (at_token len (ntoks n) (-1)) (Some ?T)"
    using loop_skips [of v ?js "w @ text_of n" post len num "int (ntoks n)" "ntoks n" "-1" "Some ?T"] assms
    by (simp add: add.assoc)
  also have "\<dots> = jsmn_finish (int (ntoks n)) (at_token len (ntoks n) (-1)) (Some ?T)"
    using assms(6) by (subst jsmn_loop.simps) (simp add: at_token_def)
  also have "\<dots> = Some (Inr (int (ntoks n)), at_token len (ntoks n) (-1), Some ?T)"
  proof -
    have "unclosed ?T (ntoks n) = Some False"
    proof (rule any_open_closed, intro allI impI conjI)
      fix i assume i: "i < ntoks n"
      then show "i < length ?T" by simp
      have "?T ! i = toks n (length w) 0 (-1) ! i" using i by (simp only: nth_append length_toks if_True)
      moreover have "toks n (length w) 0 (-1) ! i \<in> set (toks n (length w) 0 (-1))"
        using i by (metis length_toks(1) nth_mem)
      ultimately show "tok_end (?T ! i) \<noteq> -1"
        using toks_closed(1) [of "length w" n] assms(5,6) by simp
    qed
    then show ?thesis using assms(9) by (simp add: jsmn_finish_def at_token_def)
  qed
  finally show ?thesis .
qed

subsection \<open>A run that only counts\<close>

lemma found_token_counts:
  "found_token ty s e start after p (Some T) num = Some (None, p', T') \<Longrightarrow>
     (\<exists>U. T' = Some U) \<and> found_token ty s e start after q None num' = Some (None, q\<lparr>jpos := jpos p'\<rparr>, None)"
  by (auto simp: found_token_def jsmn_alloc_token_def bind_eq_Some_conv split: if_splits)

lemma leaf_counts:
  assumes "leaf m = Some (None, p', T')"
    and "\<And>U. m = Some (None, p', U) \<Longrightarrow> (\<exists>V. U = Some V) \<and> m' = Some (None, q', None)"
  shows "(\<exists>U. T' = Some U) \<and> leaf m' = Some (None, q', None)"
proof -
  obtain U where U: "m = Some (None, p', U)" using leaf_pos [OF assms(1)] by blast
  obtain V where V: "U = Some V" "m' = Some (None, q', None)" using assms(2) [OF U] by blast
  have "\<exists>W. T' = Some W"
    using assms(1) by (auto simp: leaf_def U V count_child_def bind_eq_Some_conv split: if_splits)
  then show ?thesis by (simp add: V leaf_def count_child_def)
qed

lemma string_counts:
  assumes "jsmn_parse_string js len num p (Some T) = Some (None, p', T')" "jpos q = jpos p"
  shows "(\<exists>U. T' = Some U) \<and> jsmn_parse_string js len num' q None = Some (None, q\<lparr>jpos := jpos p'\<rparr>, None)"
proof -
  obtain r where r: "string_scan js len (jpos p + 1) = Some r"
    using assms(1) by (auto simp: jsmn_parse_string_def Let_def bind_eq_Some_conv)
  then show ?thesis
    using assms found_token_counts [of JSMN_STRING] by (cases r) (auto simp: jsmn_parse_string_def Let_def)
qed

lemma primitive_counts:
  assumes "jsmn_parse_primitive js len num p (Some T) = Some (None, p', T')" "jpos q = jpos p"
  shows "(\<exists>U. T' = Some U) \<and> jsmn_parse_primitive js len num' q None = Some (None, q\<lparr>jpos := jpos p'\<rparr>, None)"
proof -
  obtain r where r: "primitive_scan js len (jpos p) = Some r"
    using assms(1) by (auto simp: jsmn_parse_primitive_def Let_def bind_eq_Some_conv)
  then show ?thesis
    using assms found_token_counts [of JSMN_PRIMITIVE] by (cases r) (auto simp: jsmn_parse_primitive_def Let_def)
qed

lemma close_search_tokens: "close_search type parser T i = Some r \<Longrightarrow> \<exists>U. snd (snd r) = Some U"
proof (rule close_search.raw_induct [where P = "\<lambda>type parser T i r. \<exists>U. snd (snd r) = Some U", rotated], assumption)
  fix f type parser T i r
  assume IH: "\<And>type parser T i r. f type parser T i = Some r \<Longrightarrow> \<exists>U. snd (snd r) = Some U"
    and r: "do {
       t \<leftarrow> token_at T i;
       if open_token t then
         if tok_type t \<noteq> type then Some (Some JSMN_ERROR_INVAL, parser, Some T)
         else do {
           T \<leftarrow> with_token (\<lambda>t. t\<lparr>tok_end := jpos parser + 1\<rparr>) i T;
           Some (None, parser\<lparr>toksuper := tok_parent t\<rparr>, Some T)
         }
       else if tok_parent t = -1 then Some (None, parser, Some T)
       else f type parser T (tok_parent t)
     } = Some r"
  obtain t where t: "token_at T i = Some t" using r by (auto simp: bind_eq_Some_conv)
  show "\<exists>U. snd (snd r) = Some U"
    using r t IH by (cases "open_token t"; cases "tok_parent t = -1") (auto simp: bind_eq_Some_conv split: if_split_asm)
qed

lemma containers_count:
  "open_container ty num p (Some T) = Some (None, p', T') \<Longrightarrow>
     (\<exists>U. T' = Some U) \<and> open_container ty num' q None = Some (None, q, None)"
  "close_container ty p (Some T) = Some (None, p', T') \<Longrightarrow>
     (\<exists>U. T' = Some U) \<and> close_container ty q None = Some (None, q, None)"
proof -
  show "open_container ty num p (Some T) = Some (None, p', T') \<Longrightarrow>
     (\<exists>U. T' = Some U) \<and> open_container ty num' q None = Some (None, q, None)"
    by (auto simp: open_container_def bind_eq_Some_conv split: option.split_asm)
  show "close_container ty p (Some T) = Some (None, p', T') \<Longrightarrow>
     (\<exists>U. T' = Some U) \<and> close_container ty q None = Some (None, q, None)"
    using close_search_tokens by (fastforce simp: close_container_def split: if_splits)
qed

lemma jsmn_byte_counts:
  assumes "jsmn_byte js len num c p (Some T) = Some (k, None, p', T')" "jpos q = jpos p"
  shows "(\<exists>U. T' = Some U) \<and> jsmn_byte js len num' c q None = Some (k, None, q\<lparr>jpos := jpos p'\<rparr>, None)"
proof -
  have same: "q = q\<lparr>jpos := jpos p'\<rparr>" if "jpos p' = jpos p" using that assms(2) by simp
  have op: "?thesis" if "open_container ty num p (Some T) = Some (None, p', T')"
      "\<And>n P U. jsmn_byte js len n c P U = map_option (Pair k) (open_container ty n P U)" for ty
    using containers_count(1) [OF that(1)] containers_pos(1) [OF that(1)] that(2) same by simp
  have cl: "?thesis" if "close_container ty p (Some T) = Some (None, p', T')"
      "\<And>n P U. jsmn_byte js len n c P U = map_option (Pair k) (close_container ty P U)" for ty
    using containers_count(2) [OF that(1)] containers_pos(2) [OF that(1)] that(2) same by simp
  have st: "?thesis" if "leaf (jsmn_parse_string js len num p (Some T)) = Some (None, p', T')"
      "\<And>n P U. jsmn_byte js len n c P U = map_option (Pair k) (leaf (jsmn_parse_string js len n P U))"
    using leaf_counts [OF that(1) string_counts [OF _ assms(2)]] that(2) by simp
  have pr: "?thesis" if "leaf (jsmn_parse_primitive js len num p (Some T)) = Some (None, p', T')"
      "\<And>n P U. jsmn_byte js len n c P U = map_option (Pair k) (leaf (jsmn_parse_primitive js len n P U))"
    using leaf_counts [OF that(1) primitive_counts [OF _ assms(2)]] that(2) by simp
  consider ty where "\<And>n P U. jsmn_byte js len n c P U = map_option (Pair 1) (open_container ty n P U)"
    | ty where "\<And>n P U. jsmn_byte js len n c P U = map_option (Pair 0) (close_container ty P U)"
    | "\<And>n P U. jsmn_byte js len n c P U = map_option (Pair 1) (leaf (jsmn_parse_string js len n P U))"
    | "\<And>n P U. jsmn_byte js len n c P U = Some (0, None, P, U)"
    | "\<And>n P U. jsmn_byte js len n c P U = map_option (Pair 1) (leaf (jsmn_parse_primitive js len n P U))"
    | "\<And>n P U. jsmn_byte js len n c P U = Some (0, Some JSMN_ERROR_INVAL, P, U)"
    apply (cases "c = CHR ''{''", rule that(1) [of JSMN_OBJECT], simp add: jsmn_byte_def)
    apply (cases "c = CHR ''[''", rule that(1) [of JSMN_ARRAY], simp add: jsmn_byte_def)
    apply (cases "c = CHR ''}''", rule that(2) [of JSMN_OBJECT], simp add: jsmn_byte_def)
    apply (cases "c = CHR '']''", rule that(2) [of JSMN_ARRAY], simp add: jsmn_byte_def)
    apply (cases "c = CHR 0x22", rule that(3), simp add: jsmn_byte_def)
    apply (cases "skipped c", rule that(4), simp add: jsmn_byte_def)
    apply (cases "primitive_start c", rule that(5), simp add: jsmn_byte_def)
    apply (rule that(6), simp add: jsmn_byte_def)
    done
  then show ?thesis
  proof cases
    case 1 then show ?thesis using assms(1) op by auto
  next
    case 2 then show ?thesis using assms(1) cl by auto
  next
    case 3 then show ?thesis using assms(1) st by auto
  next
    case 4 then show ?thesis using assms by auto
  next
    case 5 then show ?thesis using assms(1) pr by auto
  next
    case 6 then show ?thesis using assms(1) by simp
  qed
qed

lemma jsmn_loop_counts:
  "jsmn_loop js len num count p tokens = Some (Inr n, p', T') \<Longrightarrow> tokens = Some T \<Longrightarrow> jpos q = jpos p \<Longrightarrow> toknext q = 0 \<Longrightarrow>
     \<exists>q'. jsmn_loop js len num' count q None = Some (Inr n, q', None)"
proof (induction js len num count p tokens arbitrary: T q rule: jsmn_loop.induct)
  case (1 js len num count p tokens)
  note loop = 1(2) [unfolded 1(3)]
  have fin: "jsmn_finish count q None = Some (Inr count, q, None)" using 1(5) by (simp add: jsmn_finish_def)
  have fini: "count = n" if "jsmn_finish count p (Some T) = Some (Inr n, p', T')"
    using that by (auto simp: jsmn_finish_def bind_eq_Some_conv split: if_splits)
  show ?case
  proof (cases "before (jpos p) len")
    case False
    then show ?thesis using loop fin 1(4) fini by (subst jsmn_loop.simps) (auto simp: jsmn_loop.simps [of js len num])
  next
    case b: True
    then obtain c where c: "char_at js (jpos p) = Some c"
      using loop by (subst (asm) jsmn_loop.simps) (auto split: option.splits)
    show ?thesis
    proof (cases "c = NUL")
      case True
      then show ?thesis using loop fin 1(4) fini b c by (subst jsmn_loop.simps) (auto simp: jsmn_loop.simps [of js len num])
    next
      case False
      obtain k s U where s: "jsmn_byte js len num c p (Some T) = Some (k, None, s, U)"
        "jsmn_loop js len num (count + k) (s\<lparr>jpos := jpos s + 1\<rparr>) U = Some (Inr n, p', T')"
        using loop b c False by (subst (asm) jsmn_loop.simps) (auto split: option.splits)
      obtain V where V: "U = Some V" "jsmn_byte js len num' c q None = Some (k, None, q\<lparr>jpos := jpos s\<rparr>, None)"
        using jsmn_byte_counts [OF s(1) 1(4)] by blast
      have "\<exists>q'. jsmn_loop js len num' (count + k) (q\<lparr>jpos := jpos s + 1\<rparr>) None = Some (Inr n, q', None)"
        by (rule 1(1) [OF b c False s(1) [folded 1(3)] refl refl refl refl s(2) V(1)]) (use 1(5) in simp_all)
      then show ?thesis using b c False V(2) 1(4) by (subst jsmn_loop.simps) simp
    qed
  qed
qed

end
