(* ===== verification/JsonLookup.thy ===== *)
theory JsonLookup
  imports JsonWrap JsonText
begin

text \<open>
  What the wrappers find: in the tokens of a text, members by name and elements by number, with numbers,
  strings and flags read back, and containers entered and left.
\<close>

subsection \<open>Numbers\<close>

lemma digit_value_dec: "is_digit c \<Longrightarrow> digit_value c = digit_val c" "is_digit c \<Longrightarrow> digit_val c < 10"
  by (auto simp: is_digit_def digit_value_def digit_val_def Let_def)

lemma digits_in_dec:
  "\<forall>c \<in> set s. is_digit c \<Longrightarrow>
     digits_in 10 acc k (s @ r) = digits_in 10 (foldl (\<lambda>a c. 10 * a + digit_val c) acc s) (k + length s) r"
  by (induction s arbitrary: acc k) (auto simp: digit_value_dec)

definition stops_number :: "char \<Rightarrow> bool" where
  "stops_number c \<longleftrightarrow> 16 \<le> digit_value c \<and> c \<notin> {CHR ''x'', CHR ''X''}"

lemma stops_number_separator: "is_separator c \<Longrightarrow> stops_number c"
  by (auto simp: is_separator_def stops_number_def digit_value_def Let_def)

lemma dec_first: "0 < n \<Longrightarrow> \<exists>d ds. dec n = d # ds \<and> is_digit d \<and> d \<noteq> CHR ''0''"
proof (induction n rule: dec.induct)
  case (1 n)
  show ?case
  proof (cases "n < 10")
    case True
    then have "digit_char n \<noteq> CHR ''0''"
      using 1(2) by (auto simp: digit_char_def dest: arg_cong [where f = "of_char :: char \<Rightarrow> nat"] simp: of_char_of)
    then show ?thesis using True digit_char_val by (subst dec.simps) simp
  next
    case False
    then have "0 < n div 10" by simp
    then obtain d ds where "dec (n div 10) = d # ds" "is_digit d" "d \<noteq> CHR ''0''" using 1(1) [OF False] by blast
    then show ?thesis using False by (subst dec.simps) simp
  qed
qed

lemma strto_base_dec: "0 < n \<Longrightarrow> strto_base (dec n @ c # r) = Some (10, 0)"
  using dec_first [of n] by (auto simp: strto_base_def split: list.splits)

lemma strto_base_zero: "stops_number c \<Longrightarrow> strto_base (CHR ''0'' # c # r) = Some (8, 0)"
  by (cases r) (auto simp: strto_base_def stops_number_def)

text \<open>The digits of a number, with what the base is taken to be.\<close>

lemma digits_dec:
  assumes "stops_number c"
  shows "\<exists>base. strto_base (dec n @ c # r) = Some (base, 0) \<and> digits_in base 0 0 (dec n @ c # r) = Some (n, length (dec n))"
proof (cases "n = 0")
  case True
  have d: "dec n = ''0''" unfolding True by (subst dec.simps) (simp add: digit_char_def, code_simp)
  have "digits_in 8 0 0 (''0'' @ c # r) = Some (0, 1)"
    using assms by (simp add: stops_number_def) (simp add: digit_value_def)
  then show ?thesis using True d strto_base_zero [OF assms, of r] by auto
next
  case False
  have "digits_in 10 0 0 (dec n @ c # r) = Some (n, length (dec n))"
    using assms digits_in_dec [of "dec n" 0 0 "c # r"] dec_digits foldl_dec by (simp add: stops_number_def)
  then show ?thesis using strto_base_dec False by blast
qed

lemma leading_space_digit: "is_digit c \<or> c = CHR ''-'' \<Longrightarrow> leading_space (c # s) = 0"
  using is_digit_not_special [of c] by (auto simp: is_space_def)

lemma strto_dec_int:
  assumes "stops_number c" "nat \<bar>i\<bar> < m"
  shows "strto m (dec_int i @ c # r) = Some (nat (i mod int m), length (dec_int i))"
proof -
  obtain base where b: "strto_base (dec (nat \<bar>i\<bar>) @ c # r) = Some (base, 0)"
    "digits_in base 0 0 (dec (nat \<bar>i\<bar>) @ c # r) = Some (nat \<bar>i\<bar>, length (dec (nat \<bar>i\<bar>)))"
    using digits_dec [OF assms(1)] by blast
  obtain d ds where d: "dec (nat \<bar>i\<bar>) = d # ds" by (cases "dec (nat \<bar>i\<bar>)") auto
  have dd: "is_digit d" "d \<noteq> CHR ''-''" "d \<noteq> CHR ''+''" using dec_digits [of "nat \<bar>i\<bar>"] d is_digit_not_special by auto
  show ?thesis
  proof (cases "i < 0")
    case True
    have "strto m (dec_int i @ c # r) = Some ((m - nat \<bar>i\<bar>) mod m, length (dec_int i))"
      using True b assms(2) leading_space_digit [of "CHR ''-''"] d by (simp add: strto_def dec_int_def Let_def)
    moreover have "(m - nat \<bar>i\<bar>) mod m = nat (i mod int m)"
    proof -
      have "i mod int m = (i + int m) mod int m" by simp
      also have "\<dots> = i + int m" using True assms(2) by (intro mod_pos_pos_trivial) auto
      finally show ?thesis using True assms(2) by (simp add: nat_add_distrib [of "int m" i, symmetric])
    qed
    ultimately show ?thesis by simp
  next
    case False
    then have n: "nat \<bar>i\<bar> = nat i" by simp
    have "nat (i mod int m) = nat i" using False assms(2) by simp
    then show ?thesis
      using False b assms(2) leading_space_digit [of d] d dd n by (simp add: strto_def dec_int_def Let_def)
  qed
qed

lemma sint_back: "- (2 ^ 31) \<le> i \<Longrightarrow> i < 2 ^ 31 \<Longrightarrow> sint (of_nat (nat (i mod 2 ^ 32)) :: u32) = i"
proof -
  assume a: "- (2 ^ 31) \<le> i" "i < 2 ^ 31"
  have "(of_nat (nat (i mod 2 ^ 32)) :: u32) = of_int (i mod 2 ^ 32)" by simp
  also have "\<dots> = of_int i" by (simp add: word_of_int_eq_iff take_bit_eq_mod)
  finally show ?thesis using a by (simp add: sint_sbintrunc' signed_take_bit_int_eq_self)
qed

subsection \<open>Names\<close>

lemma strncmp_prefix:
  "nul_free k \<Longrightarrow> nul_free key \<Longrightarrow>
     strncmp_eq (length k) (k @ r) (key @ [NUL]) = Some (take (length k) key = k)"
proof (induction k arbitrary: key)
  case (Cons x k)
  then show ?case by (cases key) auto
qed simp

lemma sint_diff_ix: "a \<le> b \<Longrightarrow> b < 32768 \<Longrightarrow> nat ((sint (ix b) - sint (ix a)) mod 2 ^ 32) = b - a"
  by (simp add: nat_diff_distrib)

lemma token_streq:
  assumes "tok_start t = ix o1" "tok_end t = ix (o1 + length k)" "js = pre @ k @ r" "length pre = o1"
    and "o1 + length k < 32768" "nul_free k" "nul_free key"
  shows "json_token_streq js t key = Some (k = key)"
proof -
  have n: "nat ((sint (tok_end t) - sint (tok_start t)) mod 2 ^ 32) = length k"
    using sint_diff_ix [of o1 "o1 + length k"] assms(1,2,5) by simp
  have f: "text_from js (sint (tok_start t)) = Some (k @ r)" using assms(1,3,4,5) by (simp add: text_from_def)
  have "(take (length k) key = k \<and> length key = length k) = (k = key)" by auto
  then show ?thesis unfolding json_token_streq_def n f Let_def by (simp add: strncmp_prefix [OF assms(6,7)])
qed

lemma string_ok_nul_free: "string_ok s \<Longrightarrow> nul_free s"
proof (induction s rule: string_ok.induct)
  case (2 c s)
  show ?case
  proof (cases "c = CHR 0x5C")
    case True
    then obtain d r where s: "s = d # r" using 2(4) by (cases s) auto
    show ?thesis
    proof (cases "d \<in> {CHR 0x22, CHR ''/'', CHR 0x5C, CHR ''b'', CHR ''f'', CHR ''r'', CHR ''n'', CHR ''t''}")
      case d: True
      then have "nul_free r" using 2(1) [OF True s d] 2(4) True s by simp
      then show ?thesis using d s True by auto
    next
      case d: False
      then have u: "d = CHR ''u''" "list_all is_hex (take 4 r)" "nul_free (drop 4 r)"
        using 2(2) [OF True s d] 2(4) True s by auto
      have "nul_free (take 4 r)" using u(2) by (auto simp: list_all_iff is_hex_def)
      then have "nul_free r" using u(3) by (metis append_take_drop_id in_set_conv_decomp Un_iff set_append)
      then show ?thesis using u(1) s True by auto
    qed
  next
    case False
    then show ?thesis using 2(3) [OF False] 2(4) by auto
  qed
qed simp

subsection \<open>Over a value\<close>

text \<open>The number of children is kept in a byte: below 256 it is right.\<close>

primrec small :: "node \<Rightarrow> bool" and small_items :: "items \<Rightarrow> bool" where
  "small (Prim s) = True"
| "small (Str s) = True"
| "small (Con b xs t) = (children xs < 256 \<and> small_items xs)"
| "small_items Done = True"
| "small_items (Item w n xs) = (small n \<and> small_items xs)"

primrec child_count :: "node \<Rightarrow> nat" where
  "child_count (Prim s) = 0"
| "child_count (Str s) = 0"
| "child_count (Con b xs t) = children xs"

lemma first_token:
  "toks n off i par ! 0 = hd (toks n off i par)" "toks n off i par = hd (toks n off i par) # tl (toks n off i par)"
  by (cases n; simp)+

lemma hd_toks:
  "tok_size (hd (toks n off i par)) = of_nat (child_count n)"
  "tok_parent (hd (toks n off i par)) = par"
  "tok_type (hd (toks n off i par)) =
     (case n of Prim s \<Rightarrow> JSMN_PRIMITIVE | Str s \<Rightarrow> JSMN_STRING | Con b xs t \<Rightarrow> if b then JSMN_OBJECT else JSMN_ARRAY)"
  by (cases n; simp)+

lemma nth_toks: "length P = i \<Longrightarrow> (P @ toks n off i' par @ R) ! i = hd (toks n off i' par)"
  by (cases n) (simp_all add: nth_append)

lemma small_size: "small n \<Longrightarrow> unat (of_nat (child_count n) :: u8) = child_count n"
  by (cases n) (simp_all add: unat_of_nat)

lemma skip_over:
  "T = P @ toks n off (length P) par @ R \<Longrightarrow> small n \<Longrightarrow>
     skip_children T (child_count n) (length P) = Some (length P + ntoks n - 1)"
  "T = P @ items_toks xs off (length P) par @ R \<Longrightarrow> small_items xs \<Longrightarrow> P \<noteq> [] \<Longrightarrow>
     skip_children T (children xs) (length P - 1) = Some (length P + nitems xs - 1)"
proof (induction n and xs arbitrary: P off par R and P off par R)
  case (Con b xs t)
  let ?c = "hd (toks (Con b xs t) off (length P) par)"
  have "T = (P @ [?c]) @ items_toks xs (off + 1) (length (P @ [?c])) (ix (length P)) @ R" using Con.prems(1) by simp
  from Con.IH [OF this] show ?case using Con.prems(2) by simp
next
  case (Item w n xs)
  let ?P = "P @ toks n (off + length w) (length P) par"
  have T1: "T = P @ toks n (off + length w) (length P) par @ items_toks xs (off + length w + length (text_of n)) (length ?P) par @ R"
    using Item.prems(1) by simp
  have T2: "T = ?P @ items_toks xs (off + length w + length (text_of n)) (length ?P) par @ R" using T1 by simp
  have h: "T ! length P = hd (toks n (off + length w) (length P) par)" unfolding T1 by (rule nth_toks) simp
  have sz: "unat (tok_size (T ! length P)) = child_count n" using small_size [of n] Item.prems(2) by (simp add: h hd_toks)
  have one: "skip_children T (child_count n) (length P) = Some (length P + ntoks n - 1)"
    using Item.IH(1) [OF T1] Item.prems(2) by simp
  have two: "skip_children T (children xs) (length ?P - 1) = Some (length ?P + nitems xs - 1)"
    by (rule Item.IH(2) [OF T2]) (use Item.prems in auto)
  have l: "length P < length T" unfolding T1 by simp
  show ?case using Item.prems(3) one two l sz by (simp add: skip_children.simps ac_simps)
qed (simp_all add: skip_children.simps)

lemma skip_to_last_value:
  assumes "T = P @ toks n off (length P) par @ R" "small n"
  shows "skip_to_last T (length P) = Some (length P + ntoks n - 1)"
proof -
  have "T ! length P = hd (toks n off (length P) par)" unfolding assms(1) by (rule nth_toks) simp
  then have "unat (tok_size (T ! length P)) = child_count n" using small_size [OF assms(2)] by (simp add: hd_toks)
  then show ?thesis
    using skip_over(1) [OF assms] assms(1) by (simp add: skip_to_last_def token_of_def)
qed

subsection \<open>Members\<close>

fun paired :: "items \<Rightarrow> bool" where
  "paired Done = True"
| "paired (Item w (Str k) (Item w' v xs)) = paired xs"
| "paired _ = False"

fun obj_member :: "string \<Rightarrow> items \<Rightarrow> node option" where
  "obj_member key (Item w (Str k) (Item w' v xs)) = (if k = key then Some v else obj_member key xs)"
| "obj_member key _ = None"

text \<open>With the place in the text and the index of the value.\<close>

fun member_at :: "string \<Rightarrow> items \<Rightarrow> nat \<Rightarrow> nat \<Rightarrow> (node \<times> nat \<times> nat) option" where
  "member_at key (Item w (Str k) (Item w' v xs)) off i =
     (let o1 = off + length w + (length k + 2) + length w' in
      if k = key then Some (v, o1, i + 1) else member_at key xs (o1 + length (text_of v)) (i + 1 + ntoks v))"
| "member_at key _ off i = None"

lemma member_at_member: "map_option fst (member_at key xs off i) = obj_member key xs"
  by (induction key xs off i rule: member_at.induct) (simp_all add: Let_def)

text \<open>A value at a place of the text and an index of the tokens.\<close>

definition prim_ended :: "node \<Rightarrow> string \<Rightarrow> bool" where
  "prim_ended n post \<longleftrightarrow> (case n of Prim s \<Rightarrow> (\<exists>c r. post = c # r \<and> is_separator c) | _ \<Rightarrow> True)"

definition located :: "cbuf \<Rightarrow> jsontok_t list \<Rightarrow> node \<Rightarrow> nat \<Rightarrow> nat \<Rightarrow> i16 \<Rightarrow> bool" where
  "located js T n off i par \<longleftrightarrow>
     (\<exists>pre post P R. js = pre @ text_of n @ post \<and> length pre = off \<and> prim_ended n post \<and>
        T = P @ toks n off i par @ R \<and> length P = i) \<and>
     off + length (text_of n) \<le> 32767 \<and> i + ntoks n \<le> 32767 \<and> node_ok n \<and> small n"

lemma prim_endedI: "ends_prim n r \<Longrightarrow> is_separator c \<Longrightarrow> prim_ended n (r @ c # post)"
  using hd_rest [of r c post] by (cases n) (auto simp: prim_ended_def ends_prim_def)

lemma paired_cases:
  assumes "paired xs" "0 < children xs"
  obtains w k w' v ys where "xs = Item w (Str k) (Item w' v ys)" "paired ys"
  using assms by (cases xs rule: paired.cases) auto

lemma located_first:
  assumes "js = pre @ items_text (Item w n xs) @ t @ c # post" "is_separator c" "items_ok (Item w n xs) t" "small_items (Item w n xs)"
    and "T = P @ items_toks (Item w n xs) (length pre) (length P) par @ R"
    and "length pre + length (items_text (Item w n xs)) \<le> 32767" "length P + nitems (Item w n xs) \<le> 32767"
  shows "located js T n (length pre + length w) (length P) par"
proof -
  have "js = (pre @ w) @ text_of n @ ((items_text xs @ t) @ c # post)" using assms(1) by simp
  moreover have "prim_ended n ((items_text xs @ t) @ c # post)" by (rule prim_endedI) (use assms(2,3) in auto)
  moreover have "T = P @ toks n (length pre + length w) (length P) par @
      (items_toks xs (length pre + length w + length (text_of n)) (length P + ntoks n) par @ R)" using assms(5) by simp
  ultimately show ?thesis
    unfolding located_def using assms(3,4,6,7) by (intro conjI exI) (assumption | simp)+
qed

lemma items_rest:
  assumes "js = pre @ items_text (Item w n xs) @ t @ c # post"
    and "T = P @ items_toks (Item w n xs) (length pre) (length P) par @ R"
  shows "js = (pre @ w @ text_of n) @ items_text xs @ t @ c # post"
    and "T = (P @ toks n (length pre + length w) (length P) par) @
      items_toks xs (length (pre @ w @ text_of n)) (length (P @ toks n (length pre + length w) (length P) par)) par @ R"
  using assms by (simp_all add: add.assoc)

lemma get_value_steps:
  assumes "token_of T j = Some t" "\<not> sint (tok_end t) > sint e" "i + 1 = j"
  shows "tok_type t = JSMN_STRING \<Longrightarrow> json_token_streq js t key = Some b \<Longrightarrow>
      get_value_loop js T e key KEY (Suc n) i = get_value_loop js T e key (if b then FOUND else SKIP) n j"
    and "get_value_loop js T e key FOUND (Suc n) i = Some (Inr j)"
    and "(if is_container t then skip_to_last T j else Some j) = Some l \<Longrightarrow>
      get_value_loop js T e key SKIP (Suc n) i = get_value_loop js T e key KEY n l"
  using assms by (auto simp: Let_def split: if_splits)

lemma get_value_found:
  "paired xs \<Longrightarrow> js = pre @ items_text xs @ t @ c # post \<Longrightarrow> is_separator c \<Longrightarrow> items_ok xs t \<Longrightarrow> small_items xs \<Longrightarrow>
     T = P @ items_toks xs (length pre) (length P) par @ R \<Longrightarrow> P \<noteq> [] \<Longrightarrow> length pre + length (items_text xs) \<le> e \<Longrightarrow>
     e \<le> 32767 \<Longrightarrow> length P + nitems xs \<le> 32767 \<Longrightarrow> nul_free key \<Longrightarrow>
     get_value_loop js T (ix e) key KEY (children xs) (length P - 1) =
       Some (case member_at key xs (length pre) (length P) of None \<Rightarrow> Inl WM_E_JSON_NOT_FOUND | Some (v, off, j) \<Rightarrow> Inr j) \<and>
     (case member_at key xs (length pre) (length P) of None \<Rightarrow> True | Some (v, off, j) \<Rightarrow> located js T v off j par)"
proof (induction xs arbitrary: pre P rule: paired.induct)
  case (2 w k w' v xs)
  note js = 2(3) and ok = 2(5) and sm = 2(6) and T = 2(7)
  let ?rest = "Item w' v xs"
  let ?P = "P @ toks (Str k) (length pre + length w) (length P) par" and ?pre = "pre @ w @ text_of (Str k)"
  note r1 = items_rest [OF js T]
  let ?P2 = "?P @ toks v (length ?pre + length w') (length ?P) par" and ?pre2 = "?pre @ w' @ text_of v"
  note r2 = items_rest [OF r1]
  have kn: "nul_free k" using ok string_ok_nul_free by simp
  let ?t = "hd (toks (Str k) (length pre + length w) (length P) par)"
  have Tk: "T = P @ toks (Str k) (length pre + length w) (length P) par @
      items_toks ?rest (length ?pre) (length ?P) par @ R" using r1(2) by simp
  have tk: "token_of T (length P) = Some ?t" unfolding Tk token_of_def by simp
  have same: "json_token_streq js ?t key = Some (k = key)"
    by (rule token_streq [of ?t "length pre + length w + 1" k js "pre @ w @ [CHR 0x22]"
          "CHR 0x22 # items_text ?rest @ t @ c # post" key]) (use js kn 2 in auto)
  have ek: "\<not> sint (tok_end ?t) > sint (ix e)" using 2 by simp
  have Pn: "length P - 1 + 1 = length P" using 2(8) by simp
  have locv: "located js T v (length ?pre + length w') (length ?P) par"
    by (rule located_first [OF r1(1) 2(4) _ _ r1(2)]) (use 2 in auto)
  define hv where "hv = hd (toks v (length ?pre + length w') (length ?P) par)"
  have Tv: "T = ?P @ toks v (length ?pre + length w') (length ?P) par @
      items_toks xs (length ?pre2) (length ?P2) par @ R" using r2(2) by simp
  have tv: "token_of T (length ?P) = Some hv"
  proof -
    have "T ! length ?P = hv" unfolding hv_def by (subst Tv, rule nth_toks) simp
    moreover have "length ?P < length T" by (subst Tv) simp
    ultimately show ?thesis by (simp add: token_of_def)
  qed
  have ev: "\<not> sint (tok_end hv) > sint (ix e)"
    using 2(9,10) unfolding hv_def by (cases v) auto
  have start: "get_value_loop js T (ix e) key KEY (children (Item w (Str k) ?rest)) (length P - 1) =
      get_value_loop js T (ix e) key (if k = key then FOUND else SKIP) (children ?rest) (length P)"
    using get_value_steps(1) [OF tk ek Pn _ same] by (simp del: get_value_loop.simps)
  show ?case
  proof (cases "k = key")
    case True
    then have "get_value_loop js T (ix e) key FOUND (children ?rest) (length P) = Some (Inr (length ?P))"
      using get_value_steps(2) [OF tv ev, of "length P"] by (simp del: get_value_loop.simps)
    then show ?thesis using start True locv by (simp add: Let_def add.assoc del: get_value_loop.simps)
  next
    case False
    have skip: "skip_to_last T (length ?P) = Some (length ?P + ntoks v - 1)"
      by (rule skip_to_last_value [OF Tv]) (use sm in simp)
    have nc: "child_count v = 0 \<and> ntoks v = 1" if "\<not> is_container hv"
      using that unfolding hv_def hd_toks by (cases v) (auto split: if_splits)
    have "get_value_loop js T (ix e) key SKIP (children ?rest) (length P) =
        get_value_loop js T (ix e) key KEY (children xs) (length ?P2 - 1)"
    proof -
      have l: "(if is_container hv then skip_to_last T (length ?P) else Some (length ?P)) = Some (length ?P2 - 1)"
        using skip nc by auto
      show ?thesis using get_value_steps(3) [OF tv ev _ l, of "length P"] by (simp del: get_value_loop.simps)
    qed
    moreover have "get_value_loop js T (ix e) key KEY (children xs) (length ?P2 - 1) =
       Some (case member_at key xs (length ?pre2) (length ?P2) of None \<Rightarrow> Inl WM_E_JSON_NOT_FOUND | Some (v, off, j) \<Rightarrow> Inr j) \<and>
       (case member_at key xs (length ?pre2) (length ?P2) of None \<Rightarrow> True | Some (v, off, j) \<Rightarrow> located js T v off j par)"
      by (rule 2(1) [OF _ r2(1) _ _ _ r2(2)]) (use 2 in auto)
    ultimately show ?thesis using start False by (simp add: Let_def add.assoc del: get_value_loop.simps)
  qed
qed simp_all

subsection \<open>Elements\<close>

fun element :: "nat \<Rightarrow> items \<Rightarrow> node option" where
  "element k Done = None"
| "element 0 (Item w v xs) = Some v"
| "element (Suc k) (Item w v xs) = element k xs"

lemma element_beyond: "children xs \<le> k \<Longrightarrow> element k xs = None"
  by (induction k xs rule: element.induct) simp_all

lemma array_index_found:
  "k < children xs \<Longrightarrow> js = pre @ items_text xs @ t @ c # post \<Longrightarrow> is_separator c \<Longrightarrow> items_ok xs t \<Longrightarrow> small_items xs \<Longrightarrow>
     T = P @ items_toks xs (length pre) (length P) par @ R \<Longrightarrow> length pre + length (items_text xs) \<le> e \<Longrightarrow>
     e \<le> 32767 \<Longrightarrow> length P + nitems xs \<le> 32767 \<Longrightarrow>
     \<exists>v off j. element k xs = Some v \<and> array_index_loop T (ix e) k (length P) = Some (Inr j) \<and> located js T v off j par"
proof (induction k arbitrary: xs pre P)
  case 0
  then obtain w v ys where xs: "xs = Item w v ys" by (cases xs) auto
  have "located js T v (length pre + length w) (length P) par"
    by (rule located_first [OF 0(2,3,4,5,6) [unfolded xs]]) (use 0 xs in auto)
  then show ?case by (auto simp: xs)
next
  case (Suc k)
  then obtain w v ys where xs: "xs = Item w v ys" by (cases xs) auto
  let ?P = "P @ toks v (length pre + length w) (length P) par"
  note r = items_rest [OF Suc(3,7) [unfolded xs]]
  have Tv: "T = P @ toks v (length pre + length w) (length P) par @
      items_toks ys (length (pre @ w @ text_of v)) (length ?P) par @ R" using r(2) by simp
  define hv where "hv = hd (toks v (length pre + length w) (length P) par)"
  have "T ! length P = hv" unfolding hv_def by (subst Tv, rule nth_toks) simp
  moreover have "length P < length T" by (subst Tv) simp
  ultimately have tv: "token_of T (length P) = Some hv" by (simp add: token_of_def)
  have ev: "\<not> sint (tok_end hv) > sint (ix e)" using Suc(8,9) xs unfolding hv_def by (cases v) auto
  have nc: "ntoks v = 1" if "\<not> is_container hv"
    using that unfolding hv_def hd_toks by (cases v) (auto split: if_splits)
  have skip: "skip_to_last T (length P) = Some (length P + ntoks v - 1)"
    by (rule skip_to_last_value [OF Tv]) (use Suc xs in simp)
  have "array_index_loop T (ix e) (Suc k) (length P) = array_index_loop T (ix e) k (length ?P)"
    using tv ev skip nc by (auto simp: Let_def)
  moreover have "\<exists>v off j. element k ys = Some v \<and> array_index_loop T (ix e) k (length ?P) = Some (Inr j) \<and> located js T v off j par"
    by (rule Suc(1) [OF _ r(1) _ _ _ r(2)]) (use Suc xs in auto)
  ultimately show ?case by (simp add: xs)
qed

subsection \<open>Where the search stands\<close>

definition stands_at :: "json_parser_t \<Rightarrow> node \<Rightarrow> bool" where
  "stands_at jobj n \<longleftrightarrow>
     (\<exists>js off i par. jtext jobj = Some js \<and> jcur jobj = Some i \<and> located js (jtokens jobj) n off i par)"

lemma located_token: "located js T n off i par \<Longrightarrow> token_of T i = Some (hd (toks n off i par))"
  unfolding located_def token_of_def by (cases n) (auto simp: nth_append)

lemma located_Con:
  assumes "located js T (Con b xs t) off i par"
  obtains pre post P R where "js = pre @ items_text xs @ t @ closer b # post" "length pre = off + 1"
    "T = P @ items_toks xs (length pre) (length P) (ix i) @ R" "length P = i + 1" "items_ok xs t" "small_items xs"
    "off + length (text_of (Con b xs t)) \<le> 32767" "i + ntoks (Con b xs t) \<le> 32767" "children xs < 256"
proof -
  obtain pre post P R where a: "js = pre @ text_of (Con b xs t) @ post" "length pre = off"
    "T = P @ toks (Con b xs t) off i par @ R" "length P = i"
    using assms unfolding located_def by blast
  show ?thesis
    by (rule that [of "pre @ [opener b]" post "P @ [hd (toks (Con b xs t) off i par)]" R])
      (use a assms in \<open>simp_all add: located_def\<close>)
qed

lemma get_value_member:
  assumes "stands_at jobj (Con True xs t)" "paired xs" "0 < children xs" "nul_free key"
  obtains js i T where "jtext jobj = Some js" "jcur jobj = Some i" "jtokens jobj = T" "i < 32767"
    "obj_member key xs = None \<longrightarrow> json_get_value jobj key = Some (Inl WM_E_JSON_NOT_FOUND)"
    "\<forall>v. obj_member key xs = Some v \<longrightarrow> (\<exists>off j. json_get_value jobj key = Some (Inr j) \<and> located js T v off j (ix i))"
proof -
  obtain js off i par where j: "jtext jobj = Some js" "jcur jobj = Some i" "located js (jtokens jobj) (Con True xs t) off i par"
    using assms(1) unfolding stands_at_def by blast
  let ?T = "jtokens jobj" and ?e = "off + length (text_of (Con True xs t))"
  obtain pre post P R where l: "js = pre @ items_text xs @ t @ closer True # post" "length pre = off + 1"
    "?T = P @ items_toks xs (length pre) (length P) (ix i) @ R" "length P = i + 1" "items_ok xs t" "small_items xs"
    "?e \<le> 32767" "i + ntoks (Con True xs t) \<le> 32767" "children xs < 256"
    by (rule located_Con [OF j(3)])
  have tok: "token_of ?T i = Some (hd (toks (Con True xs t) off i par))" by (rule located_token [OF j(3)])
  have sz: "unat (of_nat (children xs) :: u8) = children xs" using l(9) by (simp add: unat_of_nat)
  have ev: "children xs mod 2 = 0" using assms(2) by (induction xs rule: paired.induct) simp_all
  have g: "json_get_value jobj key = get_value_loop js ?T (ix ?e) key KEY (children xs) i"
    using j tok sz ev assms(3) by (simp add: json_get_value_def cur_token_def Let_def)
  have P1: "length P - 1 = i" using l(4) by simp
  have Pn: "P \<noteq> []" using l(4) by auto
  note f = get_value_found [OF assms(2) l(1) opener_facts(3) l(5,6,3) Pn _ l(7) _ assms(4), unfolded P1]
  have f: "json_get_value jobj key = Some (case member_at key xs (length pre) (length P) of None \<Rightarrow> Inl WM_E_JSON_NOT_FOUND | Some (v, off, j) \<Rightarrow> Inr j)"
    "case member_at key xs (length pre) (length P) of None \<Rightarrow> True | Some (v, off, j) \<Rightarrow> located js ?T v off j (ix i)"
    using f l unfolding g by auto
  have m: "obj_member key xs = map_option fst (member_at key xs (length pre) (length P))" by (simp add: member_at_member)
  show ?thesis
  proof (rule that [OF j(1,2) refl])
    show "i < 32767" using l(8) by simp
    show "obj_member key xs = None \<longrightarrow> json_get_value jobj key = Some (Inl WM_E_JSON_NOT_FOUND)"
      using f(1) m by (auto split: option.splits)
    show "\<forall>v. obj_member key xs = Some v \<longrightarrow> (\<exists>off j. json_get_value jobj key = Some (Inr j) \<and> located js ?T v off j (ix i))"
      using f m by (auto split: option.splits prod.splits)
  qed
qed

lemma get_array_element:
  assumes "stands_at jobj (Con False xs t)" "unat k < children xs"
  obtains js i T v off j where "jtext jobj = Some js" "jcur jobj = Some i" "jtokens jobj = T" "i < 32767"
    "element (unat k) xs = Some v" "json_get_array_index jobj k = Some (Inr j)" "located js T v off j (ix i)"
proof -
  obtain js off i par where j: "jtext jobj = Some js" "jcur jobj = Some i" "located js (jtokens jobj) (Con False xs t) off i par"
    using assms(1) unfolding stands_at_def by blast
  let ?T = "jtokens jobj" and ?e = "off + length (text_of (Con False xs t))"
  obtain pre post P R where l: "js = pre @ items_text xs @ t @ closer False # post" "length pre = off + 1"
    "?T = P @ items_toks xs (length pre) (length P) (ix i) @ R" "length P = i + 1" "items_ok xs t" "small_items xs"
    "?e \<le> 32767" "i + ntoks (Con False xs t) \<le> 32767" "children xs < 256"
    by (rule located_Con [OF j(3)])
  have tok: "token_of ?T i = Some (hd (toks (Con False xs t) off i par))" by (rule located_token [OF j(3)])
  have sz: "unat (of_nat (children xs) :: u8) = children xs" using l(9) by (simp add: unat_of_nat)
  have g: "json_get_array_index jobj k = array_index_loop ?T (ix ?e) (unat k) (length P)"
    using j tok sz assms(2) l(4) by (simp add: json_get_array_index_def cur_token_def)
  obtain v off' j' where f: "element (unat k) xs = Some v" "array_index_loop ?T (ix ?e) (unat k) (length P) = Some (Inr j')"
    "located js ?T v off' j' (ix i)"
    using array_index_found [OF assms(2) l(1) opener_facts(3) l(5,6,3) _ l(7)] l by auto
  show ?thesis by (rule that [OF j(1,2) refl _ f(1) _ f(3)]) (use l(8) f(2) g in auto)
qed

subsection \<open>Values read back\<close>

lemma located_text:
  assumes "located js T n off i par"
  obtains post where "text_from js (int off) = Some (text_of n @ post)" "prim_ended n post"
  using assms unfolding located_def text_from_def by auto

lemma text_from_int: "n \<le> length js \<Longrightarrow> text_from js (int n) = Some (drop n js)"
  by (simp add: text_from_def)

lemma read_int:
  assumes "located js T (Prim (dec_int v)) off i par" "- (2 ^ 31) \<le> v" "v < 2 ^ 31"
  shows "json_str_to_int js (hd (toks (Prim (dec_int v)) off i par)) = Some (Inr v)"
proof -
  obtain post where t: "text_from js (int off) = Some (dec_int v @ post)" "prim_ended (Prim (dec_int v)) post"
    using located_text [OF assms(1)] by auto
  obtain c r where c: "post = c # r" "stops_number c"
    using t(2) stops_number_separator by (auto simp: prim_ended_def)
  have l: "off + length (dec_int v) < 32768" "off < 32768" using assms(1) by (simp_all add: located_def)
  have "\<bar>v\<bar> < 2 ^ 32" using assms(2,3) by auto
  then have "nat \<bar>v\<bar> < 2 ^ 32" by (simp add: nat_less_iff)
  then have s: "strto (2 ^ 32) (dec_int v @ c # r) = Some (nat (v mod 2 ^ 32), length (dec_int v))"
    using strto_dec_int [OF c(2), of v "2 ^ 32"] by simp
  show ?thesis
    using t(1) c(1) s l sint_back [OF assms(2,3)] by (simp add: json_str_to_int_def)
qed

lemma read_str:
  assumes "located js T (Str s) off i par" "int (length s) < n" "length s < length buf"
  shows "json_str_to_str js (hd (toks (Str s) off i par)) buf n = Some (Inr (s @ NUL # drop (Suc (length s)) buf))"
proof -
  obtain pre post where js: "js = pre @ text_of (Str s) @ post" "length pre = off"
    and l: "off + length s + 2 < 32768" and nf: "nul_free s"
    using assms(1) string_ok_nul_free unfolding located_def by auto
  have f: "text_from js (int (off + 1)) = Some (s @ CHR 0x22 # post)" using js text_from_int [of "off + 1" js] by simp
  have c: "strncpy buf (s @ CHR 0x22 # post) (length s) = Some (s @ drop (length s) buf)"
    using assms(3) ctake_all [OF nf, of "length s"] by (simp add: strncpy_def)
  have d: "drop (length s) buf = buf ! length s # drop (Suc (length s)) buf" using assms(3) by (simp add: Cons_nth_drop_Suc)
  have "(s @ drop (length s) buf)[length s := NUL] = s @ NUL # drop (Suc (length s)) buf" unfolding d by simp
  then show ?thesis
    using assms(2,3) f c l by (simp add: json_str_to_str_def Let_def)
qed

lemma read_bool:
  assumes "located js T (Prim (if b then ''true'' else ''false'')) off i par"
  shows "json_str_to_bool js (hd (toks (Prim (if b then ''true'' else ''false'')) off i par)) = Some (Inr b)"
proof -
  let ?s = "if b then ''true'' else ''false''"
  obtain pre post where js: "js = pre @ ?s @ post" "length pre = off" and l: "off + length ?s < 32768"
    using assms unfolding located_def by auto
  define tk where "tk = hd (toks (Prim ?s) off i par)"
  have q: "json_token_streq js tk k = Some (?s = k)" if "nul_free k" for k
    by (rule token_streq [of _ off ?s js pre post]) (use js l that in \<open>auto simp: tk_def\<close>)
  have "tok_type tk = JSMN_PRIMITIVE" by (simp add: tk_def)
  then show ?thesis unfolding tk_def [symmetric] json_str_to_bool_def by (cases b) (simp_all add: q)
qed

subsection \<open>Entering and leaving\<close>

lemma enter_child:
  assumes "located js T (Con b ys u) off j (ix i)" "jtext jobj = Some js" "jtokens jobj = T" "jcur jobj = Some i" "i < 32767"
  defines "jobj' \<equiv> jobj\<lparr>jcur := Some j\<rparr>" and "tok \<equiv> hd (toks (Con b ys u) off j (ix i))"
  shows "stands_at jobj' (Con b ys u)" "json_release_composite_object jobj' = Some (Inr jobj)"
    "b \<Longrightarrow> even (children ys) \<Longrightarrow> enter_object jobj j tok = Inr jobj'"
    "\<not> b \<Longrightarrow> enter_array jobj j tok = Inr (children ys, jobj')"
proof -
  have tk: "token_of T j = Some tok" unfolding tok_def by (rule located_token [OF assms(1)])
  have sz: "unat (tok_size tok) = children ys" using assms(1) by (simp add: tok_def located_def unat_of_nat)
  show "stands_at jobj' (Con b ys u)"
    unfolding stands_at_def jobj'_def using assms(1,2,3) by auto
  show "json_release_composite_object jobj' = Some (Inr jobj)"
    using tk assms(3,4,5) by (simp add: json_release_composite_object_def cur_token_def jobj'_def tok_def)
  show "b \<Longrightarrow> even (children ys) \<Longrightarrow> enter_object jobj j tok = Inr jobj'"
    using sz by (simp add: enter_object_def jobj'_def even_iff_mod_2_eq_zero) (simp add: tok_def)
  show "\<not> b \<Longrightarrow> enter_array jobj j tok = Inr (children ys, jobj')"
    using sz by (simp add: enter_array_def jobj'_def) (simp add: tok_def)
qed

text \<open>
  What the five ways to read a value give: the functions for a number, a flag, a string, an object and an
  array, applied where the value \<open>v\<close> is.
\<close>

definition reads ::
  "json_parser_t \<Rightarrow> (wm_json_errno + int) option \<Rightarrow> (wm_json_errno + bool) option \<Rightarrow>
    (cbuf \<Rightarrow> int \<Rightarrow> (wm_json_errno + cbuf) option) \<Rightarrow> (wm_json_errno + json_parser_t) option \<Rightarrow>
    (wm_json_errno + (nat \<times> json_parser_t)) option \<Rightarrow> node \<Rightarrow> bool" where
  "reads jobj gi gb gs go ga v \<longleftrightarrow>
     (case v of
        Str s \<Rightarrow> \<forall>buf n. int (length s) < n \<longrightarrow> length s < length buf \<longrightarrow> gs buf n = Some (Inr (s @ NUL # drop (Suc (length s)) buf))
      | Prim s \<Rightarrow>
          (\<forall>i. s = dec_int i \<longrightarrow> - (2 ^ 31) \<le> i \<longrightarrow> i < 2 ^ 31 \<longrightarrow> gi = Some (Inr i)) \<and>
          (\<forall>b. s = (if b then ''true'' else ''false'') \<longrightarrow> gb = Some (Inr b))
      | Con b ys u \<Rightarrow>
          (b \<and> even (children ys) \<longrightarrow>
            (\<exists>jobj'. go = Some (Inr jobj') \<and> stands_at jobj' v \<and> json_release_composite_object jobj' = Some (Inr jobj))) \<and>
          (\<not> b \<longrightarrow>
            (\<exists>jobj'. ga = Some (Inr (children ys, jobj')) \<and> stands_at jobj' v \<and> json_release_composite_object jobj' = Some (Inr jobj))))"

lemma reads_located:
  assumes "located js T v off j (ix i)" "jtext jobj = Some js" "jtokens jobj = T" "jcur jobj = Some i" "i < 32767"
    and m: "m = Some (Inr j)"
  shows "reads jobj (on_token jobj m (\<lambda>js i t. json_str_to_int js t)) (on_token jobj m (\<lambda>js i t. json_str_to_bool js t))
    (\<lambda>buf n. on_token jobj m (\<lambda>js i t. json_str_to_str js t buf n))
    (on_token jobj m (\<lambda>js i t. Some (enter_object jobj i t))) (on_token jobj m (\<lambda>js i t. Some (enter_array jobj i t))) v"
proof -
  have on: "on_token jobj m f = f js j (hd (toks v off j (ix i)))" for f :: "_ \<Rightarrow> _ \<Rightarrow> _ \<Rightarrow> (wm_json_errno + 'z) option"
    using assms located_token [OF assms(1)] by (simp add: on_token_def)
  show ?thesis
  proof (cases v)
    case (Prim s)
    let ?t = "hd (toks (Prim s) off j (ix i))"
    have loc: "located js T (Prim s) off j (ix i)" using assms(1) Prim by simp
    have "json_str_to_int js ?t = Some (Inr k)" if "s = dec_int k" "- (2 ^ 31) \<le> k" "k < 2 ^ 31" for k
      using read_int [OF loc [unfolded that(1)] that(2,3)] unfolding that(1) .
    moreover have "json_str_to_bool js ?t = Some (Inr b)" if "s = (if b then ''true'' else ''false'')" for b
      using read_bool [OF loc [unfolded that]] unfolding that .
    ultimately show ?thesis unfolding reads_def Prim node.case on by (simp only:) blast
  next
    case (Str s)
    then show ?thesis using assms(1) read_str by (auto simp: reads_def on)
  next
    case (Con b ys u)
    note loc = assms(1) [unfolded Con]
    note e = enter_child [OF loc assms(2-5)]
    have ob: "on_token jobj m (\<lambda>js i t. Some (enter_object jobj i t)) = Some (Inr (jobj\<lparr>jcur := Some j\<rparr>))"
      if "b" "even (children ys)"
      unfolding on Con using e(3) [OF that] by simp
    have ar: "on_token jobj m (\<lambda>js i t. Some (enter_array jobj i t)) = Some (Inr (children ys, jobj\<lparr>jcur := Some j\<rparr>))"
      if "\<not> b"
      unfolding on Con using e(4) [OF that] by simp
    show ?thesis unfolding reads_def Con node.case using e(1,2) ob ar by blast
  qed
qed

subsection \<open>A document\<close>

lemma json_init_tree:
  assumes "node_ok (Con b xs t)" "list_all skipped w" "list_all skipped v"
    and "len = length (w @ text_of (Con b xs t) @ v)" "len \<le> 32767"
    and "ntoks (Con b xs t) \<le> num" "num < 2 ^ 32" "ntoks (Con b xs t) \<le> length T" "ntoks (Con b xs t) < 32767"
    and "b \<Longrightarrow> even (children xs)"
  obtains jobj where "json_init T (int num) (w @ text_of (Con b xs t) @ v @ post) (int len) = Some (None, jobj)"
    "jtokens jobj = toks (Con b xs t) (length w) 0 (-1) @ drop (ntoks (Con b xs t)) T"
    "jtext jobj = Some (w @ text_of (Con b xs t) @ v @ post)" "jcur jobj = Some 0" "jnum_tokens jobj = int (ntoks (Con b xs t))"
proof -
  let ?n = "Con b xs t" and ?js = "w @ text_of (Con b xs t) @ v @ post"
  let ?T = "toks ?n (length w) 0 (-1) @ drop (ntoks ?n) T"
  have ty: "token_of ?T 0 = Some (hd (toks ?n (length w) 0 (-1)))" by (simp add: token_of_def)
  have p: "jsmn_parse jsmn_init ?js len (Some T) num = Some (Inr (int (ntoks ?n)), at_token len (ntoks ?n) (-1), Some ?T)"
    by (rule jsmn_parse_tree) (use assms in auto)
  have n: "nat (int num mod 2 ^ 32) = num" "nat (int len mod 2 ^ 32) = len"
    using assms(5,7) by (simp_all del: of_nat_mod flip: of_nat_mod)
  define jobj where "jobj = \<lparr>jparser = at_token len (ntoks ?n) (-1), jtext = Some ?js, jtokens = ?T, jcur = Some 0,
    jnum_tokens = int (ntoks ?n)\<rparr>"
  have ev: "b \<Longrightarrow> unat (of_nat (children xs) :: u8) mod 2 = 0"
    using assms(10) by (simp add: unat_of_nat mod_mod_cancel flip: even_iff_mod_2_eq_zero)
  have "json_init T (int num) ?js (int len) = Some (None, jobj)"
    unfolding json_init_def json_obj_init_def Let_def json_parser_t.simps n p
    using ev by (simp add: cur_token_def token_of_def jobj_def)
  then show ?thesis by (rule that) (simp_all add: jobj_def)
qed


lemma json_init_stands:
  assumes "node_ok (Con b xs t)" "small (Con b xs t)" "length (w @ text_of (Con b xs t)) \<le> 32767"
    and "jtokens jobj = toks (Con b xs t) (length w) 0 (-1) @ R"
    and "jtext jobj = Some (w @ text_of (Con b xs t) @ v @ post)" "jcur jobj = Some 0" "ntoks (Con b xs t) < 32767"
  shows "stands_at jobj (Con b xs t)"
proof -
  have "located (w @ text_of (Con b xs t) @ v @ post) (jtokens jobj) (Con b xs t) (length w) 0 (-1)"
    unfolding located_def prim_ended_def
    by (intro conjI exI [where x = w] exI [where x = "v @ post"] exI [where x = "[]"] exI [where x = R])
      (use assms in auto)
  then show ?thesis unfolding stands_at_def using assms(5,6) by blast
qed

text \<open>C36: A JSON text is read. The text of any object or array of strings, primitives and further objects and arrays,
  with spaces, commas and colons in any place a token may end, is taken by json_init: the tokens are those of
  the tree in the order of the text, with their places, parents and numbers of children, the rest of the array
  is as before, and the search stands at the outermost value. Bounds: below 256 children of one value, 32767
  bytes and tokens, an even number of members, and enough tokens.\<close>

theorem json_document:
  assumes "node_ok (Con b xs t)" "small (Con b xs t)" "b \<longrightarrow> even (children xs)"
    and "list_all skipped w" "list_all skipped v"
    and "length (w @ text_of (Con b xs t) @ v) \<le> 32767"
    and "ntoks (Con b xs t) < 32767" "ntoks (Con b xs t) \<le> length T" "length T < 2 ^ 32"
  shows "\<exists>jobj. json_init T (int (length T)) (w @ text_of (Con b xs t) @ v @ post) (int (length (w @ text_of (Con b xs t) @ v)))
        = Some (None, jobj) \<and>
      jtokens jobj = toks (Con b xs t) (length w) 0 (-1) @ drop (ntoks (Con b xs t)) T \<and>
      jnum_tokens jobj = int (ntoks (Con b xs t)) \<and> stands_at jobj (Con b xs t)"
proof -
  obtain jobj where j: "json_init T (int (length T)) (w @ text_of (Con b xs t) @ v @ post) (int (length (w @ text_of (Con b xs t) @ v)))
      = Some (None, jobj)"
    "jtokens jobj = toks (Con b xs t) (length w) 0 (-1) @ drop (ntoks (Con b xs t)) T"
    "jtext jobj = Some (w @ text_of (Con b xs t) @ v @ post)" "jcur jobj = Some 0" "jnum_tokens jobj = int (ntoks (Con b xs t))"
    by (rule json_init_tree [OF assms(1,4,5) refl, of "length T" T]) (use assms in auto)
  have "stands_at jobj (Con b xs t)"
    by (rule json_init_stands [OF assms(1,2) _ j(2,3,4) assms(7)]) (use assms(6) in simp)
  then show ?thesis using j(1,2,5) by blast
qed

lemma object_reads:
  assumes "stands_at jobj (Con True xs t)" "paired xs" "nul_free key" "obj_member key xs = Some v"
  shows "reads jobj (json_get_val_int jobj key) (json_get_val_bool jobj key) (json_get_val_str jobj key)
    (json_get_composite_object jobj key) (json_get_array_object jobj key) v"
proof -
  have c: "0 < children xs" using assms(4) by (cases xs) auto
  obtain js i T where g: "jtext jobj = Some js" "jcur jobj = Some i" "jtokens jobj = T" "i < 32767"
    "obj_member key xs = None \<longrightarrow> json_get_value jobj key = Some (Inl WM_E_JSON_NOT_FOUND)"
    "\<forall>v. obj_member key xs = Some v \<longrightarrow> (\<exists>off j. json_get_value jobj key = Some (Inr j) \<and> located js T v off j (ix i))"
    by (rule get_value_member [OF assms(1,2) c assms(3)])
  then obtain off j where v: "json_get_value jobj key = Some (Inr j)" "located js T v off j (ix i)" using assms(4) by blast
  then show ?thesis using reads_located [OF v(2) g(1,3,2,4) v(1)]
    by (simp add: json_get_val_int_def json_get_val_bool_def json_get_val_str_def [abs_def] json_get_composite_object_def
      json_get_array_object_def)
qed

text \<open>C37: Members are found. Where the search stands at an object of pairs, a name that no member has is not found by
  any of the five getters; of one it has, the first value is read: as the number it prints, as the flag, as its
  string with a NUL behind it when the buffer is long enough, and an object or array is entered, from where
  releasing leads back.\<close>

theorem json_object_lookup:
  assumes "stands_at jobj (Con True xs t)" "paired xs" "0 < children xs" "nul_free key"
  shows "case obj_member key xs of
      None \<Rightarrow>
        json_get_val_int jobj key = Some (Inl WM_E_JSON_NOT_FOUND) \<and> json_get_val_bool jobj key = Some (Inl WM_E_JSON_NOT_FOUND) \<and>
        json_get_val_str jobj key buf n = Some (Inl WM_E_JSON_NOT_FOUND) \<and>
        json_get_composite_object jobj key = Some (Inl WM_E_JSON_NOT_FOUND) \<and>
        json_get_array_object jobj key = Some (Inl WM_E_JSON_NOT_FOUND)
    | Some v \<Rightarrow>
        reads jobj (json_get_val_int jobj key) (json_get_val_bool jobj key) (json_get_val_str jobj key)
          (json_get_composite_object jobj key) (json_get_array_object jobj key) v"
proof (cases "obj_member key xs")
  case None
  obtain js i T where "obj_member key xs = None \<longrightarrow> json_get_value jobj key = Some (Inl WM_E_JSON_NOT_FOUND)"
    by (rule get_value_member [OF assms])
  then show ?thesis using None
    by (simp add: json_get_val_int_def json_get_val_bool_def json_get_val_str_def json_get_composite_object_def
      json_get_array_object_def on_token_def)
next
  case (Some v)
  then show ?thesis using object_reads [OF assms(1,2,4)] by simp
qed

text \<open>C38: Elements are found. Where the search stands at an array, the number of elements is right, an index beyond
  it is refused, and below it the element of that number is read, as for the members of an object.\<close>

theorem json_array_lookup:
  assumes "stands_at jobj (Con False xs t)"
  shows "json_array_get_num_elements jobj = Some (int (children xs)) \<and>
    (case element (unat k) xs of
       None \<Rightarrow> json_get_array_index jobj k = Some (Inl WM_E_JSON_INVALID_INDEX)
     | Some v \<Rightarrow>
         reads jobj (json_array_get_int jobj k) (json_array_get_bool jobj k) (json_array_get_str jobj k)
           (json_array_get_composite_object jobj k) (json_array_get_array_object jobj k) v)"
proof -
  obtain i off par where c: "cur_token jobj = Some (i, hd (toks (Con False xs t) off i par))" "children xs < 256"
    using assms located_token unfolding stands_at_def located_def cur_token_def
    by (metis (no_types, lifting) bind.bind_lunit small.simps(3) located_def)
  have sz: "unat (of_nat (children xs) :: u8) = children xs" using c(2) by (simp add: unat_of_nat)
  have n: "json_array_get_num_elements jobj = Some (int (children xs))"
    using c(1) arg_cong [OF sz, of int] by (simp add: json_array_get_num_elements_def)
  note defs = json_array_get_int_def json_array_get_bool_def json_array_get_str_def json_array_get_composite_object_def
    json_array_get_array_object_def
  show ?thesis
  proof (cases "unat k < children xs")
    case True
    obtain js i T v off j where g: "jtext jobj = Some js" "jcur jobj = Some i" "jtokens jobj = T" "i < 32767"
      "element (unat k) xs = Some v" "json_get_array_index jobj k = Some (Inr j)" "located js T v off j (ix i)"
      by (rule get_array_element [OF assms True])
    then show ?thesis using n reads_located [OF g(7,1,3,2,4,6)] by (simp add: defs [abs_def])
  next
    case False
    then have "element (unat k) xs = None" using element_beyond by simp
    moreover have "json_get_array_index jobj k = Some (Inl WM_E_JSON_INVALID_INDEX)"
      using c(1) sz False by (simp add: json_get_array_index_def)
    ultimately show ?thesis using n by simp
  qed
qed


text \<open>A text of 27 bytes for the examples.\<close>

definition blank_token :: jsontok_t where
  "blank_token = \<lparr>tok_type = JSMN_PRIMITIVE, tok_size = 0, tok_start = 0, tok_end = 0, tok_parent = 0\<rparr>"

definition sample_items :: items where
  "sample_items = Item [] (Str ''a'') (Item '': '' (Prim ''12'') (Item '', '' (Str ''b'')
     (Item '': '' (Con False (Item [] (Prim ''true'') (Item '', '' (Str ''x'') Done)) []) Done)))"

lemma sample_ok:
  "node_ok (Con True sample_items [])" "small (Con True sample_items [])" "children sample_items = 4"
  "ntoks (Con True sample_items []) = 7" "length (text_of (Con True sample_items [])) = 27"
  by (simp_all add: sample_items_def prim_ok_def prim_char_def skipped_def primitive_start_def ends_prim_def is_separator_def)

lemma json_document_witness:
  "\<exists>jobj. json_init (replicate 8 blank_token) 8 (text_of (Con True sample_items []) @ []) 27 = Some (None, jobj) \<and>
     stands_at jobj (Con True sample_items [])"
  using json_document [of True sample_items "[]" "[]" "[]" "replicate 8 blank_token"] sample_ok by auto

text \<open>A run without tokens, to learn how many are needed, gives the number a run with them gives.\<close>

lemma counting_run:
  assumes "jsmn_parse jsmn_init js len (Some T) num = Some (Inr n, p, T')"
  shows "\<exists>q. jsmn_parse jsmn_init js len None num' = Some (Inr n, q, None)"
  using jsmn_loop_counts [OF assms [unfolded jsmn_parse_def] refl refl, of num'] unfolding jsmn_parse_def
  by (simp add: jsmn_init_def)

lemma counting_run_witness:
  "\<exists>q. jsmn_parse jsmn_init ''[1,2]'' 5 None 0 = Some (Inr 3, q, None)"
proof -
  have "map_option fst (jsmn_parse jsmn_init ''[1,2]'' 5 (Some (replicate 8 blank_token)) 8) = Some (Inr 3)" by code_simp
  then obtain p T' where "jsmn_parse jsmn_init ''[1,2]'' 5 (Some (replicate 8 blank_token)) 8 = Some (Inr 3, p, T')" by auto
  then show ?thesis by (rule counting_run)
qed

text \<open>C39: The number of children is kept in a byte: an array of any length is read without an error, but reports its
  number of elements modulo 256 and refuses all others; of 256 elements it reports none.\<close>

theorem json_many_children:
  assumes "node_ok (Con False xs t)" "length (text_of (Con False xs t)) \<le> 32767"
    and "ntoks (Con False xs t) < 32767" "ntoks (Con False xs t) \<le> length T" "length T < 2 ^ 32"
  shows "\<exists>jobj. json_init T (int (length T)) (text_of (Con False xs t) @ post) (int (length (text_of (Con False xs t))))
        = Some (None, jobj) \<and>
      json_array_get_num_elements jobj = Some (int (children xs mod 256)) \<and>
      (\<forall>k. children xs mod 256 \<le> unat k \<longrightarrow> json_get_array_index jobj k = Some (Inl WM_E_JSON_INVALID_INDEX))"
proof -
  let ?n = "Con False xs t"
  obtain jobj where j: "json_init T (int (length T)) ([] @ text_of ?n @ [] @ post) (int (length ([] @ text_of ?n @ []))) = Some (None, jobj)"
    "jtokens jobj = toks ?n (length []) 0 (-1) @ drop (ntoks ?n) T" "jtext jobj = Some ([] @ text_of ?n @ [] @ post)"
    "jcur jobj = Some 0" "jnum_tokens jobj = int (ntoks ?n)"
    by (rule json_init_tree [OF assms(1) _ _ refl, of "[]" "[]" "length T" T]) (use assms in auto)
  have c: "cur_token jobj = Some (0, hd (toks ?n 0 0 (-1)))" using j(2,4) by (simp add: cur_token_def token_of_def)
  have sz: "unat (of_nat (children xs) :: u8) = children xs mod 256" by (simp add: unat_of_nat)
  have u: "uint (of_nat (children xs) :: u8) = int (children xs mod 256)" using arg_cong [OF sz, of int] by simp
  have "json_array_get_num_elements jobj = Some (int (children xs mod 256))"
    "children xs mod 256 \<le> unat k \<Longrightarrow> json_get_array_index jobj k = Some (Inl WM_E_JSON_INVALID_INDEX)" for k
    using c u sz by (simp_all add: json_array_get_num_elements_def json_get_array_index_def)
  then show ?thesis using j(1) by (intro exI [where x = jobj]) simp
qed


text \<open>256 ones.\<close>

primrec ones :: "nat \<Rightarrow> items" where
  "ones 0 = Done"
| "ones (Suc k) = Item '','' (Prim ''1'') (ones k)"

lemma ones_facts:
  "children (ones k) = k" "nitems (ones k) = k" "length (items_text (ones k)) = 2 * k"
  "hd (items_text (ones k) @ [] @ '']'') \<in> {CHR '','', CHR '']''}"
  by (induction k) simp_all

lemma ones_ok: "items_ok (ones k) []"
proof (induction k)
  case (Suc k)
  have "ends_prim (Prim ''1'') (items_text (ones k) @ [])"
    using ones_facts(4) [of k] by (auto simp: ends_prim_def is_separator_def)
  then show ?case using Suc by (simp add: prim_ok_def prim_char_def skipped_def primitive_start_def is_separator_def)
qed simp

lemma json_many_children_witness:
  "\<exists>jobj. json_init (replicate 300 blank_token) 300 (text_of (Con False (ones 256) []) @ []) 514 = Some (None, jobj) \<and>
     json_array_get_num_elements jobj = Some 0 \<and> json_get_array_index jobj 0 = Some (Inl WM_E_JSON_INVALID_INDEX)"
  using json_many_children [of "ones 256" "[]" "replicate 300 blank_token" "[]"] ones_ok [of 256] ones_facts [of 256]
  by (auto simp del: ones.simps)

lemma sample_stands: "\<exists>jobj. stands_at jobj (Con True sample_items [])"
proof -
  let ?n = "Con True sample_items []"
  let ?jobj = "\<lparr>jparser = jsmn_init, jtext = Some ([] @ text_of ?n @ [] @ []), jtokens = toks ?n 0 0 (-1) @ [],
    jcur = Some 0, jnum_tokens = 7\<rparr>"
  have "stands_at ?jobj ?n"
    by (rule json_init_stands [of True sample_items "[]" "[]" ?jobj "[]" "[]"]) (use sample_ok in simp_all)
  then show ?thesis by blast
qed

lemma json_object_lookup_witness:
  "\<exists>jobj. stands_at jobj (Con True sample_items []) \<and> json_get_val_int jobj ''a'' = Some (Inr 12) \<and>
     json_get_val_int jobj ''c'' = Some (Inl WM_E_JSON_NOT_FOUND)"
proof -
  obtain jobj where j: "stands_at jobj (Con True sample_items [])" using sample_stands by blast
  have p: "paired sample_items" "0 < children sample_items" by (simp_all add: sample_items_def)
  have a: "obj_member ''a'' sample_items = Some (Prim ''12'')" "obj_member ''c'' sample_items = None"
    by (simp_all add: sample_items_def)
  have d: "''12'' = dec_int 12" by code_simp
  have "json_get_val_int jobj ''a'' = Some (Inr 12)"
    using json_object_lookup [OF j p, of "''a''"] a(1) d by (simp add: reads_def)
  moreover have "json_get_val_int jobj ''c'' = Some (Inl WM_E_JSON_NOT_FOUND)"
    using json_object_lookup [OF j p, of "''c''"] a(2) by simp
  ultimately show ?thesis using j by blast
qed

lemma json_array_lookup_witness:
  "\<exists>jobj. json_array_get_num_elements jobj = Some 2 \<and> json_array_get_bool jobj 0 = Some (Inr True)"
proof -
  let ?n = "Con False (Item [] (Prim ''true'') (Item '', '' (Str ''x'') Done)) []"
  let ?jobj = "\<lparr>jparser = jsmn_init, jtext = Some ([] @ text_of ?n @ [] @ []), jtokens = toks ?n 0 0 (-1) @ [],
    jcur = Some 0, jnum_tokens = 3\<rparr>"
  have "stands_at ?jobj ?n"
    by (rule json_init_stands [of _ _ _ "[]" ?jobj "[]" "[]"])
      (simp_all add: prim_ok_def prim_char_def skipped_def primitive_start_def ends_prim_def is_separator_def)
  from json_array_lookup [OF this, of 0] show ?thesis
    by (intro exI [where x = ?jobj]) (auto simp: reads_def dest: spec [of _ True])
qed

end
