(* ===== verification/JsonGen.thy ===== *)
theory JsonGen
  imports JsonLookup
begin

text \<open>
  \<open>JingDong/jsmn/json_generator.c\<close>: a JSON text built call by call in a buffer, and read back by the
  tokenizer and the wrappers. \<open>CONFIG_JSON_FLOAT\<close> is off, so a float and its precision are not looked at
  and are left out of the arguments. \<open>None\<close> is an access outside the buffer or an argument.
\<close>

subsection \<open>The buffer\<close>

record json_str_t =
  js_buff :: cbuf
  js_len :: int
  js_free :: int

text \<open>\<open>WM_SUCCESS\<close>, or an error code with the sign it is returned with.\<close>

datatype json_ret = WM_SUCCESS | Negated wm_json_errno | Plain wm_json_errno

definition blank_byte :: "char \<Rightarrow> bool" where "blank_byte c \<longleftrightarrow> (of_char c :: nat) \<le> 32"

text \<open>Up to the next byte that is not blank_byte, which a NUL is.\<close>

fun skip_blanks :: "cbuf \<Rightarrow> cbuf option" where
  "skip_blanks [] = None"
| "skip_blanks (c # cs) = (if blank_byte c then skip_blanks cs else Some (c # cs))"

text \<open>The last byte before a position that is not blank_byte.\<close>

fun rev_skip :: "cbuf \<Rightarrow> nat \<Rightarrow> char option" where
  "rev_skip b 0 = None"
| "rev_skip b (Suc i) = (if i < length b then if blank_byte (b ! i) then rev_skip b i else Some (b ! i) else None)"

definition last_byte :: "json_str_t \<Rightarrow> char option" where
  "last_byte jptr = (if js_free jptr < 0 then None else rev_skip (js_buff jptr) (nat (js_free jptr)))"

definition verify_json_start :: "cbuf \<Rightarrow> bool option" where
  "verify_json_start buff = map_option (\<lambda>b. hd b = CHR ''{'') (skip_blanks buff)"

definition verify_buffer_limit :: "json_str_t \<Rightarrow> bool" where
  "verify_buffer_limit jptr \<longleftrightarrow> \<not> js_free jptr \<ge> js_len jptr - 1"

text \<open>\<open>jptr->buff[jptr->free_ptr++] = c\<close>.\<close>

definition put_byte :: "char \<Rightarrow> json_str_t \<Rightarrow> json_str_t option" where
  "put_byte c jptr =
     (if 0 \<le> js_free jptr \<and> nat (js_free jptr) < length (js_buff jptr)
      then Some (jptr\<lparr>js_buff := (js_buff jptr)[nat (js_free jptr) := c], js_free := js_free jptr + 1\<rparr>)
      else None)"

text \<open>\<open>snprintf(&jptr->buff[jptr->free_ptr], jptr->len - jptr->free_ptr, ...)\<close> of a text.\<close>

definition print_at :: "string \<Rightarrow> json_str_t \<Rightarrow> json_str_t option" where
  "print_at s jptr =
     (let n = nat ((js_len jptr - js_free jptr) mod 2 ^ 32); out = take (n - 1) s; p = nat (js_free jptr); b = js_buff jptr in
      if js_free jptr < 0 then None
      else if n = 0 then Some jptr
      else if p + length out < length b
      then Some (jptr\<lparr>js_buff := take p b @ out @ NUL # drop (p + length out + 1) b\<rparr>)
      else None)"

definition to_end :: "json_str_t \<Rightarrow> json_str_t option" where
  "to_end jptr = do { n \<leftarrow> strlen (js_buff jptr); Some (jptr\<lparr>js_free := int n\<rparr>) }"

definition print_float :: "json_str_t \<Rightarrow> json_str_t option" where
  "print_float jptr = print_at (CHR 0x22 # ''unsupported'' @ [CHR 0x22]) jptr"

definition json_str_init :: "cbuf \<Rightarrow> int \<Rightarrow> json_str_t option" where
  "json_str_init buff len =
     (let n = nat (len mod 2 ^ 32) in
      if n \<le> length buff then Some \<lparr>js_buff = replicate n NUL @ drop n buff, js_len = len, js_free = 0\<rparr> else None)"

text \<open>What every call does first.\<close>

definition limited :: "json_str_t \<Rightarrow> (json_ret \<times> json_str_t) option \<Rightarrow> (json_ret \<times> json_str_t) option" where
  "limited jptr m = (if \<not> verify_buffer_limit jptr then Some (Negated WM_E_JSON_OBUF, jptr) else m)"

definition comma_if :: "(char \<Rightarrow> bool) \<Rightarrow> json_str_t \<Rightarrow> json_str_t option" where
  "comma_if p jptr = do { c \<leftarrow> last_byte jptr; if p c then put_byte (CHR '','') jptr else Some jptr }"

abbreviation "quoted s \<equiv> CHR 0x22 # s @ [CHR 0x22]"

subsection \<open>Objects and arrays\<close>

definition json_push_object :: "json_str_t \<Rightarrow> string \<Rightarrow> (json_ret \<times> json_str_t) option" where
  "json_push_object jptr name =
     limited jptr (do {
       jptr \<leftarrow> comma_if (\<lambda>c. c \<noteq> CHR ''{'') jptr;
       jptr \<leftarrow> print_at (quoted name @ '':{'') jptr;
       jptr \<leftarrow> to_end jptr;
       Some (WM_SUCCESS, jptr)
     })"

definition json_push_array_object :: "json_str_t \<Rightarrow> string \<Rightarrow> (json_ret \<times> json_str_t) option" where
  "json_push_array_object jptr name =
     limited jptr (do {
       jptr \<leftarrow> comma_if (\<lambda>c. c \<noteq> CHR ''{'') jptr;
       jptr \<leftarrow> print_at (quoted name @ '':['') jptr;
       jptr \<leftarrow> to_end jptr;
       Some (WM_SUCCESS, jptr)
     })"

definition json_start_object :: "json_str_t \<Rightarrow> (json_ret \<times> json_str_t) option" where
  "json_start_object jptr =
     limited jptr (do {
       jptr \<leftarrow> (if js_free jptr \<noteq> 0 then comma_if (\<lambda>c. c = CHR ''}'') jptr else Some jptr);
       jptr \<leftarrow> put_byte (CHR ''{'') jptr;
       Some (WM_SUCCESS, jptr)
     })"

definition json_close_object :: "json_str_t \<Rightarrow> (json_ret \<times> json_str_t) option" where
  "json_close_object jptr = limited jptr (do { jptr \<leftarrow> put_byte (CHR ''}'') jptr; Some (WM_SUCCESS, jptr) })"

definition json_pop_array_object :: "json_str_t \<Rightarrow> (json_ret \<times> json_str_t) option" where
  "json_pop_array_object jptr = limited jptr (do { jptr \<leftarrow> put_byte (CHR '']'') jptr; Some (WM_SUCCESS, jptr) })"

definition json_start_array :: "json_str_t \<Rightarrow> (json_ret \<times> json_str_t) option" where
  "json_start_array jptr =
     limited jptr (do {
       jptr \<leftarrow> comma_if (\<lambda>c. c = CHR '']'') jptr;
       jptr \<leftarrow> put_byte (CHR ''['') jptr;
       Some (WM_SUCCESS, jptr)
     })"

definition json_close_array :: "json_str_t \<Rightarrow> (json_ret \<times> json_str_t) option" where
  "json_close_array jptr = limited jptr (do { jptr \<leftarrow> put_byte (CHR '']'') jptr; Some (WM_SUCCESS, jptr) })"

subsection \<open>Values\<close>

datatype json_data_types =
    JSON_VAL_STR | JSON_VAL_INT | JSON_VAL_UINT | JSON_VAL_UINT_64 | JSON_VAL_FLOAT | JSON_VAL_BOOL | JSON_VAL_OBJ

definition truth :: "bool \<Rightarrow> string" where
  "truth b = (if b then ''true'' else ''false'')"

definition json_set_array_value ::
  "json_str_t \<Rightarrow> cbuf option \<Rightarrow> u32 \<Rightarrow> json_data_types \<Rightarrow> (json_ret \<times> json_str_t) option" where
  "json_set_array_value jptr str value data =
     do {
       started \<leftarrow> verify_json_start (js_buff jptr);
       if \<not> started then Some (Plain WM_E_JSON_INVSTART, jptr)
       else limited jptr (do {
         jptr \<leftarrow> comma_if (\<lambda>c. c \<noteq> CHR ''['') jptr;
         jptr \<leftarrow> (case data of
             JSON_VAL_STR \<Rightarrow> do { s \<leftarrow> str; s \<leftarrow> cstr s; print_at (quoted s) jptr }
           | JSON_VAL_INT \<Rightarrow> print_at (dec_int (sint value)) jptr
           | JSON_VAL_FLOAT \<Rightarrow> print_float jptr
           | JSON_VAL_BOOL \<Rightarrow> print_at (truth (value = 1)) jptr
           | _ \<Rightarrow> Some jptr);
         jptr \<leftarrow> to_end jptr;
         Some (WM_SUCCESS, jptr)
       })
     }"

text \<open>A part of a string is printed with its end marked by a NUL for the time of the call.\<close>

definition json_set_object_value ::
  "json_str_t \<Rightarrow> string \<Rightarrow> cbuf option \<Rightarrow> word64 \<Rightarrow> json_data_types \<Rightarrow> (json_ret \<times> json_str_t) option" where
  "json_set_object_value jptr name str value data =
     do {
       started \<leftarrow> verify_json_start (js_buff jptr);
       if \<not> started then Some (Negated WM_E_JSON_INVSTART, jptr)
       else limited jptr (do {
         jptr \<leftarrow> comma_if (\<lambda>c. c \<noteq> CHR ''{'') jptr;
         jptr \<leftarrow> (case data of
             JSON_VAL_STR \<Rightarrow> do { s \<leftarrow> str; s \<leftarrow> cstr s; print_at (quoted name @ '':'' @ quoted s) jptr }
           | JSON_VAL_OBJ \<Rightarrow> do {
               s \<leftarrow> str;
               s \<leftarrow> (if 0 \<le> sint value \<and> nat (sint value) < length s then cstr (s[nat (sint value) := NUL]) else None);
               print_at (quoted name @ '':'' @ s) jptr
             }
           | JSON_VAL_INT \<Rightarrow> print_at (quoted name @ '':'' @ dec_int (sint (ucast value :: u32))) jptr
           | JSON_VAL_UINT \<Rightarrow> print_at (quoted name @ '':'' @ dec (unat (ucast value :: u32))) jptr
           | JSON_VAL_UINT_64 \<Rightarrow> print_at (quoted name @ '':'' @ dec (unat value)) jptr
           | JSON_VAL_FLOAT \<Rightarrow> do { jptr \<leftarrow> print_at (quoted name @ '':'') jptr; jptr \<leftarrow> to_end jptr; print_float jptr }
           | JSON_VAL_BOOL \<Rightarrow> print_at (quoted name @ '':'' @ truth (value = 1)) jptr);
         jptr \<leftarrow> to_end jptr;
         Some (WM_SUCCESS, jptr)
       })
     }"


subsection \<open>A text that is being written\<close>

text \<open>The buffer of \<open>n\<close> bytes with the text \<open>s\<close> and zeros behind it.\<close>

definition written :: "nat \<Rightarrow> string \<Rightarrow> json_str_t" where
  "written n s = \<lparr>js_buff = s @ replicate (n - length s) NUL, js_len = int n, js_free = int (length s)\<rparr>"

definition solid_end :: "string \<Rightarrow> bool" where
  "solid_end s \<longleftrightarrow> s \<noteq> [] \<and> \<not> blank_byte (last s)"

lemma last_byte_written: "solid_end s \<Longrightarrow> last_byte (written n s) = Some (last s)"
proof -
  assume s: "solid_end s"
  then have "rev_skip (s @ r) (length s) = Some (last s)" for r
    by (cases s rule: rev_cases) (simp_all add: solid_end_def nth_append)
  then show ?thesis by (simp add: last_byte_def written_def)
qed

lemma limited_written: "length s + 1 < n \<Longrightarrow> limited (written n s) m = m"
  by (simp add: limited_def verify_buffer_limit_def written_def)

lemma put_byte_written: "length s + 1 < n \<Longrightarrow> put_byte c (written n s) = Some (written n (s @ [c]))"
proof -
  assume n: "length s + 1 < n"
  then obtain k where "n - length s = Suc k" by (metis Suc_diff_Suc add_lessD1)
  then show ?thesis using n by (simp add: put_byte_def written_def list_update_append)
qed

lemma print_written:
  assumes "length s + length t < n" "n < 2 ^ 31" "nul_free s" "nul_free t"
  shows "(do { j \<leftarrow> print_at t (written n s); to_end j }) = Some (written n (s @ t))"
proof -
  have m: "nat ((int n - int (length s)) mod 2 ^ 32) = n - length s" using assms(1,2) by (simp add: nat_diff_distrib)
  have d: "drop (length s + length t + 1) (s @ replicate (n - length s) NUL) = replicate (n - length s - (length t + 1)) NUL"
    by simp
  have r: "NUL # replicate (n - length s - (length t + 1)) NUL = replicate (n - length (s @ t)) NUL"
    using assms(1) by (simp flip: replicate_Suc add: Suc_diff_Suc)
  have "print_at t (written n s) = Some ((written n s)\<lparr>js_buff := (s @ t) @ NUL # replicate (n - length s - (length t + 1)) NUL\<rparr>)"
    using assms(1) m d by (simp add: print_at_def written_def Let_def)
  moreover have "cstr (s @ t @ NUL # replicate (n - length s - (length t + 1)) NUL) = Some (s @ t)"
    using assms(3,4) cstr_append_NUL [of "s @ t"] by simp
  ultimately show ?thesis using r by (simp add: to_end_def strlen_def written_def)
qed

lemma comma_written:
  "length s + 1 < n \<Longrightarrow> solid_end s \<Longrightarrow> comma_if p (written n s) = Some (written n (s @ (if p (last s) then '','' else [])))"
  by (simp add: comma_if_def last_byte_written put_byte_written)

lemma started_written: "s \<noteq> [] \<Longrightarrow> hd s = CHR ''{'' \<Longrightarrow> verify_json_start (js_buff (written n s)) = Some True"
  by (cases s) (auto simp: verify_json_start_def written_def blank_byte_def)

text \<open>A text behind a comma, where one is due.\<close>

lemma append_written:
  assumes "length s + length (if p (last s) then '','' else []) + length t < n" "t \<noteq> []" "n < 2 ^ 31" "nul_free s" "nul_free t"
    and "solid_end s"
  shows "limited (written n s) (do { j \<leftarrow> comma_if p (written n s); j \<leftarrow> print_at t j; j \<leftarrow> to_end j; Some (WM_SUCCESS, j) })
     = Some (WM_SUCCESS, written n (s @ (if p (last s) then '','' else []) @ t))"
proof -
  let ?s = "s @ (if p (last s) then '','' else [])"
  have l: "length s + 1 < n" using assms(1,2) by (cases t) (auto split: if_splits)
  have "(do { j \<leftarrow> print_at t (written n ?s); to_end j }) = Some (written n (?s @ t))"
    by (rule print_written) (use assms in auto)
  then show ?thesis
    using limited_written [OF l] comma_written [OF l assms(6)] by (auto simp: bind_eq_Some_conv)
qed


subsection \<open>Texts written call by call\<close>

text \<open>
  What a caller writes: scalars, objects, and arrays either of scalars or of objects. After an element that
  is no object the generator puts no comma before an object.
\<close>

datatype scalar = SStr string | SInt int | SBool bool

datatype gval = Scal scalar | GObj gmems | GScals "scalar list" | GObjs gobjs
  and gmems = MNil | MCons string gval gmems
  and gobjs = ONil | OCons gmems gobjs

definition set_member :: "scalar \<Rightarrow> string \<Rightarrow> json_str_t \<Rightarrow> (json_ret \<times> json_str_t) option" where
  "set_member x name jptr =
     (case x of
        SStr s \<Rightarrow> json_set_object_value jptr name (Some (s @ [NUL])) 0 JSON_VAL_STR
      | SInt i \<Rightarrow> json_set_object_value jptr name None (of_int i) JSON_VAL_INT
      | SBool b \<Rightarrow> json_set_object_value jptr name None (if b then 1 else 0) JSON_VAL_BOOL)"

definition set_element :: "scalar \<Rightarrow> json_str_t \<Rightarrow> (json_ret \<times> json_str_t) option" where
  "set_element x jptr =
     (case x of
        SStr s \<Rightarrow> json_set_array_value jptr (Some (s @ [NUL])) 0 JSON_VAL_STR
      | SInt i \<Rightarrow> json_set_array_value jptr None (of_int i) JSON_VAL_INT
      | SBool b \<Rightarrow> json_set_array_value jptr None (if b then 1 else 0) JSON_VAL_BOOL)"

text \<open>The next call, unless this one has failed.\<close>

definition after :: "(json_ret \<times> json_str_t) option \<Rightarrow> (json_str_t \<Rightarrow> (json_ret \<times> json_str_t) option) \<Rightarrow>
    (json_ret \<times> json_str_t) option" where
  "after m f = do { (r, jptr) \<leftarrow> m; if r = WM_SUCCESS then f jptr else Some (r, jptr) }"

fun set_elements :: "scalar list \<Rightarrow> json_str_t \<Rightarrow> (json_ret \<times> json_str_t) option" where
  "set_elements [] jptr = Some (WM_SUCCESS, jptr)"
| "set_elements (x # xs) jptr = after (set_element x jptr) (set_elements xs)"

primrec write_val :: "gval \<Rightarrow> string \<Rightarrow> json_str_t \<Rightarrow> (json_ret \<times> json_str_t) option"
  and write_mems :: "gmems \<Rightarrow> json_str_t \<Rightarrow> (json_ret \<times> json_str_t) option"
  and write_objs :: "gobjs \<Rightarrow> json_str_t \<Rightarrow> (json_ret \<times> json_str_t) option" where
  "write_val (Scal x) = set_member x"
| "write_val (GObj ms) = (\<lambda>name jptr. after (json_push_object jptr name) (\<lambda>jptr. after (write_mems ms jptr) json_close_object))"
| "write_val (GScals xs) =
     (\<lambda>name jptr. after (json_push_array_object jptr name) (\<lambda>jptr. after (set_elements xs jptr) json_pop_array_object))"
| "write_val (GObjs os) =
     (\<lambda>name jptr. after (json_push_array_object jptr name) (\<lambda>jptr. after (write_objs os jptr) json_pop_array_object))"
| "write_mems MNil = (\<lambda>jptr. Some (WM_SUCCESS, jptr))"
| "write_mems (MCons name v ms) = (\<lambda>jptr. after (write_val v name jptr) (write_mems ms))"
| "write_objs ONil = (\<lambda>jptr. Some (WM_SUCCESS, jptr))"
| "write_objs (OCons ms os) =
     (\<lambda>jptr. after (json_start_object jptr) (\<lambda>jptr. after (write_mems ms jptr) (\<lambda>jptr. after (json_close_object jptr) (write_objs os))))"

text \<open>A whole text: an object.\<close>

definition write_document :: "gmems \<Rightarrow> cbuf \<Rightarrow> (json_ret \<times> json_str_t) option" where
  "write_document ms buff =
     do {
       jptr \<leftarrow> json_str_init buff (int (length buff));
       after (json_start_object jptr) (\<lambda>jptr. after (write_mems ms jptr) json_close_object)
     }"

text \<open>The trees these texts are of.\<close>

definition comma :: "bool \<Rightarrow> string" where "comma first = (if first then [] else '','')"

fun scal_node :: "scalar \<Rightarrow> node" where
  "scal_node (SStr s) = Str s"
| "scal_node (SInt i) = Prim (dec_int i)"
| "scal_node (SBool b) = Prim (truth b)"

fun scal_items :: "scalar list \<Rightarrow> bool \<Rightarrow> items" where
  "scal_items [] first = Done"
| "scal_items (x # xs) first = Item (comma first) (scal_node x) (scal_items xs False)"

primrec val_node :: "gval \<Rightarrow> node" and mems_items :: "gmems \<Rightarrow> bool \<Rightarrow> items" and objs_items :: "gobjs \<Rightarrow> bool \<Rightarrow> items" where
  "val_node (Scal x) = scal_node x"
| "val_node (GObj ms) = Con True (mems_items ms True) []"
| "val_node (GScals xs) = Con False (scal_items xs True) []"
| "val_node (GObjs os) = Con False (objs_items os True) []"
| "mems_items MNil = (\<lambda>first. Done)"
| "mems_items (MCons name v ms) = (\<lambda>first. Item (comma first) (Str name) (Item '':'' (val_node v) (mems_items ms False)))"
| "objs_items ONil = (\<lambda>first. Done)"
| "objs_items (OCons ms os) = (\<lambda>first. Item (comma first) (Con True (mems_items ms True) []) (objs_items os False))"

text \<open>Names and strings that need no escape, numbers of 32 bits.\<close>

fun scal_ok :: "scalar \<Rightarrow> bool" where
  "scal_ok (SStr s) = string_ok s"
| "scal_ok (SInt i) = (- (2 ^ 31) \<le> i \<and> i < 2 ^ 31)"
| "scal_ok (SBool b) = True"

primrec val_ok :: "gval \<Rightarrow> bool" and mems_ok :: "gmems \<Rightarrow> bool" and objs_ok :: "gobjs \<Rightarrow> bool" where
  "val_ok (Scal x) = scal_ok x"
| "val_ok (GObj ms) = mems_ok ms"
| "val_ok (GScals xs) = list_all scal_ok xs"
| "val_ok (GObjs os) = objs_ok os"
| "mems_ok MNil = True"
| "mems_ok (MCons name v ms) = (string_ok name \<and> val_ok v \<and> mems_ok ms)"
| "objs_ok ONil = True"
| "objs_ok (OCons ms os) = (mems_ok ms \<and> objs_ok os)"

subsection \<open>The calls on a text being written\<close>

text \<open>A text of an object that has begun.\<close>

definition begun :: "string \<Rightarrow> bool" where
  "begun s \<longleftrightarrow> solid_end s \<and> hd s = CHR ''{'' \<and> nul_free s"

lemma begun_append: "begun s \<Longrightarrow> nul_free t \<Longrightarrow> solid_end t \<Longrightarrow> begun (s @ t)"
  by (cases s) (auto simp: begun_def solid_end_def)

lemma sint_narrow: "- (2 ^ 31) \<le> i \<Longrightarrow> i < 2 ^ 31 \<Longrightarrow> sint (of_int i :: u32) = i \<and> sint (ucast (of_int i :: word64) :: u32) = i"
proof -
  assume i: "- (2 ^ 31) \<le> i" "i < 2 ^ 31"
  have "(ucast (of_int i :: word64) :: u32) = of_int i"
    by (rule bit_word_eqI) (simp add: bit_simps)
  then show ?thesis using i by (simp add: sint_sbintrunc' signed_take_bit_int_eq_self)
qed

lemma dec_int_facts: "nul_free (dec_int i)" "solid_end (dec_int i)" "last (dec_int i) \<noteq> CHR ''{''" "last (dec_int i) \<noteq> CHR ''[''"
proof -
  have "is_digit (last (dec k))" for k using dec_digits [of k] by simp
  then have "is_digit (last (dec_int i))" by (simp add: dec_int_def)
  then show "solid_end (dec_int i)" "last (dec_int i) \<noteq> CHR ''{''" "last (dec_int i) \<noteq> CHR ''[''"
    by (auto simp: solid_end_def blank_byte_def is_digit_def dec_int_def)
  show "nul_free (dec_int i)" by (simp add: dec_int_def)
qed

lemma scal_text_facts:
  assumes "scal_ok x"
  shows "nul_free (text_of (scal_node x))" "solid_end (text_of (scal_node x))"
    "last (text_of (scal_node x)) \<noteq> CHR ''{''" "last (text_of (scal_node x)) \<noteq> CHR ''[''" "text_of (scal_node x) \<noteq> []"
  using assms string_ok_nul_free dec_int_facts
  by (cases x; auto simp: solid_end_def blank_byte_def truth_def)+


abbreviation "open_brace s \<equiv> last s = CHR ''{''"
abbreviation "open_bracket s \<equiv> last s = CHR ''[''"

lemma begunD: "begun s \<Longrightarrow> solid_end s \<and> nul_free s \<and> s \<noteq> []"
  by (auto simp: begun_def solid_end_def)

lemma started: "begun s \<Longrightarrow> verify_json_start (js_buff (written n s)) = Some True"
  by (rule started_written) (auto simp: begun_def solid_end_def)

lemma set_member_written:
  assumes "begun s" "scal_ok x" "nul_free name" "n < 2 ^ 31"
    and "length (s @ comma (open_brace s) @ quoted name @ '':'' @ text_of (scal_node x)) < n"
  shows "set_member x name (written n s) =
    Some (WM_SUCCESS, written n (s @ comma (open_brace s) @ quoted name @ '':'' @ text_of (scal_node x)))"
proof -
  have a: "limited (written n s) (do { j \<leftarrow> comma_if (\<lambda>c. c \<noteq> CHR ''{'') (written n s);
        j \<leftarrow> print_at (quoted name @ '':'' @ text_of (scal_node x)) j; j \<leftarrow> to_end j; Some (WM_SUCCESS, j) })
      = Some (WM_SUCCESS, written n (s @ comma (open_brace s) @ quoted name @ '':'' @ text_of (scal_node x)))"
    using append_written [of s "\<lambda>c. c \<noteq> CHR ''{''" "quoted name @ '':'' @ text_of (scal_node x)" n]
      assms scal_text_facts [OF assms(2)] begunD [OF assms(1)] by (auto simp: comma_def split: if_splits)
  show ?thesis
  proof (cases x)
    case (SStr z)
    then have "cstr (z @ [NUL]) = Some z" using assms(2) string_ok_nul_free cstr_append_NUL [of z "[]"] by simp
    then show ?thesis using a SStr started [OF assms(1)] by (simp add: set_member_def json_set_object_value_def)
  next
    case (SInt i)
    then show ?thesis using a assms(2) started [OF assms(1)] sint_narrow [of i]
      by (simp add: set_member_def json_set_object_value_def)
  next
    case (SBool b)
    then show ?thesis using a started [OF assms(1)] by (cases b) (simp_all add: set_member_def json_set_object_value_def)
  qed
qed

lemma set_element_written:
  assumes "begun s" "scal_ok x" "n < 2 ^ 31"
    and "length (s @ comma (open_bracket s) @ text_of (scal_node x)) < n"
  shows "set_element x (written n s) = Some (WM_SUCCESS, written n (s @ comma (open_bracket s) @ text_of (scal_node x)))"
proof -
  have a: "limited (written n s) (do { j \<leftarrow> comma_if (\<lambda>c. c \<noteq> CHR ''['') (written n s);
        j \<leftarrow> print_at (text_of (scal_node x)) j; j \<leftarrow> to_end j; Some (WM_SUCCESS, j) })
      = Some (WM_SUCCESS, written n (s @ comma (open_bracket s) @ text_of (scal_node x)))"
    using append_written [of s "\<lambda>c. c \<noteq> CHR ''[''" "text_of (scal_node x)" n]
      assms scal_text_facts [OF assms(2)] begunD [OF assms(1)] by (auto simp: comma_def split: if_splits)
  show ?thesis
  proof (cases x)
    case (SStr z)
    then have "cstr (z @ [NUL]) = Some z" using assms(2) string_ok_nul_free cstr_append_NUL [of z "[]"] by simp
    then show ?thesis using a SStr started [OF assms(1)] by (simp add: set_element_def json_set_array_value_def)
  next
    case (SInt i)
    then show ?thesis using a assms(2) started [OF assms(1)] sint_narrow [of i]
      by (simp add: set_element_def json_set_array_value_def)
  next
    case (SBool b)
    then show ?thesis using a started [OF assms(1)] by (cases b) (simp_all add: set_element_def json_set_array_value_def)
  qed
qed

lemma push_written:
  assumes "begun s" "nul_free name" "n < 2 ^ 31" "length (s @ comma (open_brace s) @ quoted name @ '':'' @ [c]) < n"
  shows "c = CHR ''{'' \<Longrightarrow> json_push_object (written n s) name =
      Some (WM_SUCCESS, written n (s @ comma (open_brace s) @ quoted name @ '':'' @ [c]))"
    and "c = CHR ''['' \<Longrightarrow> json_push_array_object (written n s) name =
      Some (WM_SUCCESS, written n (s @ comma (open_brace s) @ quoted name @ '':'' @ [c]))"
  using append_written [of s "\<lambda>c. c \<noteq> CHR ''{''" "quoted name @ '':{''" n]
    append_written [of s "\<lambda>c. c \<noteq> CHR ''{''" "quoted name @ '':[''" n] assms begunD [OF assms(1)]
  by (auto simp: json_push_object_def json_push_array_object_def comma_def split: if_splits)

lemma byte_written:
  assumes "length s + 1 < n"
  shows "json_close_object (written n s) = Some (WM_SUCCESS, written n (s @ ''}''))"
    "json_pop_array_object (written n s) = Some (WM_SUCCESS, written n (s @ '']''))"
  using limited_written [OF assms] put_byte_written [OF assms]
  by (simp_all add: json_close_object_def json_pop_array_object_def)

lemma start_object_written:
  assumes "length s + 2 < n" "begun s" "last s \<in> {CHR ''['', CHR ''}''}"
  shows "json_start_object (written n s) = Some (WM_SUCCESS, written n (s @ comma (open_bracket s) @ ''{''))"
proof -
  have l: "length s + 1 < n" using assms(1) by simp
  have f: "js_free (written n s) \<noteq> 0" using begunD [OF assms(2)] by (simp add: written_def)
  have "comma_if (\<lambda>c. c = CHR ''}'') (written n s) = Some (written n (s @ comma (open_bracket s)))"
    using comma_written [OF l] begunD [OF assms(2)] assms(3) by (auto simp: comma_def)
  moreover have "put_byte (CHR ''{'') (written n (s @ comma (open_bracket s))) = Some (written n ((s @ comma (open_bracket s)) @ ''{''))"
    by (rule put_byte_written) (use assms(1) in \<open>simp add: comma_def\<close>)
  ultimately show ?thesis using f by (simp add: json_start_object_def limited_written [OF l])
qed

subsection \<open>What the calls write\<close>

lemma after_ok [simp]: "after (Some (WM_SUCCESS, j)) f = f j"
  by (simp add: after_def)

lemma solid_punct: "solid_end (s @ [c]) = (\<not> blank_byte c)"
  by (simp add: solid_end_def)

lemma val_text_facts:
  assumes "val_ok v"
  shows "solid_end (text_of (val_node v))" "last (text_of (val_node v)) \<noteq> CHR ''{''" "text_of (val_node v) \<noteq> []"
  using assms scal_text_facts by (cases v; auto simp: solid_end_def blank_byte_def)+


lemma scal_items_nul_free: "list_all scal_ok xs \<Longrightarrow> nul_free (items_text (scal_items xs b))"
  by (induction xs arbitrary: b) (use scal_text_facts in \<open>auto simp: comma_def\<close>)

lemma text_nul_free:
  "val_ok v \<Longrightarrow> nul_free (text_of (val_node v))"
  "mems_ok ms \<Longrightarrow> nul_free (items_text (mems_items ms b))"
  "objs_ok os \<Longrightarrow> nul_free (items_text (objs_items os b))"
  by (induction v and ms and os arbitrary: and b and b)
    (use scal_text_facts scal_items_nul_free string_ok_nul_free in \<open>auto simp: comma_def\<close>)

lemma set_elements_written:
  "list_all scal_ok xs \<Longrightarrow> begun s \<Longrightarrow> n < 2 ^ 31 \<Longrightarrow> length (s @ items_text (scal_items xs (open_bracket s))) < n \<Longrightarrow>
     set_elements xs (written n s) = Some (WM_SUCCESS, written n (s @ items_text (scal_items xs (open_bracket s))))"
proof (induction xs arbitrary: s)
  case (Cons x xs)
  note x = scal_text_facts [of x]
  let ?s = "s @ comma (open_bracket s) @ text_of (scal_node x)"
  have l: "open_bracket ?s = False" using x Cons.prems(1) by simp
  have b: "begun ?s" using begun_append [OF Cons.prems(2), of "comma (open_bracket s) @ text_of (scal_node x)"] x Cons.prems(1)
    by (simp add: comma_def solid_end_def)
  have "set_element x (written n s) = Some (WM_SUCCESS, written n ?s)"
    by (rule set_element_written) (use Cons.prems in auto)
  moreover have "set_elements xs (written n ?s) = Some (WM_SUCCESS, written n (?s @ items_text (scal_items xs (open_bracket ?s))))"
    by (rule Cons.IH [OF _ b]) (use Cons.prems l in auto)
  ultimately show ?case using l by simp
qed simp

text \<open>A container with its name, around what its calls write.\<close>

lemma around_written:
  assumes "begun s" "nul_free name" "n < 2 ^ 31"
    and "length (s @ comma (open_brace s) @ quoted name @ '':'' @ [c] @ t @ [e]) < n"
    and body: "begun (s @ comma (open_brace s) @ quoted name @ '':'' @ [c]) \<Longrightarrow>
      body (written n (s @ comma (open_brace s) @ quoted name @ '':'' @ [c])) =
      Some (WM_SUCCESS, written n ((s @ comma (open_brace s) @ quoted name @ '':'' @ [c]) @ t))"
  shows "c = CHR ''{'' \<Longrightarrow> e = CHR ''}'' \<Longrightarrow>
      after (json_push_object (written n s) name) (\<lambda>jptr. after (body jptr) json_close_object) =
      Some (WM_SUCCESS, written n (s @ comma (open_brace s) @ quoted name @ '':'' @ [c] @ t @ [e]))"
    and "c = CHR ''['' \<Longrightarrow> e = CHR '']'' \<Longrightarrow>
      after (json_push_array_object (written n s) name) (\<lambda>jptr. after (body jptr) json_pop_array_object) =
      Some (WM_SUCCESS, written n (s @ comma (open_brace s) @ quoted name @ '':'' @ [c] @ t @ [e]))"
proof -
  let ?s = "s @ comma (open_brace s) @ quoted name @ '':'' @ [c]"
  have b: "begun ?s" if "c = CHR ''{'' \<or> c = CHR ''[''"
    using begun_append [OF assms(1), of "comma (open_brace s) @ quoted name @ '':'' @ [c]"] assms(2) that
    by (auto simp: comma_def solid_end_def blank_byte_def)
  have l: "length ?s < n" "length (?s @ t) + 1 < n" using assms(4) by simp_all
  note p = push_written [OF assms(1-3) l(1)] and e = byte_written [OF l(2)]
  show "c = CHR ''{'' \<Longrightarrow> e = CHR ''}'' \<Longrightarrow>
      after (json_push_object (written n s) name) (\<lambda>jptr. after (body jptr) json_close_object) =
      Some (WM_SUCCESS, written n (s @ comma (open_brace s) @ quoted name @ '':'' @ [c] @ t @ [e]))"
    using p(1) e(1) body [OF b] by simp
  show "c = CHR ''['' \<Longrightarrow> e = CHR '']'' \<Longrightarrow>
      after (json_push_array_object (written n s) name) (\<lambda>jptr. after (body jptr) json_pop_array_object) =
      Some (WM_SUCCESS, written n (s @ comma (open_brace s) @ quoted name @ '':'' @ [c] @ t @ [e]))"
    using p(2) e(2) body [OF b] by simp
qed

lemma written_tree:
  "val_ok v \<Longrightarrow> begun s \<Longrightarrow> nul_free name \<Longrightarrow> n < 2 ^ 31 \<Longrightarrow>
     length (s @ comma (open_brace s) @ quoted name @ '':'' @ text_of (val_node v)) < n \<Longrightarrow>
     write_val v name (written n s) = Some (WM_SUCCESS, written n (s @ comma (open_brace s) @ quoted name @ '':'' @ text_of (val_node v)))"
  "mems_ok ms \<Longrightarrow> begun s \<Longrightarrow> n < 2 ^ 31 \<Longrightarrow> length (s @ items_text (mems_items ms (open_brace s))) < n \<Longrightarrow>
     write_mems ms (written n s) = Some (WM_SUCCESS, written n (s @ items_text (mems_items ms (open_brace s))))"
  "objs_ok os \<Longrightarrow> begun s \<Longrightarrow> last s \<in> {CHR ''['', CHR ''}''} \<Longrightarrow> n < 2 ^ 31 \<Longrightarrow>
     length (s @ items_text (objs_items os (open_bracket s))) < n \<Longrightarrow>
     write_objs os (written n s) = Some (WM_SUCCESS, written n (s @ items_text (objs_items os (open_bracket s))))"
proof (induction v and ms and os arbitrary: s name and s and s)
  case (Scal x)
  then show ?case using set_member_written by simp
next
  case (GObj ms)
  let ?s = "s @ comma (open_brace s) @ quoted name @ '':'' @ ''{''"
  have w: "write_mems ms (written n ?s) = Some (WM_SUCCESS, written n (?s @ items_text (mems_items ms True)))" if "begun ?s"
    using GObj.IH [of ?s] that GObj.prems by simp
  show ?case
    using around_written(1) [OF GObj.prems(2-4), of "CHR ''{''" "items_text (mems_items ms True)" "CHR ''}''" "write_mems ms"] w GObj.prems(5)
    by simp
next
  case (GScals xs)
  let ?s = "s @ comma (open_brace s) @ quoted name @ '':'' @ ''[''"
  have w: "set_elements xs (written n ?s) = Some (WM_SUCCESS, written n (?s @ items_text (scal_items xs True)))" if "begun ?s"
    using set_elements_written [of xs ?s n] that GScals.prems by simp
  show ?case
    using around_written(2) [OF GScals.prems(2-4), of "CHR ''[''" "items_text (scal_items xs True)" "CHR '']''" "set_elements xs"] w GScals.prems(5)
    by simp
next
  case (GObjs os)
  let ?s = "s @ comma (open_brace s) @ quoted name @ '':'' @ ''[''"
  have w: "write_objs os (written n ?s) = Some (WM_SUCCESS, written n (?s @ items_text (objs_items os True)))" if "begun ?s"
    using GObjs.IH [of ?s] that GObjs.prems by simp
  show ?case
    using around_written(2) [OF GObjs.prems(2-4), of "CHR ''[''" "items_text (objs_items os True)" "CHR '']''" "write_objs os"] w GObjs.prems(5)
    by simp
next
  case (MCons name v ms)
  note v = val_text_facts [of v] text_nul_free(1) [of v]
  have n: "nul_free name" using MCons.prems(1) string_ok_nul_free by simp
  let ?t = "comma (open_brace s) @ quoted name @ '':'' @ text_of (val_node v)"
  have l: "open_brace (s @ ?t) = False" using v MCons.prems(1) by simp
  have b: "begun (s @ ?t)" using begun_append [OF MCons.prems(2), of ?t] v n MCons.prems(1)
    by (simp add: comma_def solid_end_def)
  have "write_val v name (written n s) = Some (WM_SUCCESS, written n (s @ ?t))"
    by (rule MCons.IH(1) [OF _ MCons.prems(2) n]) (use MCons.prems in auto)
  moreover have "write_mems ms (written n (s @ ?t)) = Some (WM_SUCCESS, written n ((s @ ?t) @ items_text (mems_items ms (open_brace (s @ ?t)))))"
    by (rule MCons.IH(2) [OF _ b]) (use MCons.prems l in auto)
  ultimately show ?case using l by simp
next
  case (OCons ms os)
  let ?s = "s @ comma (open_bracket s) @ ''{''"
  let ?m = "items_text (mems_items ms True)"
  have m: "nul_free ?m" by (rule text_nul_free(2)) (use OCons.prems(1) in simp)
  have b: "begun ?s" using begun_append [OF OCons.prems(2), of "comma (open_bracket s) @ ''{''"]
    by (simp add: comma_def solid_end_def blank_byte_def)
  have b2: "begun ((?s @ ?m) @ ''}'')" using begun_append [OF b, of "?m @ ''}''"] m by (simp add: solid_end_def blank_byte_def)
  have p: "json_start_object (written n s) = Some (WM_SUCCESS, written n ?s)"
    by (rule start_object_written) (use OCons.prems in auto)
  have w: "write_mems ms (written n ?s) = Some (WM_SUCCESS, written n (?s @ items_text (mems_items ms (open_brace ?s))))"
    by (rule OCons.IH(1) [OF _ b]) (use OCons.prems in auto)
  have c: "json_close_object (written n (?s @ ?m)) = Some (WM_SUCCESS, written n ((?s @ ?m) @ ''}''))"
    by (rule byte_written) (use OCons.prems in auto)
  have r: "write_objs os (written n ((?s @ ?m) @ ''}'')) = Some (WM_SUCCESS, written n (((?s @ ?m) @ ''}'') @
      items_text (objs_items os (open_bracket ((?s @ ?m) @ ''}'')))))"
    by (rule OCons.IH(2) [OF _ b2]) (use OCons.prems in auto)
  show ?case using p w c r by simp
qed simp_all


subsection \<open>A whole document\<close>

abbreviation "document ms \<equiv> Con True (mems_items ms True) []"

lemma document_written:
  assumes "mems_ok ms" "length (text_of (document ms)) < length buff" "length buff < 2 ^ 31"
  shows "write_document ms buff = Some (WM_SUCCESS, written (length buff) (text_of (document ms)))"
proof -
  let ?n = "length buff" and ?m = "items_text (mems_items ms True)"
  have i: "json_str_init buff (int ?n) = Some (written ?n [])" using assms(3) by (simp add: json_str_init_def written_def Let_def)
  have l: "length ''{'' < ?n" "length ([] :: string) + 1 < ?n" "length (''{'' @ ?m) + 1 < ?n" using assms(2) by auto
  have f: "js_free (written ?n []) = 0" by (simp add: written_def)
  have b: "json_start_object (written ?n []) = Some (WM_SUCCESS, written ?n ''{'')"
    using limited_written [OF l(2)] put_byte_written [OF l(2)] f by (simp add: json_start_object_def)
  have "write_mems ms (written ?n ''{'') = Some (WM_SUCCESS, written ?n (''{'' @ items_text (mems_items ms (open_brace ''{''))))"
    by (rule written_tree(2)) (use assms l in \<open>auto simp: begun_def solid_end_def blank_byte_def\<close>)
  then show ?thesis using i b byte_written(1) [OF l(3)] by (simp add: write_document_def)
qed

lemma digit_starts: "is_digit c \<Longrightarrow> primitive_start c"
proof -
  assume d: "is_digit c"
  define k where "k = (of_char c :: nat)"
  have "48 \<le> k" "k \<le> 57" using d by (simp_all add: is_digit_def k_def)
  then have "k = 48 \<or> k = 49 \<or> k = 50 \<or> k = 51 \<or> k = 52 \<or> k = 53 \<or> k = 54 \<or> k = 55 \<or> k = 56 \<or> k = 57" by presburger
  then have "\<exists>x \<in> set ''0123456789''. k = of_char x" by simp
  then obtain x where x: "x \<in> set ''0123456789''" "(of_char c :: nat) = of_char x" unfolding k_def by blast
  then have "c = x" by (simp only: of_char_eq_iff)
  then show ?thesis using x(1) unfolding primitive_start_def by auto
qed

lemma prim_ok_dec_int: "prim_ok (dec_int i)"
proof -
  have d: "prim_char c" "primitive_start c" if "is_digit c" for c
    using that digit_starts by (auto simp: is_digit_def prim_char_def is_separator_def)
  have "list_all prim_char (dec k)" "primitive_start (hd (dec k))" for k
    using dec_digits [of k] d by (auto simp: list_all_iff)
  then show ?thesis by (auto simp: prim_ok_def dec_int_def prim_char_def is_separator_def primitive_start_def)
qed


lemma ends_prim_comma: "r = [] \<or> hd r = CHR '','' \<Longrightarrow> ends_prim n r"
  by (cases r) (auto simp: ends_prim_def is_separator_def split: node.split)

lemma comma_skipped: "list_all skipped (comma b)"
  by (simp add: comma_def skipped_def)

lemma scal_node_ok: "scal_ok x \<Longrightarrow> node_ok (scal_node x)"
  using prim_ok_dec_int
  by (cases x) (auto simp: truth_def prim_ok_def prim_char_def primitive_start_def is_separator_def)

lemma scal_items_ok: "list_all scal_ok xs \<Longrightarrow> items_ok (scal_items xs b) []"
proof (induction xs arbitrary: b)
  case (Cons x xs)
  have "items_text (scal_items xs False) = [] \<or> hd (items_text (scal_items xs False)) = CHR '',''" by (cases xs) (simp_all add: comma_def)
  then show ?case using Cons ends_prim_comma scal_node_ok comma_skipped by simp
qed simp

lemma tree_ok:
  "val_ok v \<Longrightarrow> node_ok (val_node v)"
  "mems_ok ms \<Longrightarrow> items_ok (mems_items ms b) []"
  "objs_ok os \<Longrightarrow> items_ok (objs_items os b) []"
proof (induction v and ms and os arbitrary: and b and b)
  case (MCons name v ms)
  have "items_text (mems_items ms False) = [] \<or> hd (items_text (mems_items ms False)) = CHR '',''" by (cases ms) (simp_all add: comma_def)
  then show ?case using MCons ends_prim_comma comma_skipped by (simp add: skipped_def) (simp add: ends_prim_def)
next
  case (OCons ms os)
  then show ?case using comma_skipped by (simp add: ends_prim_def)
qed (use scal_node_ok scal_items_ok in simp_all)

lemma mems_paired: "paired (mems_items ms b)" "even (children (mems_items ms b))"
  by (induction ms arbitrary: b rule: gmems.induct [where ?P1.0 = "\<lambda>_. True" and ?P3.0 = "\<lambda>_. True"]) simp_all

text \<open>The first value with a name.\<close>

primrec value_of :: "string \<Rightarrow> gmems \<Rightarrow> gval option" where
  "value_of key MNil = None"
| "value_of key (MCons name v ms) = (if name = key then Some v else value_of key ms)"

lemma value_of_member: "obj_member key (mems_items ms b) = map_option val_node (value_of key ms)"
  by (induction ms arbitrary: b rule: gmems.induct [where ?P1.0 = "\<lambda>_. True" and ?P3.0 = "\<lambda>_. True"]) simp_all

lemma value_of_ok: "mems_ok ms \<Longrightarrow> value_of key ms = Some v \<Longrightarrow> nul_free key \<and> val_ok v"
  by (induction ms rule: gmems.induct [where ?P1.0 = "\<lambda>_. True" and ?P3.0 = "\<lambda>_. True"])
    (use string_ok_nul_free in \<open>auto split: if_splits\<close>)


subsection \<open>When it does not fit\<close>

text \<open>
  A member that does not fit is cut off, but the call succeeds: the loss shows at the next call.
\<close>

lemma string_cut:
  assumes "begun s" "length s + 1 < n" "n < 2 ^ 31" "nul_free name" "nul_free v"
    and "n \<le> length (s @ comma (open_brace s) @ quoted name @ '':'' @ quoted v)"
  shows "json_set_object_value (written n s) name (Some (v @ [NUL])) 0 JSON_VAL_STR =
      Some (WM_SUCCESS, written n (take (n - 1) (s @ comma (open_brace s) @ quoted name @ '':'' @ quoted v)))"
    and "json_close_object (written n (take (n - 1) (s @ comma (open_brace s) @ quoted name @ '':'' @ quoted v))) =
      Some (Negated WM_E_JSON_OBUF, written n (take (n - 1) (s @ comma (open_brace s) @ quoted name @ '':'' @ quoted v)))"
proof -
  let ?s = "s @ comma (open_brace s)" and ?t = "quoted name @ '':'' @ quoted v"
  let ?u = "take (n - 1 - length ?s) ?t"
  have l: "length ?s < n" using assms(2) by (simp add: comma_def)
  have cut: "take (n - 1) (s @ comma (open_brace s) @ ?t) = ?s @ ?u" using l by simp
  have c: "comma_if (\<lambda>c. c \<noteq> CHR ''{'') (written n s) = Some (written n ?s)"
    using comma_written [OF assms(2)] begunD [OF assms(1)] by (auto simp: comma_def)
  have m: "nat ((int n - int (length ?s)) mod 2 ^ 32) = n - length ?s" using l assms(3) by (simp add: nat_diff_distrib)
  have "print_at ?t (written n ?s) = print_at ?u (written n ?s)"
    unfolding print_at_def written_def json_str_t.simps m Let_def by (simp add: min_def)
  moreover have "nul_free ?u" using assms(4,5) by (auto dest!: in_set_takeD)
  then have "(do { j \<leftarrow> print_at ?u (written n ?s); to_end j }) = Some (written n (?s @ ?u))"
    by (intro print_written) (use l assms(1,3) begunD in \<open>auto simp: comma_def\<close>)
  ultimately have "(do { j \<leftarrow> print_at ?t (written n ?s); to_end j }) = Some (written n (?s @ ?u))" by simp
  moreover have "cstr (v @ [NUL]) = Some v" using cstr_append_NUL [of v "[]"] assms(5) by simp
  ultimately show "json_set_object_value (written n s) name (Some (v @ [NUL])) 0 JSON_VAL_STR =
      Some (WM_SUCCESS, written n (take (n - 1) (s @ comma (open_brace s) @ ?t)))"
    unfolding cut using started [OF assms(1)] limited_written [OF assms(2)] c
    by (simp add: json_set_object_value_def bind_eq_Some_conv)
  have "length (take (n - 1) (s @ comma (open_brace s) @ ?t)) = n - 1" using assms(6) by simp
  then show "json_close_object (written n (take (n - 1) (s @ comma (open_brace s) @ ?t))) =
      Some (Negated WM_E_JSON_OBUF, written n (take (n - 1) (s @ comma (open_brace s) @ ?t)))"
    using l by (simp add: json_close_object_def limited_def verify_buffer_limit_def written_def)
qed

text \<open>
  A value before the first brace, or an array at the start, reads outside the buffer: blanks are skipped
  with the zeros among them, and the byte before the first is looked at.
\<close>

lemma value_too_early:
  "json_set_object_value (written n []) name str value data = None"
  "json_set_array_value (written n []) str v data = None"
  "1 < n \<Longrightarrow> json_start_array (written n []) = None"
proof -
  have "skip_blanks (replicate k NUL) = None" for k by (induction k) (simp_all add: blank_byte_def)
  then have "verify_json_start (js_buff (written n [])) = None" by (simp add: verify_json_start_def written_def)
  then show "json_set_object_value (written n []) name str value data = None"
    "json_set_array_value (written n []) str v data = None"
    by (simp_all add: json_set_object_value_def json_set_array_value_def)
  have "last_byte (written n []) = None" by (simp add: last_byte_def written_def)
  then show "1 < n \<Longrightarrow> json_start_array (written n []) = None"
    by (simp add: json_start_array_def limited_written comma_if_def)
qed

subsection \<open>Read back\<close>

text \<open>Reading a scalar back under its name.\<close>

definition reads_back :: "json_parser_t \<Rightarrow> string \<Rightarrow> scalar \<Rightarrow> bool" where
  "reads_back jobj key x \<longleftrightarrow>
     (case x of
        SStr s \<Rightarrow> \<forall>buf n. int (length s) < n \<longrightarrow> length s < length buf \<longrightarrow>
          json_get_val_str jobj key buf n = Some (Inr (s @ NUL # drop (Suc (length s)) buf))
      | SInt i \<Rightarrow> json_get_val_int jobj key = Some (Inr i)
      | SBool b \<Rightarrow> json_get_val_bool jobj key = Some (Inr b))"

lemma scalar_read_back:
  assumes "stands_at jobj (document ms)" "mems_ok ms" "value_of key ms = Some (Scal x)"
  shows "reads_back jobj key x"
proof -
  have k: "nul_free key" "scal_ok x" using value_of_ok [OF assms(2,3)] by simp_all
  have "obj_member key (mems_items ms True) = Some (scal_node x)" using assms(3) by (simp add: value_of_member)
  from object_reads [OF assms(1) mems_paired(1) k(1) this] show ?thesis
    using k(2) by (cases x) (auto simp: reads_def reads_back_def truth_def)
qed

text \<open>C40: Generator and parser agree on an object whose names and strings need no escape (the generator writes
  none), whose numbers have 32 bits, whose members are strings, numbers, flags, objects, arrays of scalars or
  arrays of objects, and of which no object or array has 256 children. When its text is shorter than the
  buffer, of less than 2 GB, and at most 32767 characters, the calls that write it all succeed and leave the
  text, with zeros behind it, in the buffer. With room for its tokens, fewer than 32767, json_init takes
  that text and stands at the object, and every string, number and flag that is a member of the object
  itself, the first of its name, is read back under its name.\<close>

theorem json_written_and_read:
  assumes "mems_ok ms" "small (document ms)" "length (text_of (document ms)) < length buff" "length buff < 2 ^ 31"
    and "length (text_of (document ms)) \<le> 32767"
    and "ntoks (document ms) < 32767" "ntoks (document ms) \<le> length T" "length T < 2 ^ 32"
  shows "\<exists>jptr jobj. write_document ms buff = Some (WM_SUCCESS, jptr) \<and>
      js_buff jptr = text_of (document ms) @ replicate (length buff - length (text_of (document ms))) NUL \<and>
      js_free jptr = int (length (text_of (document ms))) \<and>
      json_init T (int (length T)) (js_buff jptr) (js_free jptr) = Some (None, jobj) \<and>
      stands_at jobj (document ms) \<and>
      (\<forall>key x. value_of key ms = Some (Scal x) \<longrightarrow> reads_back jobj key x)"
proof -
  let ?n = "document ms" and ?jptr = "written (length buff) (text_of (document ms))"
  let ?z = "replicate (length buff - length (text_of (document ms))) NUL"
  have node: "node_ok ?n" using tree_ok(2) [OF assms(1)] by simp
  obtain jobj where j: "json_init T (int (length T)) ([] @ text_of ?n @ [] @ ?z) (int (length ([] @ text_of ?n @ []))) = Some (None, jobj)"
    "jtokens jobj = toks ?n (length ([] :: string)) 0 (-1) @ drop (ntoks ?n) T" "jtext jobj = Some ([] @ text_of ?n @ [] @ ?z)"
    "jcur jobj = Some 0" "jnum_tokens jobj = int (ntoks ?n)"
    by (rule json_init_tree [OF node _ _ refl, of "[]" "[]" "length T" T]) (use assms mems_paired(2) in auto)
  have "stands_at jobj ?n"
    by (rule json_init_stands [OF node assms(2) _ j(2,3,4) assms(6)]) (use assms(5) in simp)
  then show ?thesis
    using document_written [OF assms(1,3,4)] j(1) scalar_read_back [OF _ assms(1)]
    by (intro exI [where x = ?jptr] exI [where x = jobj]) (simp add: written_def)
qed

definition sample_document :: gmems where
  "sample_document = MCons ''on'' (Scal (SBool True)) (MCons ''w'' (GScals [SInt (-5), SStr ''x''])
     (MCons ''l'' (GObjs (OCons (MCons ''n'' (Scal (SInt 7)) MNil) (OCons MNil ONil))) MNil))"

lemma sample_document_ok:
  "mems_ok sample_document" "small (document sample_document)" "ntoks (document sample_document) = 13"
  "value_of ''on'' sample_document = Some (Scal (SBool True))"
  by (simp_all add: sample_document_def comma_def truth_def)

lemma sample_document_text:
  "text_of (document sample_document) =
    ''{'' @ quoted ''on'' @ '':true,'' @ quoted ''w'' @ '':[-5,'' @ quoted ''x'' @ ''],'' @ quoted ''l'' @ '':[{'' @ quoted ''n'' @ '':7},{}]}''"
proof -
  have d: "dec_int (-5) = ''-5''" "dec_int 7 = ''7''" by code_simp+
  show ?thesis by (simp add: sample_document_def comma_def truth_def d)
qed

lemma json_written_and_read_witness:
  "\<exists>jptr jobj. write_document sample_document (replicate 64 NUL) = Some (WM_SUCCESS, jptr) \<and>
     json_init (replicate 16 blank_token) 16 (js_buff jptr) (js_free jptr) = Some (None, jobj) \<and>
     json_get_val_bool jobj ''on'' = Some (Inr True)"
proof -
  have l: "length (text_of (document sample_document)) = 41" unfolding sample_document_text by simp
  obtain jptr jobj where j: "write_document sample_document (replicate 64 NUL) = Some (WM_SUCCESS, jptr)"
    "json_init (replicate 16 blank_token) (int (length (replicate 16 blank_token))) (js_buff jptr) (js_free jptr) = Some (None, jobj)"
    "\<forall>key x. value_of key sample_document = Some (Scal x) \<longrightarrow> reads_back jobj key x"
    using json_written_and_read [of sample_document "replicate 64 NUL" "replicate 16 blank_token"] sample_document_ok l
    by auto
  then have "reads_back jobj ''on'' (SBool True)" using sample_document_ok(4) by blast
  then show ?thesis using j(1,2) by (auto simp: reads_back_def)
qed

end
