(* ===== verification/Spec2Isabelle.thy ===== *)
theory Spec2Isabelle
  imports AppMain MqttPacket Hmac Base64 HfService JsonGen
begin

text \<open>
  Verification of the TC1 A2 smart power strip firmware.

  The firmware runs on an HF-LPT230 Wi-Fi module: six relays, one LED, one button and a BL0937 power
  meter, controlled at the button and, over MQTT, by Home Assistant. Its own code is
  \<open>src/src/app_main.c\<close> and \<open>src/src/components\<close>; beside it lie the SDK (headers only) and the
  libraries under \<open>src/thirdpartylib\<close>, of which those with algorithms of their own are modelled
  too. Paths below are relative to \<open>src/\<close>, and to \<open>src/src/\<close> for the firmware's own files.

  \<^bold>\<open>How the parts work together.\<close> At power-on \<open>app_main\<close> configures the pins, the AT commands and the
  serial line and calls \<open>user_init\<close>. That one creates the LED, the relays, the button and the power
  meter, and, when a configuration is in the flash, the MQTT client with its Home Assistant
  components. The client's thread connects to Wi-Fi and broker; its callbacks subscribe to the command
  topics, announce the components by a JSON message each, and publish the states of the relays when a
  flag says they have changed. A command that arrives, or a short press of the button, switches relays and
  raises that flag; the LED shows whether a relay is on.

  \<^bold>\<open>Conventions\<close> (theories Prelude, CStrings, Machine). A function that may run into undefined
  behaviour of C - a null or dangling pointer, an access outside an object, a string without its
  end - has a result in \<open>option\<close>, and \<open>None\<close> is that behaviour; a function that changes the
  firmware's state returns the new state as well. Error codes are values. \<open>wp m P\<close> says that \<open>m\<close> returns
  and the result has \<open>P\<close>. The state \<open>fw\<close> is a record: the globals of the firmware under their names,
  a heap of typed objects with dangling and null pointers, the environment \<open>sys\<close>, and the list of the
  calls made to it. The SDK is not part of the repository: a call to it is a value of \<open>call\<close>, and what it
  returns is an arbitrary function of that call and of all calls before. So a statement without a hypothesis on
  \<open>sys\<close> holds for whatever the hardware does; where a property needs memory, working pins, a working
  flash or a broker that accepts, that is a named hypothesis (\<open>malloc_ok\<close>, \<open>gpio_ok\<close>,
  \<open>flash_ok\<close>, \<open>sub_ok\<close>, \<open>net_ok\<close>), and its witness has a concrete environment. Integers have their
  width (\<open>u8\<close>, \<open>u16\<close>, \<open>u32\<close>, words) where C computes with them; numbers that only count
  elements of lists are natural. The target is a 32 bit little-endian ARM with unsigned \<open>char\<close>.

  \<^bold>\<open>Devices\<close> (\<open>components/device\<close>).
  \<^item> Gpio: \<open>gpio.c\<close>, and the level the calls have left on each pin.
  \<^item> Actuator, Led, Relay: \<open>led.c\<close> and \<open>relay.c\<close>. The contract they share is the locale \<open>switchable\<close>
    (setting a status drives the pin to it, reading it gives it back, other devices keep theirs), interpreted
    on both.
  \<^item> PowerMeter: \<open>power_meter.c\<close>. A pulse and a timer tick are steps; an abstract meter (idle, one pulse
    seen, or running with a period) is what it promises, through the locale \<open>simulation\<close>. Floats: IEEE
    binary32 and binary64 arithmetic, with the bound on the printed power.
  \<^item> HassComponent, HassDiscovery: \<open>hass_component.c\<close>, \<open>hass_device.c\<close> and
    \<open>hass_mqtt_discovery.c\<close>, the strings and topics of Home Assistant and the message that announces a
    component.
  \<^item> Mqtt: \<open>mqtt.c\<close>, the thread as a step function over its places (\<open>thread_pc\<close>). What it asks of
    the code it calls back is the locale \<open>status_client\<close>.

  \<^bold>\<open>The strip\<close> (\<open>components/user\<close>, \<open>app_main.c\<close>).
  \<^item> UserLed, UserRelay: \<open>user_led.c\<close>, \<open>user_relay.c\<close>. \<open>board_inv\<close> says that six relays and the
    LED are distinct live objects on their pins, each in step with its pin; every operation keeps it.
  \<^item> UserKey: \<open>user_key.c\<close>. An abstract button over press and release at times is refined for every
    sequence of presses.
  \<^item> UserMqtt: \<open>user_mqtt.c\<close>; MqttRun: thread, commands and button interleaved. \<open>link_ok n\<close> says that the
    MQTT objects are well-formed and the first \<open>n\<close> components have been announced. The callbacks interpret
    \<open>status_client\<close>, so that no run reaches undefined behaviour while commands fit, and on a network that lets
    the strip in a lost session is found again in four steps of the thread.
  \<^item> UserInit: \<open>user_init.c\<close>, \<open>user_power_meter.c\<close>: power-on, and the configuration that the AT command
    writes to the flash, as the image of its bytes.
  \<^item> AppMain: \<open>app_main.c\<close>: pin table, AT commands, stored parameters with checksum, events, main function.

  \<^bold>\<open>Libraries\<close> (\<open>thirdpartylib\<close>).
  \<^item> CJson, CJsonPrint, CJsonParse, CJsonRound: \<open>JingDong/json/cJSON.c\<close>, the library of the discovery
    messages. Trees are datatypes; the printer computes the sizes of the blocks it fills, the parser runs over the bytes
    with the memory behind them. Shown: the printer stays inside its blocks, parsing reads back what was printed,
    every parse ends, minifying, and the heap overflow in a bad escape.
  \<^item> Jsmn, JsonText, JsonWrap, JsonLookup, JsonGen: \<open>JingDong/jsmn\<close>, a second JSON library: \<open>jsmn.c\<close>
    makes tokens with 16 bit positions and 8 bit numbers of children, \<open>json_wrappers.c\<close> finds
    members and elements in them, \<open>json_generator.c\<close> writes a text call by call. JsonText holds trees with
    their layout (\<open>node\<close>) and the tokens they have; the tokenizer yields these tokens, the lookups the
    members and elements of the tree, and what the generator writes is read back.
  \<^item> MqttPacket: \<open>Linkkit/src/protocol/mqtt/MQTTPacket\<close>, all packets to bytes and back; the two sources of
    the decoder share the locale \<open>byte_source\<close>. The flags of CONNECT are stated apart from the code, as the
    set of bits that a request of the protocol demands.
  \<^item> HashConstants, Digest, Sha256, MdDigest, Sha1, Md5, Hmac, Base64: \<open>Linkkit/src/infra/utils/digest\<close>.
    HashConstants holds the constants of the standards as they define them - roots of the first primes, sines of the
    first integers - and bytes read as numbers in both orders; the standards' side of every theorem takes its
    constants from there, and the tables of the code are proved equal to them. A copy into the 64 bytes of a context
    that would leave them is undefined (\<open>overwrite\<close>). Each digest in pieces is the digest of the standard on the
    whole message (locale \<open>streaming_hash\<close>, and \<open>md_digest\<close> for what SHA-1 and MD5 share); HMAC over them,
    with hexadecimal digits by their value; base64, against its alphabet by ranges, and its inverse.
  \<^item> HfProtocol, HfUart, HfService: \<open>HFService\<close>, frames between an appliance's serial line and the cloud; an
    invariant of its blocks over all that can happen, under which calls then return exactly when they should, and
    what reports and commands become.

  \<^bold>\<open>What the properties say.\<close> The first ones are the promises of the strip: button and power meter refine their
  specifications, switching a relay changes that relay, its pin, the update flag and nothing else, the LED shows the
  relays, boot, saved configuration, announcement, commands and heartbeat do what they are for, no
  interleaving fails, and a lost session comes back. The others are round trips and equivalences with a standard for the
  libraries, bounds of buffers and numbers, and the failures the code really has: each is a theorem that exhibits
  the undefined behaviour or the wrong result under a condition that can occur. Findings without a theorem of
  their own are in the manifest.

  \<^bold>\<open>Bounds and fuel.\<close> The parser of cJSON recurses with a limit of two levels for each byte of the text
  and one more, which is shown to be enough for every text. The waiting loops of \<open>app_main\<close> are bounded by a number of
  rounds; the property about it holds for every such number. \<open>close_search\<close> of the tokenizer follows
  links that could be cyclic and is a partial function, where not returning is \<open>None\<close>; the tokens of a tree are
  shown to make it return. All other loops are total by a measure.

  \<^bold>\<open>Assumptions.\<close> The heap objects of cJSON are never out of memory; the \<open>pow\<close> of its number parser is correctly
  rounded; lengths computed by \<open>strlen\<close> are natural numbers, and so are the lengths that the printer of cJSON and the
  MQTT packets hold in an \<open>int\<close> (the same below 2 GB); the processor loads words at any address, which SHA-256
  relies on; the SDK's flash behaves as flash does where a
  property says so. Interrupts come between steps of the thread, not within one.

  \<^bold>\<open>Not modelled.\<close> In \<open>cJSON.c\<close>, \<open>cJSON_InitHooks\<close> and \<open>cJSON_GetErrorPtr\<close> (they only set and return
  a global). The SDK, lwIP, CMSIS, Cyassl, web sockets and the Paho client: headers, without
  bodies. The Linkkit services, its device model, connection manager, MQTT client and log: threads, sockets and
  timers of a cloud the strip does not use; likewise Alink. The JingDong cloud client with its cryptography. Of HFService
  the two threads are modelled by one round of their loops; the acknowledgement and the local MCU are switched off in
  its configuration.
\<close>

end
